(* ===== verification/Prelude.thy ===== *)
theory Prelude
  imports Main "HOL-Library.Word" "HOL-Library.Monad_Syntax"
begin

text \<open>
  Shared vocabulary of the development.

  \<^item> The machine integers of the C++ sources are words of their width.
  \<^item> A computation of the program is a value of type \<open>'a option\<close>, written in the do-notation of
    \<open>HOL-Library.Monad_Syntax\<close>: \<open>None\<close> means that the execution has undefined behaviour (a null
    pointer or an end iterator is dereferenced, an access leaves its object), fails an assertion,
    or, for the few loops defined by \<^theory_text>\<open>partial_function\<close>, never returns. Error codes that the
    program itself returns are ordinary values, never \<open>None\<close>.
  \<^item> Array accesses are range checked (\<open>nth_opt\<close>, \<open>upd_opt\<close>), and so are the block copies
    \<open>memcpy\<close> and \<open>memset\<close> of the C library (\<open>bytes_get\<close>, \<open>bytes_put\<close>).
\<close>

unbundle bit_operations_syntax

type_synonym u8 = "8 word"
type_synonym u16 = "16 word"
type_synonym u32 = "32 word"
type_synonym u64 = "64 word"

text \<open>Addresses of heap objects; the null pointer is address 0, where no object ever lives.\<close>

type_synonym addr = nat

abbreviation (input) nullptr :: addr where
  "nullptr \<equiv> 0"

named_theorems ring_simps \<open>abstract behaviour of the ring queue\<close>
named_theorems pool_simps \<open>abstract behaviour of the memory pools\<close>
named_theorems store_simps \<open>frame facts of the packet store\<close>

subsection \<open>Range-checked access\<close>

definition nth_opt :: "'a list \<Rightarrow> nat \<Rightarrow> 'a option" where
  "nth_opt xs i = (if i < length xs then Some (xs ! i) else None)"

definition upd_opt :: "'a list \<Rightarrow> nat \<Rightarrow> 'a \<Rightarrow> 'a list option" where
  "upd_opt xs i x = (if i < length xs then Some (xs[i := x]) else None)"

text \<open>An assertion of the program: the execution stops when it does not hold.\<close>

definition check :: "bool \<Rightarrow> unit option" where
  "check p = (if p then Some () else None)"

text \<open>\<open>memcpy\<close> out of and into an array, range checked.\<close>

definition bytes_get :: "'a list \<Rightarrow> nat \<Rightarrow> nat \<Rightarrow> 'a list option" where
  "bytes_get xs off n = (if off + n \<le> length xs then Some (take n (drop off xs)) else None)"

definition bytes_put :: "'a list \<Rightarrow> nat \<Rightarrow> 'a list \<Rightarrow> 'a list option" where
  "bytes_put xs off ys =
     (if off + length ys \<le> length xs
      then Some (take off xs @ ys @ drop (off + length ys) xs) else None)"

lemma nth_opt_Some [simp]: "nth_opt xs i = Some x \<longleftrightarrow> i < length xs \<and> xs ! i = x"
  by (auto simp: nth_opt_def)

lemma nth_opt_middle [simp]: "nth_opt (xs @ x # ys) (length xs) = Some x"
  by simp

lemma upd_opt_Some [simp]: "upd_opt xs i x = Some ys \<longleftrightarrow> i < length xs \<and> ys = xs[i := x]"
  by (auto simp: upd_opt_def)

lemma check_Some [simp]: "check p = Some u \<longleftrightarrow> p"
  by (simp add: check_def)

lemma check_bind [simp]: "check p \<bind> f = (if p then f () else None)"
  by (simp add: check_def)

lemma bytes_get_Some:
  "bytes_get xs off n = Some ys \<longleftrightarrow> off + n \<le> length xs \<and> ys = take n (drop off xs)"
  by (auto simp: bytes_get_def)

lemma length_bytes_get: "bytes_get xs off n = Some ys \<Longrightarrow> length ys = n"
  by (auto simp: bytes_get_def split: if_splits)

lemma length_bytes_put: "bytes_put xs off ys = Some zs \<Longrightarrow> length zs = length xs"
  by (auto simp: bytes_put_def split: if_splits)

lemma bytes_get_put:
  "bytes_put xs off ys = Some zs \<Longrightarrow> bytes_get zs off (length ys) = Some ys"
  by (auto simp: bytes_put_def bytes_get_def split: if_splits)

subsection \<open>Words as naturals\<close>

lemma unat_and_pow2:
  "unat (w AND (2 ^ k - 1)) = unat w mod 2 ^ k" for w :: "'a::len word"
proof -
  have "w AND (2 ^ k - 1) = take_bit k w"
    by (simp add: take_bit_eq_mask mask_eq_exp_minus_1)
  then have "unat (w AND (2 ^ k - 1)) = unat (take_bit k w)"
    by (rule arg_cong)
  also have "\<dots> = take_bit k (unat w)"
    by (rule unsigned_take_bit_eq)
  also have "\<dots> = unat w mod 2 ^ k"
    by (rule take_bit_eq_mod)
  finally show ?thesis .
qed

lemma unat_pow2: "k < LENGTH('a) \<Longrightarrow> unat (2 ^ k :: 'a::len word) = 2 ^ k"
proof -
  assume "k < LENGTH('a)"
  then have "(2::nat) ^ k < 2 ^ LENGTH('a)" by (rule power_strict_increasing) simp
  then have "unat (of_nat (2 ^ k) :: 'a word) = 2 ^ k" by (simp only: unat_of_nat mod_less)
  then show ?thesis by simp
qed

lemma word_eq_pow2: "unat w = 2 ^ k \<Longrightarrow> w = 2 ^ k" for w :: "'a::len word"
proof -
  assume k: "unat w = 2 ^ k"
  have "w = of_nat (unat w)" by simp
  also have "\<dots> = 2 ^ k" by (simp only: k of_nat_power of_nat_numeral)
  finally show ?thesis .
qed

lemma unat_sub_le: "b \<le> a \<Longrightarrow> unat (a - b) = unat a - unat b" for a b :: "'a::len word"
  by (simp add: unat_sub)

lemma unat_add_no_wrap:
  "unat a + unat b < 2 ^ LENGTH('a) \<Longrightarrow> unat (a + b) = unat a + unat b" for a b :: "'a::len word"
  by (simp add: unat_word_ariths)

lemma unat_min: "unat (min a b) = min (unat a) (unat b)" for a b :: "'a::len word"
  by (simp add: min_def word_le_nat_alt)

lemma sint_small:
  assumes "unat (w :: u32) < 2 ^ 31"
  shows "sint w = int (unat w)"
proof -
  have "int (unat w) < int (2 ^ 31)" using assms by (simp only: of_nat_less_iff)
  then have "uint w < 2 ^ 31" by simp
  moreover have "0 \<le> uint w" by simp
  ultimately have "signed_take_bit 31 (uint w) = uint w"
    by (intro signed_take_bit_int_eq_self) linarith+
  then show ?thesis by (simp add: sint_uint)
qed

lemma unat_u32_less: "unat (w :: u32) < 2 ^ 32"
  using unsigned_less [of w] by simp

lemma unat_add_of_nat: "unat (w + of_nat j :: u32) = (unat w + j) mod 2 ^ 32"
  by (simp add: unat_word_ariths unat_of_nat mod_simps)

lemma mod_pow2_mod_u32: "k \<le> 32 \<Longrightarrow> x mod 2 ^ 32 mod 2 ^ k = x mod 2 ^ k" for x :: nat
  by (intro mod_mod_cancel le_imp_power_dvd)

lemma mod_pow2_add_word:
  "k \<le> 32 \<Longrightarrow> unat (w + of_nat j :: u32) mod 2 ^ k = (unat w + j) mod 2 ^ k"
  by (simp only: unat_add_of_nat mod_pow2_mod_u32)

subsection \<open>Lists\<close>

lemma map_upt_shift: "map f [Suc m ..< Suc n] = map (\<lambda>i. f (Suc i)) [m ..< n]"
  by (simp only: map_Suc_upt [symmetric] map_map comp_def)

lemma take_drop_split: "i \<le> length xs \<Longrightarrow> take i xs @ drop i xs = xs"
  by simp

text \<open>Overwriting a part of a window of an array.\<close>

lemma take_drop_put:
  assumes "d + n \<le> length xs" "k + length ys \<le> n"
  shows "take n (drop d (take (d + k) xs @ ys @ drop (d + k + length ys) xs))
    = take k (take n (drop d xs)) @ ys @ drop (k + length ys) (take n (drop d xs))"
proof -
  have "drop d (take (d + k) xs @ ys @ drop (d + k + length ys) xs)
      = take k (drop d xs) @ ys @ drop (d + k + length ys) xs"
    using assms by (simp add: drop_take)
  moreover have "take k (take n (drop d xs)) = take k (drop d xs)" using assms(2) by simp
  moreover have "drop (k + length ys) (take n (drop d xs))
      = take (n - (k + length ys)) (drop (d + k + length ys) xs)"
    by (simp add: drop_take add.commute add.left_commute)
  moreover have "length (take k (drop d xs)) = k" using assms by simp
  ultimately show ?thesis using assms(2) by (simp add: add.commute)
qed

text \<open>Two overwrites side by side are one.\<close>

lemma put_put_adjacent:
  assumes "i + length ys \<le> length xs"
  shows "take (i + length ys) (take i xs @ ys @ drop (i + length ys) xs) @ zs
      @ drop (i + length ys + m) (take i xs @ ys @ drop (i + length ys) xs)
    = take i xs @ (ys @ zs) @ drop (i + length ys + m) xs"
proof -
  have "length (take i xs) = i" using assms by simp
  then show ?thesis by (simp add: add.commute add.left_commute)
qed

end
