(* ===== verification/RingQueue.thy ===== *)
theory RingQueue
  imports Prelude
begin

text \<open>
  The lock-free ring queue of \<open>src/lock_free_ring_queue.h\<close>, as one thread sees it: a push or a pop
  runs without another thread's step in between, so every compare-and-exchange of its first loop
  succeeds. \<open>RingQueueConc\<close> holds the interleaved model of the same code.

  The queue is a record of the class's members. \<open>rq_list\<close> is the abstract sequence of the stored
  elements, \<open>rq_inv\<close> the class invariant between two calls; the locale \<open>bounded_fifo\<close> is the
  contract the memory pools and the network interfaces rely on, and the ring queue interprets it.
\<close>

subsection \<open>The class\<close>

record 'a lfrq =
  rq_size :: u32
  rq_length :: u32
  rq_read_index :: u32
  rq_write_index :: u32
  rq_last_write_index :: u32
  rq_queue :: "'a list"

datatype rq_error = Out_of_range

definition is_power_of_two :: "u32 \<Rightarrow> bool" where
  "is_power_of_two num = (num \<noteq> 0 \<and> (num AND (num - 1)) = 0)"

definition ceil_power_of_two :: "u32 \<Rightarrow> u32" where
  "ceil_power_of_two num0 =
     (let num1 = num0 OR drop_bit 1 num0;
          num2 = num1 OR drop_bit 2 num1;
          num4 = num2 OR drop_bit 4 num2;
          num8 = num4 OR drop_bit 8 num4;
          num = num8 OR drop_bit 16 num8
      in num - drop_bit 1 num)"

definition round_uppower_of_two :: "u32 \<Rightarrow> u32" where
  "round_uppower_of_two num = ceil_power_of_two (push_bit 1 (num - 1))"

definition index_of_queue :: "'a lfrq \<Rightarrow> u32 \<Rightarrow> u32" where
  "index_of_queue q index = index AND (rq_size q - 1)"

text \<open>The initial value of \<open>m_size\<close>, and the constructor; \<open>z\<close> is the value-initialised element.\<close>

definition rq_round_size :: "u32 \<Rightarrow> u32" where
  "rq_round_size sz =
     (if sz \<le> 1 then 2 else if is_power_of_two sz then sz else round_uppower_of_two sz)"

definition rq_new :: "'a \<Rightarrow> u32 \<Rightarrow> rq_error + 'a lfrq" where
  "rq_new z sz =
     (let q = \<lparr>rq_size = rq_round_size sz, rq_length = 0, rq_read_index = 0, rq_write_index = 0,
               rq_last_write_index = 0, rq_queue = replicate (unat (rq_round_size sz)) z\<rparr>
      in if sz = 0 then Inl Out_of_range else Inr q)"

text \<open>
  \<open>compare_exchange\<close> of a \<open>std::atomic\<close>: success, the new value of the object, and the new value of
  the caller's \<open>expected\<close>, which a failure overwrites with the value found.
\<close>

definition compare_exchange :: "u32 \<Rightarrow> u32 \<Rightarrow> u32 \<Rightarrow> bool \<times> u32 \<times> u32" where
  "compare_exchange obj expected desired =
     (if obj = expected then (True, desired, expected) else (False, obj, obj))"

text \<open>The loop that confirms a write: \<open>m_last_write_index\<close> after it.\<close>

function confirm_write :: "u32 \<Rightarrow> u32 \<Rightarrow> u32" where
  "confirm_write lwi current_write_index =
     (case compare_exchange lwi current_write_index (current_write_index + 1) of
        (ok, lwi', current') \<Rightarrow> if ok then lwi' else confirm_write lwi' current')"
  by pat_completeness auto
termination
  by (relation "measure (\<lambda>(lwi, cur). if lwi = cur then 0 else 1)")
     (auto simp: compare_exchange_def split: if_splits)

definition push :: "'a lfrq \<Rightarrow> 'a \<Rightarrow> (bool \<times> 'a lfrq) option" where
  "push q data =
     (let current_read_index = rq_read_index q;
          current_write_index = rq_write_index q
      in if index_of_queue q (current_write_index + 1) = index_of_queue q current_read_index
         then Some (False, q)
         else do {
           let q1 = q\<lparr>rq_write_index := current_write_index + 1\<rparr>;
           slots \<leftarrow> upd_opt (rq_queue q1) (unat (index_of_queue q1 current_write_index)) data;
           Some (True, q1\<lparr>rq_queue := slots,
             rq_last_write_index := confirm_write (rq_last_write_index q1) current_write_index,
             rq_length := rq_length q1 + 1\<rparr>)
         })"

definition pop :: "'a lfrq \<Rightarrow> ('a option \<times> 'a lfrq) option" where
  "pop q =
     (let current_read_index = rq_read_index q;
          current_last_write_index = rq_last_write_index q
      in if index_of_queue q current_last_write_index = index_of_queue q current_read_index
         then Some (None, q)
         else do {
           data \<leftarrow> nth_opt (rq_queue q) (unat (index_of_queue q current_read_index));
           Some (Some data, q\<lparr>rq_read_index := current_read_index + 1,
                              rq_length := rq_length q - 1\<rparr>)
         })"

definition is_empty :: "'a lfrq \<Rightarrow> bool" where
  "is_empty q = (rq_length q = 0)"

definition is_full :: "'a lfrq \<Rightarrow> bool" where
  "is_full q = (index_of_queue q (rq_write_index q + 1) = rq_read_index q)"

declare confirm_write.simps [simp del]

subsection \<open>Rounding up to a power of two\<close>

lemma is_power_of_two_nat:
  "(n::nat) AND (n - 1) = 0 \<Longrightarrow> 0 < n \<Longrightarrow> \<exists>k. n = 2 ^ k"
proof (induction n rule: less_induct)
  case (less n)
  show ?case
  proof (cases "even n")
    case True
    then obtain m where m: "n = 2 * m" by blast
    with less.prems have "0 < m" by simp
    then obtain l where l: "m = Suc l" by (cases m) auto
    have "n - 1 = 2 * l + 1" using m l by simp
    then have "n AND (n - 1) = 2 * (m AND l)"
      by (subst and_rec) (simp add: m)
    with less.prems have "m AND (m - 1) = 0" using l by simp
    with less.IH [of m] \<open>0 < m\<close> m obtain k where "m = 2 ^ k" by auto
    with m show ?thesis by (intro exI [of _ "Suc k"]) simp
  next
    case False
    then obtain m where m: "n = 2 * m + 1" by (blast elim: oddE)
    have "n AND (n - 1) = 2 * m"
      by (subst and_rec) (simp add: m)
    with less.prems m show ?thesis by (intro exI [of _ 0]) simp
  qed
qed

lemma is_power_of_two_iff: "is_power_of_two w \<longleftrightarrow> (\<exists>k < 32. unat w = 2 ^ k)"
proof
  assume p: "is_power_of_two w"
  then have w: "w \<noteq> 0" "w AND (w - 1) = 0" by (simp_all add: is_power_of_two_def)
  have "unat (w - 1) = unat w - 1" using w(1) by (simp add: unat_minus_one)
  with arg_cong [OF w(2), of unat] have "unat w AND (unat w - 1) = 0"
    by (simp add: unsigned_and_eq)
  moreover have "0 < unat w" using w(1) by (simp add: unat_gt_0)
  ultimately obtain k where k: "unat w = 2 ^ k" using is_power_of_two_nat by blast
  then have "(2::nat) ^ k < 2 ^ 32" using unat_u32_less [of w] by simp
  then have "k < 32" by (simp only: power_strict_increasing_iff)
  with k show "\<exists>k < 32. unat w = 2 ^ k" by blast
next
  assume "\<exists>k < 32. unat w = 2 ^ k"
  then obtain k where k: "k < 32" "unat w = 2 ^ k" by blast
  then have w: "w \<noteq> 0" by auto
  have "unat (w AND (w - 1)) = 0"
  proof -
    have "w = 2 ^ k" using k(2) by (rule word_eq_pow2)
    then have "w AND (w - 1) = 2 ^ k AND (2 ^ k - 1)" by simp
    also have "\<dots> = 0" by (rule bit_word_eqI)
      (auto simp: bit_simps simp flip: mask_eq_exp_minus_1)
    finally show ?thesis by simp
  qed
  with w show "is_power_of_two w" by (simp add: is_power_of_two_def unat_eq_zero)
qed

text \<open>
  The five shift-or steps copy the highest set bit into every lower position: after the steps with
  shifts 1, 2, 4, 8, 16 a bit is set when one of the 32 bits above it (itself included) was.
\<close>

lemma smear_step:
  assumes "\<And>i. bit m i \<longleftrightarrow> (\<exists>d < s. bit n (i + d))" and "t = s + s"
  shows "bit (m OR drop_bit s m) i \<longleftrightarrow> (\<exists>d < t. bit (n :: u32) (i + d))"
proof -
  have "bit (m OR drop_bit s m) i \<longleftrightarrow> (\<exists>d < s. bit n (i + d)) \<or> (\<exists>d < s. bit n (i + s + d))"
    by (simp add: bit_or_iff bit_drop_bit_eq assms(1) ac_simps)
  also have "\<dots> \<longleftrightarrow> (\<exists>d < s + s. bit n (i + d))"
  proof (intro iffI; elim disjE exE conjE)
    fix d assume d: "d < s + s" "bit n (i + d)"
    show "(\<exists>d < s. bit n (i + d)) \<or> (\<exists>d < s. bit n (i + s + d))"
    proof (cases "d < s")
      case False
      with d have "d - s < s \<and> bit n (i + s + (d - s))" by simp
      then show ?thesis by blast
    qed (use d in blast)
  next
    fix d assume "d < s" "bit n (i + s + d)"
    then show "\<exists>d < s + s. bit n (i + d)"
      by (intro exI [of _ "s + d"]) (simp add: add.assoc)
  next
    fix d assume "d < s" "bit n (i + d)"
    then show "\<exists>d < s + s. bit n (i + d)"
      by (intro exI [of _ d]) simp
  qed
  finally show ?thesis by (simp only: assms(2))
qed

lemma ceil_power_of_two_highest:
  assumes "bit n h" "\<And>i. h < i \<Longrightarrow> \<not> bit n i"
  shows "ceil_power_of_two n = 2 ^ h"
proof -
  let ?n1 = "n OR drop_bit 1 n" let ?n2 = "?n1 OR drop_bit 2 ?n1"
  let ?n4 = "?n2 OR drop_bit 4 ?n2" let ?n8 = "?n4 OR drop_bit 8 ?n4"
  let ?m = "?n8 OR drop_bit 16 ?n8"
  have 1: "bit n i \<longleftrightarrow> (\<exists>d < 1. bit n (i + d))" for i by simp
  have 2: "bit ?n1 i \<longleftrightarrow> (\<exists>d < 2. bit n (i + d))" for i by (rule smear_step [OF 1]) simp
  have 4: "bit ?n2 i \<longleftrightarrow> (\<exists>d < 4. bit n (i + d))" for i by (rule smear_step [OF 2]) simp
  have 8: "bit ?n4 i \<longleftrightarrow> (\<exists>d < 8. bit n (i + d))" for i by (rule smear_step [OF 4]) simp
  have 16: "bit ?n8 i \<longleftrightarrow> (\<exists>d < 16. bit n (i + d))" for i by (rule smear_step [OF 8]) simp
  have 32: "bit ?m i \<longleftrightarrow> (\<exists>d < 32. bit n (i + d))" for i by (rule smear_step [OF 16]) simp
  have h: "h < 32" using bit_imp_le_length [OF assms(1)] by simp
  have "?m = mask (Suc h)"
  proof (rule bit_word_eqI)
    fix i assume "i < LENGTH(32)"
    have "(\<exists>d < 32. bit n (i + d)) \<longleftrightarrow> i \<le> h"
    proof
      assume "\<exists>d < 32. bit n (i + d)"
      then obtain d where "bit n (i + d)" by blast
      then show "i \<le> h" using assms(2) [of "i + d"] by linarith
    next
      assume "i \<le> h"
      then show "\<exists>d < 32. bit n (i + d)" using assms(1) h
        by (intro exI [of _ "h - i"]) simp
    qed
    then show "bit ?m i \<longleftrightarrow> bit (mask (Suc h) :: u32) i"
      using h by (simp only: 32) (auto simp: bit_mask_iff)
  qed
  moreover have "drop_bit 1 (mask (Suc h) :: u32) = mask h"
    using h by (intro bit_word_eqI) (auto simp: bit_simps)
  moreover have "mask (Suc h) - mask h = (2 ^ h :: u32)"
    by (simp add: mask_eq_exp_minus_1)
  ultimately show ?thesis
    by (simp only: ceil_power_of_two_def Let_def)
qed

lemma highest_bit:
  assumes "2 ^ h \<le> unat (n :: u32)" "unat n < 2 ^ Suc h"
  shows "bit n h" "h < i \<Longrightarrow> \<not> bit n i"
proof -
  have b: "bit n j \<longleftrightarrow> odd (unat n div 2 ^ j)" for j
    by (simp add: bit_unsigned_iff flip: bit_iff_odd)
  have "unat n div 2 ^ h = 1"
    using assms by (intro div_nat_eqI) simp_all
  then show "bit n h" by (simp add: b)
  assume "h < i"
  then have "(2::nat) ^ Suc h \<le> 2 ^ i" by (intro power_increasing) simp_all
  with assms(2) have "unat n div 2 ^ i = 0" by simp
  then show "\<not> bit n i" by (simp add: b)
qed

text \<open>The size a queue gets: a power of two, at least the requested size and less than twice it.\<close>

lemma round_uppower_of_two:
  assumes "2 \<le> unat sz" "unat sz \<le> 2 ^ 31"
  shows "is_power_of_two (round_uppower_of_two sz)"
    and "unat sz \<le> unat (round_uppower_of_two sz)"
    and "unat (round_uppower_of_two sz) < 2 * unat sz"
proof -
  let ?n = "push_bit 1 (sz - 1)"
  have "unat (sz - 1) = unat sz - 1"
    using assms(1) by (intro unat_minus_one) auto
  moreover have "unat ?n = (unat (sz - 1) * 2) mod 2 ^ 32"
  proof -
    have "?n = (sz - 1) * 2" by (simp add: push_bit_eq_mult)
    then show ?thesis by (simp only: unat_word_ariths) simp
  qed
  ultimately have n: "unat ?n = 2 * (unat sz - 1)"
    using assms by simp
  have "1 \<le> unat ?n" using n assms(1) by simp
  from ex_power_ivl1 [OF order_refl this] obtain h
    where h: "2 ^ h \<le> unat ?n" "unat ?n < 2 ^ Suc h" by auto
  have "round_uppower_of_two sz = 2 ^ h"
    unfolding round_uppower_of_two_def
    by (rule ceil_power_of_two_highest [OF highest_bit(1) [OF h] highest_bit(2) [OF h]])
  moreover have "h < 32"
    using highest_bit(1) [OF h] bit_imp_le_length by fastforce
  ultimately have r: "unat (round_uppower_of_two sz) = 2 ^ h" by (simp add: unat_pow2)
  show "is_power_of_two (round_uppower_of_two sz)"
    using r \<open>h < 32\<close> by (auto simp: is_power_of_two_iff)
  have "2 * (unat sz - 1) < 2 * 2 ^ h" using h(2) n by simp
  then show "unat sz \<le> unat (round_uppower_of_two sz)" using r by simp
  show "unat (round_uppower_of_two sz) < 2 * unat sz" using h(1) n r assms(1) by simp
qed

lemma rq_round_size:
  assumes "unat sz \<le> 2 ^ 31"
  shows "is_power_of_two (rq_round_size sz)" and "2 \<le> unat (rq_round_size sz)"
    and "unat sz \<le> unat (rq_round_size sz)"
    and "unat (rq_round_size sz) \<le> max 2 (2 * unat sz - 1)"
proof -
  have small: "sz \<le> 1 \<longleftrightarrow> unat sz \<le> 1" by (simp add: word_le_nat_alt)
  have two: "is_power_of_two (2 :: u32)" by (simp add: is_power_of_two_def)
  note r = round_uppower_of_two [of sz, OF _ assms]
  show "is_power_of_two (rq_round_size sz)" "2 \<le> unat (rq_round_size sz)"
    "unat sz \<le> unat (rq_round_size sz)" "unat (rq_round_size sz) \<le> max 2 (2 * unat sz - 1)"
    using two r by (auto simp: rq_round_size_def small)
qed

subsection \<open>The queue as a bounded sequence\<close>

text \<open>
  \<open>rq_list\<close> reads the elements from the read index to the last confirmed write index. The invariant
  holds between two calls: all writes are confirmed, the length counter agrees with the indices,
  and at least one slot is free.
\<close>

definition rq_list :: "'a lfrq \<Rightarrow> 'a list" where
  "rq_list q = map (\<lambda>j. rq_queue q ! unat (index_of_queue q (rq_read_index q + of_nat j)))
                   [0 ..< unat (rq_last_write_index q - rq_read_index q)]"

definition rq_inv :: "'a lfrq \<Rightarrow> bool" where
  "rq_inv q \<longleftrightarrow> is_power_of_two (rq_size q) \<and> 2 \<le> unat (rq_size q)
     \<and> length (rq_queue q) = unat (rq_size q)
     \<and> rq_write_index q = rq_last_write_index q
     \<and> rq_length q = rq_last_write_index q - rq_read_index q
     \<and> unat (rq_last_write_index q - rq_read_index q) < unat (rq_size q)"

definition rq_room :: "'a lfrq \<Rightarrow> nat" where
  "rq_room q = unat (rq_size q) - 1"

lemma unat_index_of_queue:
  "is_power_of_two (rq_size q) \<Longrightarrow> unat (index_of_queue q i) = unat i mod unat (rq_size q)"
proof -
  assume "is_power_of_two (rq_size q)"
  then obtain k where k: "k < 32" "unat (rq_size q) = 2 ^ k" by (auto simp: is_power_of_two_iff)
  show ?thesis
    unfolding index_of_queue_def k(2) by (simp only: word_eq_pow2 [OF k(2)] unat_and_pow2)
qed

lemma unat_index_add:
  assumes "is_power_of_two (rq_size q)"
  shows "unat (index_of_queue q (i + of_nat j)) = (unat i + j) mod unat (rq_size q)"
proof -
  from assms obtain k where k: "k < 32" "unat (rq_size q) = 2 ^ k"
    by (auto simp: is_power_of_two_iff)
  then show ?thesis
    by (simp only: unat_index_of_queue [OF assms] k(2)) (rule mod_pow2_add_word, simp)
qed

lemma index_eq_iff:
  assumes "is_power_of_two (rq_size q)"
  shows "index_of_queue q (i + of_nat m) = index_of_queue q (i + of_nat n) \<longleftrightarrow>
         (unat i + m) mod unat (rq_size q) = (unat i + n) mod unat (rq_size q)"
  by (simp only: word_unat_eq_iff unat_index_add [OF assms])

lemma add_mod_eq_iff:
  fixes r m n s :: nat
  assumes "m \<le> n" "n - m < s"
  shows "(r + n) mod s = (r + m) mod s \<longleftrightarrow> m = n"
proof
  assume "(r + n) mod s = (r + m) mod s"
  then have "s dvd n - m" using assms(1) by (simp add: mod_eq_dvd_iff_nat)
  then have "n - m = 0" using assms(2) by (meson dvd_imp_le not_le not_gr_zero)
  then show "m = n" using assms(1) by simp
qed simp

lemma index_of_queue_updates [simp]:
  "index_of_queue (q\<lparr>rq_write_index := w\<rparr>) i = index_of_queue q i"
  "index_of_queue (q\<lparr>rq_read_index := w\<rparr>) i = index_of_queue q i"
  "index_of_queue (q\<lparr>rq_length := w\<rparr>) i = index_of_queue q i"
  by (simp_all add: index_of_queue_def)

lemma rq_list_alt:
  assumes "is_power_of_two (rq_size q)"
  shows "rq_list q = map (\<lambda>j. rq_queue q ! ((unat (rq_read_index q) + j) mod unat (rq_size q)))
                         [0 ..< unat (rq_last_write_index q - rq_read_index q)]"
  by (simp add: rq_list_def unat_index_add [OF assms])

lemma confirm_write [simp]: "confirm_write w c = w + 1"
  by (subst confirm_write.simps, simp add: compare_exchange_def,
      subst confirm_write.simps, simp add: compare_exchange_def)

lemma length_rq_list: "length (rq_list q) = unat (rq_last_write_index q - rq_read_index q)"
  by (simp add: rq_list_def)

lemma rq_inv_pow2: "rq_inv q \<Longrightarrow> is_power_of_two (rq_size q)"
  by (simp add: rq_inv_def)

lemma full_iff:
  assumes "rq_inv q"
  shows "index_of_queue q (rq_write_index q + 1) = index_of_queue q (rq_read_index q)
     \<longleftrightarrow> length (rq_list q) = rq_room q"
proof -
  let ?n = "unat (rq_last_write_index q - rq_read_index q)"
  have w: "rq_write_index q + 1 = rq_read_index q + of_nat (?n + 1)"
    using assms by (simp add: rq_inv_def)
  have n: "?n + 1 \<le> unat (rq_size q)" using assms by (simp add: rq_inv_def)
  have "index_of_queue q (rq_write_index q + 1) = index_of_queue q (rq_read_index q + of_nat 0)
        \<longleftrightarrow> (unat (rq_read_index q) + (?n + 1)) mod unat (rq_size q)
          = (unat (rq_read_index q) + 0) mod unat (rq_size q)"
    unfolding w by (rule index_eq_iff) (rule rq_inv_pow2 [OF assms])
  also have "\<dots> \<longleftrightarrow> ?n + 1 = unat (rq_size q)"
  proof (cases "?n + 1 = unat (rq_size q)")
    case False
    with n have "?n + 1 - 0 < unat (rq_size q)" by simp
    from add_mod_eq_iff [OF le0 this] False show ?thesis by simp
  qed simp
  finally show ?thesis using n by (auto simp: rq_room_def length_rq_list)
qed

lemma empty_iff:
  assumes "rq_inv q"
  shows "index_of_queue q (rq_last_write_index q) = index_of_queue q (rq_read_index q)
     \<longleftrightarrow> rq_list q = []"
proof -
  let ?n = "unat (rq_last_write_index q - rq_read_index q)"
  have "index_of_queue q (rq_read_index q + of_nat ?n) = index_of_queue q (rq_read_index q + of_nat 0)
        \<longleftrightarrow> (unat (rq_read_index q) + ?n) mod unat (rq_size q)
          = (unat (rq_read_index q) + 0) mod unat (rq_size q)"
    by (rule index_eq_iff) (rule rq_inv_pow2 [OF assms])
  also have "\<dots> \<longleftrightarrow> 0 = ?n"
    by (rule add_mod_eq_iff) (use assms in \<open>simp_all add: rq_inv_def\<close>)
  finally show ?thesis by (auto simp: rq_list_def)
qed

lemma push_full: "rq_inv q \<Longrightarrow> length (rq_list q) = rq_room q \<Longrightarrow> push q x = Some (False, q)"
  by (simp add: push_def full_iff)

lemma pop_empty: "rq_inv q \<Longrightarrow> rq_list q = [] \<Longrightarrow> pop q = Some (None, q)"
  by (simp add: pop_def empty_iff)

lemma push_room:
  assumes inv: "rq_inv q" and room: "length (rq_list q) < rq_room q"
  shows "\<exists>q'. push q x = Some (True, q') \<and> rq_inv q' \<and> rq_list q' = rq_list q @ [x]
           \<and> rq_size q' = rq_size q"
proof -
  let ?s = "unat (rq_size q)" and ?r = "unat (rq_read_index q)"
  let ?n = "unat (rq_last_write_index q - rq_read_index q)"
  let ?i = "unat (index_of_queue q (rq_write_index q))"
  let ?q' = "q\<lparr>rq_write_index := rq_write_index q + 1, rq_queue := (rq_queue q)[?i := x],
                rq_last_write_index := rq_last_write_index q + 1, rq_length := rq_length q + 1\<rparr>"
  note p2 = rq_inv_pow2 [OF inv]
  have n: "?n + 1 < ?s" using room by (simp add: rq_room_def length_rq_list)
  have w: "rq_write_index q = rq_read_index q + of_nat ?n" using inv by (simp add: rq_inv_def)
  have i: "?i = (?r + ?n) mod ?s" unfolding w by (rule unat_index_add [OF p2])
  have ib: "?i < length (rq_queue q)" using inv n by (simp add: rq_inv_def unat_index_of_queue)
  have n': "unat (rq_last_write_index q + 1 - rq_read_index q) = ?n + 1"
  proof -
    have "rq_last_write_index q + 1 - rq_read_index q = (rq_last_write_index q - rq_read_index q) + 1"
      by simp
    then have "unat (rq_last_write_index q + 1 - rq_read_index q)
        = unat ((rq_last_write_index q - rq_read_index q) + 1)" by (rule arg_cong)
    also have "\<dots> = ?n + unat (1 :: u32)"
      by (rule unat_add_no_wrap) (use n unat_u32_less [of "rq_size q"] in simp)
    finally show ?thesis by simp
  qed
  have push: "push q x = Some (True, ?q')"
    using inv room ib by (simp add: push_def Let_def full_iff upd_opt_def)
  have inv': "rq_inv ?q'" using inv n n' by (simp add: rq_inv_def)
  have old: "((rq_queue q)[?i := x]) ! ((?r + j) mod ?s) = rq_queue q ! ((?r + j) mod ?s)"
    if "j < ?n" for j
  proof -
    have "(?r + ?n) mod ?s \<noteq> (?r + j) mod ?s"
      using that n by (subst add_mod_eq_iff) auto
    then show ?thesis by (simp add: i)
  qed
  have "rq_list ?q' = rq_list q @ [x]"
    using ib old by (simp add: rq_list_alt p2 n' i)
  then show ?thesis using push inv' by (intro exI [of _ ?q']) simp
qed

lemma pop_cons:
  assumes inv: "rq_inv q" and xs: "rq_list q = x # xs"
  shows "\<exists>q'. pop q = Some (Some x, q') \<and> rq_inv q' \<and> rq_list q' = xs \<and> rq_size q' = rq_size q"
proof -
  let ?s = "unat (rq_size q)" and ?r = "unat (rq_read_index q)"
  let ?q' = "q\<lparr>rq_read_index := rq_read_index q + 1, rq_length := rq_length q - 1\<rparr>"
  note p2 = rq_inv_pow2 [OF inv]
  obtain m where m: "unat (rq_last_write_index q - rq_read_index q) = Suc m"
    using arg_cong [OF xs, of length] by (auto simp: length_rq_list)
  have l: "rq_list q = map (\<lambda>j. rq_queue q ! ((?r + j) mod ?s)) [0 ..< Suc m]"
    by (simp only: rq_list_alt [OF p2] m)
  also have "\<dots> = (rq_queue q ! (?r mod ?s)) # map (\<lambda>j. rq_queue q ! ((?r + Suc j) mod ?s)) [0 ..< m]"
    by (simp only: upt_conv_Cons [OF zero_less_Suc] list.map map_upt_shift) simp
  finally have hd: "rq_queue q ! (?r mod ?s) = x"
    and tl: "map (\<lambda>j. rq_queue q ! ((?r + Suc j) mod ?s)) [0 ..< m] = xs"
    using xs by simp_all
  have m': "unat (rq_last_write_index q - (rq_read_index q + 1)) = m"
  proof -
    have "rq_last_write_index q - (rq_read_index q + 1)
        = (rq_last_write_index q - rq_read_index q) - 1" by simp
    also have "unat \<dots> = Suc m - 1" by (subst unat_minus_one) (use m in auto)
    finally show ?thesis by simp
  qed
  have "?r mod ?s < length (rq_queue q)" using inv by (simp add: rq_inv_def)
  then have pop: "pop q = Some (Some x, ?q')"
    using inv xs hd by (simp add: pop_def empty_iff nth_opt_def unat_index_of_queue [OF p2])
  have inv': "rq_inv ?q'" using inv m m' by (simp add: rq_inv_def)
  have "rq_list ?q' = xs"
  proof -
    have "unat (index_of_queue q (rq_read_index q + 1 + of_nat j)) = (?r + Suc j) mod ?s" for j
      using unat_index_add [OF p2, of "rq_read_index q" "Suc j"] by (simp add: add.assoc)
    then show ?thesis using tl by (simp add: rq_list_def m')
  qed
  then show ?thesis using pop inv' by (intro exI [of _ ?q']) simp
qed

lemma rq_new_inv:
  assumes "sz \<noteq> 0" "unat sz \<le> 2 ^ 31"
  shows "\<exists>q. rq_new z sz = Inr q \<and> rq_inv q \<and> rq_list q = [] \<and> rq_size q = rq_round_size sz"
  using assms rq_round_size [OF assms(2)]
  by (intro exI [of _ "projr (rq_new z sz)"])
     (simp add: rq_new_def Let_def rq_inv_def rq_list_def)

subsection \<open>The contract of a bounded queue\<close>

text \<open>
  The pushes of a whole list, their results ignored, as the constructor of \<open>MemBlock\<close> makes them.
\<close>

primrec push_many :: "('q \<Rightarrow> 'a \<Rightarrow> (bool \<times> 'q) option) \<Rightarrow> 'q \<Rightarrow> 'a list \<Rightarrow> 'q option" where
  "push_many psh q [] = Some q"
| "push_many psh q (x # xs) = do { (_, q') \<leftarrow> psh q x; push_many psh q' xs }"

text \<open>Operations of a client, and a reference queue that is a list with a bound.\<close>

datatype 'a queue_op = Push 'a | Pop
datatype 'a queue_out = Pushed bool | Popped "'a option"

fun run_queue :: "('q \<Rightarrow> 'a \<Rightarrow> (bool \<times> 'q) option) \<Rightarrow> ('q \<Rightarrow> ('a option \<times> 'q) option)
    \<Rightarrow> 'q \<Rightarrow> 'a queue_op list \<Rightarrow> ('a queue_out list \<times> 'q) option" where
  "run_queue psh pp q [] = Some ([], q)"
| "run_queue psh pp q (Push x # ops) =
     do { (ok, q') \<leftarrow> psh q x; (outs, q'') \<leftarrow> run_queue psh pp q' ops; Some (Pushed ok # outs, q'') }"
| "run_queue psh pp q (Pop # ops) =
     do { (y, q') \<leftarrow> pp q; (outs, q'') \<leftarrow> run_queue psh pp q' ops; Some (Popped y # outs, q'') }"

fun spec_queue :: "nat \<Rightarrow> 'a list \<Rightarrow> 'a queue_op list \<Rightarrow> 'a queue_out list \<times> 'a list" where
  "spec_queue n xs [] = ([], xs)"
| "spec_queue n xs (Push x # ops) =
     (let ok = length xs < n; (outs, ys) = spec_queue n (if ok then xs @ [x] else xs) ops
      in (Pushed ok # outs, ys))"
| "spec_queue n [] (Pop # ops) =
     (let (outs, ys) = spec_queue n [] ops in (Popped None # outs, ys))"
| "spec_queue n (x # xs) (Pop # ops) =
     (let (outs, ys) = spec_queue n xs ops in (Popped (Some x) # outs, ys))"

locale bounded_fifo =
  fixes psh :: "'q \<Rightarrow> 'a \<Rightarrow> (bool \<times> 'q) option"
    and pp :: "'q \<Rightarrow> ('a option \<times> 'q) option"
    and contents :: "'q \<Rightarrow> 'a list"
    and room :: "'q \<Rightarrow> nat"
    and inv :: "'q \<Rightarrow> bool"
  assumes bounded: "inv q \<Longrightarrow> length (contents q) \<le> room q"
    and psh_room: "inv q \<Longrightarrow> length (contents q) < room q \<Longrightarrow>
      \<exists>q'. psh q x = Some (True, q') \<and> inv q' \<and> contents q' = contents q @ [x] \<and> room q' = room q"
    and psh_full: "inv q \<Longrightarrow> length (contents q) = room q \<Longrightarrow> psh q x = Some (False, q)"
    and pp_empty: "inv q \<Longrightarrow> contents q = [] \<Longrightarrow> pp q = Some (None, q)"
    and pp_cons: "inv q \<Longrightarrow> contents q = x # xs \<Longrightarrow>
      \<exists>q'. pp q = Some (Some x, q') \<and> inv q' \<and> contents q' = xs \<and> room q' = room q"
begin

lemma psh_cases:
  assumes "inv q"
  obtains q' where "psh q x = Some (length (contents q) < room q, q')" "inv q'" "room q' = room q"
    "contents q' = (if length (contents q) < room q then contents q @ [x] else contents q)"
  using psh_room [OF assms] psh_full [OF assms] bounded [OF assms] assms
  by (cases "length (contents q) < room q") (fastforce simp: le_less)+

lemma push_many_contents:
  "inv q \<Longrightarrow> \<exists>q'. push_many psh q xs = Some q' \<and> inv q' \<and> room q' = room q
     \<and> contents q' = contents q @ take (room q - length (contents q)) xs"
proof (induction xs arbitrary: q)
  case (Cons x xs)
  obtain q1 where q1: "psh q x = Some (length (contents q) < room q, q1)" "inv q1" "room q1 = room q"
    "contents q1 = (if length (contents q) < room q then contents q @ [x] else contents q)"
    using psh_cases [OF Cons.prems] .
  from Cons.IH [OF q1(2)] q1 bounded [OF Cons.prems] show ?case
    by (cases "length (contents q) < room q")
       (auto simp: take_Cons' Suc_diff_Suc dest!: antisym_conv2 split: nat.splits)
qed simp

lemma rotate:
  assumes "inv q" "contents q = x # xs"
  obtains q1 q2 where "pp q = Some (Some x, q1)" "inv q1" "contents q1 = xs" "room q1 = room q"
    "psh q1 y = Some (True, q2)" "inv q2" "contents q2 = xs @ [y]" "room q2 = room q"
proof -
  from pp_cons [OF assms] obtain q1
    where q1: "pp q = Some (Some x, q1)" "inv q1" "contents q1 = xs" "room q1 = room q" by blast
  moreover have "length (contents q1) < room q1"
    using bounded [OF assms(1)] assms(2) q1 by simp
  ultimately show thesis using psh_room [OF q1(2), of y] that by fastforce
qed

theorem run_refines:
  "inv q \<Longrightarrow> \<exists>outs q'. run_queue psh pp q ops = Some (outs, q') \<and> inv q' \<and> room q' = room q
     \<and> spec_queue (room q) (contents q) ops = (outs, contents q')"
proof (induction ops arbitrary: q)
  case (Cons op ops)
  show ?case
  proof (cases op)
    case (Push x)
    obtain q1 where q1: "psh q x = Some (length (contents q) < room q, q1)" "inv q1"
      "room q1 = room q"
      "contents q1 = (if length (contents q) < room q then contents q @ [x] else contents q)"
      using psh_cases [OF Cons.prems] .
    with Cons.IH [OF q1(2)] Push show ?thesis by (auto simp: Let_def)
  next
    case Pop
    show ?thesis
    proof (cases "contents q")
      case Nil
      with Cons.IH [OF Cons.prems] Pop pp_empty [OF Cons.prems] show ?thesis by fastforce
    next
      case (Cons x xs)
      from pp_cons [OF Cons.prems this] obtain q1
        where q1: "pp q = Some (Some x, q1)" "inv q1" "contents q1 = xs" "room q1 = room q" by blast
      with Cons.IH [OF q1(2)] Pop Cons show ?thesis by fastforce
    qed
  qed
qed simp

end

interpretation rq: bounded_fifo push pop rq_list rq_room rq_inv
proof unfold_locales
  fix q :: "'a lfrq" and x xs
  show "rq_inv q \<Longrightarrow> length (rq_list q) \<le> rq_room q"
    unfolding length_rq_list rq_room_def rq_inv_def by linarith
  show "rq_inv q \<Longrightarrow> length (rq_list q) < rq_room q \<Longrightarrow>
    \<exists>q'. push q x = Some (True, q') \<and> rq_inv q' \<and> rq_list q' = rq_list q @ [x] \<and> rq_room q' = rq_room q"
    by (drule (1) push_room [where x = x]) (auto simp: rq_room_def)
  show "rq_inv q \<Longrightarrow> rq_list q = x # xs \<Longrightarrow>
    \<exists>q'. pop q = Some (Some x, q') \<and> rq_inv q' \<and> rq_list q' = xs \<and> rq_room q' = rq_room q"
    by (drule (1) pop_cons) (auto simp: rq_room_def)
qed (simp_all add: push_full pop_empty)

lemma push_cases:
  assumes "rq_inv q"
  obtains q' where "push q x = Some (length (rq_list q) < rq_room q, q')" "rq_inv q'"
    "rq_room q' = rq_room q"
    "rq_list q' = (if length (rq_list q) < rq_room q then rq_list q @ [x] else rq_list q)"
  using assms by (rule rq.psh_cases)

subsection \<open>Properties\<close>

text \<open>
  C1. From any state that satisfies the invariant, with the 32-bit indices anywhere in their range,
  any sequence of pushes and pops returns (no access leaves the slot array) and answers exactly as
  a bounded first-in first-out list does that holds at most \<open>m_size - 1\<close> elements.
\<close>

theorem ring_run_refines_fifo:
  assumes "rq_inv q"
  shows "\<exists>outs q'. run_queue push pop q ops = Some (outs, q') \<and> rq_inv q'
     \<and> spec_queue (unat (rq_size q) - 1) (rq_list q) ops = (outs, rq_list q')"
  using rq.run_refines [OF assms, of ops] unfolding rq_room_def by blast

text \<open>The indices of the instance wrap around 0 during the run.\<close>

theorem ring_run_refines_fifo_witness:
  "\<exists>outs q'. run_queue push pop
       \<lparr>rq_size = 4, rq_length = 1, rq_read_index = 4294967294, rq_write_index = 4294967295,
        rq_last_write_index = 4294967295, rq_queue = [10, 11, 12, 13 :: nat]\<rparr>
       [Push 7, Push 8, Push 9, Pop, Pop] = Some (outs, q') \<and> rq_inv q'
     \<and> outs = [Pushed True, Pushed True, Pushed False, Popped (Some 12), Popped (Some 7)]
     \<and> rq_list q' = [8]"
proof -
  let ?q = "\<lparr>rq_size = 4, rq_length = 1, rq_read_index = 4294967294, rq_write_index = 4294967295,
        rq_last_write_index = 4294967295, rq_queue = [10, 11, 12, 13 :: nat]\<rparr>"
  have "rq_inv ?q" by (simp add: rq_inv_def is_power_of_two_def)
  moreover have "rq_list ?q = [12]" by (simp add: rq_list_def index_of_queue_def)
  ultimately show ?thesis
    using ring_run_refines_fifo [of ?q "[Push 7, Push 8, Push 9, Pop, Pop]"] by auto
qed

text \<open>
  C15. The constructor rounds every size up to \<open>2 ^ 31\<close> to a power of two: the queue starts empty
  and well formed, and holds at least \<open>sz - 1\<close> elements and at most \<open>2 * sz - 2\<close> (or one).
  Size 0 throws.
\<close>

theorem ring_new_capacity:
  assumes "unat sz \<le> 2 ^ 31"
  shows "if sz = 0 then rq_new z sz = Inl Out_of_range
         else \<exists>q. rq_new z sz = Inr q \<and> rq_inv q \<and> rq_list q = [] \<and> is_power_of_two (rq_size q)
                \<and> unat sz \<le> unat (rq_size q) \<and> unat (rq_size q) \<le> max 2 (2 * unat sz - 1)"
  using rq_new_inv [OF _ assms] rq_round_size [OF assms] by (fastforce simp: rq_new_def)

theorem ring_new_capacity_witness:
  "\<exists>q. rq_new (0::nat) 5 = Inr q \<and> rq_inv q \<and> 5 \<le> unat (rq_size q) \<and> unat (rq_size q) \<le> 9"
  using ring_new_capacity [of 5 0] by auto

text \<open>
  Above \<open>2 ^ 31\<close> the rounding overflows: a request for \<open>2 ^ 31 + 1\<close> slots gives a queue
  without any slot, and the first push writes outside its array.
\<close>

theorem ring_new_overflow:
  "\<exists>q. rq_new z (2 ^ 31 + 1) = Inr q \<and> rq_size q = 0 \<and> push q x = None"
  by (simp add: rq_new_def rq_round_size_def is_power_of_two_def round_uppower_of_two_def
      ceil_power_of_two_def push_def index_of_queue_def upd_opt_def word_le_nat_alt)

text \<open>
  \<open>is_full\<close> compares a masked write index with an unmasked read index: a queue of two slots is
  full after five operations (a push is refused), yet \<open>is_full\<close> is false.
\<close>

theorem is_full_misses_full_queue:
  "\<exists>q0 q outs. rq_new (0::nat) 2 = Inr q0
     \<and> run_queue push pop q0 [Push 1, Pop, Push 2, Pop, Push 3] = Some (outs, q)
     \<and> push q 4 = Some (False, q) \<and> \<not> is_full q"
  by (simp add: rq_new_def rq_round_size_def is_power_of_two_def push_def pop_def
      index_of_queue_def upd_opt_def nth_opt_def is_full_def)

end
