(* ===== verification/MemPool.thy ===== *)
theory MemPool
  imports RingQueue
begin

text \<open>
  The memory pool \<open>MemBlock\<close> of \<open>src/net/memblock.h\<close> and \<open>src/net/memblock.cc\<close>: equally sized
  blocks cut from one allocation, whose free blocks wait in a ring queue. The pool keeps the same
  contract \<open>bounded_fifo\<close> as the queue it wraps (\<open>free\<close> pushes, \<open>alloc\<close> pops).
\<close>

record mem_block =
  mb_block_size :: nat
  mb_queue :: "addr lfrq"

text \<open>
  The constructor: \<open>base\<close> is the address the allocator returns for the block array. Every block is
  pushed, and the result of the push is ignored, as in the source.
\<close>

definition mb_new :: "addr \<Rightarrow> nat \<Rightarrow> u32 \<Rightarrow> (rq_error + mem_block) option" where
  "mb_new base block_size cap =
     (case rq_new nullptr cap of
        Inl e \<Rightarrow> Some (Inl e)
      | Inr q \<Rightarrow> do {
          let capacity = nat (sint (rq_size q));
          q' \<leftarrow> push_many push q (map (\<lambda>i. base + i * block_size) [0 ..< capacity]);
          Some (Inr \<lparr>mb_block_size = block_size, mb_queue = q'\<rparr>)
        })"

text \<open>\<open>alloc\<close> ignores its timeout (the source pops without one); the pointer is returned on success.\<close>

definition mb_alloc :: "mem_block \<Rightarrow> (addr option \<times> mem_block) option" where
  "mb_alloc mb = do {
     (ptr, q) \<leftarrow> pop (mb_queue mb);
     Some (ptr, mb\<lparr>mb_queue := q\<rparr>)
   }"

definition mb_free :: "mem_block \<Rightarrow> addr \<Rightarrow> (bool \<times> mem_block) option" where
  "mb_free mb ptr = do {
     (ok, q) \<leftarrow> push (mb_queue mb) ptr;
     Some (ok, mb\<lparr>mb_queue := q\<rparr>)
   }"

definition mb_size :: "mem_block \<Rightarrow> u32" where
  "mb_size mb = rq_length (mb_queue mb)"

definition mb_capacity :: "mem_block \<Rightarrow> u32" where
  "mb_capacity mb = rq_size (mb_queue mb)"

subsection \<open>The pool as a bounded queue of free blocks\<close>

definition mb_free_list :: "mem_block \<Rightarrow> addr list" where
  "mb_free_list mb = rq_list (mb_queue mb)"

definition mb_room :: "mem_block \<Rightarrow> nat" where
  "mb_room mb = rq_room (mb_queue mb)"

definition mb_inv :: "mem_block \<Rightarrow> bool" where
  "mb_inv mb \<longleftrightarrow> rq_inv (mb_queue mb)"

lemmas mb_abs_defs = mb_free_list_def mb_room_def mb_inv_def

interpretation mb: bounded_fifo mb_free mb_alloc mb_free_list mb_room mb_inv
proof unfold_locales
  fix mb x xs
  show "mb_inv mb \<Longrightarrow> length (mb_free_list mb) \<le> mb_room mb"
    unfolding mb_abs_defs by (rule rq.bounded)
  show "mb_inv mb \<Longrightarrow> length (mb_free_list mb) < mb_room mb \<Longrightarrow>
    \<exists>mb'. mb_free mb x = Some (True, mb') \<and> mb_inv mb' \<and> mb_free_list mb' = mb_free_list mb @ [x]
        \<and> mb_room mb' = mb_room mb"
    unfolding mb_abs_defs by (drule (1) rq.psh_room [where x = x]) (auto simp: mb_free_def)
  show "mb_inv mb \<Longrightarrow> length (mb_free_list mb) = mb_room mb \<Longrightarrow> mb_free mb x = Some (False, mb)"
    unfolding mb_abs_defs by (drule (1) rq.psh_full [where x = x]) (simp add: mb_free_def)
  show "mb_inv mb \<Longrightarrow> mb_free_list mb = [] \<Longrightarrow> mb_alloc mb = Some (None, mb)"
    unfolding mb_abs_defs by (drule (1) rq.pp_empty) (simp add: mb_alloc_def)
  show "mb_inv mb \<Longrightarrow> mb_free_list mb = x # xs \<Longrightarrow>
    \<exists>mb'. mb_alloc mb = Some (Some x, mb') \<and> mb_inv mb' \<and> mb_free_list mb' = xs
        \<and> mb_room mb' = mb_room mb"
    unfolding mb_abs_defs by (drule (1) rq.pp_cons) (auto simp: mb_alloc_def)
qed

lemma mb_size_eq: "mb_inv mb \<Longrightarrow> unat (mb_size mb) = length (mb_free_list mb)"
  by (simp add: mb_size_def mb_abs_defs length_rq_list rq_inv_def)

text \<open>
  The number of pops a queue can still answer, whatever its state: it bounds every loop that
  allocates until the pool is empty.
\<close>

definition rq_pending :: "'a lfrq \<Rightarrow> nat" where
  "rq_pending q = unat (rq_last_write_index q - rq_read_index q)"

lemma pop_pending: "pop q = Some (Some x, q') \<Longrightarrow> rq_pending q' < rq_pending q"
proof -
  assume "pop q = Some (Some x, q')"
  then have ne: "rq_last_write_index q - rq_read_index q \<noteq> 0"
    and q': "rq_read_index q' = rq_read_index q + 1" "rq_last_write_index q' = rq_last_write_index q"
    by (auto simp: pop_def Let_def bind_eq_Some_conv split: if_splits)
  have "rq_last_write_index q - (rq_read_index q + 1)
      = (rq_last_write_index q - rq_read_index q) - 1" by simp
  then have "unat (rq_last_write_index q - (rq_read_index q + 1))
      = unat (rq_last_write_index q - rq_read_index q) - 1"
    using unat_minus_one [OF ne] by (simp only:)
  moreover have "0 < unat (rq_last_write_index q - rq_read_index q)"
    using ne unat_gt_0 by blast
  ultimately show ?thesis
    by (simp add: rq_pending_def q')
qed

lemma mb_new_ok:
  assumes "cap \<noteq> 0" "unat cap \<le> 2 ^ 30"
  shows "\<exists>mb. mb_new base bs cap = Some (Inr mb) \<and> mb_inv mb
     \<and> mb_room mb = unat (rq_round_size cap) - 1
     \<and> mb_free_list mb = map (\<lambda>i. base + i * bs) [0 ..< unat (rq_round_size cap) - 1]"
proof -
  have cap31: "unat cap \<le> 2 ^ 31" using assms(2) by simp
  from rq_new_inv [OF assms(1) cap31, of nullptr] obtain q where q: "rq_new nullptr cap = Inr q"
    "rq_inv q" "rq_list q = []" "rq_size q = rq_round_size cap" by blast
  let ?n = "unat (rq_size q)"
  have "?n \<le> 2 * 2 ^ 30" using rq_round_size(4) [OF cap31] assms(2) q(4) by simp
  have n2: "2 \<le> ?n" using rq_round_size(2) [OF cap31] q(4) by simp
  obtain k where k: "?n = 2 ^ k" using rq_round_size(1) [OF cap31] q(4)
    by (auto simp: is_power_of_two_iff)
  have "?n < 2 ^ 31"
  proof (cases "unat cap = 2 ^ 30")
    case True
    then have "is_power_of_two cap" unfolding is_power_of_two_iff by (intro exI [of _ 30]) simp
    then show ?thesis using True q(4) by (simp add: rq_round_size_def word_le_nat_alt)
  next
    case False
    then show ?thesis using rq_round_size(4) [OF cap31] assms(2) q(4) by simp
  qed
  then have s: "nat (sint (rq_size q)) = ?n"
    by (simp add: sint_small)
  let ?ps = "map (\<lambda>i. base + i * bs) [0 ..< ?n]"
  from rq.push_many_contents [OF q(2), of ?ps] obtain q' where q': "push_many push q ?ps = Some q'"
    "rq_inv q'" "rq_room q' = rq_room q" "rq_list q' = take (rq_room q) ?ps"
    by (auto simp: q(3))
  have "take (?n - 1) ?ps = map (\<lambda>i. base + i * bs) [0 ..< ?n - 1]"
    by (simp add: take_map min_def)
  then show ?thesis
    using q q' s by (simp add: mb_new_def mb_abs_defs rq_room_def)
qed

lemma mb_free_list_distinct:
  assumes "0 < bs"
  shows "distinct (map (\<lambda>i. base + i * bs) [0 ..< n])"
  using assms by (simp add: distinct_map inj_on_def)

text \<open>A pool of four slots for the examples, with the given free blocks.\<close>

definition demo_pool :: "nat \<Rightarrow> addr list \<Rightarrow> mem_block" where
  "demo_pool n l = \<lparr>mb_block_size = n,
     mb_queue = \<lparr>rq_size = 4, rq_length = of_nat (length l), rq_read_index = 0,
                 rq_write_index = of_nat (length l), rq_last_write_index = of_nat (length l),
                 rq_queue = take 4 (l @ replicate 4 nullptr)\<rparr>\<rparr>"

lemma demo_pool:
  "length l < 4 \<Longrightarrow> mb_inv (demo_pool n l)" "length l < 4 \<Longrightarrow> mb_free_list (demo_pool n l) = l"
  "mb_room (demo_pool n l) = 3"
proof -
  assume l: "length l < 4"
  then have u: "unat (of_nat (length l) :: u32) = length l" by (simp add: unat_of_nat)
  have i: "unat (index_of_queue (mb_queue (demo_pool n l)) (of_nat i)) = i" if "i < length l" for i
    using that l by (subst unat_index_of_queue)
      (simp_all add: demo_pool_def is_power_of_two_def unat_of_nat)
  show "mb_inv (demo_pool n l)"
    using l by (simp add: mb_inv_def rq_inv_def demo_pool_def is_power_of_two_def u)
  show "mb_free_list (demo_pool n l) = l"
    using l i by (auto simp: mb_free_list_def rq_list_def demo_pool_def u nth_append intro!: nth_equalityI)
qed (simp add: mb_room_def rq_room_def demo_pool_def)

end
