(* ===== verification/NetErr.thy ===== *)
theory NetErr
  imports Prelude
begin

text \<open>
  The result codes of \<open>src/net/net_err.h\<close>. The callers test \<open>(int8_t)err < 0\<close>; the codes are
  ordered by their value, so that the test is \<open>err < NET_ERR_OK\<close>.
\<close>

datatype net_err =
    NET_ERR_SYS | NET_ERR_MEM | NET_ERR_FULL | NET_ERR_TIMEOUT | NET_ERR_SIZE | NET_ERR_EMPTY
  | NET_ERR_NONE | NET_ERR_PARAM | NET_ERR_STATE | NET_ERR_IO | NET_ERR_OK

fun net_err_code :: "net_err \<Rightarrow> int" where
  "net_err_code NET_ERR_SYS = -128"
| "net_err_code NET_ERR_MEM = -127"
| "net_err_code NET_ERR_FULL = -126"
| "net_err_code NET_ERR_TIMEOUT = -125"
| "net_err_code NET_ERR_SIZE = -124"
| "net_err_code NET_ERR_EMPTY = -123"
| "net_err_code NET_ERR_NONE = -122"
| "net_err_code NET_ERR_PARAM = -121"
| "net_err_code NET_ERR_STATE = -120"
| "net_err_code NET_ERR_IO = -119"
| "net_err_code NET_ERR_OK = 0"

lemma net_err_code_inj: "net_err_code a = net_err_code b \<longleftrightarrow> a = b"
  by (cases a; cases b) simp_all

instantiation net_err :: linorder
begin

definition less_eq_net_err :: "net_err \<Rightarrow> net_err \<Rightarrow> bool" where
  "less_eq_net_err a b \<longleftrightarrow> net_err_code a \<le> net_err_code b"

definition less_net_err :: "net_err \<Rightarrow> net_err \<Rightarrow> bool" where
  "less_net_err a b \<longleftrightarrow> net_err_code a < net_err_code b"

instance
  by standard (auto simp: less_eq_net_err_def less_net_err_def net_err_code_inj [symmetric])

end

definition is_err :: "net_err \<Rightarrow> bool" where
  "is_err err = (err < NET_ERR_OK)"

lemma is_err_iff [simp]: "is_err err \<longleftrightarrow> err \<noteq> NET_ERR_OK"
  by (cases err) (simp_all add: is_err_def less_net_err_def)

end
