(* ===== verification/PktStore.thy ===== *)
theory PktStore
  imports MemPool NetErr "HOL-Library.Multiset"
begin

text \<open>
  The objects of the packet buffers (\<open>src/net/pktbuf.h\<close>, \<open>src/net/pktbuf.cc\<close>): the data blocks
  (\<open>PktBlock\<close>), the packets (\<open>PktBuffer\<close>) and the manager with its two pools (\<open>PktManager\<close>). The
  state is an explicit store: an object lives at an address, a pointer is an address, and
  dereferencing an address without an object is undefined behaviour (\<open>None\<close>).
\<close>

subsection \<open>Data blocks\<close>

text \<open>
  \<open>m_payload\<close> is the byte array of the block; \<open>m_data\<close> points into it and is kept as an offset.
\<close>

record pkt_block =
  blk_size :: u32
  blk_data :: nat
  blk_payload :: "u8 list"

text \<open>
  \<open>init\<close> allocates the payload; \<open>junk\<close> is what the allocator left in it. The two other members are
  set by \<open>reset\<close> before their first use (\<open>get_pktblock\<close>), here they start as \<open>reset\<close> sets them.
\<close>

definition blk_init :: "u32 \<Rightarrow> (nat \<Rightarrow> u8) \<Rightarrow> pkt_block" where
  "blk_init cfg junk = \<lparr>blk_size = 0, blk_data = 0, blk_payload = map junk [0 ..< unat cfg]\<rparr>"

definition blk_reset :: "pkt_block \<Rightarrow> pkt_block" where
  "blk_reset b = b\<lparr>blk_data := 0, blk_size := 0\<rparr>"

definition blk_get_last_size :: "u32 \<Rightarrow> pkt_block \<Rightarrow> u64" where
  "blk_get_last_size cfg b = of_int (int (unat cfg) - (int (blk_data b) + int (unat (blk_size b))))"

text \<open>\<open>set_data\<close>: the new pointer has to stay inside the payload (or one past its end).\<close>

definition blk_set_data :: "pkt_block \<Rightarrow> nat \<Rightarrow> pkt_block option" where
  "blk_set_data b off = (if off \<le> length (blk_payload b) then Some (b\<lparr>blk_data := off\<rparr>) else None)"

subsection \<open>Packets\<close>

text \<open>
  The iterator \<open>m_cur_blk\<close> denotes a node of the block list: before the first \<open>reset_access\<close> the
  three access members are indeterminate, and an iterator to an erased node dangles.
\<close>

datatype cursor = Indeterminate | End | At nat | Dangling

record pkt_buffer =
  buf_capacity :: u32
  buf_blk_list :: "addr list"
  buf_pos :: u32
  buf_cur_blk :: cursor
  buf_blk_offset :: "(addr \<times> nat) option"
  buf_ref :: u32

text \<open>The constructor, \<open>init\<close> and \<open>reset\<close>; the latter two leave the list and the cursor alone.\<close>

definition pkt_buffer_new :: pkt_buffer where
  "pkt_buffer_new = \<lparr>buf_capacity = 0, buf_blk_list = [], buf_pos = 0, buf_cur_blk = Indeterminate,
                     buf_blk_offset = None, buf_ref = 1\<rparr>"

definition buf_init :: "pkt_buffer \<Rightarrow> pkt_buffer" where
  "buf_init b = b\<lparr>buf_capacity := 0, buf_ref := 1\<rparr>"

definition buf_reset :: "pkt_buffer \<Rightarrow> pkt_buffer" where
  "buf_reset b = b\<lparr>buf_capacity := 0, buf_ref := 1\<rparr>"

subsection \<open>The store and the manager\<close>

record pkt_store =
  cfg_blk_size :: u32
  blk_heap :: "addr \<rightharpoonup> pkt_block"
  blk_pool :: mem_block
  buf_heap :: "addr \<rightharpoonup> pkt_buffer"
  buf_pool :: mem_block

definition put_blk :: "addr \<Rightarrow> pkt_block \<Rightarrow> pkt_store \<Rightarrow> pkt_store" where
  "put_blk a b st = st\<lparr>blk_heap := (blk_heap st)(a \<mapsto> b)\<rparr>"

definition put_buf :: "addr \<Rightarrow> pkt_buffer \<Rightarrow> pkt_store \<Rightarrow> pkt_store" where
  "put_buf p b st = st\<lparr>buf_heap := (buf_heap st)(p \<mapsto> b)\<rparr>"

text \<open>
  \<open>get_pktblock\<close> and \<open>get_pktbuffer\<close> return the null pointer when the pool is empty. The two
  release functions ignore whether the pool took the pointer and always return \<open>NET_ERR_OK\<close>;
  only the new store is kept here.
\<close>

definition get_pktblock :: "pkt_store \<Rightarrow> (addr \<times> pkt_store) option" where
  "get_pktblock st = do {
     (ptr, pool) \<leftarrow> mb_alloc (blk_pool st);
     (case ptr of
        None \<Rightarrow> Some (nullptr, st\<lparr>blk_pool := pool\<rparr>)
      | Some a \<Rightarrow> do {
          b \<leftarrow> blk_heap st a;
          Some (a, put_blk a (blk_reset b) (st\<lparr>blk_pool := pool\<rparr>))
        })
   }"

definition release_pktblock :: "addr \<Rightarrow> pkt_store \<Rightarrow> pkt_store option" where
  "release_pktblock ptr st = do {
     (_, pool) \<leftarrow> mb_free (blk_pool st) ptr;
     Some (st\<lparr>blk_pool := pool\<rparr>)
   }"

definition get_pktbuffer :: "pkt_store \<Rightarrow> (addr \<times> pkt_store) option" where
  "get_pktbuffer st = do {
     (ptr, pool) \<leftarrow> mb_alloc (buf_pool st);
     (case ptr of
        None \<Rightarrow> Some (nullptr, st\<lparr>buf_pool := pool\<rparr>)
      | Some a \<Rightarrow> do {
          b \<leftarrow> buf_heap st a;
          Some (a, put_buf a (buf_reset b) (st\<lparr>buf_pool := pool\<rparr>))
        })
   }"

definition release_pktbuffer :: "addr \<Rightarrow> pkt_store \<Rightarrow> pkt_store option" where
  "release_pktbuffer ptr st = do {
     (_, pool) \<leftarrow> mb_free (buf_pool st) ptr;
     Some (st\<lparr>buf_pool := pool\<rparr>)
   }"

definition get_blk_list_size :: "pkt_store \<Rightarrow> u32" where
  "get_blk_list_size st = mb_size (blk_pool st)"

definition get_buf_list_size :: "pkt_store \<Rightarrow> u32" where
  "get_buf_list_size st = mb_size (buf_pool st)"

text \<open>
  The constructor takes each block out of its pool once, initialises it and puts it back. Both
  loops run as often as the configured count, not as often as the pool has blocks.
\<close>

primrec init_blks :: "(addr \<Rightarrow> nat \<Rightarrow> u8) \<Rightarrow> nat \<Rightarrow> pkt_store \<Rightarrow> pkt_store option" where
  "init_blks junk 0 st = Some st"
| "init_blks junk (Suc n) st = do {
     (ptr, pool) \<leftarrow> mb_alloc (blk_pool st);
     blk \<leftarrow> ptr;
     let st1 = put_blk blk (blk_init (cfg_blk_size st) (junk blk)) (st\<lparr>blk_pool := pool\<rparr>);
     (ok, pool') \<leftarrow> mb_free (blk_pool st1) blk;
     check ok;
     init_blks junk n (st1\<lparr>blk_pool := pool'\<rparr>)
   }"

primrec init_bufs :: "nat \<Rightarrow> pkt_store \<Rightarrow> pkt_store option" where
  "init_bufs 0 st = Some st"
| "init_bufs (Suc n) st = do {
     (ptr, pool) \<leftarrow> mb_alloc (buf_pool st);
     buf \<leftarrow> ptr;
     let st1 = put_buf buf pkt_buffer_new (st\<lparr>buf_pool := pool\<rparr>);
     (ok, pool') \<leftarrow> mb_free (buf_pool st1) buf;
     check ok;
     init_bufs n (st1\<lparr>buf_pool := pool'\<rparr>)
   }"

definition sizeof_PktBlock :: nat where "sizeof_PktBlock = 24"
definition sizeof_PktBuffer :: nat where "sizeof_PktBuffer = 64"

text \<open>
  \<open>blk_base\<close> and \<open>buf_base\<close> are the addresses of the two pools' arrays. An exception of a pool's
  constructor leaves the initialisation of the singleton and ends the program.
\<close>

definition pkt_manager_new ::
  "u32 \<Rightarrow> u32 \<Rightarrow> u32 \<Rightarrow> addr \<Rightarrow> addr \<Rightarrow> (addr \<Rightarrow> nat \<Rightarrow> u8) \<Rightarrow> pkt_store option" where
  "pkt_manager_new cfg blk_cnt buf_cnt blk_base buf_base junk = do {
     mb1 \<leftarrow> mb_new blk_base sizeof_PktBlock blk_cnt;
     mb2 \<leftarrow> mb_new buf_base sizeof_PktBuffer buf_cnt;
     (case (mb1, mb2) of
        (Inr pool1, Inr pool2) \<Rightarrow> do {
          st \<leftarrow> init_blks junk (unat blk_cnt)
                 \<lparr>cfg_blk_size = cfg, blk_heap = Map.empty, blk_pool = pool1,
                  buf_heap = Map.empty, buf_pool = pool2\<rparr>;
          init_bufs (unat buf_cnt) st
        }
      | _ \<Rightarrow> None)
   }"

subsection \<open>Ownership of the blocks\<close>

text \<open>
  Every block is free (in the pool) or owned by one packet. \<open>blk_inv st own\<close> says that the free
  blocks and the owned ones are different objects with a payload of the configured size, and that
  the pool has room for all of them, so that no release is lost. \<open>blk_frame A\<close> is what a step on
  blocks outside \<open>A\<close> leaves unchanged.
\<close>

definition free_blks :: "pkt_store \<Rightarrow> addr list" where
  "free_blks st = mb_free_list (blk_pool st)"

definition blk_inv :: "pkt_store \<Rightarrow> addr list \<Rightarrow> bool" where
  "blk_inv st own \<longleftrightarrow> mb_inv (blk_pool st) \<and> distinct (free_blks st @ own)
     \<and> length (free_blks st @ own) \<le> mb_room (blk_pool st)
     \<and> (\<forall>a \<in> set (free_blks st @ own). a \<noteq> nullptr
          \<and> (\<exists>b. blk_heap st a = Some b \<and> length (blk_payload b) = unat (cfg_blk_size st)))"

definition blk_frame :: "addr set \<Rightarrow> pkt_store \<Rightarrow> pkt_store \<Rightarrow> bool" where
  "blk_frame A st st' \<longleftrightarrow> cfg_blk_size st' = cfg_blk_size st \<and> buf_heap st' = buf_heap st
     \<and> buf_pool st' = buf_pool st \<and> mb_room (blk_pool st') = mb_room (blk_pool st)
     \<and> (\<forall>a \<in> A. blk_heap st' a = blk_heap st a)"

lemma blk_frame_refl [simp]: "blk_frame A st st"
  by (simp add: blk_frame_def)

lemma blk_frame_trans: "blk_frame A st st1 \<Longrightarrow> blk_frame B st1 st2 \<Longrightarrow> blk_frame (A \<inter> B) st st2"
  by (simp add: blk_frame_def)

lemma blk_frame_mono: "blk_frame A st st' \<Longrightarrow> B \<subseteq> A \<Longrightarrow> blk_frame B st st'"
  by (auto simp: blk_frame_def)

lemma blk_frame_subset_trans:
  "blk_frame A st st1 \<Longrightarrow> blk_frame B st1 st2 \<Longrightarrow> C \<subseteq> A \<Longrightarrow> C \<subseteq> B \<Longrightarrow> blk_frame C st st2"
  by (simp add: blk_frame_def subset_iff)

lemma blk_inv_perm: "mset own = mset own' \<Longrightarrow> blk_inv st own \<longleftrightarrow> blk_inv st own'"
  by (auto simp: blk_inv_def dest: mset_eq_setD mset_eq_length mset_eq_imp_distinct_iff)

lemma put_blk_simps [simp, store_simps]:
  "blk_heap (put_blk a b st) = (blk_heap st)(a \<mapsto> b)" "blk_pool (put_blk a b st) = blk_pool st"
  "buf_heap (put_blk a b st) = buf_heap st" "buf_pool (put_blk a b st) = buf_pool st"
  "cfg_blk_size (put_blk a b st) = cfg_blk_size st"
  by (simp_all add: put_blk_def)

lemma put_buf_simps [simp, store_simps]:
  "blk_heap (put_buf p b st) = blk_heap st" "blk_pool (put_buf p b st) = blk_pool st"
  "buf_heap (put_buf p b st) = (buf_heap st)(p \<mapsto> b)" "buf_pool (put_buf p b st) = buf_pool st"
  "cfg_blk_size (put_buf p b st) = cfg_blk_size st"
  by (simp_all add: put_buf_def)

lemma free_blks_simps [simp, store_simps]:
  "free_blks (put_blk a b st) = free_blks st" "free_blks (put_buf p c st) = free_blks st"
  by (simp_all add: free_blks_def)

lemma blk_inv_put_buf [simp]: "blk_inv (put_buf p b st) own \<longleftrightarrow> blk_inv st own"
  by (simp add: blk_inv_def)

lemma blk_inv_put_blk:
  "blk_inv st own \<Longrightarrow> length (blk_payload b) = unat (cfg_blk_size st) \<Longrightarrow> blk_inv (put_blk a b st) own"
  by (auto simp: blk_inv_def)

lemma blk_inv_owned:
  "blk_inv st own \<Longrightarrow> a \<in> set own \<Longrightarrow>
     a \<noteq> nullptr \<and> (\<exists>b. blk_heap st a = Some b \<and> length (blk_payload b) = unat (cfg_blk_size st))"
  by (simp add: blk_inv_def)

lemma get_pktblock_empty:
  assumes "blk_inv st own" "free_blks st = []"
  shows "get_pktblock st = Some (nullptr, st)"
  using assms mb.pp_empty [of "blk_pool st"]
  by (simp add: get_pktblock_def blk_inv_def free_blks_def)

lemma get_pktblock_cons:
  assumes inv: "blk_inv st own" and free: "free_blks st = a # fs"
  obtains st' b where "get_pktblock st = Some (a, st')" "a \<noteq> nullptr" "free_blks st' = fs"
    "blk_inv st' (a # own)" "blk_heap st' a = Some b" "length (blk_payload b) = unat (cfg_blk_size st)"
    "blk_frame (- {a}) st st'"
proof -
  from inv free have "mb_inv (blk_pool st)" "mb_free_list (blk_pool st) = a # fs"
    by (simp_all add: blk_inv_def free_blks_def)
  from mb.pp_cons [OF this] obtain pool where pool: "mb_alloc (blk_pool st) = Some (Some a, pool)"
    "mb_inv pool" "mb_free_list pool = fs" "mb_room pool = mb_room (blk_pool st)" by blast
  from inv free obtain b where b: "blk_heap st a = Some b" "a \<noteq> nullptr"
    "length (blk_payload b) = unat (cfg_blk_size st)" by (auto simp: blk_inv_def)
  let ?st' = "put_blk a (blk_reset b) (st\<lparr>blk_pool := pool\<rparr>)"
  show thesis
  proof (rule that [of ?st' "blk_reset b"])
    show "get_pktblock st = Some (a, ?st')" using pool b by (simp add: get_pktblock_def)
    show "blk_inv ?st' (a # own)"
      using inv free pool b by (auto simp: blk_inv_def free_blks_def blk_reset_def)
  qed (use pool b in \<open>simp_all add: free_blks_def blk_frame_def blk_reset_def\<close>)
qed

lemma release_pktblock:
  assumes inv: "blk_inv st (a # own)"
  obtains st' where "release_pktblock a st = Some st'" "free_blks st' = free_blks st @ [a]"
    "blk_inv st' own" "blk_heap st' = blk_heap st" "blk_frame UNIV st st'"
proof -
  from inv have "mb_inv (blk_pool st)" "length (mb_free_list (blk_pool st)) < mb_room (blk_pool st)"
    by (simp_all add: blk_inv_def free_blks_def)
  from mb.psh_room [OF this, of a] obtain pool where pool: "mb_free (blk_pool st) a = Some (True, pool)"
    "mb_inv pool" "mb_free_list pool = mb_free_list (blk_pool st) @ [a]"
    "mb_room pool = mb_room (blk_pool st)" by blast
  let ?st' = "st\<lparr>blk_pool := pool\<rparr>"
  show thesis
  proof (rule that)
    show "release_pktblock a st = Some ?st'" using pool by (simp add: release_pktblock_def)
    show "blk_inv ?st' own" using inv pool by (auto simp: blk_inv_def free_blks_def)
  qed (use pool in \<open>simp_all add: free_blks_def blk_frame_def\<close>)
qed

lemma get_pktblock_pending:
  assumes "get_pktblock st = Some (a, st')" "a \<noteq> nullptr"
  shows "rq_pending (mb_queue (blk_pool st')) < rq_pending (mb_queue (blk_pool st))"
proof -
  from assms obtain q where q: "pop (mb_queue (blk_pool st)) = Some (Some a, q)"
    and "mb_queue (blk_pool st') = q"
    by (auto simp: get_pktblock_def mb_alloc_def Option.bind_eq_Some_conv split: option.split_asm)
  with pop_pending [OF q] show ?thesis by simp
qed

subsection \<open>The constructor\<close>

lemma init_blks:
  assumes "mb_inv (blk_pool st)" "free_blks st \<noteq> []"
  shows "\<exists>st'. init_blks junk n st = Some st' \<and> mb_inv (blk_pool st')
     \<and> mb_room (blk_pool st') = mb_room (blk_pool st)
     \<and> free_blks st' = rotate n (free_blks st) \<and> cfg_blk_size st' = cfg_blk_size st
     \<and> buf_heap st' = buf_heap st \<and> buf_pool st' = buf_pool st
     \<and> blk_heap st' = (\<lambda>a. if a \<in> set (take n (free_blks st))
                           then Some (blk_init (cfg_blk_size st) (junk a)) else blk_heap st a)"
  using assms
proof (induction n arbitrary: st)
  case (Suc n)
  from Suc.prems obtain a fs where free: "mb_free_list (blk_pool st) = a # fs"
    by (cases "mb_free_list (blk_pool st)") (auto simp: free_blks_def)
  from mb.rotate [OF Suc.prems(1) free, of a] obtain p1 p2 where
    p1: "mb_alloc (blk_pool st) = Some (Some a, p1)" and
    p2: "mb_free p1 a = Some (True, p2)" "mb_inv p2" "mb_free_list p2 = fs @ [a]"
      "mb_room p2 = mb_room (blk_pool st)" by blast
  define st1 where "st1 = (put_blk a (blk_init (cfg_blk_size st) (junk a))
                            (st\<lparr>blk_pool := p1\<rparr>))\<lparr>blk_pool := p2\<rparr>"
  have st1: "blk_pool st1 = p2" "buf_heap st1 = buf_heap st" "buf_pool st1 = buf_pool st"
    "cfg_blk_size st1 = cfg_blk_size st" "free_blks st1 = fs @ [a]"
    "blk_heap st1 = (blk_heap st)(a \<mapsto> blk_init (cfg_blk_size st) (junk a))"
    using p2 by (simp_all add: st1_def free_blks_def put_blk_def)
  have "mb_inv (blk_pool st1)" "free_blks st1 \<noteq> []" using p2 st1 by simp_all
  from Suc.IH [OF this] obtain st' where st': "init_blks junk n st1 = Some st'"
    "mb_inv (blk_pool st')" "mb_room (blk_pool st') = mb_room (blk_pool st)"
    "free_blks st' = rotate n (fs @ [a])" "cfg_blk_size st' = cfg_blk_size st"
    "buf_heap st' = buf_heap st" "buf_pool st' = buf_pool st"
    "blk_heap st' = (\<lambda>c. if c \<in> set (take n (fs @ [a]))
                         then Some (blk_init (cfg_blk_size st) (junk c)) else blk_heap st1 c)"
    unfolding st1 p2 by blast
  have run: "init_blks junk (Suc n) st = Some st'"
    using st'(1) p1 p2 by (simp add: st1_def)
  have rot: "rotate n (fs @ [a]) = rotate (Suc n) (a # fs)"
    by (simp add: rotate1_rotate_swap)
  have "c \<in> set (take n (fs @ [a])) \<or> c = a \<longleftrightarrow> c \<in> set (take (Suc n) (a # fs))" for c
    by (cases "n \<le> length fs") auto
  then have heap: "blk_heap st' = (\<lambda>c. if c \<in> set (take (Suc n) (a # fs))
                         then Some (blk_init (cfg_blk_size st) (junk c)) else blk_heap st c)"
    by (auto simp: st'(8) st1(6) fun_eq_iff)
  show ?case
    using run st'(2-7) heap free by (intro exI [of _ st']) (simp add: rot free_blks_def)
qed simp

text \<open>The packets: those in the pool have an empty block list, the others are in use.\<close>

definition free_bufs :: "pkt_store \<Rightarrow> addr list" where
  "free_bufs st = mb_free_list (buf_pool st)"

definition bufs_inv :: "pkt_store \<Rightarrow> addr list \<Rightarrow> bool" where
  "bufs_inv st live \<longleftrightarrow> mb_inv (buf_pool st) \<and> distinct (free_bufs st @ live)
     \<and> length (free_bufs st @ live) \<le> mb_room (buf_pool st)
     \<and> (\<forall>p \<in> set (free_bufs st @ live). p \<noteq> nullptr \<and> buf_heap st p \<noteq> None)
     \<and> (\<forall>p \<in> set (free_bufs st). \<forall>b. buf_heap st p = Some b \<longrightarrow> buf_blk_list b = [])"

lemma free_bufs_simps [simp, store_simps]:
  "free_bufs (put_blk a b st) = free_bufs st" "free_bufs (put_buf p c st) = free_bufs st"
  by (simp_all add: free_bufs_def)

lemma init_bufs:
  assumes "mb_inv (buf_pool st)" "free_bufs st \<noteq> []"
  shows "\<exists>st'. init_bufs n st = Some st' \<and> mb_inv (buf_pool st')
     \<and> mb_room (buf_pool st') = mb_room (buf_pool st)
     \<and> free_bufs st' = rotate n (free_bufs st) \<and> cfg_blk_size st' = cfg_blk_size st
     \<and> blk_heap st' = blk_heap st \<and> blk_pool st' = blk_pool st
     \<and> buf_heap st' = (\<lambda>p. if p \<in> set (take n (free_bufs st))
                           then Some pkt_buffer_new else buf_heap st p)"
  using assms
proof (induction n arbitrary: st)
  case (Suc n)
  from Suc.prems obtain a fs where free: "mb_free_list (buf_pool st) = a # fs"
    by (cases "mb_free_list (buf_pool st)") (auto simp: free_bufs_def)
  from mb.rotate [OF Suc.prems(1) free, of a] obtain p1 p2 where
    p1: "mb_alloc (buf_pool st) = Some (Some a, p1)" and
    p2: "mb_free p1 a = Some (True, p2)" "mb_inv p2" "mb_free_list p2 = fs @ [a]"
      "mb_room p2 = mb_room (buf_pool st)" by blast
  define st1 where "st1 = (put_buf a pkt_buffer_new (st\<lparr>buf_pool := p1\<rparr>))\<lparr>buf_pool := p2\<rparr>"
  have st1: "buf_pool st1 = p2" "blk_heap st1 = blk_heap st" "blk_pool st1 = blk_pool st"
    "cfg_blk_size st1 = cfg_blk_size st" "free_bufs st1 = fs @ [a]"
    "buf_heap st1 = (buf_heap st)(a \<mapsto> pkt_buffer_new)"
    using p2 by (simp_all add: st1_def free_bufs_def put_buf_def)
  have "mb_inv (buf_pool st1)" "free_bufs st1 \<noteq> []" using p2 st1 by simp_all
  from Suc.IH [OF this] obtain st' where st': "init_bufs n st1 = Some st'"
    "mb_inv (buf_pool st')" "mb_room (buf_pool st') = mb_room (buf_pool st)"
    "free_bufs st' = rotate n (fs @ [a])" "cfg_blk_size st' = cfg_blk_size st"
    "blk_heap st' = blk_heap st" "blk_pool st' = blk_pool st"
    "buf_heap st' = (\<lambda>c. if c \<in> set (take n (fs @ [a]))
                         then Some pkt_buffer_new else buf_heap st1 c)"
    unfolding st1 p2 by blast
  have run: "init_bufs (Suc n) st = Some st'"
    using st'(1) p1 p2 by (simp add: st1_def)
  have rot: "rotate n (fs @ [a]) = rotate (Suc n) (a # fs)"
    by (simp add: rotate1_rotate_swap)
  have "c \<in> set (take n (fs @ [a])) \<or> c = a \<longleftrightarrow> c \<in> set (take (Suc n) (a # fs))" for c
    by (cases "n \<le> length fs") auto
  then have heap: "buf_heap st' = (\<lambda>c. if c \<in> set (take (Suc n) (a # fs))
                         then Some pkt_buffer_new else buf_heap st c)"
    by (auto simp: st'(8) st1(6) fun_eq_iff)
  show ?case
    using run st'(2-7) heap free by (intro exI [of _ st']) (simp add: rot free_bufs_def)
qed simp

lemma pkt_manager_new_run:
  fixes blk_base buf_base :: addr
  assumes "blk_cnt \<noteq> 0" "unat blk_cnt \<le> 2 ^ 30" "buf_cnt \<noteq> 0" "unat buf_cnt \<le> 2 ^ 30"
  defines "blks \<equiv> map (\<lambda>i. blk_base + i * sizeof_PktBlock) [0 ..< unat (rq_round_size blk_cnt) - 1]"
    and "bufs \<equiv> map (\<lambda>i. buf_base + i * sizeof_PktBuffer) [0 ..< unat (rq_round_size buf_cnt) - 1]"
  obtains st where "pkt_manager_new cfg blk_cnt buf_cnt blk_base buf_base junk = Some st"
    "mb_inv (blk_pool st)" "mb_room (blk_pool st) = length blks"
    "mb_inv (buf_pool st)" "mb_room (buf_pool st) = length bufs" "cfg_blk_size st = cfg"
    "free_blks st = rotate (unat blk_cnt) blks" "free_bufs st = rotate (unat buf_cnt) bufs"
    "blk_heap st = (\<lambda>a. if a \<in> set (take (unat blk_cnt) blks) then Some (blk_init cfg (junk a)) else None)"
    "buf_heap st = (\<lambda>p. if p \<in> set (take (unat buf_cnt) bufs) then Some pkt_buffer_new else None)"
proof -
  have n: "2 \<le> unat (rq_round_size blk_cnt)" "2 \<le> unat (rq_round_size buf_cnt)"
    using assms(2,4) by (auto intro!: rq_round_size(2))
  from mb_new_ok [OF assms(1,2), of blk_base sizeof_PktBlock] obtain mb1 where
    mb1: "mb_new blk_base sizeof_PktBlock blk_cnt = Some (Inr mb1)" "mb_inv mb1"
      "mb_room mb1 = length blks" "mb_free_list mb1 = blks" by (auto simp: blks_def)
  from mb_new_ok [OF assms(3,4), of buf_base sizeof_PktBuffer] obtain mb2 where
    mb2: "mb_new buf_base sizeof_PktBuffer buf_cnt = Some (Inr mb2)" "mb_inv mb2"
      "mb_room mb2 = length bufs" "mb_free_list mb2 = bufs" by (auto simp: bufs_def)
  define st0 where "st0 = \<lparr>cfg_blk_size = cfg, blk_heap = Map.empty, blk_pool = mb1,
                            buf_heap = Map.empty, buf_pool = mb2\<rparr>"
  have st0: "cfg_blk_size st0 = cfg" "blk_heap st0 = Map.empty" "blk_pool st0 = mb1"
    "buf_heap st0 = Map.empty" "buf_pool st0 = mb2" "free_blks st0 = blks"
    using mb1 by (simp_all add: st0_def free_blks_def)
  have "mb_inv (blk_pool st0)" "free_blks st0 \<noteq> []"
    using mb1 n by (auto simp: st0 blks_def)
  from init_blks [OF this, of junk "unat blk_cnt"] obtain st1 where
    st1: "init_blks junk (unat blk_cnt) st0 = Some st1"
    "mb_inv (blk_pool st1)" "mb_room (blk_pool st1) = length blks"
    "free_blks st1 = rotate (unat blk_cnt) blks" "cfg_blk_size st1 = cfg"
    "buf_heap st1 = Map.empty" "buf_pool st1 = mb2"
    "blk_heap st1 = (\<lambda>a. if a \<in> set (take (unat blk_cnt) blks) then Some (blk_init cfg (junk a)) else None)"
    unfolding st0 mb1 by blast
  have bufs1: "free_bufs st1 = bufs" using st1(7) mb2 by (simp add: free_bufs_def)
  have "mb_inv (buf_pool st1)" "free_bufs st1 \<noteq> []"
    using st1(7) mb2 n by (auto simp: bufs1 bufs_def)
  from init_bufs [OF this, of "unat buf_cnt"] obtain st2 where
    st2: "init_bufs (unat buf_cnt) st1 = Some st2"
    "mb_inv (buf_pool st2)" "mb_room (buf_pool st2) = length bufs"
    "free_bufs st2 = rotate (unat buf_cnt) bufs" "cfg_blk_size st2 = cfg_blk_size st1"
    "blk_heap st2 = blk_heap st1" "blk_pool st2 = blk_pool st1"
    "buf_heap st2 = (\<lambda>p. if p \<in> set (take (unat buf_cnt) bufs) then Some pkt_buffer_new else None)"
    unfolding bufs1 st1 mb2 by blast
  show thesis
  proof (rule that)
    show "pkt_manager_new cfg blk_cnt buf_cnt blk_base buf_base junk = Some st2"
      using mb1 mb2 st1(1) st2(1) by (simp add: pkt_manager_new_def st0_def)
    show "free_blks st2 = rotate (unat blk_cnt) blks"
      using st1(4) st2(7) by (simp add: free_blks_def)
  qed (use st1 st2 in simp_all)
qed

lemma get_pktbuffer_cons:
  assumes inv: "bufs_inv st live" and free: "free_bufs st = p # ps"
  obtains st' b where "get_pktbuffer st = Some (p, st')" "p \<noteq> nullptr" "free_bufs st' = ps"
    "bufs_inv st' (p # live)" "buf_heap st p = Some b" "buf_blk_list b = []"
    "buf_heap st' = (buf_heap st)(p \<mapsto> buf_reset b)"
    "blk_heap st' = blk_heap st" "blk_pool st' = blk_pool st" "cfg_blk_size st' = cfg_blk_size st"
    "mb_room (buf_pool st') = mb_room (buf_pool st)"
proof -
  from inv free have "mb_inv (buf_pool st)" "mb_free_list (buf_pool st) = p # ps"
    by (simp_all add: bufs_inv_def free_bufs_def)
  from mb.pp_cons [OF this] obtain pool where pool: "mb_alloc (buf_pool st) = Some (Some p, pool)"
    "mb_inv pool" "mb_free_list pool = ps" "mb_room pool = mb_room (buf_pool st)" by blast
  from inv free obtain b where b: "buf_heap st p = Some b" "p \<noteq> nullptr" "buf_blk_list b = []"
    by (auto simp: bufs_inv_def)
  let ?st' = "put_buf p (buf_reset b) (st\<lparr>buf_pool := pool\<rparr>)"
  show thesis
  proof (rule that)
    show "get_pktbuffer st = Some (p, ?st')" using pool b by (simp add: get_pktbuffer_def)
    show "bufs_inv ?st' (p # live)"
      using inv free pool b by (auto simp: bufs_inv_def free_bufs_def)
  qed (use pool b in \<open>simp_all add: free_bufs_def\<close>)
qed

lemma get_pktbuffer_empty:
  assumes "bufs_inv st live" "free_bufs st = []"
  shows "get_pktbuffer st = Some (nullptr, st)"
  using assms mb.pp_empty [of "buf_pool st"]
  by (simp add: get_pktbuffer_def bufs_inv_def free_bufs_def)

lemma release_pktbuffer:
  assumes inv: "bufs_inv st (p # live)"
    and empty: "\<And>b. buf_heap st p = Some b \<Longrightarrow> buf_blk_list b = []"
  obtains st' where "release_pktbuffer p st = Some st'" "free_bufs st' = free_bufs st @ [p]"
    "bufs_inv st' live" "buf_heap st' = buf_heap st" "blk_heap st' = blk_heap st"
    "blk_pool st' = blk_pool st" "cfg_blk_size st' = cfg_blk_size st"
    "mb_room (buf_pool st') = mb_room (buf_pool st)"
proof -
  from inv have "mb_inv (buf_pool st)" "length (mb_free_list (buf_pool st)) < mb_room (buf_pool st)"
    by (simp_all add: bufs_inv_def free_bufs_def)
  from mb.psh_room [OF this, of p] obtain pool where pool: "mb_free (buf_pool st) p = Some (True, pool)"
    "mb_inv pool" "mb_free_list pool = mb_free_list (buf_pool st) @ [p]"
    "mb_room pool = mb_room (buf_pool st)" by blast
  let ?st' = "st\<lparr>buf_pool := pool\<rparr>"
  show thesis
  proof (rule that)
    show "release_pktbuffer p st = Some ?st'" using pool by (simp add: release_pktbuffer_def)
    show "bufs_inv ?st' live" using inv pool empty by (auto simp: bufs_inv_def free_bufs_def)
  qed (use pool in \<open>simp_all add: free_bufs_def\<close>)
qed

lemma pkt_manager_new_wf:
  assumes "blk_cnt \<noteq> 0" "unat blk_cnt \<le> 2 ^ 30" "buf_cnt \<noteq> 0" "unat buf_cnt \<le> 2 ^ 30"
    and "0 < blk_base" "0 < buf_base"
    and "unat (rq_round_size blk_cnt) - 1 \<le> unat blk_cnt"
    and "unat (rq_round_size buf_cnt) - 1 \<le> unat buf_cnt"
  shows "\<exists>st. pkt_manager_new cfg blk_cnt buf_cnt blk_base buf_base junk = Some st
     \<and> blk_inv st [] \<and> bufs_inv st [] \<and> cfg_blk_size st = cfg
     \<and> length (free_blks st) = unat (rq_round_size blk_cnt) - 1
     \<and> length (free_bufs st) = unat (rq_round_size buf_cnt) - 1"
proof -
  obtain st where st: "pkt_manager_new cfg blk_cnt buf_cnt blk_base buf_base junk = Some st"
    "mb_inv (blk_pool st)" "mb_inv (buf_pool st)" "cfg_blk_size st = cfg"
    and l: "mb_room (blk_pool st) = unat (rq_round_size blk_cnt) - 1"
      "mb_room (buf_pool st) = unat (rq_round_size buf_cnt) - 1"
    and f: "free_blks st = rotate (unat blk_cnt)
        (map (\<lambda>i. blk_base + i * sizeof_PktBlock) [0 ..< unat (rq_round_size blk_cnt) - 1])"
      "free_bufs st = rotate (unat buf_cnt)
        (map (\<lambda>i. buf_base + i * sizeof_PktBuffer) [0 ..< unat (rq_round_size buf_cnt) - 1])"
    and h: "blk_heap st = (\<lambda>a. if a \<in> set (take (unat blk_cnt)
        (map (\<lambda>i. blk_base + i * sizeof_PktBlock) [0 ..< unat (rq_round_size blk_cnt) - 1]))
        then Some (blk_init cfg (junk a)) else None)"
      "buf_heap st = (\<lambda>a. if a \<in> set (take (unat buf_cnt)
        (map (\<lambda>i. buf_base + i * sizeof_PktBuffer) [0 ..< unat (rq_round_size buf_cnt) - 1]))
        then Some pkt_buffer_new else None)"
    by (rule pkt_manager_new_run [OF assms(1-4), of cfg blk_base buf_base junk]) auto
  have "blk_inv st []"
    using st l assms(5,7) by (auto simp: blk_inv_def f h blk_init_def mb_free_list_distinct
        sizeof_PktBlock_def)
  moreover have "bufs_inv st []"
    using st l assms(6,8) by (auto simp: bufs_inv_def f h pkt_buffer_new_def mb_free_list_distinct
        sizeof_PktBuffer_def)
  ultimately show ?thesis using st f by (intro exI [of _ st]) simp
qed

subsection \<open>Properties\<close>

text \<open>
  C9. When the rounding of the block count to a power of two leaves no block over (the count is
  \<open>2 ^ k\<close> or \<open>2 ^ k - 1\<close>), the manager's constructor leaves every free block initialised, all
  blocks and packets distinct and free, and room for every release. One block less than the
  rounded count is ever handed out: the last push of \<open>MemBlock\<close>'s constructor is refused.
\<close>

theorem pkt_manager_new_ok:
  assumes "blk_cnt \<noteq> 0" "unat blk_cnt \<le> 2 ^ 30" "buf_cnt \<noteq> 0" "unat buf_cnt \<le> 2 ^ 30"
    and "0 < blk_base" "0 < buf_base"
    and "unat (rq_round_size blk_cnt) - 1 \<le> unat blk_cnt"
    and "unat (rq_round_size buf_cnt) - 1 \<le> unat buf_cnt"
  shows "\<exists>st. pkt_manager_new cfg blk_cnt buf_cnt blk_base buf_base junk = Some st
     \<and> blk_inv st [] \<and> bufs_inv st [] \<and> cfg_blk_size st = cfg
     \<and> length (free_blks st) = unat (rq_round_size blk_cnt) - 1
     \<and> length (free_bufs st) = unat (rq_round_size buf_cnt) - 1"
  using pkt_manager_new_wf [OF assms] .

theorem pkt_manager_new_ok_witness:
  "\<exists>st. pkt_manager_new 64 4 7 1000 2000 (\<lambda>a i. 0) = Some st \<and> blk_inv st [] \<and> bufs_inv st []
     \<and> length (free_blks st) = 3 \<and> length (free_bufs st) = 7"
  using pkt_manager_new_ok [of 4 7 1000 2000 64 "\<lambda>a i. 0"]
  by (auto simp: rq_round_size_def is_power_of_two_def round_uppower_of_two_def
      ceil_power_of_two_def word_le_nat_alt)

text \<open>
  For every other count the rounding leaves blocks that the constructor never initialises, and
  after its loop one of them is at the head of the pool: the first \<open>get_pktblock\<close> reads the
  indeterminate members of an object that was never constructed.
\<close>

theorem pkt_manager_uninitialised_block:
  assumes "unat blk_cnt \<le> 2 ^ 30" "buf_cnt \<noteq> 0" "unat buf_cnt \<le> 2 ^ 30"
    and "blk_cnt \<noteq> 0" "unat blk_cnt < unat (rq_round_size blk_cnt) - 1"
  shows "\<exists>st. pkt_manager_new cfg blk_cnt buf_cnt blk_base buf_base junk = Some st
     \<and> get_pktblock st = None"
proof -
  let ?blks = "map (\<lambda>i. blk_base + i * sizeof_PktBlock) [0 ..< unat (rq_round_size blk_cnt) - 1]"
  obtain st where st: "pkt_manager_new cfg blk_cnt buf_cnt blk_base buf_base junk = Some st"
    "mb_inv (blk_pool st)" "free_blks st = rotate (unat blk_cnt) ?blks"
    "blk_heap st = (\<lambda>a. if a \<in> set (take (unat blk_cnt) ?blks)
                        then Some (blk_init cfg (junk a)) else None)"
    by (rule pkt_manager_new_run [OF assms(4,1,2,3), of cfg blk_base buf_base junk]) auto
  let ?a = "blk_base + unat blk_cnt * sizeof_PktBlock"
  have "mb_free_list (blk_pool st) = ?a # tl (mb_free_list (blk_pool st))"
    using st(3) upt_conv_Cons [OF assms(5)] assms(5)
    by (simp add: free_blks_def rotate_drop_take drop_map take_map)
  from mb.pp_cons [OF st(2) this] obtain pool where "mb_alloc (blk_pool st) = Some (Some ?a, pool)"
    by blast
  moreover have "blk_heap st ?a = None"
    using assms(5) by (auto simp: st(4) take_map take_upt sizeof_PktBlock_def)
  ultimately have "get_pktblock st = None" by (simp add: get_pktblock_def)
  then show ?thesis using st(1) by blast
qed

theorem pkt_manager_uninitialised_block_witness:
  "\<exists>st. pkt_manager_new 64 5 1 1000 2000 (\<lambda>a i. 0) = Some st \<and> get_pktblock st = None"
  using pkt_manager_uninitialised_block [of 5 1 64 1000 2000 "\<lambda>a i. 0"]
  by (auto simp: rq_round_size_def is_power_of_two_def round_uppower_of_two_def
      ceil_power_of_two_def word_le_nat_alt)

end
