(* ===== verification/PktBuf.thy ===== *)
theory PktBuf
  imports PktStore
begin

text \<open>
  The operations of \<open>PktBuffer\<close> that change the shape of a packet (\<open>src/net/pktbuf.cc\<close>):
  allocation, freeing, headers, resizing, merging and making the header contiguous. Each takes the
  address of the packet and the store, and returns the C++ result and the new store.
\<close>

subsection \<open>The cursor under changes of the list\<close>

text \<open>
  A \<open>std::list\<close> iterator keeps pointing to its node: a push at the front moves its index, and the
  erasure of its node makes it dangle.
\<close>

fun cur_push_front :: "cursor \<Rightarrow> cursor" where
  "cur_push_front (At i) = At (Suc i)"
| "cur_push_front c = c"

fun cur_erase :: "nat \<Rightarrow> cursor \<Rightarrow> cursor" where
  "cur_erase k (At i) = (if i = k then Dangling else if k < i then At (i - 1) else At i)"
| "cur_erase k c = c"

fun cur_clear :: "cursor \<Rightarrow> cursor" where
  "cur_clear (At i) = Dangling"
| "cur_clear c = c"

subsection \<open>Allocation and release\<close>

definition access_start :: "pkt_buffer \<Rightarrow> pkt_store \<Rightarrow> pkt_buffer option" where
  "access_start b st =
     (case buf_blk_list b of
        [] \<Rightarrow> Some (b\<lparr>buf_pos := 0, buf_cur_blk := End, buf_blk_offset := None\<rparr>)
      | a # _ \<Rightarrow> do {
          blk \<leftarrow> blk_heap st a;
          Some (b\<lparr>buf_pos := 0, buf_cur_blk := At 0, buf_blk_offset := Some (a, blk_data blk)\<rparr>)
        })"

definition reset_access :: "addr \<Rightarrow> pkt_store \<Rightarrow> pkt_store option" where
  "reset_access p st = do {
     b \<leftarrow> buf_heap st p;
     b' \<leftarrow> access_start b st;
     Some (put_buf p b' st)
   }"

definition get_data :: "addr \<Rightarrow> pkt_store \<Rightarrow> (addr \<times> nat) option option" where
  "get_data p st = do {
     b \<leftarrow> buf_heap st p;
     (case buf_blk_list b of
        [] \<Rightarrow> Some None
      | a # _ \<Rightarrow> do { blk \<leftarrow> blk_heap st a; Some (Some (a, blk_data blk)) })
   }"

text \<open>Releasing a list of blocks, front to back.\<close>

primrec release_blks :: "addr list \<Rightarrow> pkt_store \<Rightarrow> pkt_store option" where
  "release_blks [] st = Some st"
| "release_blks (a # as) st = do { st' \<leftarrow> release_pktblock a st; release_blks as st' }"

text \<open>The allocation loop; \<open>blk_list\<close> is the vector of the blocks allocated so far.\<close>

function alloc_blks :: "u32 \<Rightarrow> bool \<Rightarrow> addr list \<Rightarrow> pkt_store
    \<Rightarrow> (bool \<times> addr list \<times> pkt_store) option" where
  "alloc_blks sz alloc_front blk_list st =
     (if sz = 0 then Some (True, blk_list, st)
      else do {
        (blk, st1) \<leftarrow> get_pktblock st;
        (if blk = nullptr
         then do { st2 \<leftarrow> release_blks blk_list st1; Some (False, blk_list, st2) }
         else do {
           b \<leftarrow> blk_heap st1 blk;
           let cur_size = min sz (cfg_blk_size st1);
           b' \<leftarrow> blk_set_data (b\<lparr>blk_size := cur_size\<rparr>)
                  (if alloc_front then unat (cfg_blk_size st1) - unat cur_size else 0);
           alloc_blks (sz - cur_size) alloc_front (blk_list @ [blk]) (put_blk blk b' st1)
         })
      })"
  by pat_completeness auto
termination
  by (relation "measure (\<lambda>(_, _, _, st). rq_pending (mb_queue (blk_pool st)))")
     (auto dest: get_pktblock_pending)

declare alloc_blks.simps [simp del]

text \<open>How the new blocks join the list: the four cases push one by one, front or back.\<close>

definition join_blks :: "bool \<Rightarrow> bool \<Rightarrow> addr list \<Rightarrow> addr list \<Rightarrow> addr list" where
  "join_blks alloc_front insert_front blk_list l =
     (if insert_front
      then (if alloc_front then fold (\<lambda>a l. a # l) blk_list l
            else fold (\<lambda>a l. a # l) (rev blk_list) l)
      else (if alloc_front then fold (\<lambda>a l. l @ [a]) (rev blk_list) l
            else fold (\<lambda>a l. l @ [a]) blk_list l))"

definition buf_alloc :: "addr \<Rightarrow> u32 \<Rightarrow> bool \<Rightarrow> bool \<Rightarrow> pkt_store \<Rightarrow> (bool \<times> pkt_store) option" where
  "buf_alloc p sz alloc_front insert_front st = do {
     b \<leftarrow> buf_heap st p;
     let b1 = b\<lparr>buf_capacity := buf_capacity b + sz, buf_ref := 1\<rparr>;
     (ok, blks, st1) \<leftarrow> alloc_blks sz alloc_front [] st;
     (if \<not> ok then Some (False, put_buf p (b1\<lparr>buf_capacity := buf_capacity b1 - sz\<rparr>) st1)
      else do {
        b2 \<leftarrow> access_start
               (b1\<lparr>buf_blk_list := join_blks alloc_front insert_front blks (buf_blk_list b1)\<rparr>) st1;
        Some (True, put_buf p b2 st1)
      })
   }"

text \<open>
  \<open>free\<close> always returns true; the last reference gives the blocks and the packet back, and the
  capacity is cleared after the packet is already in the pool.
\<close>

definition buf_free :: "addr \<Rightarrow> pkt_store \<Rightarrow> pkt_store option" where
  "buf_free p st = do {
     b \<leftarrow> buf_heap st p;
     let b1 = b\<lparr>buf_ref := buf_ref b - 1\<rparr>;
     (if buf_ref b1 = 0
      then do {
        st1 \<leftarrow> release_blks (buf_blk_list b1) st;
        let b2 = b1\<lparr>buf_blk_list := [],
                   buf_cur_blk := (if buf_blk_list b1 = [] then buf_cur_blk b1
                                   else cur_clear (buf_cur_blk b1))\<rparr>;
        st2 \<leftarrow> release_pktbuffer p (put_buf p b2 st1);
        Some (put_buf p (b2\<lparr>buf_capacity := 0\<rparr>) st2)
      }
      else Some (put_buf p b1 st))
   }"

definition add_ref :: "addr \<Rightarrow> pkt_store \<Rightarrow> pkt_store option" where
  "add_ref p st = do {
     b \<leftarrow> buf_heap st p;
     Some (put_buf p (b\<lparr>buf_ref := buf_ref b + 1\<rparr>) st)
   }"

subsection \<open>Headers\<close>

text \<open>
  In the contiguous case the source pushes the new block's pointer before it tests it for null, so
  an exhausted pool leaves a null pointer at the front of the list.
\<close>

definition alloc_header :: "addr \<Rightarrow> u32 \<Rightarrow> bool \<Rightarrow> pkt_store \<Rightarrow> (net_err \<times> pkt_store) option" where
  "alloc_header p sz is_cont st = do {
     b \<leftarrow> buf_heap st p;
     (case buf_blk_list b of
        [] \<Rightarrow> Some (NET_ERR_EMPTY, st)
      | first # rest \<Rightarrow> do {
          fb \<leftarrow> blk_heap st first;
          let pre_size = blk_data fb;
          (if unat sz \<le> pre_size
           then do {
             fb' \<leftarrow> blk_set_data fb (blk_data fb - unat sz);
             Some (NET_ERR_OK, put_buf p (b\<lparr>buf_capacity := buf_capacity b + sz\<rparr>)
                                 (put_blk first (fb'\<lparr>blk_size := blk_size fb' + sz\<rparr>) st))
           }
           else if is_cont
           then (if cfg_blk_size st < sz then Some (NET_ERR_SIZE, st)
                 else do {
                   (blk, st1) \<leftarrow> get_pktblock st;
                   let b1 = b\<lparr>buf_blk_list := blk # buf_blk_list b,
                             buf_cur_blk := cur_push_front (buf_cur_blk b)\<rparr>;
                   (if blk = nullptr then Some (NET_ERR_NONE, put_buf p b1 st1)
                    else do {
                      nb \<leftarrow> blk_heap st1 blk;
                      nb' \<leftarrow> blk_set_data nb (unat (cfg_blk_size st1) - unat sz);
                      Some (NET_ERR_OK, put_buf p (b1\<lparr>buf_capacity := buf_capacity b1 + sz\<rparr>)
                                          (put_blk blk (nb'\<lparr>blk_size := sz\<rparr>) st1))
                    })
                 })
           else do {
             fb' \<leftarrow> blk_set_data fb 0;
             let st1 = put_buf p (b\<lparr>buf_capacity := buf_capacity b + of_nat pre_size\<rparr>)
                         (put_blk first (fb'\<lparr>blk_size := blk_size fb' + of_nat pre_size\<rparr>) st);
             (ok, st2) \<leftarrow> buf_alloc p (sz - of_nat pre_size) True True st1;
             Some (if ok then NET_ERR_OK else NET_ERR_NONE, st2)
           })
        })
   }"

text \<open>
  The loop of \<open>remove_header\<close> over the block list: the front of an empty list is undefined.
\<close>

fun remove_header_loop :: "addr list \<Rightarrow> u32 \<Rightarrow> pkt_buffer \<Rightarrow> pkt_store
    \<Rightarrow> (pkt_buffer \<times> pkt_store) option" where
  "remove_header_loop [] sz b st = (if sz = 0 then Some (b\<lparr>buf_blk_list := []\<rparr>, st) else None)"
| "remove_header_loop (a # as) sz b st =
     (if sz = 0 then Some (b\<lparr>buf_blk_list := a # as\<rparr>, st)
      else do {
        blk \<leftarrow> blk_heap st a;
        (if sz < blk_size blk
         then do {
           blk' \<leftarrow> blk_set_data blk (blk_data blk + unat sz);
           Some (b\<lparr>buf_blk_list := a # as, buf_capacity := buf_capacity b - sz\<rparr>,
                 put_blk a (blk'\<lparr>blk_size := blk_size blk - sz\<rparr>) st)
         }
         else do {
           let cur_size = blk_size blk;
           st1 \<leftarrow> release_pktblock a st;
           remove_header_loop as (sz - cur_size)
             (b\<lparr>buf_capacity := buf_capacity b - cur_size,
               buf_cur_blk := cur_erase 0 (buf_cur_blk b)\<rparr>) st1
         })
      })"

definition remove_header :: "addr \<Rightarrow> u32 \<Rightarrow> pkt_store \<Rightarrow> (net_err \<times> pkt_store) option" where
  "remove_header p sz st = do {
     b \<leftarrow> buf_heap st p;
     check (buf_blk_list b \<noteq> []);
     (b', st1) \<leftarrow> remove_header_loop (buf_blk_list b) sz b st;
     Some (NET_ERR_OK, put_buf p b' st1)
   }"

subsection \<open>Resizing\<close>

text \<open>
  The search of the block where the packet will end: the blocks up to it, and those behind it.
  Running off the list dereferences its end iterator.
\<close>

fun resize_find :: "addr list \<Rightarrow> addr list \<Rightarrow> u32 \<Rightarrow> u32 \<Rightarrow> pkt_store
    \<Rightarrow> (addr list \<times> addr \<times> addr list) option" where
  "resize_find pre [] total_size sz st = None"
| "resize_find pre (a # as) total_size sz st = do {
     blk \<leftarrow> blk_heap st a;
     let total_size' = total_size + blk_size blk;
     (if sz \<le> total_size' then Some (pre @ [a], a, as)
      else resize_find (pre @ [a]) as total_size' sz st)
   }"

text \<open>
  The loop that deletes the blocks behind it. The source erases the node first and then releases
  \<open>*it\<close>, which by then is the next node: the block of the erased node is never released, and at the
  last node the end iterator is dereferenced.
\<close>

fun resize_erase :: "addr list \<Rightarrow> u32 \<Rightarrow> pkt_store \<Rightarrow> (u32 \<times> pkt_store) option" where
  "resize_erase [] cap st = Some (cap, st)"
| "resize_erase (a # as) cap st = do {
     blk \<leftarrow> blk_heap st a;
     (case as of
        [] \<Rightarrow> None
      | nxt # _ \<Rightarrow> do {
          st1 \<leftarrow> release_pktblock nxt st;
          resize_erase as (cap - blk_size blk) st1
        })
   }"

definition resize_shrink :: "addr \<Rightarrow> u32 \<Rightarrow> pkt_store \<Rightarrow> (net_err \<times> pkt_store) option" where
  "resize_shrink p sz st = do {
     b \<leftarrow> buf_heap st p;
     (kept, tail_blk, behind) \<leftarrow> resize_find [] (buf_blk_list b) 0 sz st;
     (cap, st1) \<leftarrow> resize_erase behind (buf_capacity b) st;
     tb \<leftarrow> blk_heap st1 tail_blk;
     let pre_list_size = cap - blk_size tb;
     let tb' = tb\<lparr>blk_size := sz - pre_list_size\<rparr>;
     Some (NET_ERR_OK, put_buf p (b\<lparr>buf_blk_list := kept, buf_capacity := pre_list_size + blk_size tb'\<rparr>)
                         (put_blk tail_blk tb' st1))
   }"

definition resize_grow :: "addr \<Rightarrow> u32 \<Rightarrow> pkt_store \<Rightarrow> (net_err \<times> pkt_store) option" where
  "resize_grow p sz st = do {
     b \<leftarrow> buf_heap st p;
     check (buf_blk_list b \<noteq> []);
     let tail_blk = last (buf_blk_list b);
     tb \<leftarrow> blk_heap st tail_blk;
     let last_size = blk_get_last_size (cfg_blk_size st) tb;
     (if ucast sz \<le> last_size
      then Some (NET_ERR_OK, put_buf p (b\<lparr>buf_capacity := buf_capacity b + sz\<rparr>)
                               (put_blk tail_blk (tb\<lparr>blk_size := blk_size tb + sz\<rparr>) st))
      else do {
        let cap = buf_capacity b + ucast last_size;
        let st1 = put_buf p (b\<lparr>buf_capacity := cap\<rparr>)
                    (put_blk tail_blk (tb\<lparr>blk_size := blk_size tb + ucast last_size\<rparr>) st);
        (ok, st2) \<leftarrow> buf_alloc p (sz - cap) False False st1;
        Some (if ok then NET_ERR_OK else NET_ERR_MEM, st2)
      })
   }"

definition resize :: "addr \<Rightarrow> u32 \<Rightarrow> pkt_store \<Rightarrow> (net_err \<times> pkt_store) option" where
  "resize p sz st = do {
     b \<leftarrow> buf_heap st p;
     (if sz = buf_capacity b then Some (NET_ERR_OK, st)
      else if buf_capacity b = 0
      then do {
        (ok, st1) \<leftarrow> buf_alloc p sz False False st;
        Some (if ok then NET_ERR_OK else NET_ERR_MEM, st1)
      }
      else if buf_capacity b < sz then resize_grow p sz st
      else if sz = 0 then do { st1 \<leftarrow> buf_free p st; Some (NET_ERR_OK, st1) }
      else resize_shrink p sz st)
   }"

subsection \<open>Merging, and a contiguous header\<close>

text \<open>
  \<open>splice\<close> moves the nodes of the other packet's list behind this one's; splicing a list into itself
  is undefined. The iterator of this packet stays on its node, an end iterator stays the end.
\<close>

definition merge_buf :: "addr \<Rightarrow> addr \<Rightarrow> pkt_store \<Rightarrow> (net_err \<times> pkt_store) option" where
  "merge_buf p q st = do {
     check (p \<noteq> q);
     b \<leftarrow> buf_heap st p;
     c \<leftarrow> buf_heap st q;
     let st1 = put_buf p (b\<lparr>buf_blk_list := buf_blk_list b @ buf_blk_list c,
                           buf_capacity := buf_capacity b + buf_capacity c\<rparr>)
                 (put_buf q (c\<lparr>buf_blk_list := []\<rparr>) st);
     st2 \<leftarrow> release_pktbuffer q st1;
     Some (NET_ERR_OK, st2)
   }"

text \<open>
  The loop of \<open>set_cont_header\<close>: \<open>rest\<close> are the blocks from the iterator on, \<open>ptr\<close> the write position in
  the first block's payload. A block that is not emptied ends the loop, since then all of
  \<open>remain_size\<close> came out of it.
\<close>

fun cont_header_loop :: "addr \<Rightarrow> addr list \<Rightarrow> u32 \<Rightarrow> nat \<Rightarrow> cursor \<Rightarrow> pkt_store
    \<Rightarrow> (addr list \<times> cursor \<times> pkt_store) option" where
  "cont_header_loop first_blk [] remain_size ptr cur st = Some ([], cur, st)"
| "cont_header_loop first_blk (a # as) remain_size ptr cur st =
     (if remain_size = 0 then Some (a # as, cur, st)
      else do {
        now_blk \<leftarrow> blk_heap st a;
        let cur_size = min remain_size (blk_size now_blk);
        chunk \<leftarrow> bytes_get (blk_payload now_blk) (blk_data now_blk) (unat cur_size);
        fb \<leftarrow> blk_heap st first_blk;
        payload \<leftarrow> bytes_put (blk_payload fb) ptr chunk;
        let st1 = put_blk first_blk
                    (fb\<lparr>blk_payload := payload, blk_size := blk_size fb + cur_size\<rparr>) st;
        now1 \<leftarrow> blk_heap st1 a;
        now2 \<leftarrow> blk_set_data now1 (blk_data now1 + unat cur_size);
        let now_blk' = now2\<lparr>blk_size := blk_size now2 - cur_size\<rparr>;
        let st2 = put_blk a now_blk' st1;
        (if blk_size now_blk' = 0
         then do {
           st3 \<leftarrow> release_pktblock a st2;
           cont_header_loop first_blk as (remain_size - cur_size) (ptr + unat cur_size)
             (cur_erase 1 cur) st3
         }
         else Some (a # as, cur, st2))
      })"

definition set_cont_header :: "addr \<Rightarrow> u32 \<Rightarrow> pkt_store \<Rightarrow> (net_err \<times> pkt_store) option" where
  "set_cont_header p sz st = do {
     b \<leftarrow> buf_heap st p;
     (if buf_capacity b < sz then Some (NET_ERR_SIZE, st)
      else if cfg_blk_size st < sz then Some (NET_ERR_SIZE, st)
      else (case buf_blk_list b of
        [] \<Rightarrow> None
      | first_blk # rest \<Rightarrow> do {
          fb \<leftarrow> blk_heap st first_blk;
          let first_size = blk_size fb;
          (if sz \<le> first_size then Some (NET_ERR_OK, st)
           else do {
             chunk \<leftarrow> bytes_get (blk_payload fb) (blk_data fb) (unat first_size);
             payload \<leftarrow> bytes_put (blk_payload fb) 0 chunk;
             let st1 = put_blk first_blk (fb\<lparr>blk_payload := payload, blk_data := 0\<rparr>) st;
             (rest', cur', st2) \<leftarrow> cont_header_loop first_blk rest (sz - first_size)
                                    (unat first_size) (buf_cur_blk b) st1;
             Some (NET_ERR_OK, put_buf p (b\<lparr>buf_blk_list := first_blk # rest', buf_cur_blk := cur'\<rparr>) st2)
           })
        }))
   }"

subsection \<open>The packet as a byte string\<close>

text \<open>
  Abstraction: the bytes a packet holds are the used parts of its blocks, in order. \<open>pkt_inv\<close> is the
  class invariant: the packet owns its blocks, each is used within its payload and not empty, and
  the capacity is the number of bytes; \<open>rest\<close> are the blocks the other packets own.
\<close>

definition blk_ok :: "u32 \<Rightarrow> pkt_block \<Rightarrow> bool" where
  "blk_ok cfg b \<longleftrightarrow> length (blk_payload b) = unat cfg \<and> blk_data b + unat (blk_size b) \<le> unat cfg
     \<and> 0 < unat (blk_size b)"

definition blk_bytes :: "pkt_block \<Rightarrow> u8 list" where
  "blk_bytes b = take (unat (blk_size b)) (drop (blk_data b) (blk_payload b))"

definition blks_ok :: "u32 \<Rightarrow> (addr \<rightharpoonup> pkt_block) \<Rightarrow> addr list \<Rightarrow> bool" where
  "blks_ok cfg h l \<longleftrightarrow> (\<forall>a \<in> set l. \<exists>b. h a = Some b \<and> blk_ok cfg b)"

definition blks_bytes :: "(addr \<rightharpoonup> pkt_block) \<Rightarrow> addr list \<Rightarrow> u8 list" where
  "blks_bytes h l = concat (map (\<lambda>a. blk_bytes (the (h a))) l)"

definition pkt_inv :: "pkt_store \<Rightarrow> addr \<Rightarrow> addr list \<Rightarrow> bool" where
  "pkt_inv st p rest \<longleftrightarrow> (\<exists>b. buf_heap st p = Some b \<and> blk_inv st (buf_blk_list b @ rest)
     \<and> blks_ok (cfg_blk_size st) (blk_heap st) (buf_blk_list b)
     \<and> length (blks_bytes (blk_heap st) (buf_blk_list b)) = unat (buf_capacity b))"

definition pkt_bytes :: "pkt_store \<Rightarrow> addr \<Rightarrow> u8 list" where
  "pkt_bytes st p = (case buf_heap st p of None \<Rightarrow> []
                     | Some b \<Rightarrow> blks_bytes (blk_heap st) (buf_blk_list b))"

text \<open>What an operation on packet \<open>p\<close> leaves alone: the other packets and their blocks.\<close>

definition pkt_frame :: "addr \<Rightarrow> addr list \<Rightarrow> pkt_store \<Rightarrow> pkt_store \<Rightarrow> bool" where
  "pkt_frame p rest st st' \<longleftrightarrow> cfg_blk_size st' = cfg_blk_size st \<and> buf_pool st' = buf_pool st
     \<and> mb_room (blk_pool st') = mb_room (blk_pool st)
     \<and> (\<forall>q. q \<noteq> p \<longrightarrow> buf_heap st' q = buf_heap st q) \<and> buf_heap st' p \<noteq> None
     \<and> (\<forall>a \<in> set rest. blk_heap st' a = blk_heap st a)"

named_theorems bytes_simps \<open>the byte-string view of block lists\<close>

lemma blks_bytes_simps [simp, bytes_simps]:
  "blks_bytes h [] = []"
  "blks_bytes h (a # l) = blk_bytes (the (h a)) @ blks_bytes h l"
  "blks_bytes h (l @ m) = blks_bytes h l @ blks_bytes h m"
  by (simp_all add: blks_bytes_def)

lemma blks_ok_simps [simp]:
  "blks_ok cfg h []"
  "blks_ok cfg h (a # l) \<longleftrightarrow> (\<exists>b. h a = Some b \<and> blk_ok cfg b) \<and> blks_ok cfg h l"
  "blks_ok cfg h (l @ m) \<longleftrightarrow> blks_ok cfg h l \<and> blks_ok cfg h m"
  "blks_ok cfg h (rev l) \<longleftrightarrow> blks_ok cfg h l"
  by (auto simp: blks_ok_def)

lemma blks_cong:
  assumes "\<And>a. a \<in> set l \<Longrightarrow> h' a = h a"
  shows "blks_bytes h' l = blks_bytes h l" "blks_ok cfg h' l = blks_ok cfg h l"
  using assms by (induction l) (simp_all add: blks_bytes_def)

lemma blks_upd [simp]:
  "a \<notin> set l \<Longrightarrow> blks_bytes (h(a \<mapsto> b)) l = blks_bytes h l"
  "a \<notin> set l \<Longrightarrow> blks_ok cfg (h(a \<mapsto> b)) l = blks_ok cfg h l"
  by (rule blks_cong; auto)+

lemma length_blk_bytes: "blk_ok cfg b \<Longrightarrow> length (blk_bytes b) = unat (blk_size b)"
  by (auto simp: blk_ok_def blk_bytes_def)

lemma length_blks_bytes_rev: "length (blks_bytes h (rev l)) = length (blks_bytes h l)"
  by (induction l) simp_all

lemma blks_bytes_Nil_iff: "blks_ok cfg h l \<Longrightarrow> blks_bytes h l = [] \<longleftrightarrow> l = []"
  by (cases l) (auto simp: blk_ok_def blk_bytes_def)

lemma pkt_inv_bytes:
  assumes "pkt_inv st p rest"
  obtains b where "buf_heap st p = Some b" "blk_inv st (buf_blk_list b @ rest)"
    "blks_ok (cfg_blk_size st) (blk_heap st) (buf_blk_list b)"
    "pkt_bytes st p = blks_bytes (blk_heap st) (buf_blk_list b)"
    "length (pkt_bytes st p) = unat (buf_capacity b)"
  using assms by (auto simp: pkt_inv_def pkt_bytes_def)

lemma pkt_frame_refl: "buf_heap st p \<noteq> None \<Longrightarrow> pkt_frame p rest st st"
  by (simp add: pkt_frame_def)

lemma pkt_frame_trans:
  "pkt_frame p rest st st1 \<Longrightarrow> pkt_frame p rest st1 st2 \<Longrightarrow> pkt_frame p rest st st2"
  by (simp add: pkt_frame_def)

lemma pkt_frame_put_buf:
  "blk_frame A st st' \<Longrightarrow> set rest \<subseteq> A \<Longrightarrow> pkt_frame p rest st (put_buf p b st')"
  by (auto simp: blk_frame_def pkt_frame_def)

lemma blk_frame_put_blk: "a \<notin> A \<Longrightarrow> blk_frame A st (put_blk a b st)"
  by (simp add: blk_frame_def)

subsection \<open>Allocation\<close>

text \<open>The sizes of the blocks that hold \<open>n\<close> bytes in blocks of \<open>c\<close>.\<close>

function chunks :: "nat \<Rightarrow> nat \<Rightarrow> nat list" where
  "chunks c n = (if c = 0 \<or> n = 0 then [] else min n c # chunks c (n - min n c))"
  by pat_completeness auto
termination by (relation "measure snd") auto

declare chunks.simps [simp del]

lemma chunks_0 [simp]: "chunks c 0 = []"
  by (simp add: chunks.simps)

lemma chunks_small: "0 < n \<Longrightarrow> n \<le> c \<Longrightarrow> chunks c n = [n]"
  by (subst chunks.simps) simp

lemma sum_chunks: "0 < c \<Longrightarrow> sum_list (chunks c n) = n"
  by (induction c n rule: chunks.induct) (subst chunks.simps, auto)

lemma length_chunks: "0 < c \<Longrightarrow> length (chunks c n) = (n + c - 1) div c"
proof (induction c n rule: chunks.induct)
  case (1 c n)
  show ?case
  proof (cases "n = 0")
    case False
    then have "length (chunks c n) = Suc (length (chunks c (n - min n c)))"
      using "1.prems" by (subst chunks.simps) simp
    also have "\<dots> = Suc ((n - min n c + c - 1) div c)" using 1 False by simp
    also have "\<dots> = (n + c - 1) div c"
    proof (cases "n \<le> c")
      case True
      then have "(n + c - 1) div c = (n - 1 + 1 * c) div c" using False by simp
      also have "\<dots> = 1 + (n - 1) div c" using "1.prems" by (subst div_mult_self1) simp_all
      also have "\<dots> = 1" using True False by simp
      finally show ?thesis using True "1.prems" by simp
    next
      case False
      then have "n + c - 1 = (n - c + c - 1) + 1 * c" by simp
      then show ?thesis using False "1.prems" by (subst \<open>n + c - 1 = _\<close>, subst div_mult_self1) simp_all
    qed
    finally show ?thesis .
  qed (use "1.prems" in simp)
qed


lemma release_blks:
  assumes "blk_inv st (as @ own)"
  shows "\<exists>st'. release_blks as st = Some st' \<and> free_blks st' = free_blks st @ as
     \<and> blk_inv st' own \<and> blk_heap st' = blk_heap st \<and> blk_frame UNIV st st'"
  using assms
proof (induction as arbitrary: st)
  case (Cons a as)
  then obtain st1 where st1: "release_pktblock a st = Some st1" "free_blks st1 = free_blks st @ [a]"
    "blk_inv st1 (as @ own)" "blk_heap st1 = blk_heap st" "blk_frame UNIV st st1"
    using release_pktblock [of st a "as @ own"] by auto
  from Cons.IH [OF st1(3)] obtain st2 where st2: "release_blks as st1 = Some st2"
    "free_blks st2 = free_blks st1 @ as" "blk_inv st2 own" "blk_heap st2 = blk_heap st1"
    "blk_frame UNIV st1 st2" by blast
  from blk_frame_trans [OF st1(5) st2(5)] st1 st2 show ?case by simp
qed simp

text \<open>What the allocation loop leaves in a new block.\<close>

definition fresh_blk :: "pkt_store \<Rightarrow> bool \<Rightarrow> addr \<Rightarrow> nat \<Rightarrow> bool" where
  "fresh_blk st front a n \<longleftrightarrow> (\<exists>b. blk_heap st a = Some b \<and> unat (blk_size b) = n
     \<and> blk_data b = (if front then unat (cfg_blk_size st) - n else 0)
     \<and> length (blk_payload b) = unat (cfg_blk_size st))"

lemma alloc_blks_step:
  assumes inv: "blk_inv st (acc @ own)" and cfg: "0 < unat (cfg_blk_size st)"
    and ch: "chunks (unat (cfg_blk_size st)) (unat sz) = c # cs" and free: "free_blks st = a # fs"
  obtains st' where "alloc_blks sz front acc st = alloc_blks (sz - min sz (cfg_blk_size st)) front (acc @ [a]) st'"
    "chunks (unat (cfg_blk_size st')) (unat (sz - min sz (cfg_blk_size st))) = cs"
    "blk_inv st' ((acc @ [a]) @ own)" "free_blks st' = fs" "blk_frame (- {a}) st st'"
    "fresh_blk st' front a c" "cfg_blk_size st' = cfg_blk_size st"
proof -
  let ?cfg = "cfg_blk_size st" and ?cur = "min sz (cfg_blk_size st)"
  have n0: "unat sz \<noteq> 0" using ch by (intro notI) simp
  then have sz: "sz \<noteq> 0" by auto
  have "chunks (unat ?cfg) (unat sz) = unat ?cur # chunks (unat ?cfg) (unat (sz - ?cur))"
    using n0 cfg by (subst chunks.simps) (simp add: unat_min unat_sub_le del: unat_eq_0)
  then have c: "c = unat ?cur" and cs: "chunks (unat ?cfg) (unat (sz - ?cur)) = cs"
    using ch by simp_all
  from get_pktblock_cons [OF inv free] obtain st1 b where st1: "get_pktblock st = Some (a, st1)"
    "a \<noteq> nullptr" "free_blks st1 = fs" "blk_inv st1 (a # acc @ own)" "blk_heap st1 a = Some b"
    "length (blk_payload b) = unat ?cfg" "blk_frame (- {a}) st st1" by blast
  then have cfg1: "cfg_blk_size st1 = ?cfg" by (simp add: blk_frame_def)
  let ?off = "if front then unat ?cfg - unat ?cur else 0"
  define b' where "b' = b\<lparr>blk_size := ?cur, blk_data := ?off\<rparr>"
  have b': "blk_set_data (b\<lparr>blk_size := ?cur\<rparr>) ?off = Some b'"
    using st1(6) by (simp add: blk_set_data_def b'_def)
  show thesis
  proof (rule that [of "put_blk a b' st1"])
    show "alloc_blks sz front acc st = alloc_blks (sz - ?cur) front (acc @ [a]) (put_blk a b' st1)"
      using sz st1(1,2,5) b' by (cases front; subst alloc_blks.simps) (simp_all add: cfg1 Let_def)
    show "blk_inv (put_blk a b' st1) ((acc @ [a]) @ own)"
      using st1(4,6) by (subst blk_inv_perm [of _ "a # acc @ own"])
        (auto intro!: blk_inv_put_blk simp: cfg1 b'_def)
    show "fresh_blk (put_blk a b' st1) front a c"
      using st1(6) by (simp add: fresh_blk_def c b'_def cfg1)
    show "blk_frame (- {a}) st (put_blk a b' st1)"
      using st1(7) by (simp add: blk_frame_def)
  qed (use cs st1 in \<open>simp_all add: cfg1\<close>)
qed

lemma alloc_blks_ok:
  assumes "blk_inv st (acc @ own)" "0 < unat (cfg_blk_size st)"
    "chunks (unat (cfg_blk_size st)) (unat sz) = cs" "length cs \<le> length (free_blks st)"
  shows "\<exists>st'. alloc_blks sz front acc st = Some (True, acc @ take (length cs) (free_blks st), st')
     \<and> free_blks st' = drop (length cs) (free_blks st)
     \<and> blk_inv st' (acc @ take (length cs) (free_blks st) @ own)
     \<and> blk_frame (- set (take (length cs) (free_blks st))) st st'
     \<and> list_all2 (fresh_blk st' front) (take (length cs) (free_blks st)) cs"
  using assms
proof (induction cs arbitrary: sz acc st)
  case Nil
  then have "unat sz = 0" by (metis sum_chunks sum_list.Nil)
  then have "sz = 0" by (simp only: unsigned_eq_0_iff)
  then show ?case using Nil by (subst alloc_blks.simps) simp
next
  case (Cons c cs)
  then obtain a fs where free: "free_blks st = a # fs" by (cases "free_blks st") auto
  from alloc_blks_step [OF Cons.prems(1-3) free, of front] obtain st1 where
    st1: "alloc_blks sz front acc st = alloc_blks (sz - min sz (cfg_blk_size st)) front (acc @ [a]) st1"
    "chunks (unat (cfg_blk_size st1)) (unat (sz - min sz (cfg_blk_size st))) = cs"
    "blk_inv st1 ((acc @ [a]) @ own)" "free_blks st1 = fs" "blk_frame (- {a}) st st1"
    "fresh_blk st1 front a c" "cfg_blk_size st1 = cfg_blk_size st" by blast
  have "0 < unat (cfg_blk_size st1)" "length cs \<le> length (free_blks st1)"
    using Cons.prems free st1 by simp_all
  from Cons.IH [OF st1(3) this(1) st1(2) this(2)] obtain st2 where
    st2: "alloc_blks (sz - min sz (cfg_blk_size st)) front (acc @ [a]) st1
        = Some (True, (acc @ [a]) @ take (length cs) fs, st2)"
    "free_blks st2 = drop (length cs) fs" "blk_inv st2 ((acc @ [a]) @ take (length cs) fs @ own)"
    "blk_frame (- set (take (length cs) fs)) st1 st2"
    "list_all2 (fresh_blk st2 front) (take (length cs) fs) cs" unfolding st1(4) by blast
  have "a \<notin> set (take (length cs) fs)"
    using Cons.prems(1) free by (auto simp: blk_inv_def dest: in_set_takeD)
  with st1(6) st2(4) have "fresh_blk st2 front a c" by (auto simp: fresh_blk_def blk_frame_def)
  moreover have "blk_frame (- insert a (set (take (length cs) fs))) st st2"
    by (rule blk_frame_subset_trans [OF st1(5) st2(4)]) auto
  ultimately show ?case using st1(1) st2 free by simp
qed

lemma alloc_blks_fail:
  assumes "blk_inv st (acc @ own)" "0 < unat (cfg_blk_size st)"
    "chunks (unat (cfg_blk_size st)) (unat sz) = cs" "length (free_blks st) < length cs"
  shows "\<exists>st'. alloc_blks sz front acc st = Some (False, acc @ free_blks st, st')
     \<and> free_blks st' = acc @ free_blks st \<and> blk_inv st' own
     \<and> blk_frame (- set (free_blks st)) st st'"
  using assms
proof (induction cs arbitrary: sz acc st)
  case (Cons c cs)
  show ?case
  proof (cases "free_blks st")
    case Nil
    have "sz \<noteq> 0" using Cons.prems(3) by auto
    moreover from Cons.prems(1) obtain st' where "release_blks acc st = Some st'"
      "free_blks st' = free_blks st @ acc" "blk_inv st' own" "blk_frame UNIV st st'"
      using release_blks [of st acc own] by auto
    ultimately show ?thesis using Nil get_pktblock_empty [OF Cons.prems(1) Nil]
      by (subst alloc_blks.simps) simp
  next
    case (Cons a fs)
    from alloc_blks_step [OF \<open>blk_inv st (acc @ own)\<close> Cons.prems(2,3) Cons, of front] obtain st1 where
      st1: "alloc_blks sz front acc st = alloc_blks (sz - min sz (cfg_blk_size st)) front (acc @ [a]) st1"
      "chunks (unat (cfg_blk_size st1)) (unat (sz - min sz (cfg_blk_size st))) = cs"
      "blk_inv st1 ((acc @ [a]) @ own)" "free_blks st1 = fs" "blk_frame (- {a}) st st1"
      "fresh_blk st1 front a c" "cfg_blk_size st1 = cfg_blk_size st" by blast
    have "0 < unat (cfg_blk_size st1)" "length (free_blks st1) < length cs"
      using Cons.prems Cons st1 by simp_all
    from Cons.IH [OF st1(3) this(1) st1(2) this(2)] obtain st2 where
      st2: "alloc_blks (sz - min sz (cfg_blk_size st)) front (acc @ [a]) st1
        = Some (False, (acc @ [a]) @ fs, st2)"
      "free_blks st2 = (acc @ [a]) @ fs" "blk_inv st2 own" "blk_frame (- set fs) st1 st2"
      unfolding st1(4) by blast
    have "blk_frame (- set (a # fs)) st st2"
      by (rule blk_frame_subset_trans [OF st1(5) st2(4)]) auto
    then show ?thesis using st1(1) st2 Cons by simp
  qed
qed simp

lemma join_blks:
  "join_blks front ins blks l = (let blks' = if front then rev blks else blks in
     if ins then blks' @ l else l @ blks')"
proof -
  have "fold (\<lambda>a l. a # l) xs ys = rev xs @ ys" for xs ys :: "addr list"
    by (induction xs arbitrary: ys) simp_all
  moreover have "fold (\<lambda>a l. l @ [a]) xs ys = ys @ xs" for xs ys :: "addr list"
    by (induction xs arbitrary: ys) simp_all
  ultimately show ?thesis by (simp add: join_blks_def Let_def)
qed

lemma fresh_blks:
  assumes "list_all2 (fresh_blk st front) l cs" "\<forall>c \<in> set cs. 0 < c \<and> c \<le> unat (cfg_blk_size st)"
  shows "blks_ok (cfg_blk_size st) (blk_heap st) l
     \<and> length (blks_bytes (blk_heap st) l) = sum_list cs"
  using assms by (induction rule: list_all2_induct)
    (auto simp: fresh_blk_def blk_ok_def blk_bytes_def split: if_splits)

lemma chunks_bounds: "c' \<in> set (chunks c n) \<Longrightarrow> 0 < c' \<and> c' \<le> c"
  by (induction c n rule: chunks.induct) (subst (asm) (2) chunks.simps, auto split: if_splits)


lemma put_buf_put_buf [simp]: "put_buf p b (put_buf p c st) = put_buf p b st"
  by (simp add: put_buf_def)

lemma access_start_put_buf [simp]: "access_start b (put_buf p c st) = access_start b st"
  by (simp add: access_start_def split: list.split)

lemma access_start_ok:
  assumes "blks_ok cfg (blk_heap st) (buf_blk_list b)"
  obtains b' where "access_start b st = Some b'" "access_start b' st = Some b'"
    "buf_blk_list b' = buf_blk_list b" "buf_capacity b' = buf_capacity b" "buf_ref b' = buf_ref b"
proof (cases "buf_blk_list b")
  case Nil
  then show thesis
    by (intro that [of "b\<lparr>buf_pos := 0, buf_cur_blk := End, buf_blk_offset := None\<rparr>"])
      (simp_all add: access_start_def)
next
  case (Cons a l)
  with assms obtain blk where "blk_heap st a = Some blk" by auto
  with Cons show thesis
    by (intro that [of "b\<lparr>buf_pos := 0, buf_cur_blk := At 0, buf_blk_offset := Some (a, blk_data blk)\<rparr>"])
      (simp_all add: access_start_def)
qed

text \<open>The invariant after a change of packet \<open>p\<close>, put back from its parts.\<close>

lemma pkt_inv_put_buf:
  assumes "blk_inv st (buf_blk_list b @ rest)" "blks_ok (cfg_blk_size st) (blk_heap st) (buf_blk_list b)"
    "length (blks_bytes (blk_heap st) (buf_blk_list b)) = unat (buf_capacity b)"
  shows "pkt_inv (put_buf p b st) p rest"
    "pkt_bytes (put_buf p b st) p = blks_bytes (blk_heap st) (buf_blk_list b)"
  using assms by (simp_all add: pkt_inv_def pkt_bytes_def)

lemma blk_frame_cong:
  assumes "blk_frame A st st'" "set l \<subseteq> A"
  shows "blks_bytes (blk_heap st') l = blks_bytes (blk_heap st) l"
    "blks_ok cfg (blk_heap st') l = blks_ok cfg (blk_heap st) l"
    "cfg_blk_size st' = cfg_blk_size st"
proof -
  have "blk_heap st' a = blk_heap st a" if "a \<in> set l" for a
    using assms that by (auto simp: blk_frame_def)
  then show "blks_bytes (blk_heap st') l = blks_bytes (blk_heap st) l"
    "blks_ok cfg (blk_heap st') l = blks_ok cfg (blk_heap st) l" by (rule blks_cong; simp)+
qed (use assms in \<open>simp add: blk_frame_def\<close>)

definition blks_needed :: "pkt_store \<Rightarrow> u32 \<Rightarrow> nat" where
  "blks_needed st sz = length (chunks (unat (cfg_blk_size st)) (unat sz))"

lemma buf_alloc_ok:
  assumes inv: "pkt_inv st p rest" and cfg: "0 < unat (cfg_blk_size st)"
    and wrap: "length (pkt_bytes st p) + unat sz < 2 ^ 32"
    and free: "blks_needed st sz \<le> length (free_blks st)"
  shows "\<exists>st' new. buf_alloc p sz alloc_front ins_front st = Some (True, st') \<and> pkt_inv st' p rest
     \<and> length new = unat sz
     \<and> pkt_bytes st' p = (if ins_front then new @ pkt_bytes st p else pkt_bytes st p @ new)
     \<and> pkt_frame p rest st st' \<and> reset_access p st' = Some st'
     \<and> free_blks st' = drop (blks_needed st sz) (free_blks st)"
proof -
  let ?cs = "chunks (unat (cfg_blk_size st)) (unat sz)"
  define blks where "blks = take (length ?cs) (free_blks st)"
  from inv obtain b where b: "buf_heap st p = Some b" "blk_inv st (buf_blk_list b @ rest)"
    "blks_ok (cfg_blk_size st) (blk_heap st) (buf_blk_list b)"
    "pkt_bytes st p = blks_bytes (blk_heap st) (buf_blk_list b)"
    "length (pkt_bytes st p) = unat (buf_capacity b)" by (rule pkt_inv_bytes)
  have "blk_inv st ([] @ buf_blk_list b @ rest)" using b by simp
  from alloc_blks_ok [OF this cfg refl free [unfolded blks_needed_def], of alloc_front] obtain st1 where
    st1: "alloc_blks sz alloc_front [] st = Some (True, blks, st1)"
      "free_blks st1 = drop (length ?cs) (free_blks st)" "blk_inv st1 (blks @ buf_blk_list b @ rest)"
      "blk_frame (- set blks) st st1" "list_all2 (fresh_blk st1 alloc_front) blks ?cs"
    by (auto simp: blks_def)
  define l where "l = (if alloc_front then rev blks else blks)"
  define l' where "l' = (if ins_front then l @ buf_blk_list b else buf_blk_list b @ l)"
  have disj: "set (buf_blk_list b @ rest) \<subseteq> - set blks" using st1(3) by (auto simp: blk_inv_def)
  then have "set (buf_blk_list b) \<subseteq> - set blks" by auto
  note cong = blk_frame_cong [OF st1(4) this]
  have fresh: "blks_ok (cfg_blk_size st1) (blk_heap st1) blks"
    "length (blks_bytes (blk_heap st1) blks) = unat sz"
    using fresh_blks [OF st1(5)] chunks_bounds cong(3) cfg by (auto simp: sum_chunks)
  have inv': "blk_inv st1 (l' @ rest)"
    using st1(3) by (subst blk_inv_perm [of _ "blks @ buf_blk_list b @ rest"]) (auto simp: l'_def l_def)
  define b1 where "b1 = b\<lparr>buf_capacity := buf_capacity b + sz, buf_ref := 1, buf_blk_list := l'\<rparr>"
  have b1: "buf_blk_list b1 = l'" "buf_capacity b1 = buf_capacity b + sz" by (simp_all add: b1_def)
  have ok: "blks_ok (cfg_blk_size st1) (blk_heap st1) l'"
    using fresh b(3) cong by (auto simp: l'_def l_def)
  then obtain b2 where b2: "access_start b1 st1 = Some b2" "access_start b2 st1 = Some b2"
    "buf_blk_list b2 = l'" "buf_capacity b2 = buf_capacity b + sz"
    using access_start_ok [of "cfg_blk_size st1" st1 b1] unfolding b1 by metis
  have "buf_alloc p sz alloc_front ins_front st = Some (True, put_buf p b2 st1)"
    using b(1) st1(1) b2(1)
    by (cases alloc_front; cases ins_front)
      (simp_all add: buf_alloc_def Let_def join_blks b1_def l'_def l_def)
  moreover have len: "length (blks_bytes (blk_heap st1) l') = unat (buf_capacity b2)"
    using wrap b fresh cong by (auto simp: b2 l'_def l_def length_blks_bytes_rev unat_add_no_wrap)
  moreover note pkt_inv_put_buf [of st1 b2 rest p, unfolded b2(3), OF inv' ok len]
  moreover have "pkt_frame p rest st (put_buf p b2 st1)"
    using disj by (intro pkt_frame_put_buf [OF st1(4)]) auto
  moreover have "reset_access p (put_buf p b2 st1) = Some (put_buf p b2 st1)"
    using b2 by (simp add: reset_access_def)
  moreover have "length (blks_bytes (blk_heap st1) l) = unat sz"
    using fresh by (auto simp: l_def length_blks_bytes_rev)
  ultimately show ?thesis using b(4) cong st1(2)
    by (intro exI [of _ "put_buf p b2 st1"] exI [of _ "blks_bytes (blk_heap st1) l"])
      (simp add: l'_def blks_needed_def)
qed

lemma buf_alloc_fail:
  assumes inv: "pkt_inv st p rest" and cfg: "0 < unat (cfg_blk_size st)"
    and free: "length (free_blks st) < blks_needed st sz"
  shows "\<exists>st'. buf_alloc p sz alloc_front ins_front st = Some (False, st') \<and> pkt_inv st' p rest
     \<and> pkt_bytes st' p = pkt_bytes st p \<and> pkt_frame p rest st st' \<and> free_blks st' = free_blks st"
proof -
  from inv obtain b where b: "buf_heap st p = Some b" "blk_inv st (buf_blk_list b @ rest)"
    "blks_ok (cfg_blk_size st) (blk_heap st) (buf_blk_list b)"
    "pkt_bytes st p = blks_bytes (blk_heap st) (buf_blk_list b)"
    "length (pkt_bytes st p) = unat (buf_capacity b)" by (rule pkt_inv_bytes)
  have "blk_inv st ([] @ buf_blk_list b @ rest)" using b by simp
  from alloc_blks_fail [OF this cfg refl free [unfolded blks_needed_def], of alloc_front] obtain st1 where
    st1: "alloc_blks sz alloc_front [] st = Some (False, free_blks st, st1)"
      "free_blks st1 = free_blks st" "blk_inv st1 (buf_blk_list b @ rest)"
      "blk_frame (- set (free_blks st)) st st1" by auto
  have disj: "set (buf_blk_list b @ rest) \<subseteq> - set (free_blks st)" using b(2) by (auto simp: blk_inv_def)
  then have "set (buf_blk_list b) \<subseteq> - set (free_blks st)" by auto
  note cong = blk_frame_cong [OF st1(4) this]
  define b1 where "b1 = b\<lparr>buf_ref := 1\<rparr>"
  have b1: "buf_blk_list b1 = buf_blk_list b" "buf_capacity b1 = buf_capacity b" by (simp_all add: b1_def)
  have "buf_alloc p sz alloc_front ins_front st = Some (False, put_buf p b1 st1)"
    using b(1) st1(1) by (simp add: buf_alloc_def b1_def)
  moreover have "pkt_frame p rest st (put_buf p b1 st1)"
    using disj by (intro pkt_frame_put_buf [OF st1(4)]) auto
  moreover note pkt_inv_put_buf [of st1 b1 rest p]
  ultimately show ?thesis using b cong st1
    by (intro exI [of _ "put_buf p b1 st1"]) (simp add: b1)
qed

subsection \<open>Freeing\<close>

lemma buf_free_release:
  assumes inv: "pkt_inv st p rest" and bufs: "bufs_inv st (p # live)"
    and b: "buf_heap st p = Some b" "buf_ref b = 1"
  shows "\<exists>st'. buf_free p st = Some st' \<and> blk_inv st' rest \<and> bufs_inv st' live
     \<and> free_blks st' = free_blks st @ buf_blk_list b \<and> free_bufs st' = free_bufs st @ [p]
     \<and> blk_heap st' = blk_heap st \<and> cfg_blk_size st' = cfg_blk_size st
     \<and> (\<forall>q. q \<noteq> p \<longrightarrow> buf_heap st' q = buf_heap st q)"
proof -
  from inv b have "blk_inv st (buf_blk_list b @ rest)" by (auto simp: pkt_inv_def)
  from release_blks [OF this] obtain st1 where st1: "release_blks (buf_blk_list b) st = Some st1"
    "free_blks st1 = free_blks st @ buf_blk_list b" "blk_inv st1 rest" "blk_heap st1 = blk_heap st"
    "blk_frame UNIV st st1" by blast
  then have fr: "buf_heap st1 = buf_heap st" "buf_pool st1 = buf_pool st"
    "cfg_blk_size st1 = cfg_blk_size st" by (simp_all add: blk_frame_def)
  define b2 where "b2 = b\<lparr>buf_ref := buf_ref b - 1, buf_blk_list := [],
    buf_cur_blk := (if buf_blk_list b = [] then buf_cur_blk b else cur_clear (buf_cur_blk b))\<rparr>"
  define st2 where "st2 = put_buf p b2 st1"
  have "bufs_inv st2 (p # live)"
    using bufs fr by (auto simp: st2_def bufs_inv_def free_bufs_def b2_def)
  moreover have "buf_heap st2 p = Some b' \<Longrightarrow> buf_blk_list b' = []" for b'
    by (auto simp: st2_def b2_def)
  ultimately obtain st3 where st3: "release_pktbuffer p st2 = Some st3"
    "free_bufs st3 = free_bufs st2 @ [p]" "bufs_inv st3 live" "buf_heap st3 = buf_heap st2"
    "blk_heap st3 = blk_heap st2" "blk_pool st3 = blk_pool st2" "cfg_blk_size st3 = cfg_blk_size st2"
    by (rule release_pktbuffer) blast+
  define st4 where "st4 = put_buf p (b2\<lparr>buf_capacity := 0\<rparr>) st3"
  have "buf_free p st = Some st4"
    using b st1(1) st3(1)
    by (cases "buf_blk_list b = []") (simp_all add: buf_free_def Let_def st4_def b2_def st2_def)
  moreover have "blk_inv st4 rest"
    using st1(3) st3 by (simp add: st4_def st2_def blk_inv_def free_blks_def)
  moreover have "bufs_inv st4 live"
    using st3(3) bufs by (auto simp: st4_def bufs_inv_def free_bufs_def b2_def)
  ultimately show ?thesis using st1 st3 fr
    by (intro exI [of _ st4]) (simp add: st4_def st2_def free_blks_def free_bufs_def)
qed

subsection \<open>Headers\<close>

text \<open>The number of bytes at the front that lie in one block.\<close>

definition cont_size :: "pkt_store \<Rightarrow> addr \<Rightarrow> nat" where
  "cont_size st p = (case buf_heap st p of None \<Rightarrow> 0
     | Some b \<Rightarrow> (case buf_blk_list b of [] \<Rightarrow> 0
        | a # _ \<Rightarrow> (case blk_heap st a of None \<Rightarrow> 0 | Some blk \<Rightarrow> unat (blk_size blk))))"

lemma pkt_inv_cons:
  assumes "pkt_inv st p rest" "pkt_bytes st p \<noteq> []"
  obtains b a l blk where "buf_heap st p = Some b" "buf_blk_list b = a # l"
    "blk_heap st a = Some blk" "blk_ok (cfg_blk_size st) blk" "blk_inv st (a # l @ rest)"
    "blks_ok (cfg_blk_size st) (blk_heap st) l" "a \<notin> set l" "a \<notin> set rest"
    "pkt_bytes st p = blk_bytes blk @ blks_bytes (blk_heap st) l"
    "length (pkt_bytes st p) = unat (buf_capacity b)"
proof -
  from assms(1) obtain b where b: "buf_heap st p = Some b" "blk_inv st (buf_blk_list b @ rest)"
    "blks_ok (cfg_blk_size st) (blk_heap st) (buf_blk_list b)"
    "pkt_bytes st p = blks_bytes (blk_heap st) (buf_blk_list b)"
    "length (pkt_bytes st p) = unat (buf_capacity b)" by (rule pkt_inv_bytes)
  with assms(2) obtain a l where l: "buf_blk_list b = a # l" by (cases "buf_blk_list b") auto
  with b obtain blk where "blk_heap st a = Some blk" "blk_ok (cfg_blk_size st) blk" by auto
  then show thesis using b l by (intro that) (auto simp: blk_inv_def)
qed

lemma blk_ok_less: "blk_ok cfg b \<Longrightarrow> blk_data b + unat (blk_size b) < 2 ^ 32"
  using unat_u32_less [of cfg] unfolding blk_ok_def by linarith

text \<open>Growing the first block towards the start of its payload.\<close>

lemma grow_front:
  assumes inv: "pkt_inv st p rest" and b: "buf_heap st p = Some b" "buf_blk_list b = a # l"
    "blk_heap st a = Some fb" and n: "unat n \<le> blk_data fb"
    and wrap: "length (pkt_bytes st p) + unat n < 2 ^ 32"
  defines "st1 \<equiv> put_buf p (b\<lparr>buf_capacity := buf_capacity b + n\<rparr>)
      (put_blk a (fb\<lparr>blk_data := blk_data fb - unat n, blk_size := blk_size fb + n\<rparr>) st)"
  shows "pkt_inv st1 p rest"
    "pkt_bytes st1 p = take (unat n) (drop (blk_data fb - unat n) (blk_payload fb)) @ pkt_bytes st p"
    "pkt_frame p rest st st1" "free_blks st1 = free_blks st"
    "cont_size st1 p = unat (blk_size fb) + unat n"
proof -
  define fb' where "fb' = fb\<lparr>blk_data := blk_data fb - unat n, blk_size := blk_size fb + n\<rparr>"
  define b1 where "b1 = b\<lparr>buf_capacity := buf_capacity b + n\<rparr>"
  have st1: "st1 = put_buf p b1 (put_blk a fb' st)" by (simp add: st1_def fb'_def b1_def)
  have b1: "buf_blk_list b1 = a # l" "buf_capacity b1 = buf_capacity b + n"
    using b by (simp_all add: b1_def)
  from inv b have ok: "blk_ok (cfg_blk_size st) fb" "blk_inv st (a # l @ rest)"
    "blks_ok (cfg_blk_size st) (blk_heap st) l" "a \<notin> set l" "a \<notin> set rest"
    and bytes: "pkt_bytes st p = blk_bytes fb @ blks_bytes (blk_heap st) l"
    and cap: "length (pkt_bytes st p) = unat (buf_capacity b)"
    by (auto simp: pkt_inv_def pkt_bytes_def blk_inv_def)
  have size: "unat (blk_size fb') = unat (blk_size fb) + unat n"
    using blk_ok_less [OF ok(1)] n by (simp add: fb'_def unat_add_no_wrap)
  let ?new = "take (unat n) (drop (blk_data fb - unat n) (blk_payload fb))"
  have "blk_bytes fb' = ?new @ blk_bytes fb"
    using n unfolding blk_bytes_def size by (simp add: fb'_def take_add add.commute)
  moreover have ok': "blk_ok (cfg_blk_size st) fb'"
    using ok(1) n size by (auto simp: blk_ok_def fb'_def)
  moreover have "length ?new = unat n" using ok(1) n by (auto simp: blk_ok_def)
  ultimately have 1: "pkt_bytes st1 p = ?new @ pkt_bytes st p"
    and 2: "length (blks_bytes (blk_heap (put_blk a fb' st)) (a # l)) = unat (buf_capacity b1)"
    using bytes ok cap wrap by (auto simp: st1 pkt_bytes_def b1 unat_add_no_wrap)
  have "blk_inv (put_blk a fb' st) ((a # l) @ rest)"
    using ok ok' by (auto intro!: blk_inv_put_blk simp: blk_ok_def)
  then show "pkt_inv st1 p rest" unfolding st1
    using 2 ok ok' by (intro pkt_inv_put_buf) (simp_all add: b1)
  show "pkt_bytes st1 p = ?new @ pkt_bytes st p" by (rule 1)
  show "pkt_frame p rest st st1" unfolding st1
    using ok by (intro pkt_frame_put_buf [OF blk_frame_put_blk, of _ "- {a}"]) auto
  show "cont_size st1 p = unat (blk_size fb) + unat n" by (simp add: st1 cont_size_def b1 size)
qed (simp add: st1_def)

lemma blks_needed_mono:
  assumes "0 < unat (cfg_blk_size st)" "unat m \<le> unat n"
  shows "blks_needed st m \<le> blks_needed st n"
  using assms by (simp add: blks_needed_def length_chunks div_le_mono)

lemma blks_needed_cong: "cfg_blk_size st' = cfg_blk_size st \<Longrightarrow> blks_needed st' n = blks_needed st n"
  by (simp add: blks_needed_def)

lemma alloc_header_room:
  assumes inv: "pkt_inv st p rest" and b: "buf_heap st p = Some b" "buf_blk_list b = a # l"
    "blk_heap st a = Some fb" and n: "unat sz \<le> blk_data fb"
  shows "alloc_header p sz is_cont st =
    Some (NET_ERR_OK, put_buf p (b\<lparr>buf_capacity := buf_capacity b + sz\<rparr>)
      (put_blk a (fb\<lparr>blk_data := blk_data fb - unat sz, blk_size := blk_size fb + sz\<rparr>) st))"
proof -
  from inv b have "blk_data fb \<le> length (blk_payload fb)" by (auto simp: pkt_inv_def blk_ok_def)
  then have "blk_set_data fb (blk_data fb - unat sz) = Some (fb\<lparr>blk_data := blk_data fb - unat sz\<rparr>)"
    by (simp add: blk_set_data_def)
  then show ?thesis using b n by (simp add: alloc_header_def)
qed

lemma alloc_header_cont:
  assumes inv: "pkt_inv st p rest" and b: "buf_heap st p = Some b" "buf_blk_list b = a # l"
    "blk_heap st a = Some fb" and n: "blk_data fb < unat sz" "sz \<le> cfg_blk_size st"
    and wrap: "length (pkt_bytes st p) + unat sz < 2 ^ 32" and free: "free_blks st \<noteq> []"
  shows "\<exists>st' new. alloc_header p sz True st = Some (NET_ERR_OK, st') \<and> pkt_inv st' p rest
     \<and> length new = unat sz \<and> pkt_bytes st' p = new @ pkt_bytes st p
     \<and> pkt_frame p rest st st' \<and> cont_size st' p = unat sz \<and> free_blks st' = tl (free_blks st)"
proof -
  from inv b have own: "blk_inv st (a # l @ rest)" and ok: "blks_ok (cfg_blk_size st) (blk_heap st) (a # l)"
    and bytes: "pkt_bytes st p = blks_bytes (blk_heap st) (a # l)"
    and cap: "length (pkt_bytes st p) = unat (buf_capacity b)"
    by (auto simp: pkt_inv_def pkt_bytes_def)
  from free obtain f fs where f: "free_blks st = f # fs" by (cases "free_blks st") auto
  from get_pktblock_cons [OF own f] obtain st1 nb where st1: "get_pktblock st = Some (f, st1)"
    "f \<noteq> nullptr" "free_blks st1 = fs" "blk_inv st1 (f # a # l @ rest)" "blk_heap st1 f = Some nb"
    "length (blk_payload nb) = unat (cfg_blk_size st)" "blk_frame (- {f}) st st1" by blast
  have disj: "set (a # l @ rest) \<subseteq> - {f}" using own f by (auto simp: blk_inv_def)
  then have "set (a # l) \<subseteq> - {f}" by auto
  note cong = blk_frame_cong [OF st1(7) this]
  define nb' where "nb' = nb\<lparr>blk_data := unat (cfg_blk_size st) - unat sz, blk_size := sz\<rparr>"
  define b1 where "b1 = b\<lparr>buf_blk_list := f # buf_blk_list b,
    buf_cur_blk := cur_push_front (buf_cur_blk b), buf_capacity := buf_capacity b + sz\<rparr>"
  define st2 where "st2 = put_blk f nb' st1"
  have b1: "buf_blk_list b1 = f # a # l" "buf_capacity b1 = buf_capacity b + sz"
    by (simp_all add: b1_def b)
  have "unat sz \<le> unat (cfg_blk_size st)" using n(2) by (simp add: word_le_nat_alt)
  then have nb': "blk_ok (cfg_blk_size st) nb'" using n(1) st1(6) by (simp add: blk_ok_def nb'_def)
  have new: "length (blk_bytes nb') = unat sz" using length_blk_bytes [OF nb'] by (simp add: nb'_def)
  have "blk_set_data nb (unat (cfg_blk_size st) - unat sz) = Some (nb\<lparr>blk_data := unat (cfg_blk_size st) - unat sz\<rparr>)"
    using st1(6) by (simp add: blk_set_data_def)
  then have run: "alloc_header p sz True st = Some (NET_ERR_OK, put_buf p b1 st2)"
    using b n st1(1,2,5) cong(3)
    by (auto simp: alloc_header_def Let_def st2_def nb'_def b1_def not_le)
  have bytes': "blks_bytes (blk_heap st2) (f # a # l) = blk_bytes nb' @ pkt_bytes st p"
    and ok': "blks_ok (cfg_blk_size st2) (blk_heap st2) (f # a # l)"
    using disj nb' bytes ok cong by (auto simp: st2_def)
  moreover have "blk_inv st2 ((f # a # l) @ rest)"
    unfolding st2_def by (rule blk_inv_put_blk) (use st1(4,6) cong in \<open>simp_all add: nb'_def\<close>)
  moreover have "length (blks_bytes (blk_heap st2) (f # a # l)) = unat (buf_capacity b1)"
    using bytes' cap new wrap by (simp add: b1 unat_add_no_wrap)
  ultimately have "pkt_inv (put_buf p b1 st2) p rest" by (intro pkt_inv_put_buf) (simp_all add: b1)
  moreover have "blk_frame (- {f}) st st2" unfolding st2_def
    by (rule blk_frame_subset_trans [OF st1(7) blk_frame_put_blk [of f "- {f}"]]) simp_all
  then have "pkt_frame p rest st (put_buf p b1 st2)"
    using disj by (intro pkt_frame_put_buf) auto
  ultimately show ?thesis using run bytes' new st1(3) f b1
    by (intro exI [of _ "put_buf p b1 st2"] exI [of _ "blk_bytes nb'"])
      (simp add: pkt_bytes_def cont_size_def st2_def nb'_def)
qed

lemma alloc_header_split:
  assumes inv: "pkt_inv st p rest" and b: "buf_heap st p = Some b" "buf_blk_list b = a # l"
    "blk_heap st a = Some fb" and n: "blk_data fb < unat sz" and cfg: "0 < unat (cfg_blk_size st)"
    and wrap: "length (pkt_bytes st p) + unat sz < 2 ^ 32"
    and free: "blks_needed st (sz - of_nat (blk_data fb)) \<le> length (free_blks st)"
  shows "\<exists>st' new. alloc_header p sz False st = Some (NET_ERR_OK, st') \<and> pkt_inv st' p rest
     \<and> length new = unat sz \<and> pkt_bytes st' p = new @ pkt_bytes st p
     \<and> pkt_frame p rest st st'"
proof -
  define pre :: u32 where "pre = of_nat (blk_data fb)"
  have pre: "unat pre = blk_data fb"
    using n unat_u32_less [of sz] by (simp add: pre_def unat_of_nat)
  have rest_sz: "unat (sz - pre) = unat sz - blk_data fb"
    using n pre by (simp add: unat_sub_le word_le_nat_alt)
  define st1 where "st1 = put_buf p (b\<lparr>buf_capacity := buf_capacity b + pre\<rparr>)
    (put_blk a (fb\<lparr>blk_data := blk_data fb - unat pre, blk_size := blk_size fb + pre\<rparr>) st)"
  have "unat pre \<le> blk_data fb" "length (pkt_bytes st p) + unat pre < 2 ^ 32" using pre wrap n by simp_all
  note grow = grow_front [OF inv b this, folded st1_def]
  have cfg1: "cfg_blk_size st1 = cfg_blk_size st" by (simp add: st1_def)
  have data: "blk_data fb \<le> length (blk_payload fb)"
    using inv b by (auto simp: pkt_inv_def blk_ok_def)
  let ?mid = "take (unat pre) (drop (blk_data fb - unat pre) (blk_payload fb))"
  have len: "length ?mid = blk_data fb" using data pre by simp
  have "blks_needed st1 (sz - pre) \<le> length (free_blks st1)"
    using free by (simp add: grow(4) blks_needed_cong [OF cfg1] pre_def)
  moreover have "length (pkt_bytes st1 p) + unat (sz - pre) < 2 ^ 32"
    unfolding grow(2) using len rest_sz wrap n by simp
  ultimately obtain st2 new where st2: "buf_alloc p (sz - pre) True True st1 = Some (True, st2)"
    "pkt_inv st2 p rest" "length new = unat (sz - pre)" "pkt_bytes st2 p = new @ pkt_bytes st1 p"
    "pkt_frame p rest st1 st2"
    using buf_alloc_ok [OF grow(1), of "sz - pre" True True] cfg cfg1 by auto
  have "blk_set_data fb 0 = Some (fb\<lparr>blk_data := 0\<rparr>)" by (simp add: blk_set_data_def)
  then have "alloc_header p sz False st = Some (NET_ERR_OK, st2)"
    using b n st2(1) by (simp add: alloc_header_def Let_def st1_def pre_def [symmetric] pre)
  moreover have "length (new @ ?mid) = unat sz" using st2(3) rest_sz len n by simp
  ultimately show ?thesis using st2 grow(2) pkt_frame_trans [OF grow(3) st2(5)]
    by (intro exI [of _ st2] exI [of _ "new @ ?mid"]) simp
qed

lemma alloc_header_run:
  assumes "pkt_inv st p rest" "pkt_bytes st p \<noteq> []" "0 < unat (cfg_blk_size st)"
    and "length (pkt_bytes st p) + unat sz < 2 ^ 32"
    and "if is_cont then sz \<le> cfg_blk_size st \<and> free_blks st \<noteq> []
         else blks_needed st sz \<le> length (free_blks st)"
  shows "\<exists>st' new. alloc_header p sz is_cont st = Some (NET_ERR_OK, st') \<and> pkt_inv st' p rest
     \<and> length new = unat sz \<and> pkt_bytes st' p = new @ pkt_bytes st p \<and> pkt_frame p rest st st'
     \<and> (is_cont \<longrightarrow> unat sz \<le> cont_size st' p)"
proof -
  obtain b a l fb where b: "buf_heap st p = Some b"
    "buf_blk_list b = a # l" "blk_heap st a = Some fb" "blk_ok (cfg_blk_size st) fb"
    by (rule pkt_inv_cons [OF assms(1,2)])
  show ?thesis
  proof (cases "unat sz \<le> blk_data fb")
    case True
    note grow_front [OF assms(1) b(1-3) True assms(4)]
    moreover have "length (take (unat sz) (drop (blk_data fb - unat sz) (blk_payload fb))) = unat sz"
      using True b(4) by (auto simp: blk_ok_def)
    ultimately show ?thesis
      using alloc_header_room [OF assms(1) b(1-3) True, of is_cont] by auto
  next
    case False
    then have lt: "blk_data fb < unat sz" by simp
    have "blks_needed st (sz - of_nat (blk_data fb)) \<le> blks_needed st sz"
      using assms(3) lt unat_u32_less [of sz]
      by (intro blks_needed_mono) (simp_all add: unat_sub_le word_le_nat_alt unat_of_nat)
    then show ?thesis
      using assms(3-5) alloc_header_cont [OF assms(1) b(1-3) lt]
        alloc_header_split [OF assms(1) b(1-3) lt]
      by (cases is_cont) auto
  qed
qed

text \<open>\<open>remove_header\<close> gives back the emptied blocks and moves the data pointer of the last one.\<close>

lemma remove_header_loop:
  assumes "blk_inv st (l @ rest)" "blks_ok (cfg_blk_size st) (blk_heap st) l"
    "unat sz \<le> length (blks_bytes (blk_heap st) l)"
    "length (blks_bytes (blk_heap st) l) = unat (buf_capacity b)"
  shows "\<exists>b' st'. remove_header_loop l sz b st = Some (b', st')
     \<and> blk_inv st' (buf_blk_list b' @ rest)
     \<and> blks_ok (cfg_blk_size st') (blk_heap st') (buf_blk_list b')
     \<and> blks_bytes (blk_heap st') (buf_blk_list b') = drop (unat sz) (blks_bytes (blk_heap st) l)
     \<and> unat (buf_capacity b') = unat (buf_capacity b) - unat sz \<and> blk_frame (- set l) st st'
     \<and> (\<exists>k \<le> length l. buf_blk_list b' = drop k l \<and> free_blks st' = free_blks st @ take k l)"
  using assms
proof (induction l arbitrary: sz b st)
  case Nil
  then have "sz = 0" by (simp add: unat_0_iff)
  then show ?case using Nil by simp
next
  case (Cons a l)
  then obtain blk where blk: "blk_heap st a = Some blk" "blk_ok (cfg_blk_size st) blk" by auto
  note len = length_blk_bytes [OF blk(2)]
  have a: "a \<notin> set l" "a \<notin> set rest" using Cons.prems(1) by (auto simp: blk_inv_def)
  consider "sz = 0" | "sz \<noteq> 0" "sz < blk_size blk" | "sz \<noteq> 0" "\<not> sz < blk_size blk" by blast
  then show ?case
  proof cases
    case 1
    then show ?thesis using Cons.prems by (auto intro: exI [of _ "0::nat"])
  next
    case 2
    then have lt: "unat sz < unat (blk_size blk)" by (simp add: word_less_nat_alt)
    define blk' where "blk' = blk\<lparr>blk_data := blk_data blk + unat sz, blk_size := blk_size blk - sz\<rparr>"
    define b' where "b' = b\<lparr>buf_blk_list := a # l, buf_capacity := buf_capacity b - sz\<rparr>"
    have size: "unat (blk_size blk - sz) = unat (blk_size blk) - unat sz"
      using lt by (simp add: unat_sub_le word_le_nat_alt)
    have set_data: "blk_set_data blk (blk_data blk + unat sz) = Some (blk\<lparr>blk_data := blk_data blk + unat sz\<rparr>)"
      using lt blk(2) by (simp add: blk_ok_def blk_set_data_def)
    define st1 where "st1 = put_blk a blk' st"
    have run: "remove_header_loop (a # l) sz b st = Some (b', st1)"
      using 2 blk(1) set_data by (simp add: blk'_def b'_def st1_def)
    have bytes: "blk_bytes blk' = drop (unat sz) (blk_bytes blk)"
      unfolding blk_bytes_def by (simp add: blk'_def size drop_take add.commute)
    have ok: "blk_ok (cfg_blk_size st) blk'" using blk(2) lt by (simp add: blk_ok_def blk'_def size)
    have "blk_inv st1 ((a # l) @ rest)"
      using Cons.prems(1) ok by (auto intro!: blk_inv_put_blk simp: blk_ok_def st1_def)
    moreover have "blk_frame (- set (a # l)) st st1" unfolding st1_def by (rule blk_frame_put_blk) simp
    moreover have "sz \<le> buf_capacity b" using Cons.prems(3,4) by (simp add: word_le_nat_alt)
    moreover have "blks_bytes (blk_heap st1) (a # l) = drop (unat sz) (blks_bytes (blk_heap st) (a # l))"
      "blks_ok (cfg_blk_size st1) (blk_heap st1) (a # l)" "free_blks st1 = free_blks st"
      using bytes ok a Cons.prems(2) blk lt len by (simp_all add: st1_def)
    moreover have "buf_blk_list b' = a # l" by (simp add: b'_def)
    ultimately show ?thesis using run
      by (intro exI [of _ b'] exI [of _ st1] conjI exI [of _ "0::nat"])
        (simp_all add: b'_def unat_sub_le del: blks_bytes_simps blks_ok_simps remove_header_loop.simps)
  next
    case 3
    then have ge: "unat (blk_size blk) \<le> unat sz" by (simp add: word_less_nat_alt)
    from release_pktblock [of st a "l @ rest"] Cons.prems(1) obtain st1 where
      st1: "release_pktblock a st = Some st1" "free_blks st1 = free_blks st @ [a]"
      "blk_inv st1 (l @ rest)" "blk_heap st1 = blk_heap st" "blk_frame UNIV st st1" by auto
    then have cfg: "cfg_blk_size st1 = cfg_blk_size st" by (simp add: blk_frame_def)
    define b1 where "b1 = b\<lparr>buf_capacity := buf_capacity b - blk_size blk,
      buf_cur_blk := cur_erase 0 (buf_cur_blk b)\<rparr>"
    have "blk_size blk \<le> buf_capacity b" "blk_size blk \<le> sz"
      using Cons.prems(4) blk len ge by (simp_all add: word_le_nat_alt)
    then have cap: "unat (buf_capacity b1) = unat (buf_capacity b) - unat (blk_size blk)"
      and sz: "unat (sz - blk_size blk) = unat sz - unat (blk_size blk)"
      by (simp_all add: b1_def unat_sub_le)
    have "unat (sz - blk_size blk) \<le> length (blks_bytes (blk_heap st1) l)"
      "length (blks_bytes (blk_heap st1) l) = unat (buf_capacity b1)"
      using Cons.prems(3,4) blk len by (simp_all add: st1(4) sz cap)
    from Cons.IH [OF st1(3) _ this] obtain b' st' k where
      IH: "remove_header_loop l (sz - blk_size blk) b1 st1 = Some (b', st')"
      "blk_inv st' (buf_blk_list b' @ rest)"
      "blks_ok (cfg_blk_size st') (blk_heap st') (buf_blk_list b')"
      "blks_bytes (blk_heap st') (buf_blk_list b')
        = drop (unat (sz - blk_size blk)) (blks_bytes (blk_heap st1) l)"
      "unat (buf_capacity b') = unat (buf_capacity b1) - unat (sz - blk_size blk)"
      "blk_frame (- set l) st1 st'"
      "k \<le> length l" "buf_blk_list b' = drop k l" "free_blks st' = free_blks st1 @ take k l"
      using Cons.prems(2) st1(4) cfg by auto
    have "remove_header_loop (a # l) sz b st = Some (b', st')"
      using 3 blk(1) st1(1) IH(1) by (simp add: b1_def)
    moreover have "drop (unat sz) (blk_bytes blk @ blks_bytes (blk_heap st) l)
        = drop (unat (sz - blk_size blk)) (blks_bytes (blk_heap st1) l)"
      using ge len st1(4) by (simp add: sz)
    moreover have "blk_frame (- set (a # l)) st st'"
      by (rule blk_frame_subset_trans [OF st1(5) IH(6)]) auto
    ultimately show ?thesis using IH blk st1(2) ge
      by (intro exI [of _ b'] exI [of _ st'] conjI exI [of _ "Suc k"]) (simp_all add: sz cap)
  qed
qed

lemma remove_header_loop_beyond:
  assumes "blk_inv st (l @ rest)" "blks_ok (cfg_blk_size st) (blk_heap st) l"
    "length (blks_bytes (blk_heap st) l) < unat sz"
  shows "remove_header_loop l sz b st = None"
  using assms
proof (induction l arbitrary: sz b st)
  case (Cons a l)
  then obtain blk where blk: "blk_heap st a = Some blk" "blk_ok (cfg_blk_size st) blk" by auto
  note len = length_blk_bytes [OF blk(2)]
  have ge: "unat (blk_size blk) \<le> unat sz" "sz \<noteq> 0" using Cons.prems(3) blk len by auto
  from release_pktblock [of st a "l @ rest"] Cons.prems(1) obtain st1 where
    st1: "release_pktblock a st = Some st1" "blk_inv st1 (l @ rest)" "blk_heap st1 = blk_heap st"
    "blk_frame UNIV st st1" by auto
  then have "cfg_blk_size st1 = cfg_blk_size st" by (simp add: blk_frame_def)
  then have "remove_header_loop l (sz - blk_size blk) b' st1 = None" for b'
    using Cons.prems(2,3) ge blk len st1
    by (intro Cons.IH) (simp_all add: unat_sub_le word_le_nat_alt)
  then show ?case using ge blk(1) st1(1) by (simp add: word_less_nat_alt)
qed auto

lemma remove_header_run:
  assumes inv: "pkt_inv st p rest" and ne: "pkt_bytes st p \<noteq> []"
    and le: "unat sz \<le> length (pkt_bytes st p)"
  shows "\<exists>st'. remove_header p sz st = Some (NET_ERR_OK, st') \<and> pkt_inv st' p rest
     \<and> pkt_bytes st' p = drop (unat sz) (pkt_bytes st p) \<and> pkt_frame p rest st st'
     \<and> length (free_blks st) \<le> length (free_blks st')"
proof -
  from inv obtain b where b: "buf_heap st p = Some b" "blk_inv st (buf_blk_list b @ rest)"
    "blks_ok (cfg_blk_size st) (blk_heap st) (buf_blk_list b)"
    "pkt_bytes st p = blks_bytes (blk_heap st) (buf_blk_list b)"
    "length (pkt_bytes st p) = unat (buf_capacity b)" by (rule pkt_inv_bytes)
  from remove_header_loop [OF b(2,3), of sz b] le b obtain b' st1 k where
    st1: "remove_header_loop (buf_blk_list b) sz b st = Some (b', st1)"
    "blk_inv st1 (buf_blk_list b' @ rest)"
    "blks_ok (cfg_blk_size st1) (blk_heap st1) (buf_blk_list b')"
    "blks_bytes (blk_heap st1) (buf_blk_list b') = drop (unat sz) (pkt_bytes st p)"
    "unat (buf_capacity b') = unat (buf_capacity b) - unat sz"
    "blk_frame (- set (buf_blk_list b)) st st1"
    "free_blks st1 = free_blks st @ take k (buf_blk_list b)" by auto
  have "buf_blk_list b \<noteq> []" using ne b(4) by auto
  then have "remove_header p sz st = Some (NET_ERR_OK, put_buf p b' st1)"
    using b(1) st1(1) by (simp add: remove_header_def)
  moreover have "set rest \<subseteq> - set (buf_blk_list b)" using b(2) by (auto simp: blk_inv_def)
  note pkt_frame_put_buf [OF st1(6) this]
  moreover note pkt_inv_put_buf [OF st1(2,3)]
  ultimately show ?thesis using st1 b(5) by (intro exI [of _ "put_buf p b' st1"]) simp
qed

subsection \<open>Merging\<close>

lemma blk_inv_cong:
  "blk_heap st' = blk_heap st \<Longrightarrow> blk_pool st' = blk_pool st \<Longrightarrow> cfg_blk_size st' = cfg_blk_size st
     \<Longrightarrow> blk_inv st' own = blk_inv st own"
  by (simp add: blk_inv_def free_blks_def)

lemma merge_buf_run:
  assumes p: "pkt_inv st p (buf_blk_list c @ rest)" and q: "buf_heap st q = Some c" "p \<noteq> q"
    "blks_ok (cfg_blk_size st) (blk_heap st) (buf_blk_list c)"
    "length (pkt_bytes st q) = unat (buf_capacity c)"
    and bufs: "bufs_inv st (q # live)" "p \<in> set live"
    and wrap: "length (pkt_bytes st p) + length (pkt_bytes st q) < 2 ^ 32"
  shows "\<exists>st'. merge_buf p q st = Some (NET_ERR_OK, st') \<and> pkt_inv st' p rest
     \<and> pkt_bytes st' p = pkt_bytes st p @ pkt_bytes st q \<and> bufs_inv st' live
     \<and> free_bufs st' = free_bufs st @ [q] \<and> blk_pool st' = blk_pool st
     \<and> blk_heap st' = blk_heap st \<and> cfg_blk_size st' = cfg_blk_size st
     \<and> (\<forall>r. r \<noteq> p \<longrightarrow> r \<noteq> q \<longrightarrow> buf_heap st' r = buf_heap st r)"
proof -
  from p obtain b where b: "buf_heap st p = Some b" "blk_inv st (buf_blk_list b @ buf_blk_list c @ rest)"
    "blks_ok (cfg_blk_size st) (blk_heap st) (buf_blk_list b)"
    "pkt_bytes st p = blks_bytes (blk_heap st) (buf_blk_list b)"
    "length (pkt_bytes st p) = unat (buf_capacity b)" by (rule pkt_inv_bytes)
  define b1 where "b1 = b\<lparr>buf_blk_list := buf_blk_list b @ buf_blk_list c,
    buf_capacity := buf_capacity b + buf_capacity c\<rparr>"
  define st1 where "st1 = put_buf p b1 (put_buf q (c\<lparr>buf_blk_list := []\<rparr>) st)"
  have qb: "pkt_bytes st q = blks_bytes (blk_heap st) (buf_blk_list c)" using q by (simp add: pkt_bytes_def)
  have "bufs_inv st1 (q # live)" using bufs by (auto simp: bufs_inv_def free_bufs_def st1_def)
  moreover have "buf_heap st1 q = Some c' \<Longrightarrow> buf_blk_list c' = []" for c'
    using q(2) by (auto simp: st1_def)
  ultimately obtain st2 where st2: "release_pktbuffer q st1 = Some st2"
    "free_bufs st2 = free_bufs st1 @ [q]" "bufs_inv st2 live" "buf_heap st2 = buf_heap st1"
    "blk_heap st2 = blk_heap st1" "blk_pool st2 = blk_pool st1" "cfg_blk_size st2 = cfg_blk_size st1"
    by (rule release_pktbuffer) blast+
  have same: "blk_heap st2 = blk_heap st" "blk_pool st2 = blk_pool st" "cfg_blk_size st2 = cfg_blk_size st"
    using st2 by (simp_all add: st1_def)
  have "merge_buf p q st = Some (NET_ERR_OK, st2)"
    using b(1) q(1,2) st2(1) by (simp add: merge_buf_def st1_def b1_def)
  moreover have "unat (buf_capacity b1) = unat (buf_capacity b) + unat (buf_capacity c)"
    using wrap b(5) q(4) by (simp add: b1_def unat_add_no_wrap)
  then have "pkt_inv st2 p rest"
    using b q(3,4) qb st2(4) same blk_inv_cong [OF same]
    by (simp add: pkt_inv_def st1_def b1_def)
  ultimately show ?thesis using st2 b qb q(2)
    by (intro exI [of _ st2]) (simp add: st1_def b1_def pkt_bytes_def free_bufs_def)
qed

subsection \<open>A contiguous header\<close>

lemma cont_header_loop:
  assumes "blk_inv st (f # l @ rest)" "blks_ok (cfg_blk_size st) (blk_heap st) (f # l)"
    "blk_heap st f = Some fb" "blk_data fb = 0" "ptr = unat (blk_size fb)"
    "ptr + unat remain \<le> unat (cfg_blk_size st)"
    "unat remain \<le> length (blks_bytes (blk_heap st) l)"
  shows "\<exists>l' cur' st' fb'. cont_header_loop f l remain ptr cur st = Some (l', cur', st')
     \<and> blk_inv st' (f # l' @ rest) \<and> blks_ok (cfg_blk_size st') (blk_heap st') (f # l')
     \<and> blks_bytes (blk_heap st') (f # l') = blks_bytes (blk_heap st) (f # l)
     \<and> blk_heap st' f = Some fb' \<and> unat (blk_size fb') = ptr + unat remain
     \<and> blk_frame (- set (f # l)) st st'"
  using assms
proof (induction l arbitrary: remain ptr cur st fb)
  case Nil
  then have "remain = 0" by (simp add: unat_0_iff)
  then show ?case using Nil by (auto intro!: exI [of _ "[]"])
next
  case (Cons a l)
  show ?case
  proof (cases "remain = 0")
    case True
    then show ?thesis using Cons.prems by (auto intro!: exI [of _ "a # l"])
  next
    case False
    from Cons.prems(1) have neq: "f \<noteq> a" "f \<notin> set l" "a \<notin> set l" by (auto simp: blk_inv_def)
    from Cons.prems(2,3) obtain blk where blk: "blk_heap st a = Some blk" "blk_ok (cfg_blk_size st) blk"
      and fok: "blk_ok (cfg_blk_size st) fb" and lok: "blks_ok (cfg_blk_size st) (blk_heap st) l" by auto
    define cur_size where "cur_size = min remain (blk_size blk)"
    define chunk where "chunk = take (unat cur_size) (drop (blk_data blk) (blk_payload blk))"
    have cs: "unat cur_size \<le> unat remain" "unat cur_size \<le> unat (blk_size blk)"
      by (simp_all add: cur_size_def unat_min)
    have len: "length chunk = unat cur_size" using blk(2) cs by (auto simp: chunk_def blk_ok_def)
    define fb' where "fb' = fb\<lparr>blk_payload := take ptr (blk_payload fb) @ chunk
      @ drop (ptr + unat cur_size) (blk_payload fb), blk_size := blk_size fb + cur_size\<rparr>"
    define blk' where "blk' = blk\<lparr>blk_data := blk_data blk + unat cur_size,
      blk_size := blk_size blk - cur_size\<rparr>"
    define st2 where "st2 = put_blk a blk' (put_blk f fb' st)"
    have get: "bytes_get (blk_payload blk) (blk_data blk) (unat cur_size) = Some chunk"
      using blk(2) cs by (simp add: bytes_get_def chunk_def blk_ok_def)
    have put: "bytes_put (blk_payload fb) ptr chunk = Some (blk_payload fb')"
      using fok Cons.prems(6) cs len by (simp add: bytes_put_def fb'_def blk_ok_def)
    have set_data: "blk_set_data blk (blk_data blk + unat cur_size)
        = Some (blk\<lparr>blk_data := blk_data blk + unat cur_size\<rparr>)"
      using blk(2) cs by (simp add: blk_set_data_def blk_ok_def)
    have fsize: "unat (blk_size fb') = ptr + unat cur_size"
      using Cons.prems(5,6) cs unat_u32_less [of "cfg_blk_size st"]
      by (simp add: fb'_def unat_add_no_wrap)
    have bsize: "unat (blk_size blk') = unat (blk_size blk) - unat cur_size"
      using cs by (simp add: blk'_def unat_sub_le word_le_nat_alt)
    have fbytes: "blk_bytes fb' = blk_bytes fb @ chunk"
      using Cons.prems(4-6) fok cs len
      unfolding blk_bytes_def fsize by (simp add: fb'_def blk_ok_def)
    have bbytes: "chunk @ blk_bytes blk' = blk_bytes blk"
    proof -
      have "blk_bytes blk = take (unat cur_size + (unat (blk_size blk) - unat cur_size))
          (drop (blk_data blk) (blk_payload blk))"
        using cs(2) by (simp add: blk_bytes_def)
      then show ?thesis unfolding take_add blk_bytes_def bsize
        by (simp add: blk'_def chunk_def add.commute)
    qed
    have fok': "blk_ok (cfg_blk_size st) fb'"
      using fok fsize Cons.prems(4-6) cs len by (simp add: blk_ok_def fb'_def)
    have plen: "length (blk_payload blk') = unat (cfg_blk_size st)"
      using blk(2) by (simp add: blk'_def blk_ok_def)
    have inv2: "blk_inv st2 (f # (a # l) @ rest)"
      using Cons.prems(1) fok' plen unfolding st2_def
      by (intro blk_inv_put_blk) (simp_all add: blk_ok_def)
    have st2: "blk_heap st2 f = Some fb'" "blk_heap st2 a = Some blk'" "cfg_blk_size st2 = cfg_blk_size st"
      "blks_bytes (blk_heap st2) l = blks_bytes (blk_heap st) l"
      "blks_ok (cfg_blk_size st2) (blk_heap st2) l"
      using neq lok by (simp_all add: st2_def)
    have fr2: "blk_frame (- set (f # a # l)) st st2"
      unfolding st2_def
      by (rule blk_frame_subset_trans [OF blk_frame_put_blk [of f "- {f}"] blk_frame_put_blk [of a "- {a}"]]) auto
    have step: "cont_header_loop f (a # l) remain ptr cur st =
        (if blk_size blk' = 0
         then release_pktblock a st2 \<bind>
           cont_header_loop f l (remain - cur_size) (ptr + unat cur_size) (cur_erase 1 cur)
         else Some (a # l, cur, st2))"
      using False get put set_data blk(1) Cons.prems(3) neq min.left_idem [of remain "blk_size blk"]
      by (simp add: Let_def cur_size_def [symmetric] st2_def fb'_def blk'_def)
    show ?thesis
    proof (cases "blk_size blk' = 0")
      case True
      have "blk_inv st2 (a # f # l @ rest)"
        using inv2 by (subst blk_inv_perm [of _ "f # (a # l) @ rest"]) simp_all
      then obtain st3 where st3: "release_pktblock a st2 = Some st3" "blk_inv st3 (f # l @ rest)"
        "blk_heap st3 = blk_heap st2" "blk_frame UNIV st2 st3" by (rule release_pktblock) blast
      then have cfg3: "cfg_blk_size st3 = cfg_blk_size st" using st2 by (simp add: blk_frame_def)
      have chunk: "chunk = blk_bytes blk" "unat cur_size = unat (blk_size blk)"
        using bbytes True bsize cs(2) by (simp_all add: blk_bytes_def)
      have rem: "unat (remain - cur_size) = unat remain - unat cur_size"
        using cs by (simp add: unat_sub_le word_le_nat_alt)
      have "blks_ok (cfg_blk_size st3) (blk_heap st3) (f # l)"
        using st2 st3(3) fok' cfg3 by simp
      moreover have "ptr + unat cur_size + unat (remain - cur_size) \<le> unat (cfg_blk_size st3)"
        using Cons.prems(6) cs by (simp add: rem cfg3)
      moreover have "unat (remain - cur_size) \<le> length (blks_bytes (blk_heap st3) l)"
        using Cons.prems(7) blk length_blk_bytes [OF blk(2)] st2 st3(3) by (simp add: rem chunk(2))
      moreover have "blk_heap st3 f = Some fb'" "blk_data fb' = 0"
        using st2 st3(3) Cons.prems(4) by (simp_all add: fb'_def)
      ultimately obtain l' cur' st4 fb'' where
        IH: "cont_header_loop f l (remain - cur_size) (ptr + unat cur_size) (cur_erase 1 cur) st3
            = Some (l', cur', st4)"
          "blk_inv st4 (f # l' @ rest)" "blks_ok (cfg_blk_size st4) (blk_heap st4) (f # l')"
          "blks_bytes (blk_heap st4) (f # l') = blks_bytes (blk_heap st3) (f # l)"
          "blk_heap st4 f = Some fb''" "unat (blk_size fb'') = ptr + unat cur_size + unat (remain - cur_size)"
          "blk_frame (- set (f # l)) st3 st4"
        using Cons.IH [OF st3(2), of fb' "ptr + unat cur_size" "remain - cur_size" "cur_erase 1 cur"]
          fsize by metis
      have "cont_header_loop f (a # l) remain ptr cur st = Some (l', cur', st4)"
        using st3(1) IH(1) True by (simp only: step) simp
      moreover have "blks_bytes (blk_heap st3) (f # l) = blks_bytes (blk_heap st) (f # a # l)"
        using st2 st3(3) Cons.prems(3) blk(1) fbytes chunk by simp
      moreover have "blk_frame (- set (f # a # l)) st3 st4" by (rule blk_frame_mono [OF IH(7)]) auto
      then have "blk_frame (- set (f # a # l)) st st4"
        using fr2 st3(4) by (simp add: blk_frame_def)
      moreover have "unat (blk_size fb'') = ptr + unat remain" using IH(6) rem cs(1) by simp
      ultimately show ?thesis using IH(2-5)
        by (intro exI [of _ l'] exI [of _ cur'] exI [of _ st4] exI [of _ fb'']) simp
    next
      case nz: False
      then have "unat (blk_size blk') \<noteq> 0" by (simp add: unat_0_iff)
      then have "unat cur_size \<noteq> unat (blk_size blk)" using bsize by simp
      then have cur: "cur_size = remain" by (auto simp: cur_size_def min_def)
      have "cont_header_loop f (a # l) remain ptr cur st = Some (a # l, cur, st2)"
        using nz by (simp only: step) simp
      moreover have "blk_ok (cfg_blk_size st) blk'"
        using blk(2) bsize cs plen \<open>unat (blk_size blk') \<noteq> 0\<close>
        by (simp add: blk_ok_def blk'_def del: unat_eq_zero)
      then have "blks_ok (cfg_blk_size st2) (blk_heap st2) (f # a # l)" using st2 fok' by simp
      moreover have "blks_bytes (blk_heap st2) (f # a # l) = blks_bytes (blk_heap st) (f # a # l)"
        using st2 Cons.prems(3) blk(1) fbytes bbytes by simp
      ultimately show ?thesis using inv2 fr2 st2(1) fsize cur by fastforce
    qed
  qed
qed

lemma set_cont_header_run:
  assumes inv: "pkt_inv st p rest" and ne: "pkt_bytes st p \<noteq> []"
  shows "\<exists>st'. set_cont_header p sz st =
       Some (if length (pkt_bytes st p) < unat sz \<or> cfg_blk_size st < sz then NET_ERR_SIZE else NET_ERR_OK, st')
     \<and> pkt_inv st' p rest \<and> pkt_bytes st' p = pkt_bytes st p \<and> pkt_frame p rest st st'
     \<and> (unat sz \<le> length (pkt_bytes st p) \<longrightarrow> sz \<le> cfg_blk_size st \<longrightarrow> unat sz \<le> cont_size st' p)"
proof -
  from pkt_inv_cons [OF inv ne] obtain b f l fb where b: "buf_heap st p = Some b"
    "buf_blk_list b = f # l" "blk_heap st f = Some fb" "blk_ok (cfg_blk_size st) fb"
    "blk_inv st (f # l @ rest)" "blks_ok (cfg_blk_size st) (blk_heap st) l" "f \<notin> set l" "f \<notin> set rest"
    "pkt_bytes st p = blk_bytes fb @ blks_bytes (blk_heap st) l"
    "length (pkt_bytes st p) = unat (buf_capacity b)" .
  note len = length_blk_bytes [OF b(4)]
  have fr: "pkt_frame p rest st st" using b(1) by (simp add: pkt_frame_def)
  show ?thesis
  proof (cases "buf_capacity b < sz \<or> cfg_blk_size st < sz")
    case True
    then show ?thesis using inv fr b(1,10)
      by (intro exI [of _ st]) (auto simp: set_cont_header_def word_less_nat_alt word_le_nat_alt)
  next
    case le: False
    then have le': "unat sz \<le> length (pkt_bytes st p)" "unat sz \<le> unat (cfg_blk_size st)"
      using b(10) by (auto simp: word_less_nat_alt)
    show ?thesis
    proof (cases "sz \<le> blk_size fb")
      case True
      then show ?thesis using inv fr b(1-3) le le'
        by (intro exI [of _ st]) (auto simp: set_cont_header_def cont_size_def word_le_nat_alt)
    next
      case False
      then have lt: "unat (blk_size fb) < unat sz" by (simp add: word_le_nat_alt)
      define chunk where "chunk = blk_bytes fb"
      define fb' where "fb' = fb\<lparr>blk_payload := chunk @ drop (length chunk) (blk_payload fb), blk_data := 0\<rparr>"
      define st1 where "st1 = put_blk f fb' st"
      have get: "bytes_get (blk_payload fb) (blk_data fb) (unat (blk_size fb)) = Some chunk"
        using b(4) by (simp add: bytes_get_def blk_ok_def chunk_def blk_bytes_def)
      have put: "bytes_put (blk_payload fb) 0 chunk = Some (blk_payload fb')"
        using b(4) len by (simp add: bytes_put_def blk_ok_def chunk_def fb'_def)
      have ok': "blk_ok (cfg_blk_size st) fb'" and bytes': "blk_bytes fb' = blk_bytes fb"
        using b(4) len by (simp_all add: blk_ok_def fb'_def chunk_def blk_bytes_def)
      have inv1: "blk_inv st1 (f # l @ rest)"
        using b(5) ok' unfolding st1_def by (intro blk_inv_put_blk) (simp_all add: blk_ok_def)
      have st1: "blks_bytes (blk_heap st1) (f # l) = pkt_bytes st p"
        "blks_ok (cfg_blk_size st1) (blk_heap st1) (f # l)" "cfg_blk_size st1 = cfg_blk_size st"
        "blk_heap st1 f = Some fb'" "blks_bytes (blk_heap st1) l = blks_bytes (blk_heap st) l"
        using b ok' bytes' by (simp_all add: st1_def)
      have fr1: "blk_frame (- {f}) st st1" unfolding st1_def by (rule blk_frame_put_blk) simp
      have sub: "unat (sz - blk_size fb) = unat sz - unat (blk_size fb)"
        using lt by (simp add: unat_sub_le word_le_nat_alt)
      have "blk_data fb' = 0" "unat (blk_size fb) = unat (blk_size fb')" by (simp_all add: fb'_def)
      moreover have "unat (blk_size fb) + unat (sz - blk_size fb) \<le> unat (cfg_blk_size st1)"
        "unat (sz - blk_size fb) \<le> length (blks_bytes (blk_heap st1) l)"
        using le' lt b(9) len by (simp_all add: sub st1(3,5))
      ultimately obtain l' cur' st2 fb2 where
        run: "cont_header_loop f l (sz - blk_size fb) (unat (blk_size fb)) (buf_cur_blk b) st1
            = Some (l', cur', st2)"
        and st2: "blk_inv st2 (f # l' @ rest)" "blks_ok (cfg_blk_size st2) (blk_heap st2) (f # l')"
          "blks_bytes (blk_heap st2) (f # l') = blks_bytes (blk_heap st1) (f # l)"
          "blk_heap st2 f = Some fb2"
          "unat (blk_size fb2) = unat (blk_size fb) + unat (sz - blk_size fb)"
          "blk_frame (- set (f # l)) st1 st2"
        using cont_header_loop [OF inv1 st1(2,4)] by blast
      define b2 where "b2 = b\<lparr>buf_blk_list := f # l', buf_cur_blk := cur'\<rparr>"
      have b2: "buf_blk_list b2 = f # l'" "buf_capacity b2 = buf_capacity b" by (simp_all add: b2_def)
      have "set_cont_header p sz st = Some (NET_ERR_OK, put_buf p b2 st2)"
        using b(1-3) le False get put run
        by (simp add: set_cont_header_def Let_def b2_def st1_def fb'_def)
      moreover have "blk_frame (- set (f # l)) st st2"
        by (rule blk_frame_subset_trans [OF fr1 st2(6)]) auto
      then have "pkt_frame p rest st (put_buf p b2 st2)"
        using b(5) by (elim pkt_frame_put_buf) (auto simp: blk_inv_def)
      moreover have "pkt_inv (put_buf p b2 st2) p rest" "pkt_bytes (put_buf p b2 st2) p = pkt_bytes st p"
        using st2 st1 b(10) by (auto simp: pkt_inv_def pkt_bytes_def b2 simp del: blks_ok_simps(2) blks_bytes_simps(2))
      moreover have "cont_size (put_buf p b2 st2) p = unat sz"
        using st2(4,5) lt by (simp add: cont_size_def b2 sub)
      ultimately show ?thesis using le le' by (intro exI [of _ "put_buf p b2 st2"]) simp
    qed
  qed
qed

subsection \<open>Resizing\<close>

lemma blk_inv_last:
  assumes "pkt_inv st p rest" "buf_heap st p = Some b" "buf_blk_list b = l @ [t]" "blk_heap st t = Some tb"
  shows "blk_ok (cfg_blk_size st) tb" "blk_inv st (l @ t # rest)" "t \<notin> set l" "t \<notin> set rest"
    "set l \<inter> set rest = {}" "blks_ok (cfg_blk_size st) (blk_heap st) l"
    "pkt_bytes st p = blks_bytes (blk_heap st) l @ blk_bytes tb"
    "length (pkt_bytes st p) = unat (buf_capacity b)"
  using assms by (auto simp: pkt_inv_def pkt_bytes_def blk_inv_def)

text \<open>Changing the used size of the last block of a packet.\<close>

lemma set_tail_size:
  assumes inv: "pkt_inv st p rest" and b: "buf_heap st p = Some b" "buf_blk_list b = l @ [t]"
    "blk_heap st t = Some tb"
    and n: "0 < unat n" "blk_data tb + unat n \<le> unat (cfg_blk_size st)"
    and b': "buf_blk_list b' = l @ [t]" "unat (buf_capacity b') = length (blks_bytes (blk_heap st) l) + unat n"
  defines "st1 \<equiv> put_buf p b' (put_blk t (tb\<lparr>blk_size := n\<rparr>) st)"
  shows "pkt_inv st1 p rest"
    "pkt_bytes st1 p = blks_bytes (blk_heap st) l @ take (unat n) (drop (blk_data tb) (blk_payload tb))"
    "pkt_frame p rest st st1" "free_blks st1 = free_blks st" "cfg_blk_size st1 = cfg_blk_size st"
proof -
  note t = blk_inv_last [OF inv b]
  define tb' where "tb' = tb\<lparr>blk_size := n\<rparr>"
  have st1: "st1 = put_buf p b' (put_blk t tb' st)" by (simp add: st1_def tb'_def)
  have ok: "blk_ok (cfg_blk_size st) tb'" using t(1) n by (simp add: blk_ok_def tb'_def)
  have bytes: "blk_bytes tb' = take (unat n) (drop (blk_data tb) (blk_payload tb))"
    by (simp add: blk_bytes_def tb'_def)
  have "blk_inv (put_blk t tb' st) ((l @ [t]) @ rest)"
    using t(2) ok by (intro blk_inv_put_blk) (simp_all add: blk_ok_def)
  then show "pkt_inv st1 p rest" unfolding st1
    using t ok b' length_blk_bytes [OF ok] by (intro pkt_inv_put_buf) (simp_all add: tb'_def)
  show "pkt_bytes st1 p = blks_bytes (blk_heap st) l @ take (unat n) (drop (blk_data tb) (blk_payload tb))"
    using t(3) by (simp add: st1 pkt_bytes_def b' bytes)
  show "pkt_frame p rest st st1" unfolding st1
    using t(4) by (intro pkt_frame_put_buf [OF blk_frame_put_blk, of _ "- {t}"]) auto
qed (simp_all add: st1_def)

lemma resize_find:
  assumes "blks_ok cfg (blk_heap st) l" "blks_ok cfg (blk_heap st) pre"
    "unat tot = length (blks_bytes (blk_heap st) pre)" "unat tot < unat sz"
    "unat sz \<le> length (blks_bytes (blk_heap st) (pre @ l))"
    "length (blks_bytes (blk_heap st) (pre @ l)) < 2 ^ 32"
  shows "\<exists>l1 t l2. l = l1 @ t # l2 \<and> resize_find pre l tot sz st = Some (pre @ l1 @ [t], t, l2)
     \<and> length (blks_bytes (blk_heap st) (pre @ l1)) < unat sz
     \<and> unat sz \<le> length (blks_bytes (blk_heap st) (pre @ l1 @ [t]))"
  using assms
proof (induction l arbitrary: pre tot)
  case (Cons a l)
  then obtain blk where blk: "blk_heap st a = Some blk" "blk_ok cfg blk" by auto
  note len = length_blk_bytes [OF blk(2)]
  have tot: "unat (tot + blk_size blk) = length (blks_bytes (blk_heap st) (pre @ [a]))"
    using Cons.prems(3,6) blk len by (simp add: unat_add_no_wrap)
  show ?case
  proof (cases "sz \<le> tot + blk_size blk")
    case True
    then have "unat sz \<le> length (blks_bytes (blk_heap st) (pre @ [a]))"
      unfolding tot [symmetric] by (simp add: word_le_nat_alt)
    then show ?thesis using True blk Cons.prems(3,4) by (intro exI [of _ "[]"] exI [of _ a] exI [of _ l]) simp
  next
    case False
    then have "unat (tot + blk_size blk) < unat sz" by (simp add: word_le_nat_alt)
    with Cons.IH [of "pre @ [a]" "tot + blk_size blk"] Cons.prems blk tot obtain l1 t l2 where
      "l = l1 @ t # l2" "resize_find (pre @ [a]) l (tot + blk_size blk) sz st
         = Some ((pre @ [a]) @ l1 @ [t], t, l2)"
      "length (blks_bytes (blk_heap st) ((pre @ [a]) @ l1)) < unat sz"
      "unat sz \<le> length (blks_bytes (blk_heap st) ((pre @ [a]) @ l1 @ [t]))" by auto
    then show ?thesis using False blk by (intro exI [of _ "a # l1"] exI [of _ t] exI [of _ l2]) simp
  qed
qed simp

lemma resize_erase_crash: "l \<noteq> [] \<Longrightarrow> resize_erase l cap st = None"
proof (induction l arbitrary: cap st)
  case (Cons a l)
  show ?case
  proof (cases l)
    case Nil
    then show ?thesis by (cases "blk_heap st a") simp_all
  next
    case (Cons b m)
    then have "resize_erase l cap' st' = None" for cap' st' using Cons.IH by simp
    then show ?thesis using Cons
      by (cases "blk_heap st a"; cases "release_pktblock b st") simp_all
  qed
qed simp

lemma blks_bytes_prefix_inj:
  assumes "blks_ok cfg h l" "l = l1 @ t # l2" "l = k @ [u]"
    "length (blks_bytes h l1) < n" "n \<le> length (blks_bytes h (l1 @ [t]))"
  shows "l2 = [] \<longleftrightarrow> length (blks_bytes h k) < n"
proof (cases l2 rule: rev_cases)
  case (snoc m v)
  then have "k = l1 @ t # m" using assms(2,3) by simp
  then show ?thesis using assms(5) snoc by simp
qed (use assms in simp)

lemma resize_shrink_run:
  assumes inv: "pkt_inv st p rest" and b: "buf_heap st p = Some b" "buf_blk_list b = l @ [t]"
    and sz: "0 < unat sz" "unat sz < length (pkt_bytes st p)"
  shows "if length (blks_bytes (blk_heap st) l) < unat sz
     then \<exists>st'. resize p sz st = Some (NET_ERR_OK, st') \<and> pkt_inv st' p rest
        \<and> pkt_bytes st' p = take (unat sz) (pkt_bytes st p) \<and> pkt_frame p rest st st'
        \<and> free_blks st' = free_blks st
     else resize p sz st = None"
proof -
  from inv b obtain tb where tb: "blk_heap st t = Some tb" by (auto simp: pkt_inv_def)
  note t = blk_inv_last [OF inv b tb]
  have sz0: "sz \<noteq> 0" "sz \<noteq> buf_capacity b" "buf_capacity b \<noteq> 0" "\<not> buf_capacity b < sz"
    using sz t(8) by (auto simp: word_less_nat_alt)
  have r: "resize p sz st = resize_shrink p sz st"
    using b(1) sz0 by (simp add: resize_def)
  have ok: "blks_ok (cfg_blk_size st) (blk_heap st) (l @ [t])" using t tb by simp
  have bytes: "pkt_bytes st p = blks_bytes (blk_heap st) (l @ [t])" using t tb by simp
  have small: "length (blks_bytes (blk_heap st) ([] @ l @ [t])) < 2 ^ 32"
    "unat sz \<le> length (blks_bytes (blk_heap st) ([] @ l @ [t]))"
    using sz t(8) unat_u32_less [of "buf_capacity b"] unfolding append_Nil bytes [symmetric] by linarith+
  have z: "unat (0::u32) = length (blks_bytes (blk_heap st) [])" "unat (0::u32) < unat sz"
    using sz by simp_all
  from resize_find [OF ok blks_ok_simps(1) z small(2,1)] obtain l1 u l2 where
    f: "l @ [t] = l1 @ u # l2" "resize_find [] (l @ [t]) 0 sz st = Some (l1 @ [u], u, l2)"
    "length (blks_bytes (blk_heap st) l1) < unat sz"
    "unat sz \<le> length (blks_bytes (blk_heap st) (l1 @ [u]))"
    unfolding append_Nil by blast
  note eq = blks_bytes_prefix_inj [OF ok f(1) refl f(3,4)]
  show ?thesis
  proof (cases "length (blks_bytes (blk_heap st) l) < unat sz")
    case True
    then have l2: "l2 = []" using eq by simp
    then have lt: "l1 = l" "u = t" using f(1) by simp_all
    define pre where "pre = buf_capacity b - blk_size tb"
    have len: "length (blk_bytes tb) = unat (blk_size tb)" by (rule length_blk_bytes [OF t(1)])
    then have le: "blk_size tb \<le> buf_capacity b" using t(7,8) by (simp add: word_le_nat_alt)
    then have pre: "unat pre = length (blks_bytes (blk_heap st) l)"
      using t(7,8) len by (simp add: pre_def unat_sub_le)
    then have "pre \<le> sz" using True by (simp add: word_le_nat_alt)
    then have new: "unat (sz - pre) = unat sz - length (blks_bytes (blk_heap st) l)"
      using pre by (simp add: unat_sub_le)
    define b' where "b' = b\<lparr>buf_blk_list := l @ [t], buf_capacity := pre + (sz - pre)\<rparr>"
    define st1 where "st1 = put_buf p b' (put_blk t (tb\<lparr>blk_size := sz - pre\<rparr>) st)"
    have "resize_shrink p sz st = Some (NET_ERR_OK, st1)"
      using b tb f(2) l2 lt by (simp add: resize_shrink_def Let_def pre_def [symmetric] st1_def b'_def)
    moreover have small: "unat (sz - pre) < unat (blk_size tb)" "0 < unat (sz - pre)"
      using True sz len t(7,8) by (simp_all add: new)
    moreover have n: "blk_data tb + unat (sz - pre) \<le> unat (cfg_blk_size st)"
      using small t(1) by (simp add: blk_ok_def)
    have b': "buf_blk_list b' = l @ [t]"
      "unat (buf_capacity b') = length (blks_bytes (blk_heap st) l) + unat (sz - pre)"
      using True by (simp_all add: b'_def new)
    note tail = set_tail_size [OF inv b tb small(2) n b', folded st1_def]
    moreover have "take (unat (sz - pre)) (drop (blk_data tb) (blk_payload tb))
        = take (unat (sz - pre)) (blk_bytes tb)"
      using small by (simp add: blk_bytes_def min_def)
    ultimately show ?thesis using r True t(7)
      by (simp add: new)
  next
    case False
    then have "l2 \<noteq> []" using eq by simp
    then have "resize_erase l2 cap st = None" for cap by (rule resize_erase_crash)
    then have "resize_shrink p sz st = None" using b f(2) by (simp add: resize_shrink_def)
    then show ?thesis using r False by simp
  qed
qed

lemma get_last_size:
  assumes "blk_ok cfg tb"
  shows "unat (blk_get_last_size cfg tb) = unat cfg - (blk_data tb + unat (blk_size tb))"
proof -
  have le: "blk_data tb + unat (blk_size tb) \<le> unat cfg" using assms by (simp add: blk_ok_def)
  then have "blk_get_last_size cfg tb = of_nat (unat cfg - (blk_data tb + unat (blk_size tb)))"
    unfolding blk_get_last_size_def by (subst of_nat_diff) simp_all
  moreover have "unat cfg - (blk_data tb + unat (blk_size tb)) < 2 ^ 64"
    using unat_u32_less [of cfg] by (rule le_less_trans [OF diff_le_self less_trans]) simp
  ultimately show ?thesis by (simp add: unat_of_nat)
qed

lemma resize_grow_run:
  assumes inv: "pkt_inv st p rest" and b: "buf_heap st p = Some b" "buf_blk_list b = l @ [t]"
    and tb: "blk_heap st t = Some tb" and sz: "length (pkt_bytes st p) < unat sz"
    and cfg: "0 < unat (cfg_blk_size st)"
    and wrap: "length (pkt_bytes st p) + unat sz < 2 ^ 32"
  defines "room \<equiv> unat (cfg_blk_size st) - (blk_data tb + unat (blk_size tb))"
  shows "if unat sz \<le> room
     then \<exists>st' new. resize p sz st = Some (NET_ERR_OK, st') \<and> pkt_inv st' p rest
        \<and> pkt_bytes st' p = pkt_bytes st p @ new \<and> length new = unat sz
        \<and> pkt_frame p rest st st' \<and> free_blks st' = free_blks st
     else if length (pkt_bytes st p) + room \<le> unat sz
       \<and> blks_needed st (of_nat (unat sz - (length (pkt_bytes st p) + room))) \<le> length (free_blks st)
     then \<exists>st' new. resize p sz st = Some (NET_ERR_OK, st') \<and> pkt_inv st' p rest
        \<and> pkt_bytes st' p = pkt_bytes st p @ new \<and> length (pkt_bytes st' p) = unat sz
        \<and> pkt_frame p rest st st'
        \<and> free_blks st' = drop (blks_needed st (of_nat (unat sz - (length (pkt_bytes st p) + room)))) (free_blks st)
     else True"
proof -
  note t = blk_inv_last [OF inv b tb]
  have len: "length (blk_bytes tb) = unat (blk_size tb)" by (rule length_blk_bytes [OF t(1)])
  have pos: "0 < unat (buf_capacity b)" using t(1,7,8) len by (simp add: blk_ok_def)
  then have c0: "buf_capacity b \<noteq> 0" "sz \<noteq> buf_capacity b" "buf_capacity b < sz"
    using sz t(8) by (auto simp: word_less_nat_alt)
  then have r: "resize p sz st = resize_grow p sz st" using b(1) by (simp add: resize_def)
  note last_size = get_last_size [OF t(1), folded room_def]
  have "unat sz < 2 ^ 64" using unat_u32_less [of sz] by simp
  then have u: "unat (ucast sz :: u64) = unat sz" by (simp add: unsigned_ucast_eq take_bit_nat_eq_self)
  have le: "ucast sz \<le> blk_get_last_size (cfg_blk_size st) tb \<longleftrightarrow> unat sz \<le> room"
    by (simp add: word_le_nat_alt last_size u)
  have data: "blk_data tb + unat (blk_size tb) + room = unat (cfg_blk_size st)"
    using t(1) by (simp add: room_def blk_ok_def)
  have grow: "\<exists>new. pkt_inv st1 p rest \<and> pkt_bytes st1 p = pkt_bytes st p @ new \<and> length new = unat n
      \<and> pkt_frame p rest st st1 \<and> free_blks st1 = free_blks st \<and> cfg_blk_size st1 = cfg_blk_size st"
    if n: "unat n \<le> room" "unat n \<le> unat sz"
      and st1: "st1 = put_buf p (b\<lparr>buf_capacity := buf_capacity b + n\<rparr>)
                       (put_blk t (tb\<lparr>blk_size := blk_size tb + n\<rparr>) st)" for n st1
  proof -
    have size: "unat (blk_size tb + n) = unat (blk_size tb) + unat n"
      using data n(1) unat_u32_less [of "cfg_blk_size st"] by (intro unat_add_no_wrap) simp
    have cap: "unat (buf_capacity b + n) = unat (buf_capacity b) + unat n"
      using wrap t(8) n(2) by (intro unat_add_no_wrap) simp
    have fits: "blk_data tb + unat (blk_size tb + n) \<le> unat (cfg_blk_size st)"
      using data n(1) by (simp add: size)
    have "0 < unat (blk_size tb + n)" using t(1) by (simp add: size blk_ok_def)
    note tail = set_tail_size [OF inv b tb this fits, of "b\<lparr>buf_capacity := buf_capacity b + n\<rparr>"]
    let ?new = "take (unat n) (drop (unat (blk_size tb)) (drop (blk_data tb) (blk_payload tb)))"
    have "take (unat (blk_size tb + n)) (drop (blk_data tb) (blk_payload tb)) = blk_bytes tb @ ?new"
      by (simp add: size blk_bytes_def take_add)
    moreover have "length ?new = unat n" using t(1) fits by (simp add: blk_ok_def size)
    moreover have "unat (buf_capacity b) = length (blks_bytes (blk_heap st) l) + unat (blk_size tb)"
      using t(7,8) len by simp
    ultimately show ?thesis using tail t(7) b(2)
      by (intro exI [of _ ?new]) (simp add: st1 cap size)
  qed
  show ?thesis
  proof (cases "unat sz \<le> room")
    case True
    define st1 where "st1 = put_buf p (b\<lparr>buf_capacity := buf_capacity b + sz\<rparr>)
      (put_blk t (tb\<lparr>blk_size := blk_size tb + sz\<rparr>) st)"
    have "resize_grow p sz st = Some (NET_ERR_OK, st1)"
      using b tb le True by (simp add: resize_grow_def Let_def st1_def)
    with grow [OF True order_refl st1_def] True r show ?thesis by auto
  next
    case False
    define n :: u32 where "n = ucast (blk_get_last_size (cfg_blk_size st) tb)"
    have n: "unat n = room"
      using data unat_u32_less [of "cfg_blk_size st"] last_size
      by (simp add: n_def unsigned_ucast_eq take_bit_nat_eq_self)
    define st1 where "st1 = put_buf p (b\<lparr>buf_capacity := buf_capacity b + n\<rparr>)
      (put_blk t (tb\<lparr>blk_size := blk_size tb + n\<rparr>) st)"
    have "unat n \<le> room" "unat n \<le> unat sz" using n False by simp_all
    from grow [OF this st1_def] obtain new where g: "pkt_inv st1 p rest"
      "pkt_bytes st1 p = pkt_bytes st p @ new" "length new = room" "pkt_frame p rest st st1"
      "free_blks st1 = free_blks st" "cfg_blk_size st1 = cfg_blk_size st" using n by auto
    have run: "resize_grow p sz st = (case buf_alloc p (sz - (buf_capacity b + n)) False False st1 of
        None \<Rightarrow> None | Some (ok, st2) \<Rightarrow> Some (if ok then NET_ERR_OK else NET_ERR_MEM, st2))"
      using b tb le False
      by (simp add: resize_grow_def Let_def st1_def n_def split: option.split)
    show ?thesis
    proof (cases "length (pkt_bytes st p) + room \<le> unat sz
        \<and> blks_needed st (of_nat (unat sz - (length (pkt_bytes st p) + room))) \<le> length (free_blks st)")
      case True
      have cap: "unat (buf_capacity b + n) = length (pkt_bytes st p) + room"
        using True t(8) n unat_u32_less [of sz] by (subst unat_add_no_wrap) simp_all
      have need: "unat (sz - (buf_capacity b + n)) = unat sz - (length (pkt_bytes st p) + room)"
        using True by (simp add: cap unat_sub_le word_le_nat_alt)
      have "blks_needed st1 (sz - (buf_capacity b + n)) \<le> length (free_blks st1)"
        using True unfolding need [symmetric] by (simp add: blks_needed_cong [OF g(6)] g(5))
      moreover have "length (pkt_bytes st1 p) + unat (sz - (buf_capacity b + n)) < 2 ^ 32"
        using True wrap unat_u32_less [of sz] by (simp add: g need)
      ultimately obtain st2 new2 where "buf_alloc p (sz - (buf_capacity b + n)) False False st1 = Some (True, st2)"
        "pkt_inv st2 p rest" "length new2 = unat (sz - (buf_capacity b + n))"
        "pkt_bytes st2 p = pkt_bytes st1 p @ new2" "pkt_frame p rest st1 st2"
        "free_blks st2 = drop (blks_needed st1 (sz - (buf_capacity b + n))) (free_blks st1)"
        using buf_alloc_ok [OF g(1), of "sz - (buf_capacity b + n)" False False] cfg
        unfolding g(6) by auto
      then have "resize p sz st = Some (NET_ERR_OK, st2) \<and> pkt_inv st2 p rest
          \<and> pkt_bytes st2 p = pkt_bytes st p @ new @ new2 \<and> length (pkt_bytes st2 p) = unat sz
          \<and> pkt_frame p rest st st2
          \<and> free_blks st2 = drop (blks_needed st (sz - (buf_capacity b + n))) (free_blks st)"
        using run r g need True pkt_frame_trans [OF g(4)] by (simp add: blks_needed_cong [OF g(6)])
      moreover have "blks_needed st (sz - (buf_capacity b + n))
          = blks_needed st (of_nat (unat sz - (length (pkt_bytes st p) + room)))"
        unfolding need [symmetric] by simp
      ultimately have "resize p sz st = Some (NET_ERR_OK, st2) \<and> pkt_inv st2 p rest
          \<and> pkt_bytes st2 p = pkt_bytes st p @ new @ new2 \<and> length (pkt_bytes st2 p) = unat sz
          \<and> pkt_frame p rest st st2 \<and> free_blks st2 =
            drop (blks_needed st (of_nat (unat sz - (length (pkt_bytes st p) + room)))) (free_blks st)"
        by metis
      then show ?thesis using False True by auto
    next
      case short: False
      then show ?thesis using False by (simp only: if_False)
    qed
  qed
qed

subsection \<open>A store for the examples\<close>

text \<open>
  Three blocks of four bytes and three packets: packet 200 holds the bytes 7, 8 in block 100, packet
  264 holds 1, 2, 3 in block 124; block 148 and packet 328 are free.
\<close>

definition demo_store :: pkt_store where
  "demo_store = \<lparr>cfg_blk_size = 4,
     blk_heap = [100 \<mapsto> \<lparr>blk_size = 2, blk_data = 2, blk_payload = [0, 0, 7, 8]\<rparr>,
                 124 \<mapsto> \<lparr>blk_size = 3, blk_data = 0, blk_payload = [1, 2, 3, 0]\<rparr>,
                 148 \<mapsto> \<lparr>blk_size = 0, blk_data = 0, blk_payload = [0, 0, 0, 0]\<rparr>],
     blk_pool = demo_pool 24 [148],
     buf_heap = [200 \<mapsto> \<lparr>buf_capacity = 2, buf_blk_list = [100], buf_pos = 0, buf_cur_blk = At 0,
                          buf_blk_offset = Some (100, 2), buf_ref = 1\<rparr>,
                 264 \<mapsto> \<lparr>buf_capacity = 3, buf_blk_list = [124], buf_pos = 0, buf_cur_blk = At 0,
                          buf_blk_offset = Some (124, 0), buf_ref = 1\<rparr>,
                 328 \<mapsto> pkt_buffer_new],
     buf_pool = demo_pool 64 [328]\<rparr>"

lemma demo_free [simp]: "free_blks demo_store = [148]" "free_bufs demo_store = [328]"
  by (simp_all add: free_blks_def free_bufs_def demo_store_def demo_pool)

lemma demo_inv: "pkt_inv demo_store 200 [124]" "pkt_inv demo_store 264 [100]"
  by (simp_all add: pkt_inv_def blk_inv_def blks_bytes_def blk_bytes_def blk_ok_def)
    (simp_all add: demo_store_def demo_pool blk_ok_def)

lemma demo_bufs_inv: "bufs_inv demo_store [200, 264]"
  by (simp add: bufs_inv_def) (simp add: demo_store_def demo_pool pkt_buffer_new_def)

definition demo_small :: pkt_store where
  "demo_small = put_buf 264 \<lparr>buf_capacity = 1, buf_blk_list = [124], buf_pos = 0, buf_cur_blk = At 0,
                              buf_blk_offset = Some (124, 0), buf_ref = 1\<rparr>
                 (put_blk 124 \<lparr>blk_size = 1, blk_data = 0, blk_payload = [1, 2, 3, 0]\<rparr> demo_store)"

lemma demo_small_inv: "pkt_inv demo_small 264 [100]"
  by (simp add: pkt_inv_def blk_inv_def blks_bytes_def blk_bytes_def blk_ok_def demo_small_def)
    (simp add: demo_store_def demo_pool blk_ok_def)

lemma demo_bytes [simp]: "pkt_bytes demo_store 200 = [7, 8]" "pkt_bytes demo_store 264 = [1, 2, 3]"
  by (simp_all add: pkt_bytes_def demo_store_def blk_bytes_def)

lemma demo_cfg [simp]: "cfg_blk_size demo_store = 4"
  by (simp add: demo_store_def)

lemma demo_needed [simp]:
  "blks_needed demo_store n = (unat n + 3) div 4"
  by (simp add: blks_needed_def length_chunks)

subsection \<open>Properties\<close>

text \<open>
  C10. \<open>PktBuffer::alloc\<close> succeeds exactly when the pool holds enough blocks; it then puts \<open>size\<close> new
  bytes at the front or at the back of the packet, leaves the access position at the start, and
  takes that many blocks. When it fails it gives every block back, in the order in which it took
  them, and the bytes of the packet are unchanged. Other packets are untouched in both cases.
\<close>

theorem alloc_grows_packet:
  assumes "pkt_inv st p rest" "0 < unat (cfg_blk_size st)"
    and "length (pkt_bytes st p) + unat sz < 2 ^ 32"
  shows "\<exists>ok st' new. buf_alloc p sz alloc_front ins_front st = Some (ok, st')
     \<and> (ok \<longleftrightarrow> blks_needed st sz \<le> length (free_blks st))
     \<and> pkt_inv st' p rest \<and> pkt_frame p rest st st'
     \<and> (if ok then length new = unat sz
           \<and> pkt_bytes st' p = (if ins_front then new @ pkt_bytes st p else pkt_bytes st p @ new)
           \<and> reset_access p st' = Some st' \<and> free_blks st' = drop (blks_needed st sz) (free_blks st)
         else pkt_bytes st' p = pkt_bytes st p \<and> free_blks st' = free_blks st)"
proof (cases "blks_needed st sz \<le> length (free_blks st)")
  case True
  with buf_alloc_ok [OF assms, of alloc_front ins_front] obtain st' new where
    "buf_alloc p sz alloc_front ins_front st = Some (True, st')" "pkt_inv st' p rest"
    "length new = unat sz" "pkt_frame p rest st st'" "reset_access p st' = Some st'"
    "pkt_bytes st' p = (if ins_front then new @ pkt_bytes st p else pkt_bytes st p @ new)"
    "free_blks st' = drop (blks_needed st sz) (free_blks st)" by blast
  then show ?thesis using True by (intro exI [of _ True] exI [of _ st'] exI [of _ new]) simp
next
  case False
  then show ?thesis using buf_alloc_fail [OF assms(1,2), of sz alloc_front ins_front] by auto
qed

theorem alloc_grows_packet_witness:
  "(\<exists>st' new. buf_alloc 200 3 True False demo_store = Some (True, st')
      \<and> length new = 3 \<and> pkt_bytes st' 200 = [7, 8] @ new)
   \<and> (\<exists>st'. buf_alloc 200 5 True False demo_store = Some (False, st') \<and> pkt_bytes st' 200 = [7, 8])"
  using alloc_grows_packet [OF demo_inv(1), of 3 True False]
    alloc_grows_packet [OF demo_inv(1), of 5 True False] by auto

text \<open>
  C11. \<open>PktBuffer::free\<close> on the last reference gives back every block of the packet, then the packet
  itself, and leaves the other packets and the contents of all blocks alone; with more references it
  only counts down.
\<close>

theorem free_returns_blocks:
  assumes "pkt_inv st p rest" "bufs_inv st (p # live)" "buf_heap st p = Some b" "buf_ref b \<noteq> 0"
  shows "\<exists>st'. buf_free p st = Some st'
     \<and> (if buf_ref b = 1
        then blk_inv st' rest \<and> bufs_inv st' live \<and> blk_heap st' = blk_heap st
          \<and> free_blks st' = free_blks st @ buf_blk_list b \<and> free_bufs st' = free_bufs st @ [p]
          \<and> (\<forall>q. q \<noteq> p \<longrightarrow> buf_heap st' q = buf_heap st q)
        else st' = put_buf p (b\<lparr>buf_ref := buf_ref b - 1\<rparr>) st)"
proof (cases "buf_ref b = 1")
  case True
  then show ?thesis using buf_free_release [OF assms(1-3)] by auto
next
  case False
  then have "buf_ref b - 1 \<noteq> 0" by simp
  then show ?thesis using False assms(3) by (simp add: buf_free_def)
qed

theorem free_returns_blocks_witness:
  "\<exists>st'. buf_free 200 demo_store = Some st' \<and> blk_inv st' [124] \<and> free_blks st' = [148, 100]"
proof -
  obtain b where b: "buf_heap demo_store 200 = Some b" "buf_ref b = 1" "buf_blk_list b = [100]"
    by (simp add: demo_store_def)
  from free_returns_blocks [OF demo_inv(1) demo_bufs_inv b(1)] b(2,3) show ?thesis by auto
qed

text \<open>
  C12. \<open>PktBuffer::alloc_header\<close> puts \<open>size\<close> bytes before the packet, in whichever of its three ways
  (the room before the first block's data, one new block, or the room and as many new blocks as it
  takes); a header that was asked to be contiguous lies in the first block.
\<close>

theorem alloc_header_prepends:
  assumes "pkt_inv st p rest" "pkt_bytes st p \<noteq> []" "0 < unat (cfg_blk_size st)"
    and "length (pkt_bytes st p) + unat sz < 2 ^ 32"
    and "if is_cont then sz \<le> cfg_blk_size st \<and> free_blks st \<noteq> []
         else blks_needed st sz \<le> length (free_blks st)"
  shows "\<exists>st' new. alloc_header p sz is_cont st = Some (NET_ERR_OK, st') \<and> pkt_inv st' p rest
     \<and> length new = unat sz \<and> pkt_bytes st' p = new @ pkt_bytes st p \<and> pkt_frame p rest st st'
     \<and> (is_cont \<longrightarrow> unat sz \<le> cont_size st' p)"
  using alloc_header_run [OF assms] .

theorem alloc_header_prepends_witness:
  "\<exists>st' new. alloc_header 200 4 True demo_store = Some (NET_ERR_OK, st')
     \<and> length new = 4 \<and> pkt_bytes st' 200 = new @ [7, 8] \<and> 4 \<le> cont_size st' 200"
  using alloc_header_prepends [OF demo_inv(1), of 4 True] by auto

text \<open>
  \<open>PktBuffer::remove_header\<close> drops the first \<open>size\<close> bytes and never fails within the packet,
  whatever blocks the bytes lie in; beyond the packet's length it takes the front of an empty list.
\<close>

theorem remove_header_drops:
  assumes "pkt_inv st p rest" "pkt_bytes st p \<noteq> []"
  shows "if unat sz \<le> length (pkt_bytes st p)
     then \<exists>st'. remove_header p sz st = Some (NET_ERR_OK, st') \<and> pkt_inv st' p rest
        \<and> pkt_bytes st' p = drop (unat sz) (pkt_bytes st p) \<and> pkt_frame p rest st st'
        \<and> length (free_blks st) \<le> length (free_blks st')
     else remove_header p sz st = None"
proof (cases "unat sz \<le> length (pkt_bytes st p)")
  case True
  then show ?thesis using remove_header_run [OF assms] by simp
next
  case False
  from assms(1) obtain b where "buf_heap st p = Some b" "blk_inv st (buf_blk_list b @ rest)"
    "blks_ok (cfg_blk_size st) (blk_heap st) (buf_blk_list b)"
    "pkt_bytes st p = blks_bytes (blk_heap st) (buf_blk_list b)" by (rule pkt_inv_bytes)
  with False show ?thesis by (simp add: remove_header_def remove_header_loop_beyond)
qed

theorem remove_header_drops_witness:
  "(\<exists>st'. remove_header 264 2 demo_store = Some (NET_ERR_OK, st') \<and> pkt_bytes st' 264 = [3])
   \<and> remove_header 264 4 demo_store = None"
  using remove_header_drops [OF demo_inv(2), of 2] remove_header_drops [OF demo_inv(2), of 4] by auto

text \<open>
  \<open>PktBuffer::merge_buf\<close> appends the bytes of the other packet without copying any: its blocks
  change their owner, and the emptied packet goes back to the pool.
\<close>

theorem merge_appends:
  assumes "pkt_inv st p (buf_blk_list c @ rest)" "buf_heap st q = Some c" "p \<noteq> q"
    "blks_ok (cfg_blk_size st) (blk_heap st) (buf_blk_list c)"
    "length (pkt_bytes st q) = unat (buf_capacity c)" "bufs_inv st (q # live)" "p \<in> set live"
    and "length (pkt_bytes st p) + length (pkt_bytes st q) < 2 ^ 32"
  shows "\<exists>st'. merge_buf p q st = Some (NET_ERR_OK, st') \<and> pkt_inv st' p rest
     \<and> pkt_bytes st' p = pkt_bytes st p @ pkt_bytes st q \<and> bufs_inv st' live
     \<and> free_bufs st' = free_bufs st @ [q] \<and> blk_heap st' = blk_heap st \<and> blk_pool st' = blk_pool st
     \<and> (\<forall>r. r \<noteq> p \<longrightarrow> r \<noteq> q \<longrightarrow> buf_heap st' r = buf_heap st r)"
  using merge_buf_run [OF assms] by blast

theorem merge_appends_witness:
  "\<exists>st'. merge_buf 264 200 demo_store = Some (NET_ERR_OK, st') \<and> pkt_bytes st' 264 = [1, 2, 3, 7, 8]"
proof -
  obtain c where "buf_heap demo_store 200 = Some c" "buf_blk_list c = [100]" "buf_capacity c = 2"
    "blks_ok 4 (blk_heap demo_store) [100]" by (simp add: demo_store_def blk_ok_def)
  with merge_appends [of demo_store 264 c "[]" 200 "[264]"] demo_inv(2) demo_bufs_inv
  show ?thesis by auto
qed

text \<open>
  \<open>PktBuffer::set_cont_header\<close> never changes the bytes of the packet, only where they lie: it
  returns \<open>NET_ERR_SIZE\<close> when the header is longer than the packet or than a block, and otherwise the
  first \<open>size\<close> bytes lie in one block.
\<close>

theorem set_cont_header_contiguous:
  assumes "pkt_inv st p rest" "pkt_bytes st p \<noteq> []"
  shows "\<exists>st'. set_cont_header p sz st =
       Some (if length (pkt_bytes st p) < unat sz \<or> cfg_blk_size st < sz then NET_ERR_SIZE else NET_ERR_OK, st')
     \<and> pkt_inv st' p rest \<and> pkt_bytes st' p = pkt_bytes st p \<and> pkt_frame p rest st st'
     \<and> (unat sz \<le> length (pkt_bytes st p) \<longrightarrow> sz \<le> cfg_blk_size st \<longrightarrow> unat sz \<le> cont_size st' p)"
  using set_cont_header_run [OF assms] .

theorem set_cont_header_contiguous_witness:
  "\<exists>st1 st2. merge_buf 264 200 demo_store = Some (NET_ERR_OK, st1)
     \<and> set_cont_header 264 4 st1 = Some (NET_ERR_OK, st2)
     \<and> pkt_bytes st2 264 = [1, 2, 3, 7, 8] \<and> 4 \<le> cont_size st2 264"
proof -
  obtain c where "buf_heap demo_store 200 = Some c" "buf_blk_list c = [100]" "buf_capacity c = 2"
    "blks_ok 4 (blk_heap demo_store) [100]" by (simp add: demo_store_def blk_ok_def)
  with merge_buf_run [of demo_store 264 c "[]" 200 "[264]"] demo_inv(2) demo_bufs_inv
  obtain st1 where st1: "merge_buf 264 200 demo_store = Some (NET_ERR_OK, st1)"
    "pkt_inv st1 264 []" "pkt_bytes st1 264 = [1, 2, 3, 7, 8]" "cfg_blk_size st1 = 4" by auto
  from set_cont_header_contiguous [OF st1(2), of 4] st1 show ?thesis by auto
qed

text \<open>
  Shrinking with \<open>PktBuffer::resize\<close> keeps the first \<open>size\<close> bytes when the new end lies in the last
  block. When a block lies behind the new end, the loop that should release the blocks behind it
  erases each node before it reads it, and dereferences the end iterator.
\<close>

theorem resize_shrinks_within_last_block:
  assumes "pkt_inv st p rest" "buf_heap st p = Some b" "buf_blk_list b = l @ [t]"
    and "0 < unat sz" "unat sz < length (pkt_bytes st p)"
  shows "if length (blks_bytes (blk_heap st) l) < unat sz
     then \<exists>st'. resize p sz st = Some (NET_ERR_OK, st') \<and> pkt_inv st' p rest
        \<and> pkt_bytes st' p = take (unat sz) (pkt_bytes st p) \<and> pkt_frame p rest st st'
        \<and> free_blks st' = free_blks st
     else resize p sz st = None"
  using resize_shrink_run [OF assms] .

theorem resize_shrinks_within_last_block_witness:
  "(\<exists>st'. resize 264 2 demo_store = Some (NET_ERR_OK, st') \<and> pkt_bytes st' 264 = [1, 2])
   \<and> (\<exists>st1. merge_buf 264 200 demo_store = Some (NET_ERR_OK, st1) \<and> resize 264 2 st1 = None)"
proof -
  obtain d where d: "buf_heap demo_store 264 = Some d" "buf_blk_list d = [] @ [124]"
    by (simp add: demo_store_def)
  obtain c where "buf_heap demo_store 200 = Some c" "buf_blk_list c = [100]" "buf_capacity c = 2"
    "blks_ok 4 (blk_heap demo_store) [100]" by (simp add: demo_store_def blk_ok_def)
  with merge_buf_run [of demo_store 264 c "[]" 200 "[264]"] demo_inv(2) demo_bufs_inv
  obtain st1 where st1: "merge_buf 264 200 demo_store = Some (NET_ERR_OK, st1)"
    "pkt_inv st1 264 []" "pkt_bytes st1 264 = [1, 2, 3, 7, 8]" "blk_heap st1 = blk_heap demo_store"
    by auto
  from st1(1) d(1) \<open>buf_heap demo_store 200 = Some c\<close> obtain b1 where
    b1: "buf_heap st1 264 = Some b1" "buf_blk_list b1 = [124] @ [100]"
    by (auto simp: merge_buf_def release_pktbuffer_def Option.bind_eq_Some_conv
        \<open>buf_blk_list c = [100]\<close> d(2))
  have "length (blks_bytes (blk_heap st1) [124]) = 3"
    unfolding st1(4) by (simp add: demo_store_def blk_bytes_def)
  with resize_shrinks_within_last_block [OF demo_inv(2) d, of 2]
    resize_shrinks_within_last_block [OF st1(2) b1, of 2] st1
  show ?thesis by auto
qed

text \<open>
  Growing with \<open>PktBuffer::resize\<close>: when the last block has room for \<open>size\<close> more bytes the packet
  grows \<open>by\<close> \<open>size\<close> bytes instead of to \<open>size\<close> bytes; when it has not, and filling it up does not
  already exceed \<open>size\<close>, the packet ends with exactly \<open>size\<close> bytes.
\<close>

theorem resize_grows:
  assumes "pkt_inv st p rest" "buf_heap st p = Some b" "buf_blk_list b = l @ [t]"
    "blk_heap st t = Some tb" "length (pkt_bytes st p) < unat sz"
    "0 < unat (cfg_blk_size st)" "length (pkt_bytes st p) + unat sz < 2 ^ 32"
  shows "if unat sz \<le> unat (cfg_blk_size st) - (blk_data tb + unat (blk_size tb))
     then \<exists>st' new. resize p sz st = Some (NET_ERR_OK, st') \<and> pkt_inv st' p rest
        \<and> pkt_bytes st' p = pkt_bytes st p @ new \<and> length new = unat sz
        \<and> pkt_frame p rest st st' \<and> free_blks st' = free_blks st
     else if length (pkt_bytes st p) + (unat (cfg_blk_size st) - (blk_data tb + unat (blk_size tb))) \<le> unat sz
       \<and> blks_needed st (of_nat (unat sz - (length (pkt_bytes st p)
            + (unat (cfg_blk_size st) - (blk_data tb + unat (blk_size tb)))))) \<le> length (free_blks st)
     then \<exists>st' new. resize p sz st = Some (NET_ERR_OK, st') \<and> pkt_inv st' p rest
        \<and> pkt_bytes st' p = pkt_bytes st p @ new \<and> length (pkt_bytes st' p) = unat sz
        \<and> pkt_frame p rest st st'
        \<and> free_blks st' = drop (blks_needed st (of_nat (unat sz - (length (pkt_bytes st p)
            + (unat (cfg_blk_size st) - (blk_data tb + unat (blk_size tb))))))) (free_blks st)
     else True"
  using resize_grow_run [OF assms] .

theorem resize_grows_witness:
  "(\<exists>st' new. resize 264 3 demo_small = Some (NET_ERR_OK, st') \<and> pkt_bytes st' 264 = [1] @ new
      \<and> length (pkt_bytes st' 264) = 4)
   \<and> (\<exists>st'. resize 264 6 demo_small = Some (NET_ERR_OK, st') \<and> length (pkt_bytes st' 264) = 6)"
proof -
  obtain b where b: "buf_heap demo_small 264 = Some b" "buf_blk_list b = [] @ [124]"
    by (simp add: demo_small_def)
  obtain tb where tb: "blk_heap demo_small 124 = Some tb" "blk_data tb = 0" "blk_size tb = 1"
    by (simp add: demo_small_def)
  have "pkt_bytes demo_small 264 = [1]" "cfg_blk_size demo_small = 4" "free_blks demo_small = [148]"
    by (simp_all add: pkt_bytes_def demo_small_def blk_bytes_def)
  with resize_grows [OF demo_small_inv b tb(1), of 3] resize_grows [OF demo_small_inv b tb(1), of 6] tb(2,3)
  show ?thesis by (auto simp: blks_needed_def length_chunks)
qed

text \<open>
  When the pool is empty, a contiguous header of a packet without room returns \<open>NET_ERR_NONE\<close>, but
  the null pointer is already at the front of the block list: the packet is broken, and the next
  \<open>get_data\<close> or \<open>reset_access\<close> dereferences it.
\<close>

theorem alloc_header_pushes_null_block:
  assumes "pkt_inv st p rest" "buf_heap st p = Some b" "buf_blk_list b = a # l"
    "blk_heap st a = Some fb" "blk_data fb < unat sz" "sz \<le> cfg_blk_size st" "free_blks st = []"
    and "blk_heap st nullptr = None"
  shows "\<exists>st'. alloc_header p sz True st = Some (NET_ERR_NONE, st')
     \<and> get_data p st' = None \<and> reset_access p st' = None"
proof -
  define b1 where "b1 = b\<lparr>buf_blk_list := nullptr # buf_blk_list b,
    buf_cur_blk := cur_push_front (buf_cur_blk b)\<rparr>"
  from assms(1,2) have "blk_inv st (buf_blk_list b @ rest)" by (auto simp: pkt_inv_def)
  from get_pktblock_empty [OF this assms(7)]
  have "alloc_header p sz True st = Some (NET_ERR_NONE, put_buf p b1 st)"
    using assms(2-6) by (auto simp: alloc_header_def Let_def b1_def)
  moreover have "buf_blk_list b1 = nullptr # a # l" using assms(3) by (simp add: b1_def)
  ultimately show ?thesis using assms(8)
    by (simp add: get_data_def reset_access_def access_start_def)
qed

theorem alloc_header_pushes_null_block_witness:
  "\<exists>st'. alloc_header 200 3 True (demo_store\<lparr>blk_pool := demo_pool 24 []\<rparr>) = Some (NET_ERR_NONE, st')
     \<and> get_data 200 st' = None \<and> reset_access 200 st' = None"
proof -
  let ?st = "demo_store\<lparr>blk_pool := demo_pool 24 []\<rparr>"
  have "pkt_inv ?st 200 [124]"
    by (simp add: pkt_inv_def blk_inv_def blks_bytes_def blk_bytes_def blk_ok_def free_blks_def)
      (simp add: demo_store_def demo_pool blk_ok_def)
  moreover obtain b where "buf_heap ?st 200 = Some b" "buf_blk_list b = [100]"
    by (simp add: demo_store_def)
  moreover obtain fb where "blk_heap ?st 100 = Some fb" "blk_data fb = 2"
    by (simp add: demo_store_def)
  moreover have "free_blks ?st = []" "blk_heap ?st nullptr = None" "cfg_blk_size ?st = 4"
    by (simp_all add: free_blks_def demo_pool demo_store_def)
  ultimately show ?thesis
    using alloc_header_pushes_null_block [of ?st 200 "[124]" b 100 "[]" fb 3] by simp
qed

end
