(* ===== verification/PktAccess.thy ===== *)
theory PktAccess
  imports PktBuf
begin

text \<open>
  Reading and writing a packet at its access position (\<open>src/net/pktbuf.cc\<close>): \<open>seek\<close>, \<open>read\<close>,
  \<open>write\<close>, \<open>fill\<close> and \<open>copy\<close>, which walk the block list with an iterator and a raw pointer. The
  loops are \<^theory_text>\<open>partial_function\<close>s: a result \<open>Some\<close> says that the loop ends without undefined
  behaviour.
\<close>

subsection \<open>The access position\<close>

text \<open>
  \<open>m_pos\<close> has no value before the first \<open>reset_access\<close>. Pointers into different blocks are never
  compared or subtracted.
\<close>

definition get_pos :: "addr \<Rightarrow> pkt_store \<Rightarrow> u32 option" where
  "get_pos p st = do {
     b \<leftarrow> buf_heap st p;
     check (buf_cur_blk b \<noteq> Indeterminate);
     Some (buf_pos b)
   }"

definition total_blk_remain :: "addr \<Rightarrow> pkt_store \<Rightarrow> u32 option" where
  "total_blk_remain p st = do {
     b \<leftarrow> buf_heap st p;
     pos \<leftarrow> get_pos p st;
     Some (buf_capacity b - pos)
   }"

definition cur_blk_remain_size :: "addr \<Rightarrow> pkt_store \<Rightarrow> u32 option" where
  "cur_blk_remain_size p st = do {
     b \<leftarrow> buf_heap st p;
     (case buf_cur_blk b of
        End \<Rightarrow> Some 0
      | At i \<Rightarrow> do {
          a \<leftarrow> nth_opt (buf_blk_list b) i;
          blk \<leftarrow> blk_heap st a;
          (a', off) \<leftarrow> buf_blk_offset b;
          check (a' = a);
          Some (of_int (int (blk_data blk) + int (unat (blk_size blk)) - int off))
        }
      | _ \<Rightarrow> None)
   }"

definition move_forward :: "addr \<Rightarrow> u32 \<Rightarrow> pkt_store \<Rightarrow> pkt_store option" where
  "move_forward p sz st = do {
     b \<leftarrow> buf_heap st p;
     (case buf_cur_blk b of
        At i \<Rightarrow> do {
          a \<leftarrow> nth_opt (buf_blk_list b) i;
          cur_blk \<leftarrow> blk_heap st a;
          (a', off) \<leftarrow> buf_blk_offset b;
          check (a' = a \<and> off + unat sz \<le> length (blk_payload cur_blk));
          let b1 = b\<lparr>buf_pos := buf_pos b + sz, buf_blk_offset := Some (a, off + unat sz)\<rparr>;
          (if blk_data cur_blk + unat (blk_size cur_blk) \<le> off + unat sz
           then (if Suc i < length (buf_blk_list b)
                 then do {
                   nxt \<leftarrow> nth_opt (buf_blk_list b) (Suc i);
                   blk \<leftarrow> blk_heap st nxt;
                   Some (put_buf p (b1\<lparr>buf_cur_blk := At (Suc i),
                                      buf_blk_offset := Some (nxt, blk_data blk)\<rparr>) st)
                 }
                 else Some (put_buf p (b1\<lparr>buf_cur_blk := End, buf_blk_offset := None\<rparr>) st))
           else Some (put_buf p b1 st))
        }
      | _ \<Rightarrow> None)
   }"

text \<open>\<open>memcpy\<close> and \<open>memset\<close> at a pointer into a block; copied ranges must not overlap.\<close>

definition mem_read :: "(addr \<times> nat) option \<Rightarrow> nat \<Rightarrow> pkt_store \<Rightarrow> u8 list option" where
  "mem_read ptr n st = do {
     (a, off) \<leftarrow> ptr;
     blk \<leftarrow> blk_heap st a;
     bytes_get (blk_payload blk) off n
   }"

definition mem_write :: "(addr \<times> nat) option \<Rightarrow> u8 list \<Rightarrow> pkt_store \<Rightarrow> pkt_store option" where
  "mem_write ptr bytes st = do {
     (a, off) \<leftarrow> ptr;
     blk \<leftarrow> blk_heap st a;
     payload \<leftarrow> bytes_put (blk_payload blk) off bytes;
     Some (put_blk a (blk\<lparr>blk_payload := payload\<rparr>) st)
   }"

definition mem_copy :: "(addr \<times> nat) option \<Rightarrow> (addr \<times> nat) option \<Rightarrow> nat \<Rightarrow> pkt_store \<Rightarrow> pkt_store option" where
  "mem_copy dst src n st = do {
     (a, off) \<leftarrow> dst;
     (a', off') \<leftarrow> src;
     check (a \<noteq> a' \<or> off + n \<le> off' \<or> off' + n \<le> off);
     bytes \<leftarrow> mem_read src n st;
     mem_write dst bytes st
   }"

subsection \<open>The operations\<close>

text \<open>The methods \<open>seek\<close>, \<open>write\<close>, \<open>read\<close>, \<open>fill\<close> and \<open>copy\<close> carry the prefix \<open>pkt_\<close>.\<close>

partial_function (option) seek_loop :: "addr \<Rightarrow> u32 \<Rightarrow> pkt_store \<Rightarrow> pkt_store option" where
  "seek_loop p move_bytes st =
     (if move_bytes = 0 then Some st
      else do {
        remain_size \<leftarrow> cur_blk_remain_size p st;
        st1 \<leftarrow> move_forward p (min remain_size move_bytes) st;
        seek_loop p (move_bytes - min remain_size move_bytes) st1
      })"

definition pkt_seek :: "addr \<Rightarrow> u32 \<Rightarrow> pkt_store \<Rightarrow> (net_err \<times> pkt_store) option" where
  "pkt_seek p offset st = do {
     b \<leftarrow> buf_heap st p;
     pos \<leftarrow> get_pos p st;
     (if pos = offset then Some (NET_ERR_OK, st)
      else if buf_capacity b < offset then Some (NET_ERR_SIZE, st)
      else if offset < pos
      then do {
        a \<leftarrow> nth_opt (buf_blk_list b) 0;
        blk \<leftarrow> blk_heap st a;
        st1 \<leftarrow> seek_loop p offset
          (put_buf p (b\<lparr>buf_cur_blk := At 0, buf_blk_offset := Some (a, blk_data blk), buf_pos := 0\<rparr>) st);
        Some (NET_ERR_OK, st1)
      }
      else do {
        st1 \<leftarrow> seek_loop p (offset - pos) st;
        Some (NET_ERR_OK, st1)
      })
   }"

text \<open>\<open>src\<close> and \<open>dest\<close> of \<open>write\<close> and \<open>read\<close>: the caller's buffer, or the null pointer.\<close>

partial_function (option) write_loop :: "addr \<Rightarrow> u8 list \<Rightarrow> u32 \<Rightarrow> pkt_store \<Rightarrow> pkt_store option" where
  "write_loop p src sz st =
     (if sz = 0 then Some st
      else do {
        b_size \<leftarrow> cur_blk_remain_size p st;
        b \<leftarrow> buf_heap st p;
        bytes \<leftarrow> bytes_get src 0 (unat (min sz b_size));
        st1 \<leftarrow> mem_write (buf_blk_offset b) bytes st;
        st2 \<leftarrow> move_forward p (min sz b_size) st1;
        write_loop p (drop (unat (min sz b_size)) src) (sz - min sz b_size) st2
      })"

definition pkt_write :: "addr \<Rightarrow> u8 list option \<Rightarrow> u32 \<Rightarrow> pkt_store \<Rightarrow> (net_err \<times> pkt_store) option" where
  "pkt_write p src sz st =
     (case src of
        None \<Rightarrow> Some (NET_ERR_PARAM, st)
      | Some bytes \<Rightarrow>
         if sz = 0 then Some (NET_ERR_PARAM, st)
         else do {
           remain_size \<leftarrow> total_blk_remain p st;
           (if remain_size < sz then Some (NET_ERR_SIZE, st)
            else do { st1 \<leftarrow> write_loop p bytes sz st; Some (NET_ERR_OK, st1) })
         })"

partial_function (option) read_loop :: "addr \<Rightarrow> u8 list \<Rightarrow> nat \<Rightarrow> u32 \<Rightarrow> pkt_store
    \<Rightarrow> (u8 list \<times> pkt_store) option" where
  "read_loop p dest i sz st =
     (if sz = 0 then Some (dest, st)
      else do {
        b_size \<leftarrow> cur_blk_remain_size p st;
        b \<leftarrow> buf_heap st p;
        bytes \<leftarrow> mem_read (buf_blk_offset b) (unat (min sz b_size)) st;
        dest1 \<leftarrow> bytes_put dest i bytes;
        st1 \<leftarrow> move_forward p (min sz b_size) st;
        read_loop p dest1 (i + unat (min sz b_size)) (sz - min sz b_size) st1
      })"

definition pkt_read :: "addr \<Rightarrow> u8 list option \<Rightarrow> u32 \<Rightarrow> pkt_store
    \<Rightarrow> (net_err \<times> u8 list option \<times> pkt_store) option" where
  "pkt_read p dest sz st =
     (case dest of
        None \<Rightarrow> Some (NET_ERR_PARAM, None, st)
      | Some bytes \<Rightarrow>
         if sz = 0 then Some (NET_ERR_PARAM, Some bytes, st)
         else do {
           remain_size \<leftarrow> total_blk_remain p st;
           (if remain_size < sz then Some (NET_ERR_SIZE, Some bytes, st)
            else do { (bytes1, st1) \<leftarrow> read_loop p bytes 0 sz st; Some (NET_ERR_OK, Some bytes1, st1) })
         })"

partial_function (option) fill_loop :: "addr \<Rightarrow> u8 \<Rightarrow> u32 \<Rightarrow> pkt_store \<Rightarrow> pkt_store option" where
  "fill_loop p v sz st =
     (if sz = 0 then Some st
      else do {
        b_size \<leftarrow> cur_blk_remain_size p st;
        b \<leftarrow> buf_heap st p;
        st1 \<leftarrow> mem_write (buf_blk_offset b) (replicate (unat (min sz b_size)) v) st;
        st2 \<leftarrow> move_forward p (min sz b_size) st1;
        fill_loop p v (sz - min sz b_size) st2
      })"

definition pkt_fill :: "addr \<Rightarrow> u8 \<Rightarrow> u32 \<Rightarrow> pkt_store \<Rightarrow> (net_err \<times> pkt_store) option" where
  "pkt_fill p v sz st =
     (if sz = 0 then Some (NET_ERR_PARAM, st)
      else do {
        remain_size \<leftarrow> total_blk_remain p st;
        (if remain_size < sz then Some (NET_ERR_SIZE, st)
         else do { st1 \<leftarrow> fill_loop p v sz st; Some (NET_ERR_OK, st1) })
      })"

partial_function (option) copy_loop :: "addr \<Rightarrow> addr \<Rightarrow> u32 \<Rightarrow> pkt_store \<Rightarrow> pkt_store option" where
  "copy_loop p src sz st =
     (if sz = 0 then Some st
      else do {
        dest_remain \<leftarrow> cur_blk_remain_size p st;
        src_remain \<leftarrow> cur_blk_remain_size src st;
        let copy_size = min sz (min dest_remain src_remain);
        b \<leftarrow> buf_heap st p;
        s \<leftarrow> buf_heap st src;
        st1 \<leftarrow> mem_copy (buf_blk_offset b) (buf_blk_offset s) (unat copy_size) st;
        st2 \<leftarrow> move_forward p copy_size st1;
        st3 \<leftarrow> move_forward src copy_size st2;
        copy_loop p src (sz - copy_size) st3
      })"

definition pkt_copy :: "addr \<Rightarrow> addr \<Rightarrow> u32 \<Rightarrow> pkt_store \<Rightarrow> (net_err \<times> pkt_store) option" where
  "pkt_copy p src sz st = do {
     remain \<leftarrow> total_blk_remain p st;
     (if remain < sz then Some (NET_ERR_SIZE, st)
      else do {
        src_remain \<leftarrow> total_blk_remain src st;
        (if src_remain < sz then Some (NET_ERR_SIZE, st)
         else do { st1 \<leftarrow> copy_loop p src sz st; Some (NET_ERR_OK, st1) })
      })
   }"

subsection \<open>The access invariant\<close>

text \<open>
  The iterator, the pointer and \<open>m_pos\<close> denote the same position of the byte string: either the end,
  or a byte inside one block.
\<close>

definition at_pos :: "pkt_store \<Rightarrow> addr \<Rightarrow> nat \<Rightarrow> bool" where
  "at_pos st p pos \<longleftrightarrow> (\<exists>b. buf_heap st p = Some b \<and> unat (buf_pos b) = pos \<and>
     ((pos = length (pkt_bytes st p) \<and> buf_cur_blk b = End \<and> buf_blk_offset b = None)
      \<or> (\<exists>l1 a l2 blk k. buf_blk_list b = l1 @ a # l2 \<and> buf_cur_blk b = At (length l1)
           \<and> blk_heap st a = Some blk \<and> buf_blk_offset b = Some (a, blk_data blk + k)
           \<and> k < unat (blk_size blk) \<and> pos = length (blks_bytes (blk_heap st) l1) + k)))"

definition acc_inv :: "pkt_store \<Rightarrow> addr \<Rightarrow> addr list \<Rightarrow> nat \<Rightarrow> bool" where
  "acc_inv st p rest pos \<longleftrightarrow> pkt_inv st p rest \<and> at_pos st p pos"

text \<open>What one step of an access leaves alone: the shape of every packet and all foreign blocks.\<close>

definition acc_frame :: "addr \<Rightarrow> addr list \<Rightarrow> pkt_store \<Rightarrow> pkt_store \<Rightarrow> bool" where
  "acc_frame p rest st st' \<longleftrightarrow> cfg_blk_size st' = cfg_blk_size st \<and> buf_pool st' = buf_pool st
     \<and> blk_pool st' = blk_pool st \<and> (\<forall>q. q \<noteq> p \<longrightarrow> buf_heap st' q = buf_heap st q)
     \<and> (\<forall>a \<in> set rest. blk_heap st' a = blk_heap st a)
     \<and> map_option buf_blk_list (buf_heap st' p) = map_option buf_blk_list (buf_heap st p)
     \<and> map_option buf_capacity (buf_heap st' p) = map_option buf_capacity (buf_heap st p)"

lemma acc_frame_refl [simp]: "acc_frame p rest st st"
  by (simp add: acc_frame_def)

lemma acc_frame_trans: "acc_frame p rest st st1 \<Longrightarrow> acc_frame p rest st1 st2 \<Longrightarrow> acc_frame p rest st st2"
  by (simp add: acc_frame_def)

lemma reset_access_at_start:
  assumes inv: "pkt_inv st p rest"
  shows "\<exists>st'. reset_access p st = Some st' \<and> acc_inv st' p rest 0 \<and> pkt_bytes st' p = pkt_bytes st p
     \<and> acc_frame p rest st st'"
proof -
  from inv obtain b where b: "buf_heap st p = Some b" "blk_inv st (buf_blk_list b @ rest)"
    "blks_ok (cfg_blk_size st) (blk_heap st) (buf_blk_list b)"
    "pkt_bytes st p = blks_bytes (blk_heap st) (buf_blk_list b)"
    "length (pkt_bytes st p) = unat (buf_capacity b)" by (rule pkt_inv_bytes)
  show ?thesis
  proof (cases "buf_blk_list b")
    case Nil
    define b' where "b' = b\<lparr>buf_pos := 0, buf_cur_blk := End, buf_blk_offset := None\<rparr>"
    have "reset_access p st = Some (put_buf p b' st)"
      using b(1) Nil by (simp add: reset_access_def access_start_def b'_def)
    moreover have "pkt_inv (put_buf p b' st) p rest" "pkt_bytes (put_buf p b' st) p = pkt_bytes st p"
      using b pkt_inv_put_buf [of st b' rest p] by (simp_all add: b'_def)
    moreover have "at_pos (put_buf p b' st) p 0"
      using b Nil by (simp add: at_pos_def b'_def pkt_bytes_def)
    ultimately show ?thesis using b(1)
      by (intro exI [of _ "put_buf p b' st"]) (simp add: acc_inv_def acc_frame_def b'_def)
  next
    case (Cons a l)
    from b(3) Cons obtain blk where blk: "blk_heap st a = Some blk" "blk_ok (cfg_blk_size st) blk" by auto
    define b' where "b' = b\<lparr>buf_pos := 0, buf_cur_blk := At 0, buf_blk_offset := Some (a, blk_data blk)\<rparr>"
    have "reset_access p st = Some (put_buf p b' st)"
      using b(1) Cons blk(1) by (simp add: reset_access_def access_start_def b'_def)
    moreover have "pkt_inv (put_buf p b' st) p rest" "pkt_bytes (put_buf p b' st) p = pkt_bytes st p"
      using b pkt_inv_put_buf [of st b' rest p] by (simp_all add: b'_def)
    moreover have "at_pos (put_buf p b' st) p 0"
      unfolding at_pos_def using b Cons blk
      by (intro exI [of _ b'] conjI disjI2 exI [of _ "[]"] exI [of _ a] exI [of _ l] exI [of _ blk]
          exI [of _ "0::nat"]) (simp_all add: b'_def blk_ok_def)
    ultimately show ?thesis using b(1)
      by (intro exI [of _ "put_buf p b' st"]) (simp add: acc_inv_def acc_frame_def b'_def)
  qed
qed

text \<open>The block under the access position, when the position is not the end.\<close>

lemma acc_inv_inside:
  assumes "acc_inv st p rest pos" "pos < length (pkt_bytes st p)"
  obtains b l1 a l2 blk k where "buf_heap st p = Some b" "unat (buf_pos b) = pos"
    "buf_blk_list b = l1 @ a # l2" "buf_cur_blk b = At (length l1)" "blk_heap st a = Some blk"
    "buf_blk_offset b = Some (a, blk_data blk + k)" "k < unat (blk_size blk)"
    "pos = length (blks_bytes (blk_heap st) l1) + k" "blk_ok (cfg_blk_size st) blk"
    "pkt_bytes st p = blks_bytes (blk_heap st) l1 @ blk_bytes blk @ blks_bytes (blk_heap st) l2"
    "blks_ok (cfg_blk_size st) (blk_heap st) (l1 @ l2)" "a \<notin> set (l1 @ l2)" "a \<notin> set rest"
    "blk_inv st ((l1 @ a # l2) @ rest)" "length (pkt_bytes st p) = unat (buf_capacity b)"
proof -
  from assms obtain b l1 a l2 blk k where 1: "buf_heap st p = Some b" "unat (buf_pos b) = pos"
    "buf_blk_list b = l1 @ a # l2" "buf_cur_blk b = At (length l1)" "blk_heap st a = Some blk"
    "buf_blk_offset b = Some (a, blk_data blk + k)" "k < unat (blk_size blk)"
    "pos = length (blks_bytes (blk_heap st) l1) + k" by (auto simp: acc_inv_def at_pos_def)
  then have "blk_inv st ((l1 @ a # l2) @ rest)" "blks_ok (cfg_blk_size st) (blk_heap st) (l1 @ a # l2)"
    "length (blks_bytes (blk_heap st) (l1 @ a # l2)) = unat (buf_capacity b)"
    using assms(1) by (auto simp: acc_inv_def pkt_inv_def)
  then show thesis using 1 by (intro that) (auto simp: blk_inv_def pkt_bytes_def)
qed

lemma cur_blk_remain:
  assumes inv: "acc_inv st p rest pos" and pos: "pos < length (pkt_bytes st p)"
  shows "\<exists>r b a off. cur_blk_remain_size p st = Some r \<and> 0 < unat r
     \<and> pos + unat r \<le> length (pkt_bytes st p)
     \<and> buf_heap st p = Some b \<and> buf_blk_offset b = Some (a, off)
     \<and> a \<in> set (buf_blk_list b) \<and> a \<notin> set rest
     \<and> (\<forall>n \<le> unat r. mem_read (Some (a, off)) n st = Some (take n (drop pos (pkt_bytes st p))))"
proof -
  from inv pos obtain b l1 a l2 blk k where w: "buf_heap st p = Some b" "unat (buf_pos b) = pos"
    "buf_blk_list b = l1 @ a # l2" "buf_cur_blk b = At (length l1)" "blk_heap st a = Some blk"
    "buf_blk_offset b = Some (a, blk_data blk + k)" "k < unat (blk_size blk)"
    "pos = length (blks_bytes (blk_heap st) l1) + k" "blk_ok (cfg_blk_size st) blk"
    "pkt_bytes st p = blks_bytes (blk_heap st) l1 @ blk_bytes blk @ blks_bytes (blk_heap st) l2"
    "a \<notin> set rest" by (rule acc_inv_inside)
  note len = length_blk_bytes [OF w(9)]
  define r :: u32 where "r = of_nat (unat (blk_size blk) - k)"
  have r: "unat r = unat (blk_size blk) - k"
    using unat_u32_less [of "blk_size blk"] by (simp add: r_def unat_of_nat)
  have "(of_int (int (blk_data blk) + int (unat (blk_size blk)) - int (blk_data blk + k)) :: u32) = r"
    using w(7) by (simp add: r_def of_nat_diff)
  then have "cur_blk_remain_size p st = Some r"
    using w(1,3-6) by (simp add: cur_blk_remain_size_def of_nat_add)
  moreover have "mem_read (Some (a, blk_data blk + k)) n st = Some (take n (drop pos (pkt_bytes st p)))"
    if n: "n \<le> unat r" for n
  proof -
    have "drop pos (pkt_bytes st p) = drop k (blk_bytes blk) @ blks_bytes (blk_heap st) l2"
      using w(7,8,10) len by simp
    then have "take n (drop pos (pkt_bytes st p)) = take n (drop k (blk_bytes blk))"
      using n r len by simp
    also have "\<dots> = take n (drop (blk_data blk + k) (blk_payload blk))"
      using n r by (simp add: blk_bytes_def drop_take min_def add.commute)
    moreover have "blk_data blk + k + n \<le> length (blk_payload blk)"
      using n r w(7,9) unfolding blk_ok_def by linarith
    ultimately show ?thesis using w(5) by (simp add: mem_read_def bytes_get_def)
  qed
  ultimately show ?thesis using w r len by auto
qed

lemma move_forward_run:
  assumes inv: "acc_inv st p rest pos" and r: "cur_blk_remain_size p st = Some r"
    and n: "unat n \<le> unat r" and pos: "pos < length (pkt_bytes st p)"
  shows "\<exists>st'. move_forward p n st = Some st' \<and> acc_inv st' p rest (pos + unat n)
     \<and> blk_heap st' = blk_heap st \<and> pkt_bytes st' p = pkt_bytes st p \<and> acc_frame p rest st st'"
proof -
  from inv pos obtain b l1 a l2 blk k where w: "buf_heap st p = Some b" "unat (buf_pos b) = pos"
    "buf_blk_list b = l1 @ a # l2" "buf_cur_blk b = At (length l1)" "blk_heap st a = Some blk"
    "buf_blk_offset b = Some (a, blk_data blk + k)" "k < unat (blk_size blk)"
    "pos = length (blks_bytes (blk_heap st) l1) + k" "blk_ok (cfg_blk_size st) blk"
    "pkt_bytes st p = blks_bytes (blk_heap st) l1 @ blk_bytes blk @ blks_bytes (blk_heap st) l2"
    "blks_ok (cfg_blk_size st) (blk_heap st) (l1 @ l2)" "a \<notin> set (l1 @ l2)" "a \<notin> set rest"
    "blk_inv st ((l1 @ a # l2) @ rest)" "length (pkt_bytes st p) = unat (buf_capacity b)"
    by (rule acc_inv_inside)
  note len = length_blk_bytes [OF w(9)]
  have "(of_int (int (blk_data blk) + int (unat (blk_size blk)) - int (blk_data blk + k)) :: u32)
      = of_nat (unat (blk_size blk) - k)" using w(7) by (simp add: of_nat_diff)
  then have "r = of_nat (unat (blk_size blk) - k)"
    using r w(1,3-6) by (simp add: cur_blk_remain_size_def of_nat_add)
  then have r': "unat r = unat (blk_size blk) - k"
    using unat_u32_less [of "blk_size blk"] by (simp add: unat_of_nat)
  have upos: "unat (buf_pos b + n) = pos + unat n"
    using n r' w(7,8,10,15) len w(2) unat_u32_less [of "buf_capacity b"]
    by (subst unat_add_no_wrap) simp_all
  have fits: "blk_data blk + k + unat n \<le> length (blk_payload blk)"
    using n r' w(7,9) unfolding blk_ok_def by linarith
  have keep: "pkt_inv (put_buf p b' st) p rest" "pkt_bytes (put_buf p b' st) p = pkt_bytes st p"
    "acc_frame p rest st (put_buf p b' st)"
    if "buf_blk_list b' = buf_blk_list b" "buf_capacity b' = buf_capacity b" for b'
  proof -
    note pkt_inv_put_buf [of st b' rest p]
    then show "pkt_inv (put_buf p b' st) p rest" "pkt_bytes (put_buf p b' st) p = pkt_bytes st p"
      using inv w(1) that by (auto simp: acc_inv_def pkt_inv_def pkt_bytes_def)
    show "acc_frame p rest st (put_buf p b' st)" using that w(1) by (simp add: acc_frame_def)
  qed
  define b1 where "b1 = b\<lparr>buf_pos := buf_pos b + n, buf_blk_offset := Some (a, blk_data blk + k + unat n)\<rparr>"
  have finish: ?thesis if run: "move_forward p n st = Some (put_buf p b' st)"
    and "at_pos (put_buf p b' st) p (pos + unat n)"
    and b': "buf_blk_list b' = buf_blk_list b" "buf_capacity b' = buf_capacity b" for b'
    using that keep [OF b'] by (intro exI [of _ "put_buf p b' st"]) (simp add: acc_inv_def)
  show ?thesis
  proof (cases "k + unat n < unat (blk_size blk)")
    case True
    have "move_forward p n st = Some (put_buf p b1 st)"
      using w(1,3-6) fits True by (simp add: move_forward_def Let_def b1_def)
    moreover have "at_pos (put_buf p b1 st) p (pos + unat n)"
      unfolding at_pos_def using w(3-8) True upos
      by (intro exI [of _ b1] conjI disjI2 exI [of _ l1] exI [of _ a] exI [of _ l2] exI [of _ blk]
          exI [of _ "k + unat n"]) (simp_all add: b1_def)
    ultimately show ?thesis by (rule finish) (simp_all add: b1_def)
  next
    case False
    then have full: "k + unat n = unat (blk_size blk)" using n r' w(7) by simp
    show ?thesis
    proof (cases l2)
      case Nil
      define b2 where "b2 = b1\<lparr>buf_cur_blk := End, buf_blk_offset := None\<rparr>"
      have "move_forward p n st = Some (put_buf p b2 st)"
        using w(1,3-6) fits False Nil by (simp add: move_forward_def Let_def b1_def b2_def)
      moreover have "pos + unat n = length (pkt_bytes (put_buf p b2 st) p)"
        using keep(2) [of b2] w(8,10) full len Nil by (simp add: b2_def b1_def)
      then have "at_pos (put_buf p b2 st) p (pos + unat n)"
        unfolding at_pos_def using upos by (intro exI [of _ b2]) (simp add: b2_def b1_def)
      ultimately show ?thesis by (rule finish) (simp_all add: b2_def b1_def)
    next
      case (Cons c l3)
      with w(11) obtain blk2 where blk2: "blk_heap st c = Some blk2" "blk_ok (cfg_blk_size st) blk2" by auto
      define b2 where "b2 = b1\<lparr>buf_cur_blk := At (Suc (length l1)), buf_blk_offset := Some (c, blk_data blk2)\<rparr>"
      have "move_forward p n st = Some (put_buf p b2 st)"
        using w(1,3-6) fits False Cons blk2(1)
        by (simp add: move_forward_def Let_def b1_def b2_def nth_opt_def nth_append)
      moreover have "at_pos (put_buf p b2 st) p (pos + unat n)"
        unfolding at_pos_def using w(3,5,8) Cons blk2 upos full len
        by (intro exI [of _ b2] conjI disjI2 exI [of _ "l1 @ [a]"] exI [of _ c] exI [of _ l3]
            exI [of _ blk2] exI [of _ "0::nat"]) (simp_all add: b2_def b1_def blk_ok_def)
      ultimately show ?thesis by (rule finish) (simp_all add: b2_def b1_def)
    qed
  qed
qed

lemma mem_write_run:
  assumes inv: "acc_inv st p rest pos" and pos: "pos < length (pkt_bytes st p)"
    and r: "cur_blk_remain_size p st = Some r" and b: "buf_heap st p = Some b"
    and n: "length bytes \<le> unat r"
  shows "\<exists>st'. mem_write (buf_blk_offset b) bytes st = Some st' \<and> acc_inv st' p rest pos
     \<and> buf_heap st' = buf_heap st \<and> cur_blk_remain_size p st' = Some r \<and> acc_frame p rest st st'
     \<and> pkt_bytes st' p = take pos (pkt_bytes st p) @ bytes @ drop (pos + length bytes) (pkt_bytes st p)"
proof -
  from inv pos obtain b' l1 a l2 blk k where w: "buf_heap st p = Some b'" "unat (buf_pos b') = pos"
    "buf_blk_list b' = l1 @ a # l2" "buf_cur_blk b' = At (length l1)" "blk_heap st a = Some blk"
    "buf_blk_offset b' = Some (a, blk_data blk + k)" "k < unat (blk_size blk)"
    "pos = length (blks_bytes (blk_heap st) l1) + k" "blk_ok (cfg_blk_size st) blk"
    "pkt_bytes st p = blks_bytes (blk_heap st) l1 @ blk_bytes blk @ blks_bytes (blk_heap st) l2"
    "blks_ok (cfg_blk_size st) (blk_heap st) (l1 @ l2)" "a \<notin> set (l1 @ l2)" "a \<notin> set rest"
    "blk_inv st ((l1 @ a # l2) @ rest)" "length (pkt_bytes st p) = unat (buf_capacity b')"
    by (rule acc_inv_inside)
  note len = length_blk_bytes [OF w(9)]
  have [simp]: "b' = b" using w(1) b by simp
  have "(of_int (int (blk_data blk) + int (unat (blk_size blk)) - int (blk_data blk + k)) :: u32)
      = of_nat (unat (blk_size blk) - k)" using w(7) by (simp add: of_nat_diff)
  then have "r = of_nat (unat (blk_size blk) - k)"
    using r w(1,3-6) by (simp add: cur_blk_remain_size_def of_nat_add)
  then have r': "unat r = unat (blk_size blk) - k"
    using unat_u32_less [of "blk_size blk"] by (simp add: unat_of_nat)
  have fits: "k + length bytes \<le> unat (blk_size blk)" using n r' w(7) by simp
  define blk' where "blk' = blk\<lparr>blk_payload := take (blk_data blk + k) (blk_payload blk) @ bytes
    @ drop (blk_data blk + k + length bytes) (blk_payload blk)\<rparr>"
  define st1 where "st1 = put_blk a blk' st"
  have put: "bytes_put (blk_payload blk) (blk_data blk + k) bytes = Some (blk_payload blk')"
    using fits w(9) unfolding blk_ok_def bytes_put_def blk'_def by simp
  then have run: "mem_write (buf_blk_offset b) bytes st = Some st1"
    using w(5,6) by (simp add: mem_write_def st1_def blk'_def)
  have ok: "blk_ok (cfg_blk_size st) blk'"
    using w(9) length_bytes_put [OF put] by (simp add: blk_ok_def blk'_def)
  have bytes': "blk_bytes blk' = take k (blk_bytes blk) @ bytes @ drop (k + length bytes) (blk_bytes blk)"
  proof -
    have "blk_data blk + unat (blk_size blk) \<le> length (blk_payload blk)"
      using w(9) by (simp add: blk_ok_def)
    note take_drop_put [OF this fits]
    then show ?thesis by (simp only: blk_bytes_def [of blk]) (simp add: blk_bytes_def blk'_def)
  qed
  have heap: "blks_bytes (blk_heap st1) l1 = blks_bytes (blk_heap st) l1"
    "blks_bytes (blk_heap st1) l2 = blks_bytes (blk_heap st) l2"
    "blks_ok (cfg_blk_size st) (blk_heap st1) (l1 @ l2)" "blk_heap st1 a = Some blk'"
    using w(11,12) by (simp_all add: st1_def)
  have new: "pkt_bytes st1 p = take pos (pkt_bytes st p) @ bytes @ drop (pos + length bytes) (pkt_bytes st p)"
    using w(1,3,7,8,10) fits len heap bytes' by (simp add: pkt_bytes_def st1_def)
  have own: "blk_inv st1 ((l1 @ a # l2) @ rest)"
    unfolding st1_def using w(14) ok by (intro blk_inv_put_blk) (simp_all add: blk_ok_def)
  have "pkt_inv st1 p rest"
    unfolding pkt_inv_def
    using w(1,3,10,15) heap ok own bytes' fits len by (intro exI [of _ b]) (simp add: st1_def)
  moreover have "at_pos st1 p pos"
    unfolding at_pos_def using w(1-4,6-8) heap
    by (intro exI [of _ b] conjI disjI2 exI [of _ l1] exI [of _ a] exI [of _ l2] exI [of _ blk']
        exI [of _ k]) (simp_all add: st1_def blk'_def)
  moreover have "cur_blk_remain_size p st1 = Some r"
    using r w(1,3-6) by (simp add: cur_blk_remain_size_def st1_def blk'_def)
  moreover have "acc_frame p rest st st1" using w(13) by (auto simp: acc_frame_def st1_def)
  ultimately show ?thesis using run new by (intro exI [of _ st1]) (simp add: acc_inv_def st1_def)
qed

subsection \<open>The loops\<close>

lemma acc_inv_length:
  "acc_inv st p rest pos \<Longrightarrow> pos \<le> length (pkt_bytes st p)"
  by (auto simp: acc_inv_def at_pos_def pkt_bytes_def blk_ok_def length_blk_bytes pkt_inv_def)

lemma seek_loop_run:
  assumes "acc_inv st p rest pos" "pos + unat n \<le> length (pkt_bytes st p)"
  shows "\<exists>st'. seek_loop p n st = Some st' \<and> acc_inv st' p rest (pos + unat n)
     \<and> blk_heap st' = blk_heap st \<and> pkt_bytes st' p = pkt_bytes st p \<and> acc_frame p rest st st'"
  using assms
proof (induction "unat n" arbitrary: n st pos rule: less_induct)
  case less
  show ?case
  proof (cases "n = 0")
    case True
    then show ?thesis using less.prems by (subst seek_loop.simps) simp
  next
    case False
    then have lt: "pos < length (pkt_bytes st p)" using less.prems(2) unat_0_iff [of n] by linarith
    from cur_blk_remain [OF less.prems(1) lt] obtain r where r: "cur_blk_remain_size p st = Some r"
      "0 < unat r" "pos + unat r \<le> length (pkt_bytes st p)" by auto
    define m where "m = min r n"
    have "0 < unat n" using False by (metis gr0I unat_0_iff)
    then have m: "unat m \<le> unat r" "unat m \<le> unat n" "0 < unat m"
      using r(2) by (simp_all add: m_def unat_min)
    then have sub: "unat (n - m) = unat n - unat m" by (simp add: unat_sub_le word_le_nat_alt)
    from move_forward_run [OF less.prems(1) r(1) m(1) lt] obtain st1 where
      st1: "move_forward p m st = Some st1" "acc_inv st1 p rest (pos + unat m)"
      "blk_heap st1 = blk_heap st" "pkt_bytes st1 p = pkt_bytes st p" "acc_frame p rest st st1" by blast
    have "unat (n - m) < unat n" "pos + unat m + unat (n - m) \<le> length (pkt_bytes st1 p)"
      using sub m less.prems(2) st1(4) by simp_all
    from less.hyps [OF this(1) st1(2) this(2)] obtain st2 where
      st2: "seek_loop p (n - m) st1 = Some st2" "acc_inv st2 p rest (pos + unat m + unat (n - m))"
      "blk_heap st2 = blk_heap st1" "pkt_bytes st2 p = pkt_bytes st1 p" "acc_frame p rest st1 st2" by blast
    have "seek_loop p n st = Some st2"
      using False r(1) st1(1) st2(1) by (subst seek_loop.simps) (simp add: m_def)
    then show ?thesis using st1 st2 sub m(2) acc_frame_trans [OF st1(5) st2(5)] by simp
  qed
qed

text \<open>The part of a transfer of \<open>n\<close> bytes that one iteration handles.\<close>

lemma access_chunk:
  assumes "acc_inv st p rest pos" "n \<noteq> 0" "pos + unat n \<le> length (pkt_bytes st p)"
  obtains r b a off where "cur_blk_remain_size p st = Some r" "buf_heap st p = Some b"
    "buf_blk_offset b = Some (a, off)" "a \<in> set (buf_blk_list b)" "a \<notin> set rest"
    "mem_read (Some (a, off)) (unat (min n r)) st = Some (take (unat (min n r)) (drop pos (pkt_bytes st p)))"
    "pos < length (pkt_bytes st p)" "pos + unat r \<le> length (pkt_bytes st p)" "0 < unat r"
    "0 < unat (min n r)" "unat (min n r) \<le> unat r"
    "unat (min n r) \<le> unat n" "unat (n - min n r) = unat n - unat (min n r)"
proof -
  have n: "0 < unat n" using assms(2) by (metis gr0I unat_0_iff)
  then have lt: "pos < length (pkt_bytes st p)" using assms(3) by linarith
  from cur_blk_remain [OF assms(1) lt] obtain r b a off where r: "cur_blk_remain_size p st = Some r"
    "0 < unat r" "pos + unat r \<le> length (pkt_bytes st p)" "buf_heap st p = Some b"
    "buf_blk_offset b = Some (a, off)" "a \<in> set (buf_blk_list b)" "a \<notin> set rest"
    "\<forall>m \<le> unat r. mem_read (Some (a, off)) m st = Some (take m (drop pos (pkt_bytes st p)))" by blast
  have "unat (n - min n r) = unat n - unat (min n r)" by (intro unat_sub_le) simp
  with r n lt show thesis by (intro that [of r b a off]) (simp_all add: unat_min)
qed

lemma write_loop_run:
  assumes "acc_inv st p rest pos" "pos + unat n \<le> length (pkt_bytes st p)" "unat n \<le> length src"
  shows "\<exists>st'. write_loop p src n st = Some st' \<and> acc_inv st' p rest (pos + unat n)
     \<and> pkt_bytes st' p = take pos (pkt_bytes st p) @ take (unat n) src @ drop (pos + unat n) (pkt_bytes st p)
     \<and> acc_frame p rest st st'"
  using assms
proof (induction "unat n" arbitrary: n src st pos rule: less_induct)
  case less
  show ?case
  proof (cases "n = 0")
    case True
    then show ?thesis using less.prems by (subst write_loop.simps) simp
  next
    case False
    from access_chunk [OF less.prems(1) False less.prems(2)] obtain r b where
      r: "cur_blk_remain_size p st = Some r" "buf_heap st p = Some b" "pos < length (pkt_bytes st p)"
      "pos + unat r \<le> length (pkt_bytes st p)" "0 < unat (min n r)" "unat (min n r) \<le> unat r"
      "unat (min n r) \<le> unat n" "unat (n - min n r) = unat n - unat (min n r)" by blast
    define m where "m = min n r"
    note r' = r(5-8) [folded m_def]
    have get: "bytes_get src 0 (unat m) = Some (take (unat m) src)" and len: "length (take (unat m) src) = unat m"
      using r' less.prems(3) by (simp_all add: bytes_get_def)
    from mem_write_run [OF less.prems(1) r(3,1,2), of "take (unat m) src"] r'(2) len obtain st1 where
      st1: "mem_write (buf_blk_offset b) (take (unat m) src) st = Some st1" "acc_inv st1 p rest pos"
      "buf_heap st1 = buf_heap st" "cur_blk_remain_size p st1 = Some r" "acc_frame p rest st st1"
      "pkt_bytes st1 p = take pos (pkt_bytes st p) @ take (unat m) src @ drop (pos + unat m) (pkt_bytes st p)"
      by auto
    have len1: "length (pkt_bytes st1 p) = length (pkt_bytes st p)"
      using st1(6) len r(4) r'(2) by simp
    from move_forward_run [OF st1(2,4) r'(2)] r(3) len1 obtain st2 where
      st2: "move_forward p m st1 = Some st2" "acc_inv st2 p rest (pos + unat m)"
      "pkt_bytes st2 p = pkt_bytes st1 p" "acc_frame p rest st1 st2" by auto
    have "unat (n - m) < unat n" "pos + unat m + unat (n - m) \<le> length (pkt_bytes st2 p)"
      "unat (n - m) \<le> length (drop (unat m) src)"
      using r' less.prems(2,3) len1 st2(3) by simp_all
    from less.hyps [OF this(1) st2(2) this(2,3)] obtain st3 where
      st3: "write_loop p (drop (unat m) src) (n - m) st2 = Some st3"
      "acc_inv st3 p rest (pos + unat m + unat (n - m))"
      "pkt_bytes st3 p = take (pos + unat m) (pkt_bytes st2 p) @ take (unat (n - m)) (drop (unat m) src)
        @ drop (pos + unat m + unat (n - m)) (pkt_bytes st2 p)"
      "acc_frame p rest st2 st3" by blast
    have "write_loop p src n st = Some st3"
      using False r(1,2) get st1(1) st2(1) st3(1) by (subst write_loop.simps) (simp add: m_def)
    moreover have "take (unat m) src @ take (unat (n - m)) (drop (unat m) src) = take (unat n) src"
      using r'(3,4) by (simp add: take_add [symmetric])
    moreover have "pkt_bytes st3 p = take pos (pkt_bytes st p)
        @ (take (unat m) src @ take (unat (n - m)) (drop (unat m) src))
        @ drop (pos + unat m + unat (n - m)) (pkt_bytes st p)"
      unfolding st3(3) st2(3) st1(6)
      using put_put_adjacent [of pos "take (unat m) src" "pkt_bytes st p"] len r(4) r'(2) by simp
    ultimately show ?thesis
      using st3(2) r'(3,4) acc_frame_trans [OF acc_frame_trans [OF st1(5) st2(4)] st3(4)] by simp
  qed
qed

lemma fill_loop_run:
  assumes "acc_inv st p rest pos" "pos + unat n \<le> length (pkt_bytes st p)"
  shows "\<exists>st'. fill_loop p v n st = Some st' \<and> acc_inv st' p rest (pos + unat n)
     \<and> pkt_bytes st' p = take pos (pkt_bytes st p) @ replicate (unat n) v @ drop (pos + unat n) (pkt_bytes st p)
     \<and> acc_frame p rest st st'"
proof -
  have "fill_loop p v n st = write_loop p (replicate (unat n) v) n st"
    if "acc_inv st p rest pos" "pos + unat n \<le> length (pkt_bytes st p)"
    using that
  proof (induction "unat n" arbitrary: n st pos rule: less_induct)
    case less
    show ?case
    proof (cases "n = 0")
      case True
      then show ?thesis by (subst fill_loop.simps, subst write_loop.simps) simp
    next
      case False
      from access_chunk [OF less.prems(1) False less.prems(2)] obtain r b where
        r: "cur_blk_remain_size p st = Some r" "buf_heap st p = Some b" "pos < length (pkt_bytes st p)"
        "pos + unat r \<le> length (pkt_bytes st p)" "0 < unat (min n r)" "unat (min n r) \<le> unat r"
        "unat (min n r) \<le> unat n" "unat (n - min n r) = unat n - unat (min n r)" by blast
      define m where "m = min n r"
      note r' = r(5-8) [folded m_def]
      have get: "bytes_get (replicate (unat n) v) 0 (unat m) = Some (replicate (unat m) v)"
        "drop (unat m) (replicate (unat n) v) = replicate (unat (n - m)) v"
        using r' by (simp_all add: bytes_get_def)
      from mem_write_run [OF less.prems(1) r(3,1,2), of "replicate (unat m) v"] r'(2) obtain st1 where
        st1: "mem_write (buf_blk_offset b) (replicate (unat m) v) st = Some st1" "acc_inv st1 p rest pos"
        "cur_blk_remain_size p st1 = Some r"
        "length (pkt_bytes st1 p) = length (pkt_bytes st p)" using r(4) by auto
      from move_forward_run [OF st1(2,3) r'(2)] r(3) st1(4) obtain st2 where
        st2: "move_forward p m st1 = Some st2" "acc_inv st2 p rest (pos + unat m)"
        "pkt_bytes st2 p = pkt_bytes st1 p" by auto
      have "unat (n - m) < unat n" "pos + unat m + unat (n - m) \<le> length (pkt_bytes st2 p)"
        using r' less.prems(2) st1(4) st2(3) by simp_all
      from less.hyps [OF this(1) st2(2) this(2)]
      show ?thesis using False r(1,2) get st1(1) st2(1)
        by (subst fill_loop.simps, subst write_loop.simps) (simp add: m_def)
    qed
  qed
  with assms write_loop_run [OF assms, of "replicate (unat n) v"] show ?thesis by simp
qed

lemma read_loop_run:
  assumes "acc_inv st p rest pos" "pos + unat n \<le> length (pkt_bytes st p)" "i + unat n \<le> length dest"
  shows "\<exists>st'. read_loop p dest i n st
       = Some (take i dest @ take (unat n) (drop pos (pkt_bytes st p)) @ drop (i + unat n) dest, st')
     \<and> acc_inv st' p rest (pos + unat n) \<and> blk_heap st' = blk_heap st
     \<and> pkt_bytes st' p = pkt_bytes st p \<and> acc_frame p rest st st'"
  using assms
proof (induction "unat n" arbitrary: n dest i st pos rule: less_induct)
  case less
  show ?case
  proof (cases "n = 0")
    case True
    then show ?thesis using less.prems by (subst read_loop.simps) simp
  next
    case False
    obtain r b a off where
      r: "cur_blk_remain_size p st = Some r" "buf_heap st p = Some b" "pos < length (pkt_bytes st p)"
      "0 < unat (min n r)" "unat (min n r) \<le> unat r"
      "unat (min n r) \<le> unat n" "unat (n - min n r) = unat n - unat (min n r)"
      and a: "buf_blk_offset b = Some (a, off)"
        "mem_read (Some (a, off)) (unat (min n r)) st = Some (take (unat (min n r)) (drop pos (pkt_bytes st p)))"
      by (rule access_chunk [OF less.prems(1) False less.prems(2)])
    define m where "m = min n r"
    note r' = r(4-7) [folded m_def]
    let ?chunk = "take (unat m) (drop pos (pkt_bytes st p))"
    have len: "length ?chunk = unat m" using less.prems(2) r' by simp
    let ?dest1 = "take i dest @ ?chunk @ drop (i + unat m) dest"
    have put: "bytes_put dest i ?chunk = Some ?dest1"
      using len less.prems(3) r'(3) by (simp add: bytes_put_def)
    from move_forward_run [OF less.prems(1) r(1) r'(2) r(3)] obtain st1 where
      st1: "move_forward p m st = Some st1" "acc_inv st1 p rest (pos + unat m)"
      "blk_heap st1 = blk_heap st" "pkt_bytes st1 p = pkt_bytes st p" "acc_frame p rest st st1" by blast
    have "unat (n - m) < unat n" "pos + unat m + unat (n - m) \<le> length (pkt_bytes st1 p)"
      "i + unat m + unat (n - m) \<le> length ?dest1"
      using r' less.prems(2,3) st1(4) len by simp_all
    from less.hyps [OF this(1) st1(2) this(2,3)] obtain st2 where
      st2: "read_loop p ?dest1 (i + unat m) (n - m) st1
        = Some (take (i + unat m) ?dest1 @ take (unat (n - m)) (drop (pos + unat m) (pkt_bytes st1 p))
            @ drop (i + unat m + unat (n - m)) ?dest1, st2)"
      "acc_inv st2 p rest (pos + unat m + unat (n - m))" "blk_heap st2 = blk_heap st1"
      "pkt_bytes st2 p = pkt_bytes st1 p" "acc_frame p rest st1 st2" by blast
    have step: "read_loop p dest i n st = read_loop p ?dest1 (i + unat m) (n - m) st1"
      using False r(1,2) a(1) a(2) [folded m_def] put st1(1)
      by (subst read_loop.simps) (simp add: m_def [symmetric])
    have "i + length ?chunk \<le> length dest" using len less.prems(3) r'(3) by simp
    note adj = put_put_adjacent [OF this, of "take (unat (n - m)) (drop (pos + unat m) (pkt_bytes st p))" "unat (n - m)",
        unfolded len]
    have "?chunk @ take (unat (n - m)) (drop (pos + unat m) (pkt_bytes st p))
        = take (unat n) (drop pos (pkt_bytes st p))"
      using r'(3,4) take_add [of "unat m" "unat (n - m)" "drop pos (pkt_bytes st p)"]
      by (simp add: add.commute)
    then have "read_loop p dest i n st = Some (take i dest @ take (unat n) (drop pos (pkt_bytes st p))
        @ drop (i + unat m + unat (n - m)) dest, st2)"
      unfolding step st2(1) st1(4) adj by (simp only:)
    then show ?thesis using st1 st2 r'(3,4) acc_frame_trans [OF st1(5) st2(5)] by simp
  qed
qed

subsection \<open>Two packets at once\<close>

definition blks_of :: "pkt_store \<Rightarrow> addr \<Rightarrow> addr list" where
  "blks_of st p = (case buf_heap st p of None \<Rightarrow> [] | Some b \<Rightarrow> buf_blk_list b)"

definition acc_inv2 :: "pkt_store \<Rightarrow> addr \<Rightarrow> nat \<Rightarrow> addr \<Rightarrow> nat \<Rightarrow> addr list \<Rightarrow> bool" where
  "acc_inv2 st p i q j rest \<longleftrightarrow> p \<noteq> q
     \<and> acc_inv st p (blks_of st q @ rest) i \<and> acc_inv st q (blks_of st p @ rest) j"

lemma acc_inv2_sym: "acc_inv2 st p i q j rest \<longleftrightarrow> acc_inv2 st q j p i rest"
  by (auto simp: acc_inv2_def)

lemma acc_inv2_step:
  assumes inv: "acc_inv2 st p i q j rest" and fr: "acc_frame p (blks_of st q @ rest) st st'"
    and p: "acc_inv st' p (blks_of st q @ rest) i'"
  shows "acc_inv2 st' p i' q j rest" "pkt_bytes st' q = pkt_bytes st q"
proof -
  from inv have neq: "p \<noteq> q" and q: "acc_inv st q (blks_of st p @ rest) j" by (simp_all add: acc_inv2_def)
  have same: "buf_heap st' q = buf_heap st q" using fr neq by (simp add: acc_frame_def)
  then have lq: "blks_of st' q = blks_of st q" by (simp add: blks_of_def)
  have lp: "blks_of st' p = blks_of st p" using fr by (auto simp: acc_frame_def blks_of_def split: option.splits)
  have heap: "\<forall>a \<in> set (blks_of st q). blk_heap st' a = blk_heap st a"
    using fr by (simp add: acc_frame_def)
  note eq = blks_cong [of "blks_of st q" "blk_heap st'" "blk_heap st", OF bspec [OF heap]]
  show bytes: "pkt_bytes st' q = pkt_bytes st q"
    using eq(1) same by (simp add: pkt_bytes_def blks_of_def split: option.splits)
  from p have "blk_inv st' (blks_of st p @ blks_of st q @ rest)"
    using lp by (auto simp: acc_inv_def pkt_inv_def blks_of_def)
  then have own: "blk_inv st' (blks_of st q @ blks_of st p @ rest)"
    by (subst blk_inv_perm [of _ "blks_of st p @ blks_of st q @ rest"]) simp_all
  from q obtain c where c: "buf_heap st q = Some c" by (auto simp: acc_inv_def pkt_inv_def)
  then have lc: "blks_of st q = buf_blk_list c" by (simp add: blks_of_def)
  have "cfg_blk_size st' = cfg_blk_size st" using fr by (simp add: acc_frame_def)
  then have "pkt_inv st' q (blks_of st p @ rest)"
    using q own eq same c unfolding acc_inv_def pkt_inv_def lc by auto
  moreover have "at_pos st' q j"
  proof -
    have sub: "blks_bytes (blk_heap st') l1 = blks_bytes (blk_heap st) l1" "blk_heap st' a = blk_heap st a"
      if "buf_blk_list c = l1 @ a # l2" for l1 a l2
      using heap that unfolding lc by (auto intro: blks_cong)
    from q c consider "unat (buf_pos c) = j" "j = length (pkt_bytes st q)" "buf_cur_blk c = End"
        "buf_blk_offset c = None"
      | l1 a l2 blk k where "unat (buf_pos c) = j" "buf_blk_list c = l1 @ a # l2"
        "buf_cur_blk c = At (length l1)" "blk_heap st a = Some blk"
        "buf_blk_offset c = Some (a, blk_data blk + k)" "k < unat (blk_size blk)"
        "j = length (blks_bytes (blk_heap st) l1) + k"
      by (auto simp: acc_inv_def at_pos_def)
    then show ?thesis
    proof cases
      case 1
      then show ?thesis using same c bytes by (simp add: at_pos_def)
    next
      case (2 l1 a l2 blk k)
      then show ?thesis unfolding at_pos_def using same c sub [OF 2(2)]
        by (intro exI [of _ c] conjI disjI2 exI [of _ l1] exI [of _ a] exI [of _ l2] exI [of _ blk]
            exI [of _ k]) simp_all
    qed
  qed
  ultimately show "acc_inv2 st' p i' q j rest"
    using p neq by (simp add: acc_inv2_def acc_inv_def lq lp)
qed

lemma copy_loop_run:
  assumes "acc_inv2 st p i q j rest" "i + unat n \<le> length (pkt_bytes st p)"
    "j + unat n \<le> length (pkt_bytes st q)"
  shows "\<exists>st'. copy_loop p q n st = Some st' \<and> acc_inv2 st' p (i + unat n) q (j + unat n) rest
     \<and> pkt_bytes st' p = take i (pkt_bytes st p) @ take (unat n) (drop j (pkt_bytes st q))
         @ drop (i + unat n) (pkt_bytes st p)
     \<and> pkt_bytes st' q = pkt_bytes st q"
  using assms
proof (induction "unat n" arbitrary: n st i j rule: less_induct)
  case less
  show ?case
  proof (cases "n = 0")
    case True
    then show ?thesis using less.prems by (subst copy_loop.simps) simp
  next
    case False
    let ?Rp = "blks_of st q @ rest" and ?Rq = "blks_of st p @ rest"
    have p: "acc_inv st p ?Rp i" and q: "acc_inv st q ?Rq j"
      using less.prems(1) by (simp_all add: acc_inv2_def)
    obtain r b a off where r: "cur_blk_remain_size p st = Some r" "buf_heap st p = Some b"
      "buf_blk_offset b = Some (a, off)" "a \<notin> set ?Rp" "i < length (pkt_bytes st p)"
      "i + unat r \<le> length (pkt_bytes st p)" "0 < unat r"
      by (rule access_chunk [OF p False less.prems(2)])
    obtain s c a' off' where s: "cur_blk_remain_size q st = Some s" "buf_heap st q = Some c"
      "buf_blk_offset c = Some (a', off')" "a' \<in> set (buf_blk_list c)" "j < length (pkt_bytes st q)"
      "0 < unat s"
      by (rule access_chunk [OF q False less.prems(3)])
    define m where "m = min n (min r s)"
    have "0 < unat n" using False by (metis gr0I unat_0_iff)
    then have m: "0 < unat m" "unat m \<le> unat r" "unat m \<le> unat s" "unat m \<le> unat n"
      using r(7) s(6) by (simp_all add: m_def unat_min)
    then have sub: "unat (n - m) = unat n - unat m" by (simp add: unat_sub_le word_le_nat_alt)
    let ?chunk = "take (unat m) (drop j (pkt_bytes st q))"
    have len: "length ?chunk = unat m" using less.prems(3) m(4) by simp
    have "mem_read (Some (a', off')) (unat m) st = Some ?chunk"
      using cur_blk_remain [OF q s(5)] s(1-3) m(3) by auto
    moreover have "a \<noteq> a'" using r(4) s(2,4) by (auto simp: blks_of_def)
    moreover from mem_write_run [OF p r(5,1,2), of ?chunk] len m(2) obtain st1 where
      st1: "mem_write (buf_blk_offset b) ?chunk st = Some st1" "acc_inv st1 p ?Rp i"
      "cur_blk_remain_size p st1 = Some r" "acc_frame p ?Rp st st1"
      "pkt_bytes st1 p = take i (pkt_bytes st p) @ ?chunk @ drop (i + unat m) (pkt_bytes st p)"
      "buf_heap st1 = buf_heap st" by auto
    ultimately have copy: "mem_copy (buf_blk_offset b) (buf_blk_offset c) (unat m) st = Some st1"
      using r(3) s(3) by (simp add: mem_copy_def)
    have len1: "length (pkt_bytes st1 p) = length (pkt_bytes st p)" using st1(5) len r(6) m(2) by simp
    from move_forward_run [OF st1(2,3) m(2)] r(5) len1 obtain st2 where
      st2: "move_forward p m st1 = Some st2" "acc_inv st2 p ?Rp (i + unat m)"
      "pkt_bytes st2 p = pkt_bytes st1 p" "acc_frame p ?Rp st1 st2" by auto
    note both = acc_inv2_step [OF less.prems(1) acc_frame_trans [OF st1(4) st2(4)] st2(2)]
    then have q2: "acc_inv st2 q (blks_of st2 p @ rest) j" by (simp add: acc_inv2_def)
    have "j < length (pkt_bytes st2 q)" using both(2) s(5) by simp
    from cur_blk_remain [OF q2 this] obtain s2 where s2: "cur_blk_remain_size q st2 = Some s2" by blast
    have "s2 = s"
    proof -
      have "buf_heap st2 q = buf_heap st q" "\<forall>a \<in> set (blks_of st q). blk_heap st2 a = blk_heap st a"
        using acc_frame_trans [OF st1(4) st2(4)] less.prems(1) by (simp_all add: acc_frame_def acc_inv2_def)
      then show ?thesis using s(1,2) s2
        by (auto simp: cur_blk_remain_size_def blks_of_def Option.bind_eq_Some_conv split: cursor.splits)
    qed
    with s2 m(3) have "unat m \<le> unat s2" by simp
    from move_forward_run [OF q2 s2 this \<open>j < length (pkt_bytes st2 q)\<close>] obtain st3 where
      st3: "move_forward q m st2 = Some st3" "acc_inv st3 q (blks_of st2 p @ rest) (j + unat m)"
      "pkt_bytes st3 q = pkt_bytes st2 q" "acc_frame q (blks_of st2 p @ rest) st2 st3" by blast
    note both3 = acc_inv2_step [OF both(1) [unfolded acc_inv2_sym [of st2 p]] st3(4,2)]
    have inv3: "acc_inv2 st3 p (i + unat m) q (j + unat m) rest"
      using both3(1) by (simp add: acc_inv2_sym [of st3 p])
    have "unat (n - m) < unat n" "i + unat m + unat (n - m) \<le> length (pkt_bytes st3 p)"
      "j + unat m + unat (n - m) \<le> length (pkt_bytes st3 q)"
      using sub m less.prems(2,3) both(2) both3(2) st2(3) st3(3) len1 by simp_all
    from less.hyps [OF this(1) inv3 this(2,3)] obtain st4 where
      st4: "copy_loop p q (n - m) st3 = Some st4"
      "acc_inv2 st4 p (i + unat m + unat (n - m)) q (j + unat m + unat (n - m)) rest"
      "pkt_bytes st4 p = take (i + unat m) (pkt_bytes st3 p)
        @ take (unat (n - m)) (drop (j + unat m) (pkt_bytes st3 q))
        @ drop (i + unat m + unat (n - m)) (pkt_bytes st3 p)"
      "pkt_bytes st4 q = pkt_bytes st3 q" by blast
    have run: "copy_loop p q n st = Some st4"
      using False r(1,2) s(1,2) copy st2(1) st3(1) st4(1)
      by (subst copy_loop.simps) (simp add: Let_def m_def [symmetric])
    have Q: "pkt_bytes st3 q = pkt_bytes st q" and P: "pkt_bytes st3 p = pkt_bytes st1 p"
      using both(2) both3(2) st2(3) st3(3) by simp_all
    have "i + length ?chunk \<le> length (pkt_bytes st p)" using len r(6) m(2) by simp
    note adj = put_put_adjacent [OF this, of "take (unat (n - m)) (drop (j + unat m) (pkt_bytes st q))" "unat (n - m)",
        unfolded len]
    have "?chunk @ take (unat (n - m)) (drop (j + unat m) (pkt_bytes st q))
        = take (unat n) (drop j (pkt_bytes st q))"
      using sub m(4) take_add [of "unat m" "unat (n - m)" "drop j (pkt_bytes st q)"]
      by (simp add: add.commute)
    then have "pkt_bytes st4 p = take i (pkt_bytes st p) @ take (unat n) (drop j (pkt_bytes st q))
        @ drop (i + unat m + unat (n - m)) (pkt_bytes st p)"
      unfolding st4(3) P Q st1(5) adj by (simp only:)
    then show ?thesis using run st4(2,4) Q sub m(4) by simp
  qed
qed

subsection \<open>The operations on byte strings\<close>

lemma total_blk_remain_run:
  assumes "acc_inv st p rest pos"
  shows "\<exists>r. total_blk_remain p st = Some r \<and> unat r = length (pkt_bytes st p) - pos"
proof -
  from assms obtain b where b: "buf_heap st p = Some b" "unat (buf_pos b) = pos"
    "buf_cur_blk b \<noteq> Indeterminate" by (auto simp: acc_inv_def at_pos_def)
  then have len: "length (pkt_bytes st p) = unat (buf_capacity b)"
    using assms by (auto simp: acc_inv_def pkt_inv_def pkt_bytes_def)
  with acc_inv_length [OF assms] b(2) have "buf_pos b \<le> buf_capacity b" by (simp add: word_le_nat_alt)
  with b len show ?thesis by (simp add: total_blk_remain_def get_pos_def unat_sub_le)
qed

lemma pkt_write_run:
  assumes inv: "acc_inv st p rest pos" and n: "unat n \<le> length src"
  shows "\<exists>st'. pkt_write p (Some src) n st = Some (if n = 0 then NET_ERR_PARAM
         else if length (pkt_bytes st p) < pos + unat n then NET_ERR_SIZE else NET_ERR_OK, st')
     \<and> (if n = 0 \<or> length (pkt_bytes st p) < pos + unat n then st' = st
        else acc_inv st' p rest (pos + unat n) \<and> acc_frame p rest st st'
          \<and> pkt_bytes st' p = take pos (pkt_bytes st p) @ take (unat n) src
              @ drop (pos + unat n) (pkt_bytes st p))"
proof -
  from total_blk_remain_run [OF inv] obtain r where r: "total_blk_remain p st = Some r"
    "unat r = length (pkt_bytes st p) - pos" by blast
  then have iff: "r < n \<longleftrightarrow> length (pkt_bytes st p) < pos + unat n"
    using acc_inv_length [OF inv] by (auto simp: word_less_nat_alt)
  show ?thesis
  proof (cases "n = 0 \<or> r < n")
    case True
    then show ?thesis using r(1) iff by (auto simp: pkt_write_def)
  next
    case False
    then have "pos + unat n \<le> length (pkt_bytes st p)" using iff by simp
    from write_loop_run [OF inv this n] False iff r(1) show ?thesis by (auto simp: pkt_write_def)
  qed
qed

lemma pkt_fill_run:
  assumes inv: "acc_inv st p rest pos"
  shows "\<exists>st'. pkt_fill p v n st = Some (if n = 0 then NET_ERR_PARAM
         else if length (pkt_bytes st p) < pos + unat n then NET_ERR_SIZE else NET_ERR_OK, st')
     \<and> (if n = 0 \<or> length (pkt_bytes st p) < pos + unat n then st' = st
        else acc_inv st' p rest (pos + unat n) \<and> acc_frame p rest st st'
          \<and> pkt_bytes st' p = take pos (pkt_bytes st p) @ replicate (unat n) v
              @ drop (pos + unat n) (pkt_bytes st p))"
proof -
  from total_blk_remain_run [OF inv] obtain r where r: "total_blk_remain p st = Some r"
    "unat r = length (pkt_bytes st p) - pos" by blast
  then have iff: "r < n \<longleftrightarrow> length (pkt_bytes st p) < pos + unat n"
    using acc_inv_length [OF inv] by (auto simp: word_less_nat_alt)
  show ?thesis
  proof (cases "n = 0 \<or> r < n")
    case True
    then show ?thesis using r(1) iff by (auto simp: pkt_fill_def)
  next
    case False
    then have "pos + unat n \<le> length (pkt_bytes st p)" using iff by simp
    from fill_loop_run [OF inv this, of v] False iff r(1) show ?thesis by (auto simp: pkt_fill_def)
  qed
qed

lemma pkt_read_run:
  assumes inv: "acc_inv st p rest pos" and n: "unat n \<le> length dest"
  shows "\<exists>st'. pkt_read p (Some dest) n st =
      (if n = 0 then Some (NET_ERR_PARAM, Some dest, st')
       else if length (pkt_bytes st p) < pos + unat n then Some (NET_ERR_SIZE, Some dest, st')
       else Some (NET_ERR_OK, Some (take (unat n) (drop pos (pkt_bytes st p)) @ drop (unat n) dest), st'))
     \<and> (if n = 0 \<or> length (pkt_bytes st p) < pos + unat n then st' = st
        else acc_inv st' p rest (pos + unat n) \<and> acc_frame p rest st st'
          \<and> pkt_bytes st' p = pkt_bytes st p)"
proof -
  from total_blk_remain_run [OF inv] obtain r where r: "total_blk_remain p st = Some r"
    "unat r = length (pkt_bytes st p) - pos" by blast
  then have iff: "r < n \<longleftrightarrow> length (pkt_bytes st p) < pos + unat n"
    using acc_inv_length [OF inv] by (auto simp: word_less_nat_alt)
  show ?thesis
  proof (cases "n = 0 \<or> r < n")
    case True
    then show ?thesis using r(1) iff by (auto simp: pkt_read_def)
  next
    case False
    then have "pos + unat n \<le> length (pkt_bytes st p)" using iff by simp
    from read_loop_run [OF inv this, of 0 dest] n False iff r(1) show ?thesis by (auto simp: pkt_read_def)
  qed
qed

lemma pkt_seek_run:
  assumes inv: "acc_inv st p rest pos"
  shows "\<exists>st'. pkt_seek p k st
       = Some (if unat k \<le> length (pkt_bytes st p) then NET_ERR_OK else NET_ERR_SIZE, st')
     \<and> (if unat k \<le> length (pkt_bytes st p)
        then acc_inv st' p rest (unat k) \<and> acc_frame p rest st st' \<and> pkt_bytes st' p = pkt_bytes st p
        else st' = st)"
proof -
  from inv obtain b where b: "buf_heap st p = Some b" "unat (buf_pos b) = pos"
    "buf_cur_blk b \<noteq> Indeterminate" by (auto simp: acc_inv_def at_pos_def)
  then have len: "length (pkt_bytes st p) = unat (buf_capacity b)"
    using inv by (auto simp: acc_inv_def pkt_inv_def pkt_bytes_def)
  have get: "get_pos p st = Some (buf_pos b)" using b by (simp add: get_pos_def)
  have le: "pos \<le> length (pkt_bytes st p)" by (rule acc_inv_length [OF inv])
  consider "k = buf_pos b" | "k \<noteq> buf_pos b" "buf_capacity b < k"
    | "k \<noteq> buf_pos b" "\<not> buf_capacity b < k" "k < buf_pos b"
    | "k \<noteq> buf_pos b" "\<not> buf_capacity b < k" "\<not> k < buf_pos b" by blast
  then show ?thesis
  proof cases
    case 1
    then show ?thesis using b get inv le by (simp add: pkt_seek_def)
  next
    case 2
    then show ?thesis using b get len by (simp add: pkt_seek_def word_less_nat_alt)
  next
    case 3
    have k: "unat k \<le> length (pkt_bytes st p)" using 3(2) len by (simp add: word_less_nat_alt)
    have "pkt_bytes st p \<noteq> []" using 3(3) b(2) le by (auto simp: word_less_nat_alt)
    obtain b' a l blk where "buf_heap st p = Some b'" and hd: "buf_blk_list b' = a # l"
      "blk_heap st a = Some blk"
      by (rule pkt_inv_cons [OF inv [unfolded acc_inv_def, THEN conjunct1] \<open>pkt_bytes st p \<noteq> []\<close>])
    then have [simp]: "b' = b" using b(1) by simp
    define st0 where "st0 = put_buf p (b\<lparr>buf_cur_blk := At 0, buf_blk_offset := Some (a, blk_data blk), buf_pos := 0\<rparr>) st"
    have "put_buf p (b\<lparr>buf_pos := 0, buf_cur_blk := At 0, buf_blk_offset := Some (a, blk_data blk)\<rparr>) st = st0"
      unfolding st0_def
      by (rule arg_cong [of _ _ "\<lambda>x. put_buf p x st"]) (rule pkt_buffer.equality; simp)
    then have "reset_access p st = Some st0"
      using b(1) hd by (simp add: reset_access_def access_start_def)
    with reset_access_at_start inv have st0: "acc_inv st0 p rest 0" "pkt_bytes st0 p = pkt_bytes st p"
      "acc_frame p rest st st0" by (fastforce simp: acc_inv_def)+
    from seek_loop_run [OF st0(1), of k] k st0(2) obtain st1 where
      "seek_loop p k st0 = Some st1" "acc_inv st1 p rest (unat k)" "pkt_bytes st1 p = pkt_bytes st p"
      "acc_frame p rest st0 st1" by auto
    then show ?thesis using 3 b(1) get hd k acc_frame_trans [OF st0(3)]
      by (simp add: pkt_seek_def nth_opt_def st0_def)
  next
    case 4
    have k: "unat k \<le> length (pkt_bytes st p)" using 4(2) len by (simp add: word_less_nat_alt)
    have "unat (k - buf_pos b) = unat k - pos" "pos \<le> unat k"
      using 4(3) b(2) by (simp_all add: unat_sub_le not_less word_le_nat_alt)
    with seek_loop_run [OF inv, of "k - buf_pos b"] k obtain st1 where
      "seek_loop p (k - buf_pos b) st = Some st1" "acc_inv st1 p rest (unat k)"
      "pkt_bytes st1 p = pkt_bytes st p" "acc_frame p rest st st1" by auto
    then show ?thesis using 4 b(1) get k by (simp add: pkt_seek_def)
  qed
qed

subsection \<open>Properties\<close>

text \<open>
  The contract of the access methods: a packet is a byte string with a position, like a file of
  fixed length. \<open>run_access\<close> runs a sequence of calls on the store, \<open>spec_access\<close> on the string.
\<close>

datatype access_op = Seek u32 | Write "u8 list" | Read u32 | Fill u8 u32
datatype access_out = Done net_err | Data net_err "u8 list"

fun step_access :: "addr \<Rightarrow> access_op \<Rightarrow> pkt_store \<Rightarrow> (access_out \<times> pkt_store) option" where
  "step_access p (Seek k) st = do { (e, st1) \<leftarrow> pkt_seek p k st; Some (Done e, st1) }"
| "step_access p (Write src) st = do {
     (e, st1) \<leftarrow> pkt_write p (Some src) (of_nat (length src)) st; Some (Done e, st1) }"
| "step_access p (Read n) st = do {
     (e, dest, st1) \<leftarrow> pkt_read p (Some (replicate (unat n) 0)) n st;
     bytes \<leftarrow> dest;
     Some (Data e bytes, st1) }"
| "step_access p (Fill v n) st = do { (e, st1) \<leftarrow> pkt_fill p v n st; Some (Done e, st1) }"

fun spec_step :: "access_op \<Rightarrow> u8 list \<times> nat \<Rightarrow> access_out \<times> u8 list \<times> nat" where
  "spec_step (Seek k) (s, i) =
     (if unat k \<le> length s then (Done NET_ERR_OK, s, unat k) else (Done NET_ERR_SIZE, s, i))"
| "spec_step (Write src) (s, i) =
     (if src = [] then (Done NET_ERR_PARAM, s, i)
      else if length s < i + length src then (Done NET_ERR_SIZE, s, i)
      else (Done NET_ERR_OK, take i s @ src @ drop (i + length src) s, i + length src))"
| "spec_step (Read n) (s, i) =
     (if n = 0 then (Data NET_ERR_PARAM [], s, i)
      else if length s < i + unat n then (Data NET_ERR_SIZE (replicate (unat n) 0), s, i)
      else (Data NET_ERR_OK (take (unat n) (drop i s)), s, i + unat n))"
| "spec_step (Fill v n) (s, i) =
     (if n = 0 then (Done NET_ERR_PARAM, s, i)
      else if length s < i + unat n then (Done NET_ERR_SIZE, s, i)
      else (Done NET_ERR_OK, take i s @ replicate (unat n) v @ drop (i + unat n) s, i + unat n))"

fun run_access :: "addr \<Rightarrow> access_op list \<Rightarrow> pkt_store \<Rightarrow> (access_out list \<times> pkt_store) option" where
  "run_access p [] st = Some ([], st)"
| "run_access p (op # ops) st = do {
     (out, st1) \<leftarrow> step_access p op st;
     (outs, st2) \<leftarrow> run_access p ops st1;
     Some (out # outs, st2) }"

fun spec_access :: "access_op list \<Rightarrow> u8 list \<times> nat \<Rightarrow> access_out list \<times> u8 list \<times> nat" where
  "spec_access [] s = ([], s)"
| "spec_access (op # ops) s =
     (case spec_step op s of (out, s1) \<Rightarrow> case spec_access ops s1 of (outs, s2) \<Rightarrow> (out # outs, s2))"

text \<open>The length argument of \<open>write\<close> has 32 bits.\<close>

fun op_fits :: "access_op \<Rightarrow> bool" where
  "op_fits (Write src) \<longleftrightarrow> length src < 2 ^ 32"
| "op_fits _ \<longleftrightarrow> True"

lemma step_access_refines:
  assumes inv: "acc_inv st p rest i" and fits: "op_fits op"
    and spec: "spec_step op (pkt_bytes st p, i) = (out, s', i')"
  shows "\<exists>st'. step_access p op st = Some (out, st') \<and> acc_inv st' p rest i'
     \<and> pkt_bytes st' p = s' \<and> acc_frame p rest st st'"
proof (cases op)
  case (Seek k)
  then show ?thesis using pkt_seek_run [OF inv, of k] spec inv by (auto split: if_splits)
next
  case (Write src)
  then have n: "unat (of_nat (length src) :: u32) = length src" using fits by (simp add: unat_of_nat)
  have z: "of_nat (length src) = (0::u32) \<longleftrightarrow> src = []"
    using n unat_0_iff [of "of_nat (length src) :: u32"] by simp
  show ?thesis using pkt_write_run [OF inv, of "of_nat (length src)" src] spec inv
    unfolding Write n z by (auto split: if_splits)
next
  case (Read n)
  then show ?thesis using pkt_read_run [OF inv, of n "replicate (unat n) 0"] spec inv
    by (auto split: if_splits)
next
  case (Fill v n)
  then show ?thesis using pkt_fill_run [OF inv, of v n] spec inv by (auto split: if_splits)
qed

lemma spec_step_length:
  "spec_step op (s, i) = (out, s', i') \<Longrightarrow> length s' = length s"
  by (cases op) (auto split: if_splits)

text \<open>
  C8. Any sequence of \<open>seek\<close>, \<open>write\<close>, \<open>read\<close> and \<open>fill\<close> calls on a packet, successful or not, does what
  the same sequence does on its byte string with a position: every result, every byte read, the
  final bytes and the final position agree, however the packet is cut into blocks. Each loop ends,
  and no other packet's blocks are touched.
\<close>

theorem access_refines_byte_string:
  assumes "acc_inv st p rest i" "list_all op_fits ops"
    and "spec_access ops (pkt_bytes st p, i) = (outs, s', i')"
  shows "\<exists>st'. run_access p ops st = Some (outs, st') \<and> acc_inv st' p rest i'
     \<and> pkt_bytes st' p = s' \<and> acc_frame p rest st st'"
  using assms
proof (induction ops arbitrary: st i outs)
  case (Cons op ops)
  obtain out s1 i1 where s1: "spec_step op (pkt_bytes st p, i) = (out, s1, i1)"
    by (cases "spec_step op (pkt_bytes st p, i)") auto
  obtain outs2 where o: "spec_access ops (s1, i1) = (outs2, s', i')" "outs = out # outs2"
    using Cons.prems(3) s1 by (auto split: prod.splits)
  have "op_fits op" "list_all op_fits ops" using Cons.prems(2) by simp_all
  from step_access_refines [OF Cons.prems(1) this(1) s1] obtain st1 where
    st1: "step_access p op st = Some (out, st1)" "acc_inv st1 p rest i1" "pkt_bytes st1 p = s1"
    "acc_frame p rest st st1" by blast
  from Cons.IH [OF st1(2) \<open>list_all op_fits ops\<close> o(1) [folded st1(3)]] obtain st2 where
    st2: "run_access p ops st1 = Some (outs2, st2)" "acc_inv st2 p rest i'" "pkt_bytes st2 p = s'"
    "acc_frame p rest st1 st2" by blast
  then show ?case using st1 o(2) acc_frame_trans [OF st1(4) st2(4)] by simp
qed simp

text \<open>The packet of the example with two blocks, at its start.\<close>

lemma demo_two_blocks:
  obtains st where "merge_buf 264 200 demo_store = Some (NET_ERR_OK, st)"
    "acc_inv st 264 [] 0" "pkt_bytes st 264 = [1, 2, 3, 7, 8]"
proof -
  obtain c where c: "buf_heap demo_store 200 = Some c" "buf_blk_list c = [100]" "buf_capacity c = 2"
    "blks_ok 4 (blk_heap demo_store) [100]" by (simp add: demo_store_def blk_ok_def)
  with merge_buf_run [of demo_store 264 c "[]" 200 "[264]"] demo_inv(2) demo_bufs_inv
  obtain st where st: "merge_buf 264 200 demo_store = Some (NET_ERR_OK, st)" "pkt_inv st 264 []"
    "pkt_bytes st 264 = [1, 2, 3, 7, 8]" "blk_heap st = blk_heap demo_store" by auto
  from st(1) c obtain b where b: "buf_heap st 264 = Some b" "buf_blk_list b = [] @ 124 # [100]"
    "buf_cur_blk b = At 0" "buf_pos b = 0" "buf_blk_offset b = Some (124, 0)"
    by (auto simp: merge_buf_def release_pktbuffer_def demo_store_def Option.bind_eq_Some_conv)
  obtain blk where "blk_heap st 124 = Some blk" "blk_data blk = 0" "blk_size blk = 3"
    unfolding st(4) by (simp add: demo_store_def)
  then have "at_pos st 264 0"
    unfolding at_pos_def using b
    by (intro exI [of _ b] conjI disjI2 exI [of _ "[]"] exI [of _ 124] exI [of _ "[100]"] exI [of _ blk]
        exI [of _ "0::nat"]) simp_all
  then show thesis using st by (intro that) (simp_all add: acc_inv_def)
qed

theorem access_refines_byte_string_witness:
  "\<exists>st st'. merge_buf 264 200 demo_store = Some (NET_ERR_OK, st)
     \<and> run_access 264 [Seek 2, Write [5, 6], Fill 9 7, Seek 1, Read 4] st
       = Some ([Done NET_ERR_OK, Done NET_ERR_OK, Done NET_ERR_SIZE, Done NET_ERR_OK,
                Data NET_ERR_OK [2, 5, 6, 8]], st')
     \<and> pkt_bytes st' 264 = [1, 2, 5, 6, 8]"
proof -
  obtain st where st: "merge_buf 264 200 demo_store = Some (NET_ERR_OK, st)"
    "acc_inv st 264 [] 0" "pkt_bytes st 264 = [1, 2, 3, 7, 8]" by (rule demo_two_blocks)
  have "spec_access [Seek 2, Write [5, 6], Fill 9 7, Seek 1, Read 4] (pkt_bytes st 264, 0)
      = ([Done NET_ERR_OK, Done NET_ERR_OK, Done NET_ERR_SIZE, Done NET_ERR_OK,
          Data NET_ERR_OK [2, 5, 6, 8]], [1, 2, 5, 6, 8], 5)"
    using st(3) by simp
  from access_refines_byte_string [OF st(2) _ this] st(1) show ?thesis by auto
qed

text \<open>
  C16. \<open>PktBuffer::copy\<close> moves the next \<open>size\<close> bytes of one packet over those of another, across all
  block boundaries of both, and advances both positions; it refuses a size beyond either packet's
  rest. Two packets never share a block, so the source is unchanged.
\<close>

theorem copy_transfers_bytes:
  assumes "acc_inv2 st p i q j rest"
  shows "\<exists>st'. if unat n \<le> length (pkt_bytes st p) - i \<and> unat n \<le> length (pkt_bytes st q) - j
     then pkt_copy p q n st = Some (NET_ERR_OK, st') \<and> acc_inv2 st' p (i + unat n) q (j + unat n) rest
       \<and> pkt_bytes st' p = take i (pkt_bytes st p) @ take (unat n) (drop j (pkt_bytes st q))
           @ drop (i + unat n) (pkt_bytes st p)
       \<and> pkt_bytes st' q = pkt_bytes st q
     else pkt_copy p q n st = Some (NET_ERR_SIZE, st)"
proof -
  from assms have p: "acc_inv st p (blks_of st q @ rest) i" and q: "acc_inv st q (blks_of st p @ rest) j"
    by (simp_all add: acc_inv2_def)
  from total_blk_remain_run [OF p] total_blk_remain_run [OF q] obtain r s where
    r: "total_blk_remain p st = Some r" "unat r = length (pkt_bytes st p) - i"
    "total_blk_remain q st = Some s" "unat s = length (pkt_bytes st q) - j" by blast
  note le = acc_inv_length [OF p] acc_inv_length [OF q]
  show ?thesis
  proof (cases "r < n \<or> s < n")
    case True
    then have no: "\<not> (unat n \<le> length (pkt_bytes st p) - i \<and> unat n \<le> length (pkt_bytes st q) - j)"
      using r by (auto simp: word_less_nat_alt)
    show ?thesis unfolding if_not_P [OF no] using True r(1,3) by (auto simp: pkt_copy_def)
  next
    case False
    then have ok: "unat n \<le> length (pkt_bytes st p) - i" "unat n \<le> length (pkt_bytes st q) - j"
      using r by (auto simp: word_less_nat_alt)
    with le have "i + unat n \<le> length (pkt_bytes st p)" "j + unat n \<le> length (pkt_bytes st q)" by linarith+
    from copy_loop_run [OF assms this] False ok r(1,3) show ?thesis by (auto simp: pkt_copy_def)
  qed
qed

theorem copy_transfers_bytes_witness:
  "\<exists>st'. pkt_copy 264 200 2 demo_store = Some (NET_ERR_OK, st') \<and> pkt_bytes st' 264 = [7, 8, 3]
     \<and> pkt_copy 264 200 3 demo_store = Some (NET_ERR_SIZE, demo_store)"
proof -
  have "[124 :: addr] = [] @ 124 # []" "[100 :: addr] = [] @ 100 # []" by simp_all
  then have "at_pos demo_store 264 0" "at_pos demo_store 200 0"
    unfolding at_pos_def by (fastforce simp: demo_store_def)+
  then have "acc_inv2 demo_store 264 0 200 0 []"
    using demo_inv by (simp add: acc_inv2_def acc_inv_def blks_of_def) (simp add: demo_store_def)
  from copy_transfers_bytes [OF this, of 2] copy_transfers_bytes [OF this, of 3]
  show ?thesis by auto
qed

end
