(* ===== verification/Endian.thy ===== *)
theory Endian
  imports Prelude
begin

text \<open>
  Byte order (\<open>src/endiantool.h\<close>). The order of the machine is a parameter: the header selects one of
  the two definitions of \<open>host_to_net\<close> at compile time. The three overloads of the template \<open>byteswap\<close>
  are the functions of their width.
\<close>

datatype byte_order = Little_endian | Big_endian

definition bswap_64 :: "u64 \<Rightarrow> u64" where
  "bswap_64 value =
     drop_bit 56 (value AND 0xFF00000000000000) OR drop_bit 40 (value AND 0x00FF000000000000)
     OR drop_bit 24 (value AND 0x0000FF0000000000) OR drop_bit 8 (value AND 0x000000FF00000000)
     OR push_bit 8 (value AND 0x00000000FF000000) OR push_bit 24 (value AND 0x0000000000FF0000)
     OR push_bit 40 (value AND 0x000000000000FF00) OR push_bit 56 (value AND 0x00000000000000FF)"

definition bswap_32 :: "u32 \<Rightarrow> u32" where
  "bswap_32 value =
     drop_bit 24 (value AND 0xFF000000) OR drop_bit 8 (value AND 0x00FF0000)
     OR push_bit 8 (value AND 0x0000FF00) OR push_bit 24 (value AND 0x000000FF)"

definition bswap_16 :: "u16 \<Rightarrow> u16" where
  "bswap_16 value = drop_bit 8 (value AND 0xFF00) OR push_bit 8 (value AND 0x00FF)"

definition host_to_net_16 :: "byte_order \<Rightarrow> u16 \<Rightarrow> u16" where
  "host_to_net_16 ord t = (case ord of Big_endian \<Rightarrow> t | Little_endian \<Rightarrow> bswap_16 t)"

definition net_to_host_16 :: "byte_order \<Rightarrow> u16 \<Rightarrow> u16" where
  "net_to_host_16 ord t = (case ord of Big_endian \<Rightarrow> t | Little_endian \<Rightarrow> bswap_16 t)"

definition host_to_net_32 :: "byte_order \<Rightarrow> u32 \<Rightarrow> u32" where
  "host_to_net_32 ord t = (case ord of Big_endian \<Rightarrow> t | Little_endian \<Rightarrow> bswap_32 t)"

definition net_to_host_32 :: "byte_order \<Rightarrow> u32 \<Rightarrow> u32" where
  "net_to_host_32 ord t = (case ord of Big_endian \<Rightarrow> t | Little_endian \<Rightarrow> bswap_32 t)"

definition host_to_net_64 :: "byte_order \<Rightarrow> u64 \<Rightarrow> u64" where
  "host_to_net_64 ord t = (case ord of Big_endian \<Rightarrow> t | Little_endian \<Rightarrow> bswap_64 t)"

definition net_to_host_64 :: "byte_order \<Rightarrow> u64 \<Rightarrow> u64" where
  "net_to_host_64 ord t = (case ord of Big_endian \<Rightarrow> t | Little_endian \<Rightarrow> bswap_64 t)"

text \<open>How the machine lays out a \<open>k\<close>-byte integer in memory, and reads one back.\<close>

definition le_bytes :: "nat \<Rightarrow> 'a::len word \<Rightarrow> u8 list" where
  "le_bytes k w = map (\<lambda>i. ucast (drop_bit (8 * i) w)) [0 ..< k]"

definition mem_bytes :: "byte_order \<Rightarrow> nat \<Rightarrow> 'a::len word \<Rightarrow> u8 list" where
  "mem_bytes ord k w = (case ord of Little_endian \<Rightarrow> le_bytes k w | Big_endian \<Rightarrow> rev (le_bytes k w))"

fun of_le_bytes :: "u8 list \<Rightarrow> 'a::len word" where
  "of_le_bytes [] = 0"
| "of_le_bytes (b # bs) = ucast b OR push_bit 8 (of_le_bytes bs)"

definition of_mem_bytes :: "byte_order \<Rightarrow> u8 list \<Rightarrow> 'a::len word" where
  "of_mem_bytes ord bs = (case ord of Little_endian \<Rightarrow> of_le_bytes bs | Big_endian \<Rightarrow> of_le_bytes (rev bs))"

subsection \<open>Bits\<close>

lemma masks_64: "0xFF00000000000000 = (push_bit 56 (mask 8) :: u64)"
  "0xFF000000000000 = (push_bit 48 (mask 8) :: u64)" "0xFF0000000000 = (push_bit 40 (mask 8) :: u64)"
  "0xFF00000000 = (push_bit 32 (mask 8) :: u64)" "0xFF000000 = (push_bit 24 (mask 8) :: u64)"
  "0xFF0000 = (push_bit 16 (mask 8) :: u64)" "0xFF00 = (push_bit 8 (mask 8) :: u64)"
  "0xFF = (push_bit 0 (mask 8) :: u64)"
  by (simp_all add: mask_eq_exp_minus_1)

lemma masks_32: "0xFF000000 = (push_bit 24 (mask 8) :: u32)" "0xFF0000 = (push_bit 16 (mask 8) :: u32)"
  "0xFF00 = (push_bit 8 (mask 8) :: u32)" "0xFF = (push_bit 0 (mask 8) :: u32)"
  by (simp_all add: mask_eq_exp_minus_1)

lemma masks_16: "0xFF00 = (push_bit 8 (mask 8) :: u16)" "0xFF = (push_bit 0 (mask 8) :: u16)"
  by (simp_all add: mask_eq_exp_minus_1)

lemma bit_bswap_64: "n < 8 \<Longrightarrow> k < 8 \<Longrightarrow> bit (bswap_64 w) (8 * k + n) \<longleftrightarrow> bit w (8 * (7 - k) + n)"
proof -
  assume "n < 8" "k < 8"
  then consider "k = 0" | "k = 1" | "k = 2" | "k = 3" | "k = 4" | "k = 5" | "k = 6" | "k = 7" by arith
  then show ?thesis using \<open>n < 8\<close> by cases (simp_all add: bswap_64_def masks_64 bit_simps)
qed

lemma bit_bswap_32: "n < 8 \<Longrightarrow> k < 4 \<Longrightarrow> bit (bswap_32 w) (8 * k + n) \<longleftrightarrow> bit w (8 * (3 - k) + n)"
proof -
  assume "n < 8" "k < 4"
  then consider "k = 0" | "k = 1" | "k = 2" | "k = 3" by arith
  then show ?thesis using \<open>n < 8\<close> by cases (simp_all add: bswap_32_def masks_32 bit_simps)
qed

lemma bit_bswap_16: "n < 8 \<Longrightarrow> k < 2 \<Longrightarrow> bit (bswap_16 w) (8 * k + n) \<longleftrightarrow> bit w (8 * (1 - k) + n)"
proof -
  assume "n < 8" "k < 2"
  then consider "k = 0" | "k = 1" by arith
  then show ?thesis using \<open>n < 8\<close> by cases (simp_all add: bswap_16_def masks_16 bit_simps)
qed

text \<open>A word is the sum of its bytes: equality byte by byte.\<close>

lemma word_eq_by_bytes:
  fixes v w :: "'a::len word"
  assumes "LENGTH('a) = 8 * m" "\<And>k n. n < 8 \<Longrightarrow> k < m \<Longrightarrow> bit v (8 * k + n) \<longleftrightarrow> bit w (8 * k + n)"
  shows "v = w"
proof (rule bit_word_eqI)
  fix n assume "n < LENGTH('a)"
  then have "n div 8 < m" "n mod 8 < 8" using assms(1) by auto
  from assms(2) [OF this(2,1)] show "bit v n \<longleftrightarrow> bit w n" by simp
qed

lemma le_bytes_swap:
  fixes v w :: "'a::len word"
  assumes "LENGTH('a) = 8 * m" "\<And>k n. n < 8 \<Longrightarrow> k < m \<Longrightarrow> bit v (8 * k + n) \<longleftrightarrow> bit w (8 * (m - 1 - k) + n)"
  shows "le_bytes m v = rev (le_bytes m w)"
proof (rule nth_equalityI)
  fix k assume "k < length (le_bytes m v)"
  then have k: "k < m" by (simp add: le_bytes_def)
  have "(ucast (drop_bit (8 * k) v) :: u8) = ucast (drop_bit (8 * (m - 1 - k)) w)"
    using assms k by (intro bit_word_eqI) (simp add: bit_simps add.commute)
  then show "le_bytes m v ! k = rev (le_bytes m w) ! k"
    using k by (simp add: le_bytes_def rev_nth)
qed (simp add: le_bytes_def)

lemma bswap_involutive:
  "bswap_64 (bswap_64 a) = a" "bswap_32 (bswap_32 b) = b" "bswap_16 (bswap_16 c) = c"
proof -
  show "bswap_64 (bswap_64 a) = a" by (rule word_eq_by_bytes [of 8]) (simp_all add: bit_bswap_64)
  show "bswap_32 (bswap_32 b) = b" by (rule word_eq_by_bytes [of 4]) (simp_all add: bit_bswap_32)
  show "bswap_16 (bswap_16 c) = c" by (rule word_eq_by_bytes [of 2]) (simp_all add: bit_bswap_16)
qed

lemma mem_bytes_net:
  "mem_bytes ord 8 (host_to_net_64 ord a) = rev (le_bytes 8 a)"
  "mem_bytes ord 4 (host_to_net_32 ord b) = rev (le_bytes 4 b)"
  "mem_bytes ord 2 (host_to_net_16 ord c) = rev (le_bytes 2 c)"
proof -
  have "le_bytes 8 (bswap_64 a) = rev (le_bytes 8 a)" by (rule le_bytes_swap) (simp_all add: bit_bswap_64)
  then show "mem_bytes ord 8 (host_to_net_64 ord a) = rev (le_bytes 8 a)"
    by (simp add: mem_bytes_def host_to_net_64_def split: byte_order.split)
  have "le_bytes 4 (bswap_32 b) = rev (le_bytes 4 b)" by (rule le_bytes_swap) (simp_all add: bit_bswap_32)
  then show "mem_bytes ord 4 (host_to_net_32 ord b) = rev (le_bytes 4 b)"
    by (simp add: mem_bytes_def host_to_net_32_def split: byte_order.split)
  have "le_bytes 2 (bswap_16 c) = rev (le_bytes 2 c)" by (rule le_bytes_swap) (simp_all add: bit_bswap_16)
  then show "mem_bytes ord 2 (host_to_net_16 ord c) = rev (le_bytes 2 c)"
    by (simp add: mem_bytes_def host_to_net_16_def split: byte_order.split)
qed

lemma length_mem_bytes [simp]: "length (le_bytes k w) = k" "length (mem_bytes ord k w) = k"
  by (simp_all add: le_bytes_def mem_bytes_def split: byte_order.split)

lemma of_le_bytes_le_bytes:
  fixes w :: "'a::len word"
  assumes "LENGTH('a) \<le> 8 * m" shows "of_le_bytes (le_bytes m w) = w"
proof -
  have bits: "bit (of_le_bytes (map (\<lambda>i. ucast (drop_bit (8 * i) w)) [k ..< k + j]) :: 'a word) n
      \<longleftrightarrow> n < 8 * j \<and> bit w (8 * k + n)" if "n < LENGTH('a)" for k j n
    using that
  proof (induction j arbitrary: k n)
    case (Suc j)
    have "[k ..< k + Suc j] = k # [Suc k ..< Suc k + j]" by (simp add: upt_rec)
    then show ?case using Suc.IH [of "n - 8" "Suc k"] Suc.prems
      by (auto simp: bit_simps add.commute)
  qed simp
  show ?thesis
  proof (rule bit_word_eqI)
    fix n assume n: "n < LENGTH('a)"
    with bits [of n 0 m] assms show "bit (of_le_bytes (le_bytes m w) :: 'a word) n \<longleftrightarrow> bit w n"
      by (simp add: le_bytes_def)
  qed
qed

lemma of_mem_bytes_mem_bytes:
  "LENGTH('a) \<le> 8 * m \<Longrightarrow> of_mem_bytes ord (mem_bytes ord m w) = (w :: 'a::len word)"
  by (simp add: of_mem_bytes_def mem_bytes_def of_le_bytes_le_bytes split: byte_order.split)

subsection \<open>Properties\<close>

text \<open>
  C17. Whatever the byte order of the machine, an integer converted with \<open>host_to_net\<close> lies in memory
  with its most significant byte first, and \<open>net_to_host\<close> recovers the integer from it.
\<close>

theorem host_to_net_is_wire_order:
  "mem_bytes ord 2 (host_to_net_16 ord a) = [ucast (drop_bit 8 a), ucast a]
   \<and> mem_bytes ord 4 (host_to_net_32 ord b)
       = [ucast (drop_bit 24 b), ucast (drop_bit 16 b), ucast (drop_bit 8 b), ucast b]
   \<and> mem_bytes ord 8 (host_to_net_64 ord c) = rev (le_bytes 8 c)
   \<and> net_to_host_16 ord (of_mem_bytes ord (mem_bytes ord 2 (host_to_net_16 ord a))) = a
   \<and> net_to_host_32 ord (of_mem_bytes ord (mem_bytes ord 4 (host_to_net_32 ord b))) = b
   \<and> net_to_host_64 ord (of_mem_bytes ord (mem_bytes ord 8 (host_to_net_64 ord c))) = c"
proof -
  have "net_to_host_16 ord (host_to_net_16 ord a) = a" "net_to_host_32 ord (host_to_net_32 ord b) = b"
    "net_to_host_64 ord (host_to_net_64 ord c) = c"
    by (simp_all add: net_to_host_16_def host_to_net_16_def net_to_host_32_def host_to_net_32_def
        net_to_host_64_def host_to_net_64_def bswap_involutive split: byte_order.split)
  then show ?thesis
    by (simp add: of_mem_bytes_mem_bytes del: of_le_bytes.simps) (simp add: mem_bytes_net le_bytes_def upt_rec)
qed

end
