(* ===== verification/IpAddr.thy ===== *)
theory IpAddr
  imports Endian NetErr
begin

text \<open>
  IPv4 addresses (\<open>src/net/ipaddr.h\<close>, \<open>src/net/ipaddr.cc\<close>, and \<open>ipaddr_from_str\<close> of
  \<open>src/net/netif.cc\<close>). The union of \<open>q_addr\<close> and \<open>a_addr\<close> is its four bytes. A C string is a list of
  characters without the terminating NUL; a null pointer is \<open>None\<close>.
\<close>

datatype ipaddr_type = IPADDR_V4

record ipaddr =
  ip_type :: ipaddr_type
  a_addr :: "u8 list"

definition IPV4_ADDR_SIZE :: nat where "IPV4_ADDR_SIZE = 4"

definition ipaddr_new :: ipaddr where
  "ipaddr_new = \<lparr>ip_type = IPADDR_V4, a_addr = replicate IPV4_ADDR_SIZE 0\<rparr>"

definition q_addr :: "byte_order \<Rightarrow> ipaddr \<Rightarrow> u32" where
  "q_addr ord ip = of_mem_bytes ord (a_addr ip)"

definition ipaddr_eq :: "byte_order \<Rightarrow> ipaddr \<Rightarrow> ipaddr \<Rightarrow> bool" where
  "ipaddr_eq ord ip other = (q_addr ord ip = q_addr ord other)"

text \<open>
  The parser shared by the constructor and \<open>ipaddr_from_str\<close>: \<open>p\<close> is the write position, writing
  behind the array is undefined. The flag tells whether the string was read to its end.
\<close>

definition is_digit :: "char \<Rightarrow> bool" where
  "is_digit c \<longleftrightarrow> 48 \<le> (of_char c :: nat) \<and> (of_char c :: nat) \<le> 57"

fun parse_addr :: "string \<Rightarrow> u8 list \<Rightarrow> nat \<Rightarrow> u8 \<Rightarrow> (bool \<times> u8 list) option" where
  "parse_addr [] a p sub_addr = do { a' \<leftarrow> upd_opt a p sub_addr; Some (True, a') }"
| "parse_addr (c # str) a p sub_addr =
     (if is_digit c then parse_addr str a p (sub_addr * 10 + (of_char c - 48))
      else if c = CHR ''.'' then do { a' \<leftarrow> upd_opt a p sub_addr; parse_addr str a' (Suc p) 0 }
      else Some (False, a))"

text \<open>The constructor from a string; \<open>junk\<close> is what the object's storage held before.\<close>

definition ipaddr_of_str :: "u8 list \<Rightarrow> string option \<Rightarrow> ipaddr option" where
  "ipaddr_of_str junk str =
     (case str of
        None \<Rightarrow> Some \<lparr>ip_type = IPADDR_V4, a_addr = junk\<rparr>
      | Some s \<Rightarrow> do {
          (_, a) \<leftarrow> parse_addr s (replicate IPV4_ADDR_SIZE 0) 0 0;
          Some \<lparr>ip_type = IPADDR_V4, a_addr = a\<rparr>
        })"

definition ipaddr_from_str :: "ipaddr \<Rightarrow> string option \<Rightarrow> (net_err \<times> ipaddr) option" where
  "ipaddr_from_str dest str =
     (case str of
        None \<Rightarrow> Some (NET_ERR_PARAM, dest)
      | Some s \<Rightarrow> do {
          (ok, a) \<leftarrow> parse_addr s (replicate IPV4_ADDR_SIZE 0) 0 0;
          Some (if ok then NET_ERR_OK else NET_ERR_PARAM, \<lparr>ip_type = IPADDR_V4, a_addr = a\<rparr>)
        })"

text \<open>\<open>std::to_string\<close> of an unsigned number, and the dotted notation.\<close>

definition digit_char :: "nat \<Rightarrow> char" where
  "digit_char n = char_of (48 + n)"

fun dec :: "nat \<Rightarrow> string" where
  "dec n = (if n < 10 then [digit_char n] else dec (n div 10) @ [digit_char (n mod 10)])"

fun dotted :: "string list \<Rightarrow> string" where
  "dotted [] = []"
| "dotted [s] = s"
| "dotted (s # t # ss) = s @ ''.'' @ dotted (t # ss)"

definition ipaddr_to_string :: "ipaddr \<Rightarrow> string option" where
  "ipaddr_to_string ip = do {
     b0 \<leftarrow> nth_opt (a_addr ip) 0;
     b1 \<leftarrow> nth_opt (a_addr ip) 1;
     b2 \<leftarrow> nth_opt (a_addr ip) 2;
     b3 \<leftarrow> nth_opt (a_addr ip) 3;
     Some (dec (unat b0) @ ''.'' @ dec (unat b1) @ ''.'' @ dec (unat b2) @ ''.'' @ dec (unat b3))
   }"

declare dec.simps [simp del]

subsection \<open>Decimal numbers\<close>

definition dec_val :: "string \<Rightarrow> nat" where
  "dec_val s = fold (\<lambda>c v. v * 10 + (of_char c - 48)) s 0"

lemma of_char_digit: "n < 10 \<Longrightarrow> (of_char (digit_char n) :: nat) = 48 + n"
  by (simp add: digit_char_def)

lemma is_digit_digit_char [simp]: "n < 10 \<Longrightarrow> is_digit (digit_char n)"
  by (simp add: is_digit_def of_char_digit)

lemma dec_digits: "list_all is_digit (dec n)"
  by (induction n rule: dec.induct) (subst dec.simps, simp)

lemma dec_val_dec: "dec_val (dec n) = n"
proof (induction n rule: dec.induct)
  case (1 n)
  show ?case
  proof (cases "n < 10")
    case True
    then show ?thesis by (subst dec.simps) (simp add: dec_val_def of_char_digit)
  next
    case False
    then have "dec_val (dec n) = dec_val (dec (n div 10)) * 10 + n mod 10"
      by (subst dec.simps) (simp add: dec_val_def of_char_digit)
    then show ?thesis using 1 False by simp
  qed
qed

lemma of_char_word: "is_digit c \<Longrightarrow> (of_char c - 48 :: u8) = of_nat (of_char c - 48)"
proof -
  assume "is_digit c"
  then have "48 \<le> (of_char c :: nat)" by (simp add: is_digit_def)
  then have "(of_nat (of_char c - 48) :: u8) = of_nat (of_char c) - of_nat 48" by (rule of_nat_diff)
  then show ?thesis by (simp add: of_nat_of_char)
qed

lemma parse_digits:
  "list_all is_digit s \<Longrightarrow> parse_addr (s @ rest) a p (of_nat v)
     = parse_addr rest a p (of_nat (fold (\<lambda>c v. v * 10 + (of_char c - 48)) s v))"
proof (induction s arbitrary: v)
  case (Cons c s)
  have eq: "of_nat v * 10 + (of_char c - 48) = (of_nat (v * 10 + (of_char c - 48)) :: u8)"
    using Cons.prems by (simp add: of_char_word)
  have "parse_addr ((c # s) @ rest) a p (of_nat v)
      = parse_addr (s @ rest) a p (of_nat (v * 10 + (of_char c - 48)))"
    using Cons.prems by (simp only: append_Cons parse_addr.simps list.pred_inject if_True eq)
  also have "\<dots> = parse_addr rest a p
      (of_nat (fold (\<lambda>c v. v * 10 + (of_char c - 48)) s (v * 10 + (of_char c - 48))))"
    using Cons.prems by (intro Cons.IH) simp
  finally show ?case by (simp only: fold_simps)
qed simp

lemma not_digit_dot [simp]: "\<not> is_digit (CHR ''.'')"
  by (simp add: is_digit_def)

text \<open>The parser on dotted digit strings, from position \<open>p\<close> on.\<close>

lemma parse_dotted:
  assumes "ss \<noteq> []" "\<forall>s \<in> set ss. list_all is_digit s"
  shows "parse_addr (dotted ss) a p 0 =
    (if p + length ss \<le> length a
     then Some (True, take p a @ map (\<lambda>s. of_nat (dec_val s)) ss @ drop (p + length ss) a) else None)"
  using assms
proof (induction ss arbitrary: a p rule: dotted.induct)
  case (2 s)
  then show ?case using parse_digits [of s "[]" a p 0]
    by (auto simp: dec_val_def upd_opt_def upd_conv_take_nth_drop)
next
  case (3 s t ss)
  have "parse_addr (s @ ''.'' @ dotted (t # ss)) a p 0
      = do { a' \<leftarrow> upd_opt a p (of_nat (dec_val s)); parse_addr (dotted (t # ss)) a' (Suc p) 0 }"
    using 3 parse_digits [of s "''.'' @ dotted (t # ss)" a p 0] by (simp add: dec_val_def)
  then show ?case
    using 3 by (auto simp: upd_opt_def upd_conv_take_nth_drop min_def add.commute)
qed simp

lemma dotted_four: "dotted [w, x, y, z] = w @ ''.'' @ x @ ''.'' @ y @ ''.'' @ z"
  by simp

subsection \<open>Properties\<close>

text \<open>
  \<open>ipaddr_from_str\<close> and the string constructor read any dotted list of digit strings: up to four
  numbers are stored, each modulo 256 (\<open>256\<close> is read as \<open>0\<close>, an empty number as \<open>0\<close>), and missing ones
  are zero. A fifth number is written behind the four bytes of the union.
\<close>

theorem ipaddr_from_str_dotted:
  assumes "ss \<noteq> []" "\<forall>s \<in> set ss. list_all is_digit s"
  shows "ipaddr_from_str dest (Some (dotted ss)) =
      (if length ss \<le> 4
       then Some (NET_ERR_OK, \<lparr>ip_type = IPADDR_V4,
              a_addr = map (\<lambda>s. of_nat (dec_val s)) ss @ replicate (4 - length ss) 0\<rparr>)
       else None)
    \<and> ipaddr_of_str junk (Some (dotted ss)) = map_option snd (ipaddr_from_str dest (Some (dotted ss)))"
  using parse_dotted [OF assms, of "replicate 4 0" 0]
  by (simp add: ipaddr_from_str_def ipaddr_of_str_def IPV4_ADDR_SIZE_def)

theorem ipaddr_from_str_dotted_witness:
  "ipaddr_from_str ipaddr_new (Some ''255.0.256.1'')
     = Some (NET_ERR_OK, \<lparr>ip_type = IPADDR_V4, a_addr = [255, 0, 0, 1]\<rparr>)
   \<and> ipaddr_from_str ipaddr_new (Some ''1.2.3.4.5'') = None"
  using ipaddr_from_str_dotted [of "[''255'', ''0'', ''256'', ''1'']" ipaddr_new "[]"]
    ipaddr_from_str_dotted [of "[''1'', ''2'', ''3'', ''4'', ''5'']" ipaddr_new "[]"]
  by (simp add: is_digit_def dec_val_def)

text \<open>
  Printing an address and reading the text back gives the address: \<open>ipaddr_from_str\<close> and the
  string constructor both invert \<open>to_string\<close>.
\<close>

theorem ipaddr_print_parse:
  assumes "length (a_addr ip) = 4"
  shows "\<exists>s. ipaddr_to_string ip = Some s \<and> ipaddr_from_str dest (Some s) = Some (NET_ERR_OK, ip)
     \<and> ipaddr_of_str junk (Some s) = Some ip"
proof -
  from assms obtain b0 b1 b2 b3 where ip: "a_addr ip = [b0, b1, b2, b3]"
    by (auto simp: numeral_eq_Suc length_Suc_conv)
  let ?ss = "[dec (unat b0), dec (unat b1), dec (unat b2), dec (unat b3)]"
  have s: "ipaddr_to_string ip = Some (dotted ?ss)"
    by (simp add: ipaddr_to_string_def ip nth_opt_def)
  have "parse_addr (dotted ?ss) (replicate 4 0) 0 0 = Some (True, [b0, b1, b2, b3])"
    by (subst parse_dotted) (simp_all add: dec_digits dec_val_dec)
  moreover have "ip = \<lparr>ip_type = IPADDR_V4, a_addr = [b0, b1, b2, b3]\<rparr>"
    using ip by (cases ip) (cases "ip_type ip", simp)
  ultimately show ?thesis using s
    by (simp add: ipaddr_from_str_def ipaddr_of_str_def IPV4_ADDR_SIZE_def)
qed

theorem ipaddr_print_parse_witness:
  "\<exists>s. ipaddr_to_string \<lparr>ip_type = IPADDR_V4, a_addr = [192, 168, 1, 20]\<rparr> = Some s
     \<and> ipaddr_from_str ipaddr_new (Some s)
       = Some (NET_ERR_OK, \<lparr>ip_type = IPADDR_V4, a_addr = [192, 168, 1, 20]\<rparr>)"
  using ipaddr_print_parse [of "\<lparr>ip_type = IPADDR_V4, a_addr = [192, 168, 1, 20]\<rparr>" ipaddr_new "[]"] by auto

end
