(* ===== verification/LinkLayer.thy ===== *)
theory LinkLayer
  imports IpAddr
begin

text \<open>
  The Ethernet and ARP formats (\<open>src/net/link_layer.h\<close>, \<open>src/net/link_layer.cc\<close>, \<open>src/net/arp.h\<close>,
  \<open>src/net/protocol.h\<close>) and hardware addresses (\<open>netif_hwaddr_t\<close> of \<open>src/net/netif.h\<close>). The packed
  structs are given by the offsets of their members.
\<close>

definition ETHER_MTU :: nat where "ETHER_MTU = 1500"
definition ETHER_HWA_SIZE :: nat where "ETHER_HWA_SIZE = 6"
definition ETHER_DATA_MIN :: nat where "ETHER_DATA_MIN = 46"

text \<open>\<open>ether_hdr_t\<close>: \<open>dest\<close>, \<open>src\<close>, \<open>protocol\<close>.\<close>

record ether_hdr_layout =
  off_dest :: nat
  off_src :: nat
  off_protocol :: nat
  sizeof_ether_hdr :: nat

definition ether_hdr :: ether_hdr_layout where
  "ether_hdr = \<lparr>off_dest = 0, off_src = ETHER_HWA_SIZE, off_protocol = 2 * ETHER_HWA_SIZE,
                sizeof_ether_hdr = 2 * ETHER_HWA_SIZE + 2\<rparr>"

definition ether_broadcast_addr :: "u8 list" where
  "ether_broadcast_addr = [0xFF, 0xFF, 0xFF, 0xFF, 0xFF, 0xFF]"

text \<open>The enumeration \<open>protocol_t\<close>.\<close>

definition NET_PROTOCOL_ARP :: u16 where "NET_PROTOCOL_ARP = 0x0806"
definition NET_PROTOCOL_IPv4 :: u16 where "NET_PROTOCOL_IPv4 = 0x0800"

definition ARP_HW_ETHER :: u16 where "ARP_HW_ETHER = 1"
definition ARP_REQUEST :: u16 where "ARP_REQUEST = 1"
definition ARP_REPLAY :: u16 where "ARP_REPLAY = 2"

text \<open>\<open>arp_pkt_t\<close>.\<close>

record arp_pkt_layout =
  off_htype :: nat
  off_iptype :: nat
  off_hwlen :: nat
  off_iplen :: nat
  off_opcode :: nat
  off_sender_hwaddr :: nat
  off_sender_ipaddr :: nat
  off_target_hwaddr :: nat
  off_target_ipaddr :: nat
  sizeof_arp_pkt :: nat

definition arp_pkt :: arp_pkt_layout where
  "arp_pkt = \<lparr>off_htype = 0, off_iptype = 2, off_hwlen = 4, off_iplen = 5, off_opcode = 6,
     off_sender_hwaddr = 8, off_sender_ipaddr = 8 + ETHER_HWA_SIZE,
     off_target_hwaddr = 8 + ETHER_HWA_SIZE + IPV4_ADDR_SIZE,
     off_target_ipaddr = 8 + 2 * ETHER_HWA_SIZE + IPV4_ADDR_SIZE,
     sizeof_arp_pkt = 8 + 2 * ETHER_HWA_SIZE + 2 * IPV4_ADDR_SIZE\<rparr>"

text \<open>Hexadecimal with two digits, and the printed form of a hardware address.\<close>

definition hex_digit :: "nat \<Rightarrow> char" where
  "hex_digit n = (if n < 10 then char_of (48 + n) else char_of (87 + n))"

definition hex2 :: "u8 \<Rightarrow> string" where
  "hex2 b = [hex_digit (unat b div 16), hex_digit (unat b mod 16)]"

fun hwaddr_join :: "u8 list \<Rightarrow> string" where
  "hwaddr_join [] = []"
| "hwaddr_join [b] = hex2 b"
| "hwaddr_join (b # c # bs) = hex2 b @ ''-'' @ hwaddr_join (c # bs)"

definition hwaddr_to_string :: "u8 list \<Rightarrow> string option" where
  "hwaddr_to_string src = map_option hwaddr_join (bytes_get src 0 ETHER_HWA_SIZE)"

subsection \<open>\<open>netif_hwaddr_t\<close>\<close>

definition NETIF_HWADDR_SIZE :: nat where "NETIF_HWADDR_SIZE = 32"
definition NETIF_NAME_SIZE :: nat where "NETIF_NAME_SIZE = 10"

record netif_hwaddr =
  hw_addr :: "u8 list"
  hw_len :: u8

definition hwaddr_new :: netif_hwaddr where
  "hwaddr_new = \<lparr>hw_addr = replicate NETIF_HWADDR_SIZE 0, hw_len = 0\<rparr>"

definition hwaddr_reset :: "netif_hwaddr \<Rightarrow> u8 list \<Rightarrow> u8 \<Rightarrow> netif_hwaddr option" where
  "hwaddr_reset h addr len = do {
     bytes \<leftarrow> bytes_get addr 0 (unat len);
     a \<leftarrow> bytes_put (hw_addr h) 0 bytes;
     Some \<lparr>hw_addr = a, hw_len = len\<rparr>
   }"

definition hwaddr_assign :: "netif_hwaddr \<Rightarrow> netif_hwaddr \<Rightarrow> netif_hwaddr option" where
  "hwaddr_assign h other = do {
     bytes \<leftarrow> bytes_get (hw_addr other) 0 (unat (hw_len other));
     a \<leftarrow> bytes_put (hw_addr h) 0 bytes;
     Some \<lparr>hw_addr = a, hw_len = hw_len other\<rparr>
   }"

text \<open>The stream operator of \<open>netif_hwaddr_t\<close> (\<open>src/net/netif.cc\<close>).\<close>

definition hwaddr_print :: "netif_hwaddr \<Rightarrow> string option" where
  "hwaddr_print h = map_option hwaddr_join (bytes_get (hw_addr h) 0 (unat (hw_len h)))"

lemmas layout_defs = ether_hdr_def arp_pkt_def ETHER_HWA_SIZE_def IPV4_ADDR_SIZE_def

subsection \<open>Entries of an ARP table\<close>

text \<open>The data of \<open>ARPEntry\<close>; nothing in the program creates or changes an entry yet.\<close>

datatype arp_state = NET_ARP_FREE | NET_ARP_WAITING | NET_ARP_RESOLVED

record arp_entry =
  ae_ipaddr :: "u8 list"
  ae_hwaddr :: "u8 list"
  ae_state :: arp_state
  ae_buf_list :: "addr list"
  ae_netif :: addr

end
