(* ===== verification/ProtoStack.thy ===== *)
theory ProtoStack
  imports MemPool NetErr
begin

text \<open>
  The message blocks and the message queue of the protocol stack (\<open>src/net/exmsg.h\<close>,
  \<open>src/net/protocol_stack.h\<close>, \<open>src/net/protocol_stack.cc\<close>, and the timer messages of
  \<open>src/net/net.cc\<close>). A message is its tag with the active member of its union; \<open>'f\<close> is the type of the
  callbacks, \<open>None\<close> an empty \<open>std::function\<close>.
\<close>

datatype 'f exmsg =
    Exmsg_netif_in addr
  | Exmsg_timer_fun "'f option"

record 'f proto_stack =
  ps_mem_block :: mem_block
  ps_msg_queue :: "addr lfrq"
  ps_timer_mem_block :: mem_block
  ps_msgs :: "addr \<rightharpoonup> 'f exmsg"

definition get_msg_block :: "'f proto_stack \<Rightarrow> (addr \<times> 'f proto_stack) option" where
  "get_msg_block ps = do {
     (ptr, mb) \<leftarrow> mb_alloc (ps_mem_block ps);
     Some (case ptr of None \<Rightarrow> nullptr | Some a \<Rightarrow> a, ps\<lparr>ps_mem_block := mb\<rparr>)
   }"

definition release_msg_block :: "addr \<Rightarrow> 'f proto_stack \<Rightarrow> (net_err \<times> 'f proto_stack) option" where
  "release_msg_block msg ps = do {
     (_, mb) \<leftarrow> mb_free (ps_mem_block ps) msg;
     Some (NET_ERR_OK, ps\<lparr>ps_mem_block := mb\<rparr>)
   }"

text \<open>\<open>push_msg\<close> passes its timeout on to a queue that never waits.\<close>

definition push_msg :: "addr \<Rightarrow> 'f proto_stack \<Rightarrow> (net_err \<times> 'f proto_stack) option" where
  "push_msg msg ps = do {
     (ok, q) \<leftarrow> push (ps_msg_queue ps) msg;
     Some (if ok then NET_ERR_OK else NET_ERR_MEM, ps\<lparr>ps_msg_queue := q\<rparr>)
   }"

definition pop_msg :: "'f proto_stack \<Rightarrow> net_err \<times> 'f proto_stack" where
  "pop_msg ps = (NET_ERR_OK, ps)"

definition set_msg :: "addr \<Rightarrow> 'f exmsg \<Rightarrow> 'f proto_stack \<Rightarrow> 'f proto_stack" where
  "set_msg a m ps = ps\<lparr>ps_msgs := (ps_msgs ps)(a \<mapsto> m)\<rparr>"

text \<open>The timer messages: constructed in place when taken, destroyed when given back.\<close>

definition get_timer_msg_block :: "'f proto_stack \<Rightarrow> (addr \<times> 'f proto_stack) option" where
  "get_timer_msg_block ps = do {
     (ptr, mb) \<leftarrow> mb_alloc (ps_timer_mem_block ps);
     Some (case ptr of
         None \<Rightarrow> (nullptr, ps\<lparr>ps_timer_mem_block := mb\<rparr>)
       | Some a \<Rightarrow> (a, set_msg a (Exmsg_timer_fun None) (ps\<lparr>ps_timer_mem_block := mb\<rparr>)))
   }"

definition release_timer_msg_block :: "addr \<Rightarrow> 'f proto_stack \<Rightarrow> (net_err \<times> 'f proto_stack) option" where
  "release_timer_msg_block msg ps =
     (if msg \<noteq> nullptr
      then do {
        (_, mb) \<leftarrow> mb_free (ps_timer_mem_block ps) msg;
        Some (NET_ERR_OK, ps\<lparr>ps_timer_mem_block := mb, ps_msgs := (ps_msgs ps)(msg := None)\<rparr>)
      }
      else Some (NET_ERR_OK, ps))"

text \<open>\<open>INetWork::msg_send\<close> ignores the result of \<open>push_msg\<close> (\<open>src/net/network.cc\<close>).\<close>

definition msg_send :: "addr \<Rightarrow> 'f proto_stack \<Rightarrow> (net_err \<times> 'f proto_stack) option" where
  "msg_send msg ps = do {
     (_, ps1) \<leftarrow> push_msg msg ps;
     Some (NET_ERR_OK, ps1)
   }"

definition exmsg_netif_in :: "addr \<Rightarrow> 'f proto_stack \<Rightarrow> (net_err \<times> 'f proto_stack) option" where
  "exmsg_netif_in netif ps = do {
     (msg, ps1) \<leftarrow> get_msg_block ps;
     (if msg = nullptr then Some (NET_ERR_MEM, ps1)
      else do {
        let ps2 = set_msg msg (Exmsg_netif_in netif) ps1;
        (err, ps3) \<leftarrow> msg_send msg ps2;
        (if is_err err
         then do { (_, ps4) \<leftarrow> release_msg_block msg ps3; Some (err, ps4) }
         else Some (NET_ERR_OK, ps3))
      })
   }"

subsection \<open>Invariant\<close>

text \<open>
  The message blocks are free or in the queue; \<open>held\<close> are those in the hands of a thread. The queue
  also carries timer messages, whose blocks come from another pool.
\<close>

definition ps_queue_list :: "'f proto_stack \<Rightarrow> addr list" where
  "ps_queue_list ps = rq_list (ps_msg_queue ps)"

definition ps_inv :: "'f proto_stack \<Rightarrow> bool" where
  "ps_inv ps \<longleftrightarrow> mb_inv (ps_mem_block ps) \<and> rq_inv (ps_msg_queue ps) \<and> mb_inv (ps_timer_mem_block ps)
     \<and> (\<forall>a \<in> set (mb_free_list (ps_mem_block ps)). a \<noteq> nullptr \<and> a \<notin> set (ps_queue_list ps))
     \<and> (\<forall>a \<in> set (ps_queue_list ps). ps_msgs ps a \<noteq> None)
     \<and> distinct (mb_free_list (ps_mem_block ps))"

lemma set_msg_simps [simp]:
  "ps_mem_block (set_msg a m ps) = ps_mem_block ps" "ps_msg_queue (set_msg a m ps) = ps_msg_queue ps"
  "ps_timer_mem_block (set_msg a m ps) = ps_timer_mem_block ps"
  "ps_msgs (set_msg a m ps) = (ps_msgs ps)(a \<mapsto> m)"
  by (simp_all add: set_msg_def)

lemma exmsg_netif_in_run:
  assumes inv: "ps_inv ps"
  shows "\<exists>ps'. exmsg_netif_in netif ps = Some (if mb_free_list (ps_mem_block ps) = [] then NET_ERR_MEM
         else NET_ERR_OK, ps') \<and> ps_inv ps' \<and> ps_timer_mem_block ps' = ps_timer_mem_block ps
     \<and> rq_room (ps_msg_queue ps') = rq_room (ps_msg_queue ps)
     \<and> mb_room (ps_mem_block ps') = mb_room (ps_mem_block ps)
     \<and> (case mb_free_list (ps_mem_block ps) of
          [] \<Rightarrow> ps' = ps
        | a # free \<Rightarrow> mb_free_list (ps_mem_block ps') = free
            \<and> ps_msgs ps' = (ps_msgs ps)(a \<mapsto> Exmsg_netif_in netif)
            \<and> ps_queue_list ps' = (if length (ps_queue_list ps) < rq_room (ps_msg_queue ps)
                 then ps_queue_list ps @ [a] else ps_queue_list ps))"
proof (cases "mb_free_list (ps_mem_block ps)")
  case Nil
  then have "mb_alloc (ps_mem_block ps) = Some (None, ps_mem_block ps)"
    using inv mb.pp_empty by (simp add: ps_inv_def)
  then show ?thesis using Nil inv by (simp add: exmsg_netif_in_def get_msg_block_def)
next
  case (Cons a free)
  have mb: "mb_inv (ps_mem_block ps)" and q: "rq_inv (ps_msg_queue ps)" and a: "a \<noteq> nullptr"
    using inv Cons by (auto simp: ps_inv_def)
  from mb.pp_cons [OF mb Cons] obtain pool where pool: "mb_alloc (ps_mem_block ps) = Some (Some a, pool)"
    "mb_inv pool" "mb_free_list pool = free" "mb_room pool = mb_room (ps_mem_block ps)" by blast
  from rq.psh_cases [OF q, of a] obtain ok q' where
    q': "push (ps_msg_queue ps) a = Some (ok, q')" "rq_inv q'" "rq_room q' = rq_room (ps_msg_queue ps)"
    "ok \<longleftrightarrow> length (rq_list (ps_msg_queue ps)) < rq_room (ps_msg_queue ps)"
    "rq_list q' = (if ok then rq_list (ps_msg_queue ps) @ [a] else rq_list (ps_msg_queue ps))" by blast
  define ps' where "ps' = ps\<lparr>ps_mem_block := pool, ps_msg_queue := q',
    ps_msgs := (ps_msgs ps)(a \<mapsto> Exmsg_netif_in netif)\<rparr>"
  have "exmsg_netif_in netif ps = Some (NET_ERR_OK, ps')"
    using pool(1) a q'(1) by (simp add: exmsg_netif_in_def get_msg_block_def msg_send_def push_msg_def
        set_msg_def ps'_def Let_def)
  moreover have "ps_inv ps'"
    using inv Cons pool q' by (auto simp: ps_inv_def ps'_def ps_queue_list_def)
  ultimately show ?thesis
    using Cons pool q' by (intro exI [of _ ps']) (simp add: ps'_def ps_queue_list_def)
qed

subsection \<open>Properties\<close>

text \<open>
  When the message queue is full but a message block is free, \<open>exmsg_netif_in\<close> reports success: the
  packet's message is lost, and its block is neither queued nor given back.
\<close>

theorem exmsg_lost_when_queue_full:
  assumes "ps_inv ps" "mb_free_list (ps_mem_block ps) = a # free"
    and "length (ps_queue_list ps) = rq_room (ps_msg_queue ps)"
  shows "\<exists>ps'. exmsg_netif_in netif ps = Some (NET_ERR_OK, ps')
     \<and> ps_queue_list ps' = ps_queue_list ps \<and> mb_free_list (ps_mem_block ps') = free"
  using exmsg_netif_in_run [OF assms(1), of netif] assms(2,3) by auto

definition demo_stack :: "nat proto_stack" where
  "demo_stack = \<lparr>ps_mem_block = demo_pool 40 [100], ps_msg_queue = mb_queue (demo_pool 8 [140, 180, 220]),
     ps_timer_mem_block = demo_pool 40 [],
     ps_msgs = [140 \<mapsto> Exmsg_netif_in 7, 180 \<mapsto> Exmsg_netif_in 7, 220 \<mapsto> Exmsg_timer_fun None]\<rparr>"

lemma demo_stack:
  "ps_inv demo_stack" "mb_free_list (ps_mem_block demo_stack) = [100]"
  "ps_queue_list demo_stack = [140, 180, 220]" "rq_room (ps_msg_queue demo_stack) = 3"
proof -
  show q: "ps_queue_list demo_stack = [140, 180, 220]" "rq_room (ps_msg_queue demo_stack) = 3"
    using demo_pool(2) [of "[140, 180, 220]" 8] demo_pool(3) [of 8 "[140, 180, 220]"]
    by (simp_all add: ps_queue_list_def demo_stack_def mb_free_list_def mb_room_def)
  show "ps_inv demo_stack" unfolding ps_inv_def q
    using demo_pool(1) [of "[140, 180, 220]" 8] demo_pool(1) [of "[100]" 40] demo_pool(1) [of "[]" 40]
    by (simp add: demo_stack_def demo_pool(2) mb_inv_def)
qed (simp add: demo_stack_def demo_pool)

theorem exmsg_lost_when_queue_full_witness:
  "\<exists>ps'. exmsg_netif_in 7 demo_stack = Some (NET_ERR_OK, ps')
     \<and> ps_queue_list ps' = [140, 180, 220] \<and> mb_free_list (ps_mem_block ps') = []"
  using exmsg_lost_when_queue_full [of demo_stack 100 "[]" 7] demo_stack by simp

end
