(* ===== verification/NetIf.thy ===== *)
theory NetIf
  imports PktAccess LinkLayer ProtoStack
begin

text \<open>
  The network interfaces (\<open>src/net/netif.h\<close>, \<open>src/net/netif.cc\<close>) and the ARP requests
  (\<open>src/net/arp.cc\<close>): the queues of an interface, the loopback interface, and the Ethernet interface
  with its frames. The state is the packet store, the protocol stack and the heap of interface
  objects. A virtual method dispatches on the object's class. Functions take the byte order of the
  machine where they read or write an integer in a packet.
\<close>

subsection \<open>Interfaces and the state\<close>

datatype netif_type = NETIF_TYPE_NONE | NETIF_TYPE_ETHER | NETIF_TYPE_LOOP | NETIF_TYPE_SIZE
datatype netif_state = NETIF_CLOSED | NETIF_OPENED | NETIF_ACTIVE
datatype netif_class = Loop_net | Ether_net

text \<open>
  \<open>m_ops_data\<close> is an untyped pointer: null, a \<open>pcap_data_t\<close> (the address text and the hardware
  address of the device), or an open pcap handle. Using it as another kind is undefined.
\<close>

record pcap_data =
  pd_ip :: "string option"
  pd_hwaddr :: "u8 list"

datatype ops_data = Ops_null | Ops_pcap_data pcap_data | Ops_pcap nat

record netif =
  if_class :: netif_class
  if_ops_data :: ops_data
  if_name :: "char list"
  if_hwaddr :: netif_hwaddr
  if_ipaddr :: ipaddr
  if_netmask :: ipaddr
  if_gateway :: ipaddr
  if_type :: netif_type
  if_mtu :: u32
  if_state :: netif_state
  if_in_q :: "addr lfrq"
  if_out_q :: "addr lfrq"

record 'f net =
  net_store :: pkt_store
  net_stack :: "'f proto_stack"
  net_ifs :: "addr \<rightharpoonup> netif"

definition put_netif :: "addr \<Rightarrow> netif \<Rightarrow> 'f net \<Rightarrow> 'f net" where
  "put_netif a n net = net\<lparr>net_ifs := (net_ifs net)(a \<mapsto> n)\<rparr>"

text \<open>A step on the packet store inside the state.\<close>

definition on_store :: "(pkt_store \<Rightarrow> ('a \<times> pkt_store) option) \<Rightarrow> 'f net \<Rightarrow> ('a \<times> 'f net) option" where
  "on_store f net = do { (x, st) \<leftarrow> f (net_store net); Some (x, net\<lparr>net_store := st\<rparr>) }"

definition on_store0 :: "(pkt_store \<Rightarrow> pkt_store option) \<Rightarrow> 'f net \<Rightarrow> 'f net option" where
  "on_store0 f net = do { st \<leftarrow> f (net_store net); Some (net\<lparr>net_store := st\<rparr>) }"

text \<open>\<open>set_name\<close> copies the text without its NUL and without a bound.\<close>

definition set_name :: "string \<Rightarrow> netif \<Rightarrow> netif option" where
  "set_name name n = do {
     buf \<leftarrow> bytes_put (if_name n) 0 name;
     Some (n\<lparr>if_name := buf\<rparr>)
   }"

text \<open>\<open>get_name\<close> as a C string: a name that fills the array has no terminating NUL.\<close>

definition get_name :: "netif \<Rightarrow> string option" where
  "get_name n = do {
     check (CHR 0x00 \<in> set (if_name n));
     Some (takeWhile (\<lambda>c. c \<noteq> CHR 0x00) (if_name n))
   }"

text \<open>
  The constructor; \<open>in_size\<close> and \<open>out_size\<close> are the configured queue sizes. An exception of a queue's
  constructor ends the program.
\<close>

definition netif_new :: "netif_class \<Rightarrow> u32 \<Rightarrow> u32 \<Rightarrow> string \<Rightarrow> ops_data \<Rightarrow> netif option" where
  "netif_new cls in_size out_size name ops =
     (case (rq_new nullptr in_size, rq_new nullptr out_size) of
        (Inr inq, Inr outq) \<Rightarrow>
          set_name name \<lparr>if_class = cls, if_ops_data = ops, if_name = replicate NETIF_NAME_SIZE (CHR 0x00),
             if_hwaddr = hwaddr_new, if_ipaddr = ipaddr_new, if_netmask = ipaddr_new,
             if_gateway = ipaddr_new, if_type = NETIF_TYPE_NONE, if_mtu = 0, if_state = NETIF_OPENED,
             if_in_q = inq, if_out_q = outq\<rparr>
      | _ \<Rightarrow> None)"

subsection \<open>The queues of an interface\<close>

definition get_in_queue_size :: "addr \<Rightarrow> 'f net \<Rightarrow> u32 option" where
  "get_in_queue_size nif net = do { n \<leftarrow> net_ifs net nif; Some (rq_length (if_in_q n)) }"

definition get_buf_from_in_queue :: "addr \<Rightarrow> 'f net \<Rightarrow> (addr \<times> 'f net) option" where
  "get_buf_from_in_queue nif net = do {
     n \<leftarrow> net_ifs net nif;
     (r, q) \<leftarrow> pop (if_in_q n);
     let net1 = put_netif nif (n\<lparr>if_in_q := q\<rparr>) net;
     (case r of
        None \<Rightarrow> Some (nullptr, net1)
      | Some buf \<Rightarrow> do { net2 \<leftarrow> on_store0 (reset_access buf) net1; Some (buf, net2) })
   }"

definition put_buf_to_in_queue :: "addr \<Rightarrow> addr \<Rightarrow> 'f net \<Rightarrow> (net_err \<times> 'f net) option" where
  "put_buf_to_in_queue nif buf net = do {
     n \<leftarrow> net_ifs net nif;
     (ok, q) \<leftarrow> push (if_in_q n) buf;
     let net1 = put_netif nif (n\<lparr>if_in_q := q\<rparr>) net;
     (if ok
      then do {
        (_, ps) \<leftarrow> exmsg_netif_in nif (net_stack net1);
        Some (NET_ERR_OK, net1\<lparr>net_stack := ps\<rparr>)
      }
      else Some (NET_ERR_FULL, net1))
   }"

definition get_buf_from_out_queue :: "addr \<Rightarrow> 'f net \<Rightarrow> (addr \<times> 'f net) option" where
  "get_buf_from_out_queue nif net = do {
     n \<leftarrow> net_ifs net nif;
     (r, q) \<leftarrow> pop (if_out_q n);
     let net1 = put_netif nif (n\<lparr>if_out_q := q\<rparr>) net;
     (case r of
        None \<Rightarrow> Some (nullptr, net1)
      | Some buf \<Rightarrow> do { net2 \<leftarrow> on_store0 (reset_access buf) net1; Some (buf, net2) })
   }"

definition put_buf_to_out_queue :: "addr \<Rightarrow> addr \<Rightarrow> 'f net \<Rightarrow> (net_err \<times> 'f net) option" where
  "put_buf_to_out_queue nif buf net = do {
     n \<leftarrow> net_ifs net nif;
     (ok, q) \<leftarrow> push (if_out_q n) buf;
     Some (if ok then NET_ERR_OK else NET_ERR_FULL, put_netif nif (n\<lparr>if_out_q := q\<rparr>) net)
   }"

text \<open>
  Emptying a queue: \<open>pktbuf\<close> is the local pointer, which a pop on an empty ring would leave as it was.
\<close>

partial_function (option) clear_in_loop :: "addr \<Rightarrow> addr option \<Rightarrow> 'f net \<Rightarrow> 'f net option" where
  "clear_in_loop nif pktbuf net = do {
     n \<leftarrow> net_ifs net nif;
     (if is_empty (if_in_q n) then Some net
      else do {
        (r, q) \<leftarrow> pop (if_in_q n);
        let pktbuf' = (case r of None \<Rightarrow> pktbuf | Some buf \<Rightarrow> Some buf);
        buf \<leftarrow> pktbuf';
        net1 \<leftarrow> on_store0 (buf_free buf) (put_netif nif (n\<lparr>if_in_q := q\<rparr>) net);
        clear_in_loop nif pktbuf' net1
      })
   }"

definition clear_in_queue :: "addr \<Rightarrow> 'f net \<Rightarrow> 'f net option" where
  "clear_in_queue nif net = clear_in_loop nif None net"

partial_function (option) clear_out_loop :: "addr \<Rightarrow> addr option \<Rightarrow> 'f net \<Rightarrow> 'f net option" where
  "clear_out_loop nif pktbuf net = do {
     n \<leftarrow> net_ifs net nif;
     (if is_empty (if_out_q n) then Some net
      else do {
        (r, q) \<leftarrow> pop (if_out_q n);
        let pktbuf' = (case r of None \<Rightarrow> pktbuf | Some buf \<Rightarrow> Some buf);
        buf \<leftarrow> pktbuf';
        net1 \<leftarrow> on_store0 (buf_free buf) (put_netif nif (n\<lparr>if_out_q := q\<rparr>) net);
        clear_out_loop nif pktbuf' net1
      })
   }"

definition clear_out_queue :: "addr \<Rightarrow> 'f net \<Rightarrow> 'f net option" where
  "clear_out_queue nif net = clear_out_loop nif None net"

subsection \<open>Members of a packed struct\<close>

text \<open>
  Assigning members of a struct at a pointer into a block, in the order of the statements: each
  assignment is an offset and the bytes of the value.
\<close>

definition ptr_add :: "(addr \<times> nat) option \<Rightarrow> nat \<Rightarrow> (addr \<times> nat) option" where
  "ptr_add ptr k = map_option (\<lambda>(a, off). (a, off + k)) ptr"

fun write_fields :: "(addr \<times> nat) option \<Rightarrow> (nat \<times> u8 list) list \<Rightarrow> pkt_store \<Rightarrow> pkt_store option" where
  "write_fields ptr [] st = Some st"
| "write_fields ptr ((k, bytes) # fs) st = do {
     st1 \<leftarrow> mem_write (ptr_add ptr k) bytes st;
     write_fields ptr fs st1
   }"

definition arp_request_fields :: "byte_order \<Rightarrow> netif \<Rightarrow> ipaddr \<Rightarrow> (nat \<times> u8 list) list option" where
  "arp_request_fields ord n dest = do {
     sender_hw \<leftarrow> bytes_get (hw_addr (if_hwaddr n)) 0 ETHER_HWA_SIZE;
     sender_ip \<leftarrow> bytes_get (a_addr (if_ipaddr n)) 0 IPV4_ADDR_SIZE;
     target_ip \<leftarrow> bytes_get (a_addr dest) 0 IPV4_ADDR_SIZE;
     Some [(off_htype arp_pkt, mem_bytes ord 2 (host_to_net_16 ord ARP_HW_ETHER)),
           (off_iptype arp_pkt, mem_bytes ord 2 (host_to_net_16 ord NET_PROTOCOL_IPv4)),
           (off_hwlen arp_pkt, [of_nat ETHER_HWA_SIZE]),
           (off_iplen arp_pkt, [of_nat IPV4_ADDR_SIZE]),
           (off_opcode arp_pkt, mem_bytes ord 2 (host_to_net_16 ord ARP_REQUEST)),
           (off_sender_hwaddr arp_pkt, sender_hw),
           (off_sender_ipaddr arp_pkt, sender_ip),
           (off_target_ipaddr arp_pkt, target_ip),
           (off_target_hwaddr arp_pkt, replicate ETHER_HWA_SIZE 0)]
   }"

text \<open>\<open>ARPProcessor::make_request\<close>.\<close>

definition make_request :: "byte_order \<Rightarrow> netif \<Rightarrow> ipaddr \<Rightarrow> pkt_store \<Rightarrow> (addr \<times> pkt_store) option" where
  "make_request ord n dest st = do {
     (buf, st1) \<leftarrow> get_pktbuffer st;
     (if buf = nullptr then Some (nullptr, st1)
      else do {
        (ok, st2) \<leftarrow> buf_alloc buf (of_nat (sizeof_arp_pkt arp_pkt)) True False st1;
        (if \<not> ok then do { st3 \<leftarrow> buf_free buf st2; Some (nullptr, st3) }
         else do {
           (_, st3) \<leftarrow> set_cont_header buf (of_nat (sizeof_arp_pkt arp_pkt)) st2;
           arp_packet \<leftarrow> get_data buf st3;
           fields \<leftarrow> arp_request_fields ord n dest;
           st4 \<leftarrow> write_fields arp_packet fields st3;
           Some (buf, st4)
         })
      })
   }"

subsection \<open>The loopback interface\<close>

definition loop_open :: "netif \<Rightarrow> (net_err \<times> netif) option" where
  "loop_open n = do {
     ip \<leftarrow> ipaddr_of_str (a_addr (if_ipaddr n)) (Some ''127.0.0.1'');
     (_, mask) \<leftarrow> ipaddr_from_str (if_netmask n) (Some ''255.0.0.0'');
     Some (NET_ERR_OK, n\<lparr>if_type := NETIF_TYPE_LOOP, if_ipaddr := ip, if_netmask := mask\<rparr>)
   }"

definition loop_send :: "addr \<Rightarrow> 'f net \<Rightarrow> (net_err \<times> 'f net) option" where
  "loop_send nif net = do {
     (buf, net1) \<leftarrow> get_buf_from_out_queue nif net;
     (if buf \<noteq> nullptr
      then do {
        (err, net2) \<leftarrow> put_buf_to_in_queue nif buf net1;
        (if is_err err
         then do { net3 \<leftarrow> on_store0 (buf_free buf) net2; Some (err, net3) }
         else Some (NET_ERR_OK, net2))
      }
      else Some (NET_ERR_OK, net1))
   }"

subsection \<open>The Ethernet interface\<close>

text \<open>
  \<open>open\<close> with the device as a parameter: \<open>dev_open\<close> is \<open>pcap_device_open\<close>, and a null handle is
  \<open>None\<close>. The handle is used by \<open>pcap_getnonblock\<close> before it is tested for null, so a failure to open
  the device never reaches that test. The start of the two threads has no effect on the state here.
\<close>

definition ether_open :: "(string option \<Rightarrow> u8 list \<Rightarrow> nat option) \<Rightarrow> netif
    \<Rightarrow> (net_err \<times> netif) option" where
  "ether_open dev_open n =
     (case if_ops_data n of
        Ops_pcap_data d \<Rightarrow> do {
          pcap \<leftarrow> dev_open (pd_ip d) (pd_hwaddr d);
          (_, ip) \<leftarrow> ipaddr_from_str (if_ipaddr n) (pd_ip d);
          hw \<leftarrow> hwaddr_reset (if_hwaddr n) (pd_hwaddr d) 6;
          Some (NET_ERR_OK, n\<lparr>if_type := NETIF_TYPE_ETHER, if_mtu := of_nat ETHER_MTU, if_ipaddr := ip,
                              if_hwaddr := hw, if_ops_data := Ops_pcap pcap\<rparr>)
        }
      | _ \<Rightarrow> None)"

definition ether_close :: "netif \<Rightarrow> net_err option" where
  "ether_close n = (case if_ops_data n of Ops_pcap _ \<Rightarrow> Some NET_ERR_OK | _ \<Rightarrow> None)"

definition ether_send :: "addr \<Rightarrow> 'f net \<Rightarrow> (net_err \<times> 'f net) option" where
  "ether_send nif net = Some (NET_ERR_OK, net)"

text \<open>
  \<open>is_pkt_ok\<close> takes the capacity as a signed 32-bit integer and compares it with an unsigned 64-bit
  one, so a negative size is very large.
\<close>

definition is_pkt_ok :: "u32 \<Rightarrow> net_err" where
  "is_pkt_ok total_size =
     (if (of_nat (sizeof_ether_hdr ether_hdr + ETHER_MTU) :: u64) < scast total_size then NET_ERR_SIZE
      else if (scast total_size :: u64) < of_nat (sizeof_ether_hdr ether_hdr) then NET_ERR_SIZE
      else NET_ERR_OK)"

datatype link_event = Got_arp | Got_ipv4 | Got_other

text \<open>
  \<open>link_in\<close>: the three cases of the protocol only write a log line, here the returned event. The packet
  is not consumed in any of them.
\<close>

definition ether_link_in :: "byte_order \<Rightarrow> addr \<Rightarrow> pkt_store \<Rightarrow> ((net_err \<times> link_event option) \<times> pkt_store) option" where
  "ether_link_in ord buf st = do {
     (_, st1) \<leftarrow> set_cont_header buf (of_nat (sizeof_ether_hdr ether_hdr)) st;
     pkt \<leftarrow> get_data buf st1;
     b \<leftarrow> buf_heap st1 buf;
     (if is_err (is_pkt_ok (buf_capacity b)) then Some ((is_pkt_ok (buf_capacity b), None), st1)
      else do {
        bytes \<leftarrow> mem_read (ptr_add pkt (off_protocol ether_hdr)) 2 st1;
        let protocol = net_to_host_16 ord (of_mem_bytes ord bytes);
        let ev = (if protocol = NET_PROTOCOL_ARP then Got_arp
                  else if protocol = NET_PROTOCOL_IPv4 then Got_ipv4 else Got_other);
        Some ((NET_ERR_OK, Some ev), st1)
      })
   }"

text \<open>The link layer of a class: the base class accepts everything and does nothing.\<close>

definition link_in :: "byte_order \<Rightarrow> addr \<Rightarrow> addr \<Rightarrow> 'f net \<Rightarrow> (net_err \<times> 'f net) option" where
  "link_in ord nif buf net = do {
     n \<leftarrow> net_ifs net nif;
     (case if_class n of
        Loop_net \<Rightarrow> Some (NET_ERR_OK, net)
      | Ether_net \<Rightarrow> do {
          ((err, _), net1) \<leftarrow> on_store (ether_link_in ord buf) net;
          Some (err, net1)
        })
   }"

text \<open>The first part of \<open>ether_raw_out\<close>: padding the payload to the minimum.\<close>

definition pad_payload :: "addr \<Rightarrow> pkt_store \<Rightarrow> (net_err \<times> pkt_store) option" where
  "pad_payload buf st = do {
     b \<leftarrow> buf_heap st buf;
     let sz = buf_capacity b;
     (if sz < of_nat ETHER_DATA_MIN
      then do {
        (err, st1) \<leftarrow> resize buf (of_nat ETHER_DATA_MIN) st;
        (if is_err err then Some (err, st1)
         else do {
           st2 \<leftarrow> reset_access buf st1;
           (_, st3) \<leftarrow> pkt_seek buf sz st2;
           (_, st4) \<leftarrow> pkt_fill buf 0 (of_nat ETHER_DATA_MIN - sz) st3;
           Some (NET_ERR_OK, st4)
         })
      }
      else Some (NET_ERR_OK, st))
   }"

text \<open>The whole frame: padding, the header and its three members.\<close>

definition build_frame :: "byte_order \<Rightarrow> u16 \<Rightarrow> u8 list \<Rightarrow> netif \<Rightarrow> addr \<Rightarrow> pkt_store
    \<Rightarrow> (net_err \<times> pkt_store) option" where
  "build_frame ord protocol dest n buf st = do {
     (err, st1) \<leftarrow> pad_payload buf st;
     (if is_err err then Some (err, st1)
      else do {
        (err, st2) \<leftarrow> alloc_header buf (of_nat (sizeof_ether_hdr ether_hdr)) True st1;
        (if is_err err then Some (err, st2)
         else do {
           pkt \<leftarrow> get_data buf st2;
           d \<leftarrow> bytes_get dest 0 ETHER_HWA_SIZE;
           s \<leftarrow> bytes_get (hw_addr (if_hwaddr n)) 0 ETHER_HWA_SIZE;
           st3 \<leftarrow> write_fields pkt [(off_dest ether_hdr, d), (off_src ether_hdr, s),
                    (off_protocol ether_hdr, mem_bytes ord 2 (host_to_net_16 ord protocol))] st2;
           Some (NET_ERR_OK, st3)
         })
      })
   }"

definition ether_raw_out :: "byte_order \<Rightarrow> addr \<Rightarrow> u16 \<Rightarrow> u8 list \<Rightarrow> addr \<Rightarrow> 'f net
    \<Rightarrow> (net_err \<times> 'f net) option" where
  "ether_raw_out ord nif protocol dest buf net = do {
     n \<leftarrow> net_ifs net nif;
     (err, net1) \<leftarrow> on_store (build_frame ord protocol dest n buf) net;
     (if is_err err then Some (err, net1)
      else do {
        d \<leftarrow> bytes_get dest 0 ETHER_HWA_SIZE;
        s \<leftarrow> bytes_get (hw_addr (if_hwaddr n)) 0 ETHER_HWA_SIZE;
        (if s = d then put_buf_to_in_queue nif buf net1
         else do {
           (err, net2) \<leftarrow> put_buf_to_out_queue nif buf net1;
           (if is_err err then Some (err, net2) else ether_send nif net2)
         })
      })
   }"

definition make_arp_request :: "byte_order \<Rightarrow> addr \<Rightarrow> ipaddr \<Rightarrow> 'f net \<Rightarrow> (net_err \<times> 'f net) option" where
  "make_arp_request ord nif dest net = do {
     n \<leftarrow> net_ifs net nif;
     (buf, net1) \<leftarrow> on_store (make_request ord n dest) net;
     (if buf = nullptr then Some (NET_ERR_NONE, net1)
      else do {
        (err, net2) \<leftarrow> ether_raw_out ord nif NET_PROTOCOL_ARP ether_broadcast_addr buf net1;
        (if is_err err
         then do { net3 \<leftarrow> on_store0 (buf_free buf) net2; Some (err, net3) }
         else Some (err, net2))
      })
   }"

definition ether_link_out :: "byte_order \<Rightarrow> addr \<Rightarrow> ipaddr \<Rightarrow> addr \<Rightarrow> 'f net \<Rightarrow> (net_err \<times> 'f net) option" where
  "ether_link_out ord nif ip buf net = do {
     n \<leftarrow> net_ifs net nif;
     (if ipaddr_eq ord (if_ipaddr n) ip
      then do {
        (err, net1) \<leftarrow> ether_raw_out ord nif NET_PROTOCOL_ARP ether_broadcast_addr buf net;
        (if is_err err
         then do { net2 \<leftarrow> on_store0 (buf_free buf) net1; Some (err, net2) }
         else Some (err, net1))
      }
      else make_arp_request ord nif ip net)
   }"

definition link_out :: "byte_order \<Rightarrow> addr \<Rightarrow> ipaddr \<Rightarrow> addr \<Rightarrow> 'f net \<Rightarrow> (net_err \<times> 'f net) option" where
  "link_out ord nif ip buf net = do {
     n \<leftarrow> net_ifs net nif;
     (case if_class n of
        Loop_net \<Rightarrow> Some (NET_ERR_OK, net)
      | Ether_net \<Rightarrow> ether_link_out ord nif ip buf net)
   }"

definition netif_send :: "addr \<Rightarrow> 'f net \<Rightarrow> (net_err \<times> 'f net) option" where
  "netif_send nif net = do {
     n \<leftarrow> net_ifs net nif;
     (case if_class n of Loop_net \<Rightarrow> loop_send nif net | Ether_net \<Rightarrow> ether_send nif net)
   }"

definition netif_out :: "byte_order \<Rightarrow> addr \<Rightarrow> ipaddr \<Rightarrow> addr \<Rightarrow> 'f net \<Rightarrow> (net_err \<times> 'f net) option" where
  "netif_out ord nif ip buf net = do {
     n \<leftarrow> net_ifs net nif;
     (if if_type n \<noteq> NETIF_TYPE_LOOP
      then do {
        (err, net1) \<leftarrow> link_out ord nif ip buf net;
        Some (if is_err err then err else NET_ERR_OK, net1)
      }
      else do {
        (err, net1) \<leftarrow> put_buf_to_out_queue nif buf net;
        (if is_err err then Some (err, net1) else netif_send nif net1)
      })
   }"

end
