(* ===== verification/NetFrames.thy ===== *)
theory NetFrames
  imports NetIf
begin

text \<open>
  What the Ethernet interface puts on the wire: the bytes of a frame, and of an ARP request, for any
  packet store and either byte order.
\<close>

subsection \<open>Writing into the first block\<close>

definition put_at :: "nat \<Rightarrow> 'a list \<Rightarrow> 'a list \<Rightarrow> 'a list" where
  "put_at k ys xs = take k xs @ ys @ drop (k + length ys) xs"

lemma length_put_at [simp]: "k + length ys \<le> length xs \<Longrightarrow> length (put_at k ys xs) = length xs"
  by (simp add: put_at_def)

text \<open>The room behind the data of the last block; packets that \<open>alloc\<close> built from the front have none.\<close>

definition tail_room :: "pkt_store \<Rightarrow> addr \<Rightarrow> nat" where
  "tail_room st p = (case buf_heap st p of None \<Rightarrow> 0
     | Some b \<Rightarrow> if buf_blk_list b = [] then 0 else
        (case blk_heap st (last (buf_blk_list b)) of None \<Rightarrow> 0
         | Some tb \<Rightarrow> unat (cfg_blk_size st) - (blk_data tb + unat (blk_size tb))))"

lemma mem_write_first:
  assumes inv: "pkt_inv st p rest" and b: "buf_heap st p = Some b" "buf_blk_list b = a # l"
    "blk_heap st a = Some blk" and k: "k + length ys \<le> unat (blk_size blk)"
  shows "\<exists>st' blk'. mem_write (Some (a, blk_data blk + k)) ys st = Some st' \<and> pkt_inv st' p rest
     \<and> pkt_bytes st' p = put_at k ys (pkt_bytes st p) \<and> buf_heap st' = buf_heap st
     \<and> blk_heap st' a = Some blk' \<and> blk_data blk' = blk_data blk \<and> blk_size blk' = blk_size blk
     \<and> free_blks st' = free_blks st \<and> tail_room st' p = tail_room st p \<and> pkt_frame p rest st st'"
proof -
  from inv b have ok: "blk_ok (cfg_blk_size st) blk" "blk_inv st (a # l @ rest)"
    "blks_ok (cfg_blk_size st) (blk_heap st) l" "a \<notin> set l" "a \<notin> set rest"
    and bytes: "pkt_bytes st p = blk_bytes blk @ blks_bytes (blk_heap st) l"
    and cap: "length (pkt_bytes st p) = unat (buf_capacity b)"
    by (auto simp: pkt_inv_def pkt_bytes_def blk_inv_def)
  have le: "blk_data blk + unat (blk_size blk) \<le> length (blk_payload blk)"
    using ok(1) by (simp add: blk_ok_def)
  define blk' where "blk' = blk\<lparr>blk_payload := take (blk_data blk + k) (blk_payload blk) @ ys
    @ drop (blk_data blk + k + length ys) (blk_payload blk)\<rparr>"
  have put: "bytes_put (blk_payload blk) (blk_data blk + k) ys = Some (blk_payload blk')"
    using k le by (simp add: bytes_put_def blk'_def)
  have ok': "blk_ok (cfg_blk_size st) blk'"
    using ok(1) length_bytes_put [OF put] by (simp add: blk_ok_def blk'_def)
  have "blk_bytes blk' = put_at k ys (blk_bytes blk)"
    using take_drop_put [OF le k] by (simp add: blk_bytes_def blk'_def put_at_def)
  then have bytes': "blk_bytes blk' @ blks_bytes (blk_heap st) l = put_at k ys (pkt_bytes st p)"
    using k length_blk_bytes [OF ok(1)] by (simp add: put_at_def bytes)
  define st1 where "st1 = put_blk a blk' st"
  have "mem_write (Some (a, blk_data blk + k)) ys st = Some st1"
    using b(3) put by (simp add: mem_write_def st1_def blk'_def)
  moreover have "blk_inv st1 ((a # l) @ rest)"
    unfolding st1_def using ok ok' by (intro blk_inv_put_blk) (simp_all add: blk_ok_def)
  then have "pkt_inv st1 p rest"
    unfolding pkt_inv_def using b(1,2) ok ok' bytes' cap k length_blk_bytes [OF ok(1)] bytes
    by (intro exI [of _ b]) (simp add: st1_def put_at_def)
  moreover have "pkt_bytes st1 p = put_at k ys (pkt_bytes st p)"
    using b(1,2) ok(4) bytes' by (simp add: pkt_bytes_def st1_def)
  moreover have "pkt_frame p rest st st1" using ok(5) b(1) by (auto simp: pkt_frame_def st1_def)
  moreover have "tail_room st1 p = tail_room st p"
    using b by (simp add: tail_room_def st1_def blk'_def split: option.split)
  ultimately show ?thesis using b(3)
    by (intro exI [of _ st1] exI [of _ blk']) (simp add: st1_def blk'_def)
qed

lemma write_fields_run:
  assumes "pkt_inv st p rest" "buf_heap st p = Some b" "buf_blk_list b = a # l"
    "blk_heap st a = Some blk" "\<forall>(k, ys) \<in> set fs. k + length ys \<le> unat (blk_size blk)"
  shows "\<exists>st'. write_fields (Some (a, blk_data blk)) fs st = Some st' \<and> pkt_inv st' p rest
     \<and> pkt_bytes st' p = fold (\<lambda>(k, ys). put_at k ys) fs (pkt_bytes st p)
     \<and> buf_heap st' = buf_heap st \<and> free_blks st' = free_blks st \<and> tail_room st' p = tail_room st p
     \<and> pkt_frame p rest st st'"
  using assms
proof (induction fs arbitrary: st blk)
  case (Cons f fs)
  obtain k ys where f: "f = (k, ys)" by (cases f)
  with Cons.prems(5) have "k + length ys \<le> unat (blk_size blk)" by auto
  from mem_write_first [OF Cons.prems(1-4) this] obtain st1 blk1 where
    st1: "mem_write (Some (a, blk_data blk + k)) ys st = Some st1" "pkt_inv st1 p rest"
    "pkt_bytes st1 p = put_at k ys (pkt_bytes st p)" "buf_heap st1 = buf_heap st"
    "blk_heap st1 a = Some blk1" "blk_data blk1 = blk_data blk" "blk_size blk1 = blk_size blk"
    "free_blks st1 = free_blks st" "tail_room st1 p = tail_room st p" "pkt_frame p rest st st1" by blast
  have "buf_heap st1 p = Some b" "\<forall>(k, ys) \<in> set fs. k + length ys \<le> unat (blk_size blk1)"
    using Cons.prems(2,5) st1(4,7) by simp_all
  from Cons.IH [OF st1(2) this(1) Cons.prems(3) st1(5) this(2)] obtain st2 where
    "write_fields (Some (a, blk_data blk1)) fs st1 = Some st2" "pkt_inv st2 p rest"
    "pkt_bytes st2 p = fold (\<lambda>(k, ys). put_at k ys) fs (pkt_bytes st1 p)"
    "buf_heap st2 = buf_heap st1" "free_blks st2 = free_blks st1" "tail_room st2 p = tail_room st1 p"
    "pkt_frame p rest st1 st2" by blast
  then show ?case using st1 f pkt_frame_trans [OF st1(10)] by (simp add: ptr_add_def)
qed (simp add: pkt_frame_refl)

text \<open>The members of the header, written where \<open>get_data\<close> points.\<close>

lemma get_data_write_fields:
  assumes inv: "pkt_inv st p rest" and ne: "pkt_bytes st p \<noteq> []"
    and fits: "\<forall>(k, ys) \<in> set fs. k + length ys \<le> cont_size st p"
  shows "\<exists>ptr st'. get_data p st = Some ptr \<and> write_fields ptr fs st = Some st' \<and> pkt_inv st' p rest
     \<and> pkt_bytes st' p = fold (\<lambda>(k, ys). put_at k ys) fs (pkt_bytes st p)
     \<and> buf_heap st' = buf_heap st \<and> free_blks st' = free_blks st \<and> tail_room st' p = tail_room st p
     \<and> pkt_frame p rest st st'"
proof -
  obtain b a l blk where b: "buf_heap st p = Some b" "buf_blk_list b = a # l"
    "blk_heap st a = Some blk" by (rule pkt_inv_cons [OF inv ne])
  then have "get_data p st = Some (Some (a, blk_data blk))" "cont_size st p = unat (blk_size blk)"
    by (simp_all add: get_data_def cont_size_def)
  with write_fields_run [OF inv b] fits show ?thesis by simp
qed

lemma acc_frame_pkt_frame:
  "acc_frame p rest st st' \<Longrightarrow> pkt_inv st' p rest \<Longrightarrow> pkt_frame p rest st st'"
  by (auto simp: acc_frame_def pkt_frame_def pkt_inv_def)

lemma acc_frame_free: "acc_frame p rest st st' \<Longrightarrow> free_blks st' = free_blks st"
  by (simp add: acc_frame_def free_blks_def)

subsection \<open>Padding\<close>

lemma pad_payload_run:
  assumes inv: "pkt_inv st p rest" and ne: "pkt_bytes st p \<noteq> []"
    and room: "length (pkt_bytes st p) < 46 \<Longrightarrow> tail_room st p = 0"
    and cfg: "0 < unat (cfg_blk_size st)"
    and free: "blks_needed st (of_nat (46 - length (pkt_bytes st p))) \<le> length (free_blks st)"
  shows "\<exists>st'. pad_payload p st = Some (NET_ERR_OK, st') \<and> pkt_inv st' p rest
     \<and> pkt_bytes st' p = pkt_bytes st p @ replicate (46 - length (pkt_bytes st p)) 0
     \<and> free_blks st' = drop (blks_needed st (of_nat (46 - length (pkt_bytes st p)))) (free_blks st)
     \<and> pkt_frame p rest st st'"
proof -
  let ?n = "length (pkt_bytes st p)"
  obtain b a l where b: "buf_heap st p = Some b" "buf_blk_list b = a # l"
    and cap: "?n = unat (buf_capacity b)" by (rule pkt_inv_cons [OF inv ne])
  show ?thesis
  proof (cases "?n < 46")
    case False
    then have "\<not> buf_capacity b < 46" using cap by (simp add: word_less_nat_alt)
    then have "pad_payload p st = Some (NET_ERR_OK, st)"
      using b(1) by (simp add: pad_payload_def ETHER_DATA_MIN_def)
    then show ?thesis using inv False b(1)
      by (intro exI [of _ st]) (simp add: pkt_frame_def blks_needed_def)
  next
    case True
    then have lt: "buf_capacity b < 46" using cap by (simp add: word_less_nat_alt)
    have sub: "unat (46 - buf_capacity b) = 46 - ?n"
      using lt cap by (simp add: unat_sub_le word_less_nat_alt word_le_nat_alt)
    obtain m t where t: "buf_blk_list b = m @ [t]" using b(2) by (metis rev_exhaust list.distinct(1))
    from inv b(1) t obtain tb where tb: "blk_heap st t = Some tb" by (auto simp: pkt_inv_def)
    have "unat (cfg_blk_size st) - (blk_data tb + unat (blk_size tb)) = 0"
      using room [OF True] b(1) t tb by (simp add: tail_room_def)
    with resize_grow_run [OF inv b(1) t tb, of 46] True cfg free obtain st1 new where
      st1: "resize p 46 st = Some (NET_ERR_OK, st1)" "pkt_inv st1 p rest"
      "pkt_bytes st1 p = pkt_bytes st p @ new" "length (pkt_bytes st1 p) = 46" "pkt_frame p rest st st1"
      "free_blks st1 = drop (blks_needed st (of_nat (46 - ?n))) (free_blks st)" by auto
    from reset_access_at_start [OF st1(2)] obtain st2 where
      st2: "reset_access p st1 = Some st2" "acc_inv st2 p rest 0" "pkt_bytes st2 p = pkt_bytes st1 p"
      "acc_frame p rest st1 st2" by blast
    from pkt_seek_run [OF st2(2), of "buf_capacity b"] st1(4) st2(3) cap True obtain st3 where
      st3: "pkt_seek p (buf_capacity b) st2 = Some (NET_ERR_OK, st3)" "acc_inv st3 p rest ?n"
      "pkt_bytes st3 p = pkt_bytes st1 p" "acc_frame p rest st2 st3" by auto
    have nz: "46 - buf_capacity b \<noteq> 0" using lt by auto
    from pkt_fill_run [OF st3(2), of 0 "46 - buf_capacity b"] nz st1(4) st3(3) True sub obtain st4 where
      st4: "pkt_fill p 0 (46 - buf_capacity b) st3 = Some (NET_ERR_OK, st4)" "acc_inv st4 p rest 46"
      "pkt_bytes st4 p = take ?n (pkt_bytes st1 p) @ replicate (46 - ?n) 0 @ drop 46 (pkt_bytes st1 p)"
      "acc_frame p rest st3 st4" by auto
    have "pad_payload p st = Some (NET_ERR_OK, st4)"
      using b(1) lt st1(1) st2(1) st3(1) st4(1) by (simp add: pad_payload_def ETHER_DATA_MIN_def Let_def)
    moreover have inv4: "pkt_inv st4 p rest" using st4(2) by (simp add: acc_inv_def)
    moreover have acc: "acc_frame p rest st1 st4"
      using st2(4) st3(4) st4(4) acc_frame_trans by blast
    moreover have "pkt_bytes st4 p = pkt_bytes st p @ replicate (46 - ?n) 0"
      using st4(3) st1(3,4) by simp
    ultimately show ?thesis
      using st1(6) acc_frame_free [OF acc] pkt_frame_trans [OF st1(5) acc_frame_pkt_frame [OF acc inv4]]
      by (intro exI [of _ st4]) simp
  qed
qed

subsection \<open>Frames\<close>

text \<open>A 16-bit integer in wire order.\<close>

definition be16 :: "u16 \<Rightarrow> u8 list" where
  "be16 w = [ucast (drop_bit 8 w), ucast w]"

lemma mem_bytes_be16: "mem_bytes ord 2 (host_to_net_16 ord w) = be16 w"
  by (simp add: mem_bytes_net be16_def le_bytes_def upt_rec)

lemma length_be16 [simp]: "length (be16 w) = 2"
  by (simp add: be16_def)

lemma put_at_append: "k = length xs \<Longrightarrow> put_at k ys (xs @ zs) = xs @ ys @ drop (length ys) zs"
  by (simp add: put_at_def)

lemma header_fields:
  assumes "length d = 6" "length s = 6" "length pr = 2" "length new = 14"
  shows "put_at 12 pr (put_at 6 s (put_at 0 d (new @ B))) = d @ s @ pr @ B"
proof -
  have "put_at 0 d (new @ B) = d @ drop 6 new @ B"
    using put_at_append [of 0 "[]" d "new @ B"] assms by simp
  moreover have "put_at 6 s (d @ drop 6 new @ B) = (d @ s) @ drop 12 new @ B"
    using put_at_append [of 6 d s "drop 6 new @ B"] assms by simp
  moreover have "put_at 12 pr ((d @ s) @ drop 12 new @ B) = (d @ s) @ pr @ B"
    using put_at_append [of 12 "d @ s" pr "drop 12 new @ B"] assms by simp
  ultimately show ?thesis by simp
qed

lemma build_frame_run:
  assumes inv: "pkt_inv st p rest" and ne: "pkt_bytes st p \<noteq> []"
    and room: "length (pkt_bytes st p) < 46 \<Longrightarrow> tail_room st p = 0"
    and cfg: "14 \<le> unat (cfg_blk_size st)"
    and free: "blks_needed st (of_nat (46 - length (pkt_bytes st p))) < length (free_blks st)"
    and len: "length (pkt_bytes st p) + 14 < 2 ^ 32"
    and hw: "6 \<le> length dest" "6 \<le> length (hw_addr (if_hwaddr n))"
  shows "\<exists>st'. build_frame ord protocol dest n p st = Some (NET_ERR_OK, st') \<and> pkt_inv st' p rest
     \<and> pkt_bytes st' p = take 6 dest @ take 6 (hw_addr (if_hwaddr n)) @ be16 protocol
         @ pkt_bytes st p @ replicate (46 - length (pkt_bytes st p)) 0
     \<and> pkt_frame p rest st st'"
proof -
  have "0 < unat (cfg_blk_size st)" using cfg by simp
  from pad_payload_run [OF inv ne room this less_imp_le [OF free]] obtain st1 where
    st1: "pad_payload p st = Some (NET_ERR_OK, st1)" "pkt_inv st1 p rest"
    "pkt_bytes st1 p = pkt_bytes st p @ replicate (46 - length (pkt_bytes st p)) 0"
    "free_blks st1 = drop (blks_needed st (of_nat (46 - length (pkt_bytes st p)))) (free_blks st)"
    "pkt_frame p rest st st1" by blast
  have cfg1: "cfg_blk_size st1 = cfg_blk_size st" using st1(5) by (simp add: pkt_frame_def)
  have "pkt_bytes st1 p \<noteq> []" "0 < unat (cfg_blk_size st1)" "(14 :: u32) \<le> cfg_blk_size st1"
    "length (pkt_bytes st1 p) + unat (14 :: u32) < 2 ^ 32" "free_blks st1 \<noteq> []"
    using ne cfg len free by (simp_all add: st1(3,4) cfg1 word_le_nat_alt)
  with alloc_header_run [OF st1(2), of 14 True] obtain st2 new where
    st2: "alloc_header p 14 True st1 = Some (NET_ERR_OK, st2)" "pkt_inv st2 p rest" "length new = 14"
    "pkt_bytes st2 p = new @ pkt_bytes st1 p" "pkt_frame p rest st1 st2" "14 \<le> cont_size st2 p" by auto
  let ?s = "take 6 (hw_addr (if_hwaddr n))"
  let ?fs = "[(0, take 6 dest), (6, ?s), (12, be16 protocol)]"
  have "pkt_bytes st2 p \<noteq> []" "\<forall>(k, ys) \<in> set ?fs. k + length ys \<le> cont_size st2 p"
    using st2(3,4,6) hw by auto
  from get_data_write_fields [OF st2(2) this] obtain ptr st3 where
    st3: "get_data p st2 = Some ptr" "write_fields ptr ?fs st2 = Some st3" "pkt_inv st3 p rest"
    "pkt_bytes st3 p = fold (\<lambda>(k, ys). put_at k ys) ?fs (pkt_bytes st2 p)" "pkt_frame p rest st2 st3"
    by blast
  have "build_frame ord protocol dest n p st = Some (NET_ERR_OK, st3)"
    using st1(1) st2(1) st3(1,2) hw
    by (simp add: build_frame_def layout_defs bytes_get_def mem_bytes_be16 del: write_fields.simps)
  moreover have "pkt_bytes st3 p = take 6 dest @ ?s @ be16 protocol @ pkt_bytes st1 p"
    using header_fields [of "take 6 dest" ?s "be16 protocol" new "pkt_bytes st1 p"] hw st2(3)
    by (simp add: st3(4) st2(4))
  moreover have "pkt_frame p rest st st3"
    using st1(5) st2(5) st3(5) pkt_frame_trans by blast
  ultimately show ?thesis using st3(3) st1(3) by (intro exI [of _ st3]) simp
qed

subsection \<open>ARP requests\<close>

definition arp_request_bytes :: "netif \<Rightarrow> ipaddr \<Rightarrow> u8 list" where
  "arp_request_bytes n dest =
     [0, 1, 8, 0, 6, 4, 0, 1] @ take 6 (hw_addr (if_hwaddr n)) @ take 4 (a_addr (if_ipaddr n))
     @ replicate 6 0 @ take 4 (a_addr dest)"

lemma arp_fields:
  assumes "length B = 28" "length sh = 6" "length si = 4" "length ti = 4"
  shows "fold (\<lambda>(k, ys). put_at k ys)
      [(0, [0, 1]), (2, [8, 0]), (4, [6]), (5, [4]), (6, [0, 1]), (8, sh), (14, si), (24, ti),
       (18, replicate 6 (0::u8))] B
    = [0, 1, 8, 0, 6, 4, 0, 1] @ sh @ si @ replicate 6 0 @ ti"
proof -
  have s0: "put_at 0 [0, 1] B = [0, 1] @ drop 2 B" using put_at_append [of 0 "[]" "[0, 1]" B] by (simp add: eval_nat_numeral)
  have s1: "put_at 2 [8, 0] ([0, 1] @ drop 2 B) = [0, 1, 8, 0] @ drop 4 B"
    by (subst put_at_append) (simp_all add: eval_nat_numeral)
  have s2: "put_at 4 [6] ([0, 1, 8, 0] @ drop 4 B) = [0, 1, 8, 0, 6] @ drop 5 B"
    by (subst put_at_append) (simp_all add: eval_nat_numeral)
  have s3: "put_at 5 [4] ([0, 1, 8, 0, 6] @ drop 5 B) = [0, 1, 8, 0, 6, 4] @ drop 6 B"
    by (subst put_at_append) (simp_all add: eval_nat_numeral)
  have s4: "put_at 6 [0, 1] ([0, 1, 8, 0, 6, 4] @ drop 6 B) = [0, 1, 8, 0, 6, 4, 0, 1] @ drop 8 B"
    by (subst put_at_append) (simp_all add: eval_nat_numeral)
  let ?h = "[0, 1, 8, 0, 6, 4, 0, 1] :: u8 list"
  have s5: "put_at 8 sh (?h @ drop 8 B) = (?h @ sh) @ drop 14 B"
    using put_at_append [of 8 ?h sh "drop 8 B"] assms by simp
  have s6: "put_at 14 si ((?h @ sh) @ drop 14 B) = (?h @ sh @ si) @ drop 18 B"
    using put_at_append [of 14 "?h @ sh" si "drop 14 B"] assms by simp
  have "put_at 24 ti ((?h @ sh @ si @ take 6 (drop 18 B)) @ drop 24 B)
      = (?h @ sh @ si @ take 6 (drop 18 B)) @ ti @ drop 28 B"
    using assms by (subst put_at_append) simp_all
  moreover have "drop 18 B = take 6 (drop 18 B) @ drop 24 B"
    using append_take_drop_id [of 6 "drop 18 B"] by simp
  ultimately have s7: "put_at 24 ti ((?h @ sh @ si) @ drop 18 B) = (?h @ sh @ si) @ take 6 (drop 18 B) @ ti"
    using assms by (metis append.assoc append_Nil2 drop_all order_refl)
  have s8: "put_at 18 (replicate 6 0) ((?h @ sh @ si) @ take 6 (drop 18 B) @ ti)
      = (?h @ sh @ si) @ replicate 6 0 @ ti"
    using put_at_append [of 18 "?h @ sh @ si" "replicate 6 0" "take 6 (drop 18 B) @ ti"] assms by simp
  show ?thesis by (simp add: s0 s1 s2 s3 s4 s5 s6 s7 s8 del: append.simps append_assoc)
qed

text \<open>A fresh packet of at most one block, filled from the end of the block.\<close>

lemma buf_alloc_one:
  assumes inv: "pkt_inv st p rest" and b: "buf_heap st p = Some b" "buf_blk_list b = []"
    and sz: "0 < unat sz" "unat sz \<le> unat (cfg_blk_size st)" and free: "free_blks st = a # fs"
  shows "\<exists>st'. buf_alloc p sz True False st = Some (True, st') \<and> pkt_inv st' p rest
     \<and> length (pkt_bytes st' p) = unat sz \<and> tail_room st' p = 0 \<and> cont_size st' p = unat sz
     \<and> free_blks st' = fs \<and> pkt_frame p rest st st' \<and> reset_access p st' = Some st'"
proof -
  have bytes: "pkt_bytes st p = []" using b by (simp add: pkt_bytes_def)
  have cs: "chunks (unat (cfg_blk_size st)) (unat sz) = [unat sz]" using sz by (rule chunks_small)
  have need: "blks_needed st sz = 1" by (simp add: blks_needed_def cs)
  have "blk_inv st ([] @ rest)" using inv b by (auto simp: pkt_inv_def)
  from alloc_blks_ok [OF this _ cs, of True] sz free obtain st1 where
    st1: "alloc_blks sz True [] st = Some (True, [a], st1)" "fresh_blk st1 True a (unat sz)"
    "cfg_blk_size st1 = cfg_blk_size st" by (auto simp: blk_frame_def)
  from buf_alloc_ok [OF inv, of sz True False] sz free need bytes unat_u32_less [of sz] obtain st' new where
    st': "buf_alloc p sz True False st = Some (True, st')" "pkt_inv st' p rest" "length new = unat sz"
    "pkt_bytes st' p = new" "pkt_frame p rest st st'" "reset_access p st' = Some st'" "free_blks st' = fs"
    by auto
  from st1(2) obtain blk where blk: "blk_heap st1 a = Some blk" "unat (blk_size blk) = unat sz"
    "blk_data blk = unat (cfg_blk_size st1) - unat sz" by (auto simp: fresh_blk_def)
  obtain b' where b': "buf_heap st' p = Some b'" "buf_blk_list b' = [a]" "blk_heap st' = blk_heap st1"
    using st'(1) b st1(1) blk(1)
    by (auto simp: buf_alloc_def Let_def join_blks access_start_def)
  have "tail_room st' p = 0" "cont_size st' p = unat sz"
    using b' blk sz(2) st'(5) st1(3) by (simp_all add: tail_room_def cont_size_def pkt_frame_def)
  then show ?thesis using st' by blast
qed

text \<open>A run of \<open>make_request\<close>, with the stores after taking the packet and after allocating its bytes.\<close>

lemma make_request_steps:
  assumes bufs: "bufs_inv st live" and pool: "free_bufs st = p # ps" and own: "blk_inv st rest"
    and cfg: "28 \<le> unat (cfg_blk_size st)" and free: "free_blks st = a # fs"
    and hw: "6 \<le> length (hw_addr (if_hwaddr n))" "4 \<le> length (a_addr (if_ipaddr n))" "4 \<le> length (a_addr dest)"
  shows "\<exists>st1 st2 st'. get_pktbuffer st = Some (p, st1) \<and> buf_alloc p 28 True False st1 = Some (True, st2)
     \<and> buf_heap st' = buf_heap st2 \<and> free_blks st' = free_blks st2 \<and> pkt_frame p rest st1 st'
     \<and> make_request ord n dest st = Some (p, st') \<and> pkt_inv st' p rest \<and> p \<noteq> nullptr
     \<and> pkt_bytes st' p = arp_request_bytes n dest \<and> tail_room st' p = 0 \<and> free_blks st' = fs
     \<and> cfg_blk_size st' = cfg_blk_size st"
proof -
  obtain st1 b where st1: "get_pktbuffer st = Some (p, st1)" "p \<noteq> nullptr"
    "buf_heap st p = Some b" "buf_blk_list b = []" "buf_heap st1 = (buf_heap st)(p \<mapsto> buf_reset b)"
    "blk_heap st1 = blk_heap st" "blk_pool st1 = blk_pool st" "cfg_blk_size st1 = cfg_blk_size st"
    by (rule get_pktbuffer_cons [OF bufs pool])
  have inv1: "pkt_inv st1 p rest"
    using st1(3-5) own blk_inv_cong [OF st1(6-8)] by (simp add: pkt_inv_def buf_reset_def)
  have free1: "free_blks st1 = a # fs" using st1(7) free by (simp add: free_blks_def)
  have "buf_heap st1 p = Some (buf_reset b)" "buf_blk_list (buf_reset b) = []"
    using st1(4,5) by (simp_all add: buf_reset_def)
  from buf_alloc_one [OF inv1 this, of 28 a fs] cfg st1(8) free1 obtain st2 where
    st2: "buf_alloc p 28 True False st1 = Some (True, st2)" "pkt_inv st2 p rest"
    "length (pkt_bytes st2 p) = 28" "tail_room st2 p = 0" "cont_size st2 p = 28" "free_blks st2 = fs"
    "pkt_frame p rest st1 st2" by auto
  then have ne: "pkt_bytes st2 p \<noteq> []" by auto
  have cont: "set_cont_header p 28 st2 = Some (NET_ERR_OK, st2)"
  proof -
    obtain b2 c l blk where "buf_heap st2 p = Some b2" "buf_blk_list b2 = c # l"
      "blk_heap st2 c = Some blk" "length (pkt_bytes st2 p) = unat (buf_capacity b2)"
      by (rule pkt_inv_cons [OF st2(2) ne])
    then show ?thesis using st2(3,5,7) cfg st1(8)
      by (simp add: set_cont_header_def cont_size_def pkt_frame_def word_less_nat_alt word_le_nat_alt)
  qed
  let ?sh = "take 6 (hw_addr (if_hwaddr n))" and ?si = "take 4 (a_addr (if_ipaddr n))"
    and ?ti = "take 4 (a_addr dest)"
  let ?fs = "[(0, be16 1), (2, be16 0x800), (4, [6]), (5, [4]), (6, be16 1), (8, ?sh), (14, ?si), (24, ?ti),
    (18, replicate 6 0)]"
  have fields: "arp_request_fields ord n dest = Some ?fs"
    using hw by (simp add: arp_request_fields_def layout_defs bytes_get_def mem_bytes_be16
        ARP_HW_ETHER_def NET_PROTOCOL_IPv4_def ARP_REQUEST_def)
  have "\<forall>(k, ys) \<in> set ?fs. k + length ys \<le> cont_size st2 p" using st2(5) hw by auto
  from get_data_write_fields [OF st2(2) ne this] obtain ptr st3 where
    st3: "get_data p st2 = Some ptr" "write_fields ptr ?fs st2 = Some st3" "pkt_inv st3 p rest"
    "pkt_bytes st3 p = fold (\<lambda>(k, ys). put_at k ys) ?fs (pkt_bytes st2 p)" "buf_heap st3 = buf_heap st2"
    "free_blks st3 = free_blks st2" "tail_room st3 p = tail_room st2 p" "pkt_frame p rest st2 st3" by blast
  have run: "make_request ord n dest st = Some (p, st3)"
    using st1(1,2) st2(1) cont st3(1,2) fields
    by (simp add: make_request_def layout_defs del: write_fields.simps)
  have be: "be16 1 = [0, 1]" "be16 0x800 = [8, 0]" by (simp_all add: be16_def)
  have "pkt_bytes st3 p = arp_request_bytes n dest"
    unfolding st3(4) be arp_request_bytes_def using hw st2(3) by (intro arp_fields) simp_all
  moreover have "pkt_frame p rest st1 st3" using st2(7) st3(8) by (rule pkt_frame_trans)
  ultimately show ?thesis using run st3 st2 st1(1,2,8)
    by (intro exI [of _ st1] exI [of _ st2] exI [of _ st3]) (simp add: pkt_frame_def)
qed

lemma make_request_run:
  assumes "bufs_inv st live" "free_bufs st = p # ps" "blk_inv st rest"
    and "28 \<le> unat (cfg_blk_size st)" "free_blks st = a # fs"
    and "6 \<le> length (hw_addr (if_hwaddr n))" "4 \<le> length (a_addr (if_ipaddr n))" "4 \<le> length (a_addr dest)"
  shows "\<exists>st'. make_request ord n dest st = Some (p, st') \<and> pkt_inv st' p rest \<and> p \<noteq> nullptr
     \<and> pkt_bytes st' p = arp_request_bytes n dest \<and> tail_room st' p = 0 \<and> free_blks st' = fs
     \<and> cfg_blk_size st' = cfg_blk_size st"
  using make_request_steps [OF assms] by blast

subsection \<open>Properties\<close>

text \<open>
  C18. The frame that \<open>EtherNet::ether_raw_out\<close> builds: the destination, the interface's hardware
  address, the protocol in wire order, the payload, and zeros up to the minimum payload of 46 bytes,
  whatever blocks the payload lies in. A payload that has to be padded must have no room behind its
  last block, as packets have that were allocated from the front.
\<close>

theorem ether_frame_bytes:
  assumes "pkt_inv st p rest" "pkt_bytes st p \<noteq> []"
    and "length (pkt_bytes st p) < 46 \<Longrightarrow> tail_room st p = 0"
    and "14 \<le> unat (cfg_blk_size st)"
    and "blks_needed st (of_nat (46 - length (pkt_bytes st p))) < length (free_blks st)"
    and "length (pkt_bytes st p) + 14 < 2 ^ 32"
    and "6 \<le> length dest" "6 \<le> length (hw_addr (if_hwaddr n))"
  shows "\<exists>st'. build_frame ord protocol dest n p st = Some (NET_ERR_OK, st') \<and> pkt_inv st' p rest
     \<and> pkt_bytes st' p = take 6 dest @ take 6 (hw_addr (if_hwaddr n)) @ be16 protocol
         @ pkt_bytes st p @ replicate (46 - length (pkt_bytes st p)) 0
     \<and> pkt_frame p rest st st'"
  using build_frame_run [OF assms] .

text \<open>An interface for the examples, with one free block per need and an empty queue.\<close>

definition demo_netif :: "netif_class \<Rightarrow> netif_type \<Rightarrow> netif" where
  "demo_netif cls ty = \<lparr>if_class = cls, if_ops_data = Ops_pcap 1, if_name = replicate 10 (CHR 0x00),
     if_hwaddr = \<lparr>hw_addr = [2, 4, 6, 8, 10, 12] @ replicate 26 0, hw_len = 6\<rparr>,
     if_ipaddr = \<lparr>ip_type = IPADDR_V4, a_addr = [192, 168, 1, 20]\<rparr>,
     if_netmask = ipaddr_new, if_gateway = ipaddr_new, if_type = ty, if_mtu = 1500,
     if_state = NETIF_ACTIVE, if_in_q = mb_queue (demo_pool 8 []), if_out_q = mb_queue (demo_pool 8 [])\<rparr>"

text \<open>A store with 64-byte blocks and the free packet 328.\<close>

definition demo_blank :: pkt_store where
  "demo_blank = \<lparr>cfg_blk_size = 64,
     blk_heap = (\<lambda>a. if a \<in> {100, 124, 148} then Some \<lparr>blk_size = 0, blk_data = 0, blk_payload = replicate 64 0\<rparr>
                     else None),
     blk_pool = demo_pool 24 [100, 124, 148], buf_heap = [328 \<mapsto> pkt_buffer_new], buf_pool = demo_pool 64 [328]\<rparr>"

lemma demo_blank:
  "blk_inv demo_blank []" "bufs_inv demo_blank []" "free_blks demo_blank = [100, 124, 148]"
  "free_bufs demo_blank = [328]" "cfg_blk_size demo_blank = 64"
proof -
  show f: "free_blks demo_blank = [100, 124, 148]" "free_bufs demo_blank = [328]"
    by (simp_all add: free_blks_def free_bufs_def demo_blank_def demo_pool)
  show "blk_inv demo_blank []" unfolding blk_inv_def f by (simp add: demo_blank_def demo_pool)
  show "bufs_inv demo_blank []" unfolding bufs_inv_def f
    by (simp add: demo_blank_def demo_pool pkt_buffer_new_def)
qed (simp add: demo_blank_def)

theorem ether_frame_bytes_witness:
  "\<exists>st st'. make_request Little_endian (demo_netif Ether_net NETIF_TYPE_ETHER) ipaddr_new demo_blank = Some (328, st)
     \<and> build_frame Little_endian 0x806 ether_broadcast_addr (demo_netif Ether_net NETIF_TYPE_ETHER) 328 st
         = Some (NET_ERR_OK, st')
     \<and> length (pkt_bytes st' 328) = 60 \<and> take 14 (pkt_bytes st' 328)
         = [255, 255, 255, 255, 255, 255, 2, 4, 6, 8, 10, 12, 8, 6]"
proof -
  let ?n = "demo_netif Ether_net NETIF_TYPE_ETHER"
  from make_request_run [OF demo_blank(2,4,1) _ demo_blank(3), of ?n ipaddr_new Little_endian] demo_blank(5)
  obtain st where st: "make_request Little_endian ?n ipaddr_new demo_blank = Some (328, st)"
    "pkt_inv st 328 []" "pkt_bytes st 328 = arp_request_bytes ?n ipaddr_new" "tail_room st 328 = 0"
    "free_blks st = [124, 148]" "cfg_blk_size st = 64"
    by (auto simp: demo_netif_def ipaddr_new_def IPV4_ADDR_SIZE_def)
  have len: "length (pkt_bytes st 328) = 28" and ne: "pkt_bytes st 328 \<noteq> []"
    unfolding st(3) by (simp_all add: arp_request_bytes_def demo_netif_def ipaddr_new_def IPV4_ADDR_SIZE_def)
  have "blks_needed st (of_nat (46 - length (pkt_bytes st 328))) < length (free_blks st)"
    by (simp add: blks_needed_def st(5,6) len length_chunks)
  with ether_frame_bytes [OF st(2) ne st(4), where dest = ether_broadcast_addr and n = ?n
      and ord = Little_endian and protocol = "0x806"] st(6) len
  show ?thesis using st(1)
    by (auto simp: ether_broadcast_addr_def demo_netif_def be16_def)
qed

lemma broadcast_replicate: "ether_broadcast_addr = replicate 6 0xFF"
  by (simp add: ether_broadcast_addr_def eval_nat_numeral)

text \<open>The whole of \<open>make_arp_request\<close>, and the frame it queues.\<close>

definition arp_request_frame :: "netif \<Rightarrow> ipaddr \<Rightarrow> u8 list" where
  "arp_request_frame n dest = replicate 6 0xFF @ take 6 (hw_addr (if_hwaddr n)) @ [8, 6]
     @ [0, 1, 8, 0, 6, 4, 0, 1] @ take 6 (hw_addr (if_hwaddr n)) @ take 4 (a_addr (if_ipaddr n))
     @ replicate 6 0 @ take 4 (a_addr dest) @ replicate 18 0"

lemma make_arp_request_run:
  assumes "net_ifs net nif = Some n" "rq_inv (if_out_q n)" "length (rq_list (if_out_q n)) < rq_room (if_out_q n)"
    and "bufs_inv (net_store net) live" "free_bufs (net_store net) = p # ps" "blk_inv (net_store net) rest"
    and "46 \<le> unat (cfg_blk_size (net_store net))" "3 \<le> length (free_blks (net_store net))"
    and "6 \<le> length (hw_addr (if_hwaddr n))" "take 6 (hw_addr (if_hwaddr n)) \<noteq> ether_broadcast_addr"
    and "4 \<le> length (a_addr (if_ipaddr n))" "4 \<le> length (a_addr dest)"
  shows "\<exists>sta stb st1 st2 q. get_pktbuffer (net_store net) = Some (p, sta)
     \<and> buf_alloc p 28 True False sta = Some (True, stb)
     \<and> buf_heap st1 = buf_heap stb \<and> free_blks st1 = free_blks stb \<and> pkt_inv st1 p rest \<and> pkt_frame p rest sta st1
     \<and> build_frame ord NET_PROTOCOL_ARP ether_broadcast_addr n p st1 = Some (NET_ERR_OK, st2)
     \<and> pkt_inv st2 p rest \<and> pkt_frame p rest st1 st2 \<and> pkt_bytes st2 p = arp_request_frame n dest
     \<and> rq_inv q \<and> rq_list q = rq_list (if_out_q n) @ [p] \<and> rq_room q = rq_room (if_out_q n)
     \<and> make_arp_request ord nif dest net
       = Some (NET_ERR_OK, net\<lparr>net_store := st2, net_ifs := (net_ifs net)(nif \<mapsto> n\<lparr>if_out_q := q\<rparr>)\<rparr>)"
proof -
  let ?st = "net_store net"
  obtain f fs where f: "free_blks ?st = f # fs" using assms(8) by (cases "free_blks ?st") auto
  have "28 \<le> unat (cfg_blk_size ?st)" using assms(7) by simp
  from make_request_steps [OF assms(4-6) this f assms(9,11,12), of ord] obtain sta stb st1 where
    sta: "get_pktbuffer ?st = Some (p, sta)" "buf_alloc p 28 True False sta = Some (True, stb)"
      "buf_heap st1 = buf_heap stb" "free_blks st1 = free_blks stb" "pkt_frame p rest sta st1" and
    st1: "make_request ord n dest ?st = Some (p, st1)" "pkt_inv st1 p rest" "p \<noteq> nullptr"
    "pkt_bytes st1 p = arp_request_bytes n dest" "tail_room st1 p = 0" "free_blks st1 = fs"
    "cfg_blk_size st1 = cfg_blk_size ?st" by blast
  have len: "length (pkt_bytes st1 p) = 28" "pkt_bytes st1 p \<noteq> []"
    using assms(9,11,12) by (simp_all add: st1(4) arp_request_bytes_def)
  have "blks_needed st1 (of_nat (46 - length (pkt_bytes st1 p))) = 1"
    using assms(7) by (simp add: blks_needed_def st1(7) len chunks_small)
  then have "blks_needed st1 (of_nat (46 - length (pkt_bytes st1 p))) < length (free_blks st1)"
    using assms(8) f st1(6) by simp
  moreover have "14 \<le> unat (cfg_blk_size st1)" "length (pkt_bytes st1 p) + 14 < 2 ^ 32"
    "6 \<le> length ether_broadcast_addr"
    using assms(7) len by (simp_all add: st1(7) ether_broadcast_addr_def)
  ultimately obtain st2 where st2: "build_frame ord NET_PROTOCOL_ARP ether_broadcast_addr n p st1 = Some (NET_ERR_OK, st2)"
    "pkt_inv st2 p rest" "pkt_bytes st2 p = take 6 ether_broadcast_addr @ take 6 (hw_addr (if_hwaddr n))
       @ be16 NET_PROTOCOL_ARP @ pkt_bytes st1 p @ replicate (46 - length (pkt_bytes st1 p)) 0"
    "pkt_frame p rest st1 st2"
    using build_frame_run [OF st1(2) len(2) st1(5), of ether_broadcast_addr n ord NET_PROTOCOL_ARP] assms(9)
    by blast
  from rq.psh_room [OF assms(2,3), of p] obtain q where q: "push (if_out_q n) p = Some (True, q)"
    "rq_list q = rq_list (if_out_q n) @ [p]" "rq_inv q" "rq_room q = rq_room (if_out_q n)" by blast
  have "make_arp_request ord nif dest net
      = Some (NET_ERR_OK, net\<lparr>net_store := st2, net_ifs := (net_ifs net)(nif \<mapsto> n\<lparr>if_out_q := q\<rparr>)\<rparr>)"
    using assms(1,9,10) st1(1,3) st2(1) q(1)
    by (simp add: make_arp_request_def on_store_def ether_raw_out_def bytes_get_def layout_defs
        put_buf_to_out_queue_def ether_send_def put_netif_def ether_broadcast_addr_def)
  moreover have "pkt_bytes st2 p = arp_request_frame n dest"
    using st2(3) len by (simp add: st1(4) arp_request_bytes_def arp_request_frame_def broadcast_replicate
        be16_def NET_PROTOCOL_ARP_def)
  ultimately show ?thesis using sta st1(2) st2(1,2,4) q(2-4) by blast
qed

text \<open>
  \<open>EtherNet::make_arp_request\<close> with two blocks to spare queues exactly one packet for sending, and
  its 60 bytes are the ARP request of RFC 826 in an Ethernet broadcast frame: asking for \<open>dest\<close>, on
  behalf of the interface's own addresses, padded with zeros.
\<close>

theorem arp_request_on_the_wire:
  assumes "net_ifs net nif = Some n" "rq_inv (if_out_q n)" "length (rq_list (if_out_q n)) < rq_room (if_out_q n)"
    and "bufs_inv (net_store net) live" "free_bufs (net_store net) = p # ps" "blk_inv (net_store net) rest"
    and "46 \<le> unat (cfg_blk_size (net_store net))" "3 \<le> length (free_blks (net_store net))"
    and "6 \<le> length (hw_addr (if_hwaddr n))" "take 6 (hw_addr (if_hwaddr n)) \<noteq> ether_broadcast_addr"
    and "4 \<le> length (a_addr (if_ipaddr n))" "4 \<le> length (a_addr dest)"
  shows "\<exists>net' n'. make_arp_request ord nif dest net = Some (NET_ERR_OK, net')
     \<and> net_ifs net' = (net_ifs net)(nif \<mapsto> n') \<and> rq_list (if_out_q n') = rq_list (if_out_q n) @ [p]
     \<and> pkt_inv (net_store net') p rest
     \<and> pkt_bytes (net_store net') p = replicate 6 0xFF @ take 6 (hw_addr (if_hwaddr n)) @ [8, 6]
         @ [0, 1, 8, 0, 6, 4, 0, 1] @ take 6 (hw_addr (if_hwaddr n)) @ take 4 (a_addr (if_ipaddr n))
         @ replicate 6 0 @ take 4 (a_addr dest) @ replicate 18 0"
proof -
  from make_arp_request_run [OF assms, of ord] obtain st2 q where
    r: "make_arp_request ord nif dest net
      = Some (NET_ERR_OK, net\<lparr>net_store := st2, net_ifs := (net_ifs net)(nif \<mapsto> n\<lparr>if_out_q := q\<rparr>)\<rparr>)"
    "pkt_inv st2 p rest" "pkt_bytes st2 p = arp_request_frame n dest" "rq_list q = rq_list (if_out_q n) @ [p]" by blast
  then show ?thesis
    by (intro exI [of _ "net\<lparr>net_store := st2, net_ifs := (net_ifs net)(nif \<mapsto> n\<lparr>if_out_q := q\<rparr>)\<rparr>"]
        exI [of _ "n\<lparr>if_out_q := q\<rparr>"]) (simp add: arp_request_frame_def)
qed

definition demo_net :: "netif_class \<Rightarrow> netif_type \<Rightarrow> nat net" where
  "demo_net cls ty = \<lparr>net_store = demo_blank, net_stack = demo_stack, net_ifs = [5 \<mapsto> demo_netif cls ty]\<rparr>"

lemma demo_netif_queues:
  "rq_inv (if_out_q (demo_netif cls ty))" "rq_list (if_out_q (demo_netif cls ty)) = []"
  "rq_room (if_out_q (demo_netif cls ty)) = 3"
  "rq_inv (if_in_q (demo_netif cls ty))" "rq_list (if_in_q (demo_netif cls ty)) = []"
  "rq_room (if_in_q (demo_netif cls ty)) = 3"
  using demo_pool(1) [of "[]" 8] demo_pool(2) [of "[]" 8] demo_pool(3) [of 8 "[]"]
  by (simp_all add: demo_netif_def mb_inv_def mb_free_list_def mb_room_def)

theorem arp_request_on_the_wire_witness:
  "\<exists>net'. make_arp_request Little_endian 5 \<lparr>ip_type = IPADDR_V4, a_addr = [192, 168, 1, 1]\<rparr>
       (demo_net Ether_net NETIF_TYPE_ETHER) = Some (NET_ERR_OK, net')
     \<and> length (pkt_bytes (net_store net') 328) = 60
     \<and> drop 38 (take 42 (pkt_bytes (net_store net') 328)) = [192, 168, 1, 1]"
proof -
  let ?n = "demo_netif Ether_net NETIF_TYPE_ETHER" and ?net = "demo_net Ether_net NETIF_TYPE_ETHER"
  let ?dest = "\<lparr>ip_type = IPADDR_V4, a_addr = [192, 168, 1, 1]\<rparr>"
  have net: "net_ifs ?net 5 = Some ?n" "net_store ?net = demo_blank" by (simp_all add: demo_net_def)
  have addr: "take 6 (hw_addr (if_hwaddr ?n)) = [2, 4, 6, 8, 10, 12]" "6 \<le> length (hw_addr (if_hwaddr ?n))"
    "a_addr (if_ipaddr ?n) = [192, 168, 1, 20]" by (simp_all add: demo_netif_def)
  have "take 6 (hw_addr (if_hwaddr ?n)) \<noteq> ether_broadcast_addr"
    by (simp add: addr(1) ether_broadcast_addr_def)
  from arp_request_on_the_wire [OF net(1), where live = "[]" and p = 328 and ps = "[]" and rest = "[]"
      and dest = ?dest and ord = Little_endian] this addr(2,3) net(2)
    demo_netif_queues(1-3) [of Ether_net NETIF_TYPE_ETHER] demo_blank
  show ?thesis by (auto simp: addr(1))
qed

subsection \<open>Incoming frames\<close>

lemma is_pkt_ok:
  "is_pkt_ok c = (if 14 \<le> unat c \<and> unat c \<le> 1514 then NET_ERR_OK else NET_ERR_SIZE)"
proof (cases "unat c < 2 ^ 31")
  case True
  then have "(scast c :: u64) = of_nat (unat c)"
    by (simp only: scast_eq sint_small [OF True] of_int_of_nat_eq)
  moreover have "unat (of_nat (unat c) :: u64) = unat c"
    using True by (simp only: unat_of_nat) simp
  ultimately have "unat (scast c :: u64) = unat c" by simp
  then show ?thesis
    by (simp add: is_pkt_ok_def layout_defs ETHER_MTU_def word_less_nat_alt)
next
  case False
  have "sint c < 0"
  proof -
    define y where "y = int (unat c) - 2 ^ 32"
    have y: "- (2 ^ 31) \<le> y" "y < 2 ^ 31"
      unfolding y_def using of_nat_mono [OF leI [OF False], where 'a = int]
        of_nat_less_iff [where 'a = int, THEN iffD2, OF unat_u32_less [of c]] by simp_all
    have "c = word_of_int y" by (simp add: y_def)
    then have "sint c = signed_take_bit 31 y" by (simp add: signed_of_int)
    also have "\<dots> = y" using y by (intro signed_take_bit_int_eq_self) simp_all
    finally have "sint c = int (unat c) - 2 ^ 32" by (simp only: y_def)
    moreover have "int (unat c) < int (2 ^ 32)" using unat_u32_less [of c] by (simp only: of_nat_less_iff)
    ultimately show ?thesis by simp
  qed
  moreover have low: "- (2 ^ 31) \<le> sint c" using sint_range_size [of c] by (simp add: word_size)
  ultimately have "(sint c + 2 ^ 64) mod 2 ^ 64 = sint c + 2 ^ 64"
    by (intro mod_pos_pos_trivial) simp_all
  then have "sint c mod 2 ^ 64 = sint c + 2 ^ 64" by (simp only: mod_add_self2)
  moreover have "uint (scast c :: u64) = sint c mod 2 ^ LENGTH(64)"
    by (simp only: scast_eq uint_word_of_int)
  moreover have "LENGTH(64) = 64" by simp
  ultimately have "uint (scast c :: u64) = sint c + 2 ^ 64" by (simp only:)
  then have "2 ^ 64 - 2 ^ 31 \<le> uint (scast c :: u64)" using low by simp
  then have "(1514 :: u64) < scast c" by (simp add: word_less_def)
  then show ?thesis using False by (simp add: is_pkt_ok_def layout_defs ETHER_MTU_def)
qed

lemma le_bytes_of_le_bytes_2: "le_bytes 2 (of_le_bytes [x, y] :: u16) = [x, y]"
proof -
  have "(ucast (of_le_bytes [x, y] :: u16) :: u8) = x"
    by (rule bit_word_eqI) (simp add: bit_simps)
  moreover have "(ucast (drop_bit 8 (of_le_bytes [x, y] :: u16)) :: u8) = y"
    by (rule bit_word_eqI) (auto simp: bit_simps dest: bit_imp_le_length)
  ultimately show ?thesis by (simp add: le_bytes_def upt_rec)
qed

lemma protocol_in_packet:
  assumes "length bs = 2"
  shows "net_to_host_16 ord (of_mem_bytes ord bs) = w \<longleftrightarrow> bs = be16 w"
proof -
  from assms obtain x y where bs: "bs = [x, y]" by (auto simp: numeral_eq_Suc length_Suc_conv)
  have m: "mem_bytes ord 2 (of_mem_bytes ord bs :: u16) = bs"
    by (cases ord) (simp_all add: mem_bytes_def of_mem_bytes_def bs le_bytes_of_le_bytes_2
        del: of_le_bytes.simps)
  have inv: "host_to_net_16 ord (net_to_host_16 ord v) = v" "net_to_host_16 ord (host_to_net_16 ord v) = v" for v
    by (simp_all add: host_to_net_16_def net_to_host_16_def bswap_involutive split: byte_order.split)
  show ?thesis
  proof
    assume "net_to_host_16 ord (of_mem_bytes ord bs) = w"
    then have "of_mem_bytes ord bs = host_to_net_16 ord w" using inv(1) by metis
    then show "bs = be16 w" using m mem_bytes_be16 by metis
  next
    assume "bs = be16 w"
    then have "bs = mem_bytes ord 2 (host_to_net_16 ord w)" by (simp add: mem_bytes_be16)
    then have "of_mem_bytes ord bs = host_to_net_16 ord w"
      by (simp add: of_mem_bytes_mem_bytes del: of_le_bytes.simps)
    then show "net_to_host_16 ord (of_mem_bytes ord bs) = w" using inv(2) by simp
  qed
qed

lemma mem_read_first:
  assumes inv: "pkt_inv st p rest" and b: "buf_heap st p = Some b" "buf_blk_list b = a # l"
    "blk_heap st a = Some blk" and k: "k + n \<le> unat (blk_size blk)"
  shows "mem_read (Some (a, blk_data blk + k)) n st = Some (take n (drop k (pkt_bytes st p)))"
proof -
  from inv b have ok: "blk_ok (cfg_blk_size st) blk"
    and bytes: "pkt_bytes st p = blk_bytes blk @ blks_bytes (blk_heap st) l"
    by (auto simp: pkt_inv_def pkt_bytes_def)
  have le: "blk_data blk + unat (blk_size blk) \<le> length (blk_payload blk)" using ok by (simp add: blk_ok_def)
  have "take n (drop k (pkt_bytes st p)) = take n (drop k (blk_bytes blk))"
    using k length_blk_bytes [OF ok] by (simp add: bytes)
  also have "\<dots> = take n (drop (blk_data blk + k) (blk_payload blk))"
    using k by (simp add: blk_bytes_def drop_take min_def add.commute)
  finally show ?thesis using b(3) k le by (simp add: mem_read_def bytes_get_def)
qed

lemma ether_link_in_run:
  assumes inv: "pkt_inv st p rest" and ne: "pkt_bytes st p \<noteq> []" and cfg: "14 \<le> unat (cfg_blk_size st)"
  shows "\<exists>st'. ether_link_in ord p st = Some
       (if 14 \<le> length (pkt_bytes st p) \<and> length (pkt_bytes st p) \<le> 1514
        then (NET_ERR_OK, Some (if take 2 (drop 12 (pkt_bytes st p)) = be16 NET_PROTOCOL_ARP then Got_arp
               else if take 2 (drop 12 (pkt_bytes st p)) = be16 NET_PROTOCOL_IPv4 then Got_ipv4 else Got_other))
        else (NET_ERR_SIZE, None), st')
     \<and> pkt_inv st' p rest \<and> pkt_bytes st' p = pkt_bytes st p \<and> pkt_frame p rest st st'
     \<and> (14 \<le> length (pkt_bytes st p) \<longrightarrow> 14 \<le> cont_size st' p)"
proof -
  from set_cont_header_run [OF inv ne, of 14] cfg obtain err st1 where
    st1: "set_cont_header p 14 st = Some (err, st1)" "pkt_inv st1 p rest"
    "pkt_bytes st1 p = pkt_bytes st p" "pkt_frame p rest st st1"
    "14 \<le> length (pkt_bytes st p) \<longrightarrow> 14 \<le> cont_size st1 p"
    by (auto simp: word_le_nat_alt)
  have "pkt_bytes st1 p \<noteq> []" using ne st1(3) by simp
  then obtain b a l blk where b: "buf_heap st1 p = Some b" "buf_blk_list b = a # l"
    "blk_heap st1 a = Some blk" "length (pkt_bytes st1 p) = unat (buf_capacity b)"
    by (rule pkt_inv_cons [OF st1(2)])
  then have data: "get_data p st1 = Some (Some (a, blk_data blk))" and cs: "cont_size st1 p = unat (blk_size blk)"
    by (simp_all add: get_data_def cont_size_def)
  have cap: "unat (buf_capacity b) = length (pkt_bytes st p)" using b(4) st1(3) by simp
  show ?thesis
  proof (cases "14 \<le> length (pkt_bytes st p) \<and> length (pkt_bytes st p) \<le> 1514")
    case True
    then have "mem_read (Some (a, blk_data blk + 12)) 2 st1 = Some (take 2 (drop 12 (pkt_bytes st p)))"
      using mem_read_first [OF st1(2) b(1-3), of 12 2] st1(3,5) cs by simp
    moreover have "length (take 2 (drop 12 (pkt_bytes st p))) = 2" using True by auto
    note protocol_in_packet [OF this]
    ultimately have "ether_link_in ord p st = Some ((NET_ERR_OK,
        Some (if take 2 (drop 12 (pkt_bytes st p)) = be16 NET_PROTOCOL_ARP then Got_arp
               else if take 2 (drop 12 (pkt_bytes st p)) = be16 NET_PROTOCOL_IPv4 then Got_ipv4 else Got_other)), st1)"
      using True st1(1) data b(1)
      by (simp add: ether_link_in_def layout_defs is_pkt_ok cap ptr_add_def Let_def)
    then show ?thesis using True st1 by (intro exI [of _ st1]) simp
  next
    case False
    then have "ether_link_in ord p st = Some ((NET_ERR_SIZE, None), st1)"
      using st1(1) data b(1) by (auto simp: ether_link_in_def layout_defs is_pkt_ok cap)
    then show ?thesis unfolding if_not_P [OF False] using st1 by (intro exI [of _ st1]) simp
  qed
qed

text \<open>
  \<open>EtherNet::link_in\<close>: a frame of 14 to 1514 bytes is accepted and classified by its bytes 12 and 13
  whatever blocks they lie in; any other length is refused with \<open>NET_ERR_SIZE\<close>. The packet keeps its
  bytes and stays the caller's, also when it is accepted.
\<close>

theorem ether_link_in_classifies:
  assumes "pkt_inv st p rest" "pkt_bytes st p \<noteq> []" "14 \<le> unat (cfg_blk_size st)"
  shows "\<exists>st'. ether_link_in ord p st = Some
       (if 14 \<le> length (pkt_bytes st p) \<and> length (pkt_bytes st p) \<le> 1514
        then (NET_ERR_OK, Some (if take 2 (drop 12 (pkt_bytes st p)) = [8, 6] then Got_arp
               else if take 2 (drop 12 (pkt_bytes st p)) = [8, 0] then Got_ipv4 else Got_other))
        else (NET_ERR_SIZE, None), st')
     \<and> pkt_inv st' p rest \<and> pkt_bytes st' p = pkt_bytes st p \<and> pkt_frame p rest st st'"
proof -
  have "be16 NET_PROTOCOL_ARP = [8, 6]" "be16 NET_PROTOCOL_IPv4 = [8, 0]"
    by (simp_all add: be16_def NET_PROTOCOL_ARP_def NET_PROTOCOL_IPv4_def)
  then show ?thesis using ether_link_in_run [OF assms, of ord] by auto
qed

text \<open>The ARP request that one interface builds is one that another recognises.\<close>

theorem ether_link_in_classifies_witness:
  "\<exists>st st' st''. make_request Little_endian (demo_netif Ether_net NETIF_TYPE_ETHER) ipaddr_new demo_blank = Some (328, st)
     \<and> build_frame Little_endian NET_PROTOCOL_ARP ether_broadcast_addr (demo_netif Ether_net NETIF_TYPE_ETHER) 328 st
         = Some (NET_ERR_OK, st')
     \<and> ether_link_in Big_endian 328 st' = Some ((NET_ERR_OK, Some Got_arp), st'')"
proof -
  let ?n = "demo_netif Ether_net NETIF_TYPE_ETHER"
  from make_request_run [OF demo_blank(2,4,1) _ demo_blank(3), of ?n ipaddr_new Little_endian] demo_blank(5)
  obtain st where st: "make_request Little_endian ?n ipaddr_new demo_blank = Some (328, st)"
    "pkt_inv st 328 []" "pkt_bytes st 328 = arp_request_bytes ?n ipaddr_new" "tail_room st 328 = 0"
    "free_blks st = [124, 148]" "cfg_blk_size st = 64"
    by (auto simp: demo_netif_def ipaddr_new_def IPV4_ADDR_SIZE_def)
  have len: "length (pkt_bytes st 328) = 28" and ne: "pkt_bytes st 328 \<noteq> []"
    unfolding st(3) by (simp_all add: arp_request_bytes_def demo_netif_def ipaddr_new_def IPV4_ADDR_SIZE_def)
  have "blks_needed st (of_nat (46 - length (pkt_bytes st 328))) < length (free_blks st)"
    by (simp add: blks_needed_def st(5,6) len length_chunks)
  with build_frame_run [OF st(2) ne st(4), where dest = ether_broadcast_addr and n = ?n
      and ord = Little_endian and protocol = NET_PROTOCOL_ARP] st(6) len
  obtain st' where st': "build_frame Little_endian NET_PROTOCOL_ARP ether_broadcast_addr ?n 328 st = Some (NET_ERR_OK, st')"
    "pkt_inv st' 328 []" "pkt_frame 328 [] st st'"
    "pkt_bytes st' 328 = take 6 ether_broadcast_addr @ take 6 (hw_addr (if_hwaddr ?n)) @ be16 NET_PROTOCOL_ARP
         @ pkt_bytes st 328 @ replicate (46 - length (pkt_bytes st 328)) 0"
    by (auto simp: ether_broadcast_addr_def demo_netif_def)
  have bytes: "length (pkt_bytes st' 328) = 60" "take 2 (drop 12 (pkt_bytes st' 328)) = [8, 6]"
    by (simp_all add: st'(4) len ether_broadcast_addr_def demo_netif_def be16_def NET_PROTOCOL_ARP_def)
  then have "pkt_bytes st' 328 \<noteq> []" "14 \<le> unat (cfg_blk_size st')"
    using st'(3) st(6) by (auto simp: pkt_frame_def)
  from ether_link_in_classifies [OF st'(2) this, of Big_endian] bytes st(1) st'(1)
  show ?thesis by auto
qed

end
