(* ===== verification/Loopback.thy ===== *)
theory Loopback
  imports NetFrames
begin

text \<open>
  The queues of an interface and the way of a packet through the loopback interface: from
  \<open>netif_out\<close> over the two queues to a message for the protocol stack.
\<close>

subsection \<open>Queue operations\<close>

text \<open>
  Taking from a queue and putting into one, for every interface: the queue of the interface changes and
  the packet's position is reset.
\<close>

lemma get_buf_from_out_queue_run:
  assumes n: "net_ifs net nif = Some n" and q: "rq_inv (if_out_q n)" "rq_list (if_out_q n) = p # ps"
    and inv: "pkt_inv (net_store net) p rest"
  shows "\<exists>st' q'. get_buf_from_out_queue nif net
       = Some (p, net\<lparr>net_store := st', net_ifs := (net_ifs net)(nif \<mapsto> n\<lparr>if_out_q := q'\<rparr>)\<rparr>)
     \<and> rq_inv q' \<and> rq_list q' = ps \<and> rq_room q' = rq_room (if_out_q n)
     \<and> acc_inv st' p rest 0 \<and> pkt_bytes st' p = pkt_bytes (net_store net) p
     \<and> acc_frame p rest (net_store net) st'"
proof -
  from rq.pp_cons [OF q] obtain q' where q': "pop (if_out_q n) = Some (Some p, q')" "rq_inv q'"
    "rq_list q' = ps" "rq_room q' = rq_room (if_out_q n)" by blast
  from reset_access_at_start [OF inv] obtain st' where "reset_access p (net_store net) = Some st'"
    "acc_inv st' p rest 0" "pkt_bytes st' p = pkt_bytes (net_store net) p"
    "acc_frame p rest (net_store net) st'" by blast
  with q' n show ?thesis
    by (intro exI [of _ st'] exI [of _ q'])
       (simp add: get_buf_from_out_queue_def put_netif_def on_store0_def Let_def)
qed

lemma put_buf_to_out_queue_run:
  assumes n: "net_ifs net nif = Some n" and q: "rq_inv (if_out_q n)"
  shows "\<exists>q'. put_buf_to_out_queue nif p net
       = Some (if length (rq_list (if_out_q n)) < rq_room (if_out_q n) then NET_ERR_OK else NET_ERR_FULL,
               net\<lparr>net_ifs := (net_ifs net)(nif \<mapsto> n\<lparr>if_out_q := q'\<rparr>)\<rparr>)
     \<and> rq_inv q' \<and> rq_room q' = rq_room (if_out_q n)
     \<and> rq_list q' = (if length (rq_list (if_out_q n)) < rq_room (if_out_q n)
                     then rq_list (if_out_q n) @ [p] else rq_list (if_out_q n))"
proof -
  obtain q' where "push (if_out_q n) p = Some (length (rq_list (if_out_q n)) < rq_room (if_out_q n), q')"
    "rq_inv q'" "rq_room q' = rq_room (if_out_q n)"
    "rq_list q' = (if length (rq_list (if_out_q n)) < rq_room (if_out_q n)
                   then rq_list (if_out_q n) @ [p] else rq_list (if_out_q n))"
    using push_cases [OF q] .
  with n show ?thesis
    by (intro exI [of _ q']) (simp add: put_buf_to_out_queue_def put_netif_def)
qed

lemma put_buf_to_in_queue_run:
  assumes n: "net_ifs net nif = Some n" and q: "rq_inv (if_in_q n)"
    and room: "length (rq_list (if_in_q n)) < rq_room (if_in_q n)" and ps: "ps_inv (net_stack net)"
  shows "\<exists>q' err ps'. put_buf_to_in_queue nif p net
       = Some (NET_ERR_OK, net\<lparr>net_stack := ps', net_ifs := (net_ifs net)(nif \<mapsto> n\<lparr>if_in_q := q'\<rparr>)\<rparr>)
     \<and> exmsg_netif_in nif (net_stack net) = Some (err, ps') \<and> ps_inv ps'
     \<and> rq_inv q' \<and> rq_room q' = rq_room (if_in_q n) \<and> rq_list q' = rq_list (if_in_q n) @ [p]"
proof -
  from rq.psh_room [OF q room, of p] obtain q' where q': "push (if_in_q n) p = Some (True, q')"
    "rq_inv q'" "rq_room q' = rq_room (if_in_q n)" "rq_list q' = rq_list (if_in_q n) @ [p]" by blast
  from exmsg_netif_in_run [OF ps, of nif] obtain err ps' where
    "exmsg_netif_in nif (net_stack net) = Some (err, ps')" "ps_inv ps'" by blast
  with q' n show ?thesis
    by (intro exI [of _ q'] exI [of _ err] exI [of _ ps'])
       (simp add: put_buf_to_in_queue_def put_netif_def Let_def)
qed

text \<open>
  \<open>netif_out\<close> on the loopback interface: the packet joins the queue for sending, and the packet at
  the front of that queue is handed to the queue of received packets with its bytes unchanged; one message
  for the interface is appended to the message queue when it has room and a message block is free.
\<close>

theorem loopback_delivers:
  assumes "net_ifs net nif = Some n" "if_class n = Loop_net" "if_type n = NETIF_TYPE_LOOP"
    and "rq_inv (if_out_q n)" "length (rq_list (if_out_q n)) < rq_room (if_out_q n)"
    and "rq_inv (if_in_q n)" "length (rq_list (if_in_q n)) < rq_room (if_in_q n)"
    and "ps_inv (net_stack net)"
    and "rq_list (if_out_q n) @ [buf] = p # ps" "p \<noteq> nullptr" "pkt_inv (net_store net) p rest"
  shows "\<exists>net' n'. netif_out ord nif ip buf net = Some (NET_ERR_OK, net')
     \<and> net_ifs net' = (net_ifs net)(nif \<mapsto> n')
     \<and> rq_list (if_out_q n') = ps \<and> rq_list (if_in_q n') = rq_list (if_in_q n) @ [p]
     \<and> acc_inv (net_store net') p rest 0 \<and> pkt_bytes (net_store net') p = pkt_bytes (net_store net) p
     \<and> ps_inv (net_stack net')
     \<and> (\<forall>a free. mb_free_list (ps_mem_block (net_stack net)) = a # free
          \<and> length (ps_queue_list (net_stack net)) < rq_room (ps_msg_queue (net_stack net)) \<longrightarrow>
          ps_queue_list (net_stack net') = ps_queue_list (net_stack net) @ [a]
          \<and> ps_msgs (net_stack net') a = Some (Exmsg_netif_in nif))"
proof -
  from put_buf_to_out_queue_run [OF assms(1,4), of buf] assms(5) obtain q1 where
    q1: "put_buf_to_out_queue nif buf net
           = Some (NET_ERR_OK, net\<lparr>net_ifs := (net_ifs net)(nif \<mapsto> n\<lparr>if_out_q := q1\<rparr>)\<rparr>)"
    "rq_inv q1" "rq_list q1 = p # ps" using assms(9) by auto
  define net1 where "net1 = net\<lparr>net_ifs := (net_ifs net)(nif \<mapsto> n\<lparr>if_out_q := q1\<rparr>)\<rparr>"
  have n1: "net_ifs net1 nif = Some (n\<lparr>if_out_q := q1\<rparr>)" "net_store net1 = net_store net"
    by (simp_all add: net1_def)
  have "rq_inv (if_out_q (n\<lparr>if_out_q := q1\<rparr>))" "rq_list (if_out_q (n\<lparr>if_out_q := q1\<rparr>)) = p # ps"
    "pkt_inv (net_store net1) p rest" using q1(2,3) assms(11) n1(2) by simp_all
  from get_buf_from_out_queue_run [OF n1(1) this] n1(2) obtain st' q2 where
    q2: "get_buf_from_out_queue nif net1 = Some (p, net1\<lparr>net_store := st',
           net_ifs := (net_ifs net1)(nif \<mapsto> n\<lparr>if_out_q := q2\<rparr>)\<rparr>)"
    "rq_list q2 = ps" "acc_inv st' p rest 0" "pkt_bytes st' p = pkt_bytes (net_store net) p" by auto
  define net2 where "net2 = net1\<lparr>net_store := st', net_ifs := (net_ifs net1)(nif \<mapsto> n\<lparr>if_out_q := q2\<rparr>)\<rparr>"
  have n2: "net_ifs net2 nif = Some (n\<lparr>if_out_q := q2\<rparr>)" "net_stack net2 = net_stack net"
    by (simp_all add: net2_def net1_def)
  from put_buf_to_in_queue_run [OF n2(1), of p] assms(6-8) n2(2) obtain q3 err ps' where
    q3: "put_buf_to_in_queue nif p net2 = Some (NET_ERR_OK, net2\<lparr>net_stack := ps',
           net_ifs := (net_ifs net2)(nif \<mapsto> n\<lparr>if_out_q := q2, if_in_q := q3\<rparr>)\<rparr>)"
    "exmsg_netif_in nif (net_stack net) = Some (err, ps')" "ps_inv ps'"
    "rq_list q3 = rq_list (if_in_q n) @ [p]" by auto
  define net3 where "net3 = net2\<lparr>net_stack := ps',
           net_ifs := (net_ifs net2)(nif \<mapsto> n\<lparr>if_out_q := q2, if_in_q := q3\<rparr>)\<rparr>"
  have "netif_out ord nif ip buf net = Some (NET_ERR_OK, net3)"
    using assms(1-3,10) q1(1) q2(1) q3(1) n1(1) n2(1)
    by (simp add: netif_out_def netif_send_def loop_send_def net1_def [symmetric] net2_def [symmetric]
        net3_def [symmetric])
  then show ?thesis
    using exmsg_netif_in_run [OF assms(8), of nif] q2(2-4) q3(2-4)
    by (intro exI [of _ net3] exI [of _ "n\<lparr>if_out_q := q2, if_in_q := q3\<rparr>"])
       (auto simp: net3_def net2_def net1_def)
qed

definition demo_stack_room :: "nat proto_stack" where
  "demo_stack_room = \<lparr>ps_mem_block = demo_pool 40 [100], ps_msg_queue = mb_queue (demo_pool 8 []),
     ps_timer_mem_block = demo_pool 40 [], ps_msgs = (\<lambda>_. None)\<rparr>"

lemma demo_stack_room:
  "ps_inv demo_stack_room" "mb_free_list (ps_mem_block demo_stack_room) = [100]"
  "ps_queue_list demo_stack_room = []" "rq_room (ps_msg_queue demo_stack_room) = 3"
proof -
  show q: "ps_queue_list demo_stack_room = []" "rq_room (ps_msg_queue demo_stack_room) = 3"
    using demo_pool(2) [of "[]" 8] demo_pool(3) [of 8 "[]"]
    by (simp_all add: ps_queue_list_def demo_stack_room_def mb_free_list_def mb_room_def)
  show "ps_inv demo_stack_room" unfolding ps_inv_def q
    using demo_pool(1) [of "[]" 8] demo_pool(1) [of "[100]" 40] demo_pool(1) [of "[]" 40]
    by (simp add: demo_stack_room_def demo_pool(2) mb_inv_def)
qed (simp add: demo_stack_room_def demo_pool)

theorem loopback_delivers_witness:
  "\<exists>net st net'. make_request Little_endian (demo_netif Loop_net NETIF_TYPE_LOOP) ipaddr_new demo_blank = Some (328, st)
     \<and> net = \<lparr>net_store = st, net_stack = demo_stack_room, net_ifs = [5 \<mapsto> demo_netif Loop_net NETIF_TYPE_LOOP]\<rparr>
     \<and> netif_out Little_endian 5 ipaddr_new 328 net = Some (NET_ERR_OK, net')
     \<and> pkt_bytes (net_store net') 328 = arp_request_bytes (demo_netif Loop_net NETIF_TYPE_LOOP) ipaddr_new
     \<and> ps_queue_list (net_stack net') = [100]"
proof -
  let ?n = "demo_netif Loop_net NETIF_TYPE_LOOP"
  from make_request_run [OF demo_blank(2,4,1) _ demo_blank(3), of ?n ipaddr_new Little_endian] demo_blank(5)
  obtain st where st: "make_request Little_endian ?n ipaddr_new demo_blank = Some (328, st)"
    "pkt_inv st 328 []" "pkt_bytes st 328 = arp_request_bytes ?n ipaddr_new"
    by (auto simp: demo_netif_def ipaddr_new_def IPV4_ADDR_SIZE_def)
  define net where "net = \<lparr>net_store = st, net_stack = demo_stack_room, net_ifs = [5 \<mapsto> ?n]\<rparr>"
  have "net_ifs net 5 = Some ?n" "if_class ?n = Loop_net" "if_type ?n = NETIF_TYPE_LOOP"
    by (simp_all add: net_def demo_netif_def)
  from loopback_delivers [OF this, where buf = 328 and p = 328 and ps = "[]" and rest = "[]"
      and ord = Little_endian and ip = ipaddr_new]
    demo_netif_queues [of Loop_net NETIF_TYPE_LOOP] demo_stack_room st(2)
  obtain net' where "netif_out Little_endian 5 ipaddr_new 328 net = Some (NET_ERR_OK, net')"
    "pkt_bytes (net_store net') 328 = pkt_bytes st 328" "ps_queue_list (net_stack net') = [100]"
    by (auto simp: net_def)
  with st show ?thesis unfolding net_def by auto
qed

end
