(* ===== verification/PacketLists.thy ===== *)
theory PacketLists
  imports Loopback
begin

text \<open>
  Several packets at once: the packets in the queues of an interface own disjoint blocks. The lemmas
  here carry the loops that empty a queue.
\<close>

definition blks_of_all :: "pkt_store \<Rightarrow> addr list \<Rightarrow> addr list" where
  "blks_of_all st ps = concat (map (blks_of st) ps)"

definition pkt_ref :: "pkt_store \<Rightarrow> addr \<Rightarrow> u32 option" where
  "pkt_ref st p = map_option buf_ref (buf_heap st p)"

definition pkt_wf :: "pkt_store \<Rightarrow> addr \<Rightarrow> bool" where
  "pkt_wf st p \<longleftrightarrow> (\<exists>b. buf_heap st p = Some b \<and> buf_ref b = 1
     \<and> blks_ok (cfg_blk_size st) (blk_heap st) (buf_blk_list b)
     \<and> length (blks_bytes (blk_heap st) (buf_blk_list b)) = unat (buf_capacity b))"

text \<open>The packets \<open>ps\<close>, referenced once each, own their blocks; \<open>rest\<close> are blocks of others.\<close>

definition pkts_inv :: "pkt_store \<Rightarrow> addr list \<Rightarrow> addr list \<Rightarrow> bool" where
  "pkts_inv st ps rest \<longleftrightarrow> distinct ps \<and> blk_inv st (blks_of_all st ps @ rest) \<and> (\<forall>p \<in> set ps. pkt_wf st p)"

lemma blks_of_all_simps [simp]:
  "blks_of_all st [] = []" "blks_of_all st (p # ps) = blks_of st p @ blks_of_all st ps"
  "blks_of_all st (ps @ qs) = blks_of_all st ps @ blks_of_all st qs"
  by (simp_all add: blks_of_all_def)

lemma pkts_inv_perm:
  assumes "mset ps = mset qs" shows "pkts_inv st ps rest \<longleftrightarrow> pkts_inv st qs rest"
proof -
  have "mset (blks_of_all st xs) = (\<Sum>p\<in>#mset xs. mset (blks_of st p))" for xs
    by (induction xs) simp_all
  then have "mset (blks_of_all st ps) = mset (blks_of_all st qs)" using assms by simp
  then have "blk_inv st (blks_of_all st ps @ rest) \<longleftrightarrow> blk_inv st (blks_of_all st qs @ rest)"
    by (intro blk_inv_perm) simp
  then show ?thesis
    using assms mset_eq_setD [OF assms] mset_eq_imp_distinct_iff [OF assms] by (simp add: pkts_inv_def)
qed

lemma bufs_inv_perm: "mset ps = mset qs \<Longrightarrow> bufs_inv st ps \<longleftrightarrow> bufs_inv st qs"
  by (auto simp: bufs_inv_def dest: mset_eq_setD mset_eq_length mset_eq_imp_distinct_iff)

text \<open>One packet out of many, and back.\<close>

lemma pkts_inv_one:
  assumes "pkts_inv st (p # ps) rest"
  shows "pkt_inv st p (blks_of_all st ps @ rest)" "p \<notin> set ps" "pkt_wf st p" "\<forall>q \<in> set ps. pkt_wf st q"
proof -
  from assms have p: "pkt_wf st p" "blk_inv st (blks_of st p @ blks_of_all st ps @ rest)"
    by (simp_all add: pkts_inv_def)
  then show "pkt_inv st p (blks_of_all st ps @ rest)"
    by (auto simp: pkt_wf_def pkt_inv_def blks_of_def)
qed (use assms in \<open>auto simp: pkts_inv_def\<close>)

lemma other_packet:
  assumes "buf_heap st' q = buf_heap st q" "cfg_blk_size st' = cfg_blk_size st"
    "\<forall>a \<in> set (blks_of st q). blk_heap st' a = blk_heap st a"
  shows "pkt_wf st' q \<longleftrightarrow> pkt_wf st q" "pkt_bytes st' q = pkt_bytes st q" "blks_of st' q = blks_of st q"
proof -
  show "blks_of st' q = blks_of st q" using assms(1) by (simp add: blks_of_def)
  show "pkt_bytes st' q = pkt_bytes st q"
    using assms(1,3) by (auto simp: pkt_bytes_def blks_of_def split: option.split intro!: blks_cong)
  show "pkt_wf st' q \<longleftrightarrow> pkt_wf st q"
  proof (cases "buf_heap st q")
    case (Some b)
    then have "\<And>a. a \<in> set (buf_blk_list b) \<Longrightarrow> blk_heap st' a = blk_heap st a"
      using assms(3) by (simp add: blks_of_def)
    from blks_cong [of "buf_blk_list b", OF this] show ?thesis using Some assms(1,2) by (simp add: pkt_wf_def)
  qed (use assms(1) in \<open>simp add: pkt_wf_def\<close>)
qed

lemma other_packets:
  assumes "\<forall>q \<in> set ps. buf_heap st' q = buf_heap st q" "cfg_blk_size st' = cfg_blk_size st"
    "\<forall>a \<in> set (blks_of_all st ps). blk_heap st' a = blk_heap st a"
  shows "blks_of_all st' ps = blks_of_all st ps"
    "\<forall>q \<in> set ps. (pkt_wf st' q \<longleftrightarrow> pkt_wf st q) \<and> pkt_bytes st' q = pkt_bytes st q"
proof -
  have "(pkt_wf st' q \<longleftrightarrow> pkt_wf st q) \<and> pkt_bytes st' q = pkt_bytes st q \<and> blks_of st' q = blks_of st q"
    if "q \<in> set ps" for q
    using other_packet [of st' q st] assms that by (auto simp: blks_of_all_def)
  then show "\<forall>q \<in> set ps. (pkt_wf st' q \<longleftrightarrow> pkt_wf st q) \<and> pkt_bytes st' q = pkt_bytes st q"
    and "blks_of_all st' ps = blks_of_all st ps"
    by (simp_all add: blks_of_all_def cong: map_cong)
qed

text \<open>An operation on the first packet that keeps its reference count.\<close>

lemma pkts_inv_step:
  assumes inv: "pkts_inv st (p # ps) rest" and p: "pkt_inv st' p (blks_of_all st ps @ rest)"
    and fr: "pkt_frame p (blks_of_all st ps @ rest) st st'" and ref: "pkt_ref st' p = pkt_ref st p"
  shows "pkts_inv st' (p # ps) rest" "\<forall>q \<in> set ps. pkt_bytes st' q = pkt_bytes st q"
    "blks_of_all st' ps = blks_of_all st ps"
proof -
  note one = pkts_inv_one [OF inv]
  have "\<forall>q \<in> set ps. buf_heap st' q = buf_heap st q" "cfg_blk_size st' = cfg_blk_size st"
    "\<forall>a \<in> set (blks_of_all st ps). blk_heap st' a = blk_heap st a"
    using fr one(2) by (auto simp: pkt_frame_def)
  note others = other_packets [OF this]
  then show "blks_of_all st' ps = blks_of_all st ps" "\<forall>q \<in> set ps. pkt_bytes st' q = pkt_bytes st q" by auto
  obtain b' where b': "buf_heap st' p = Some b'" "blk_inv st' (buf_blk_list b' @ blks_of_all st ps @ rest)"
    "blks_ok (cfg_blk_size st') (blk_heap st') (buf_blk_list b')"
    "length (blks_bytes (blk_heap st') (buf_blk_list b')) = unat (buf_capacity b')"
    using p by (auto simp: pkt_inv_def)
  have "buf_ref b' = 1" using ref one(3) b'(1) by (auto simp: pkt_ref_def pkt_wf_def)
  then have "pkt_wf st' p" using b' by (simp add: pkt_wf_def)
  moreover have "distinct (p # ps)" using inv by (simp add: pkts_inv_def)
  ultimately show "pkts_inv st' (p # ps) rest"
    using b'(1,2) others one(4) by (simp add: pkts_inv_def blks_of_def)
qed

text \<open>Freeing the first packet.\<close>

lemma buf_free_first:
  assumes inv: "pkts_inv st (p # ps) rest" and bufs: "bufs_inv st (p # live)"
  shows "\<exists>st'. buf_free p st = Some st' \<and> pkts_inv st' ps rest \<and> bufs_inv st' live
     \<and> free_bufs st' = free_bufs st @ [p] \<and> free_blks st' = free_blks st @ blks_of st p
     \<and> cfg_blk_size st' = cfg_blk_size st
     \<and> (\<forall>q \<in> set ps. pkt_bytes st' q = pkt_bytes st q \<and> blks_of st' q = blks_of st q)"
proof -
  note one = pkts_inv_one [OF inv]
  obtain b where b: "buf_heap st p = Some b" "buf_ref b = 1" using one(3) by (auto simp: pkt_wf_def)
  from buf_free_release [OF one(1) bufs b] obtain st' where
    st': "buf_free p st = Some st'" "blk_inv st' (blks_of_all st ps @ rest)" "bufs_inv st' live"
    "free_blks st' = free_blks st @ buf_blk_list b" "free_bufs st' = free_bufs st @ [p]"
    "blk_heap st' = blk_heap st" "cfg_blk_size st' = cfg_blk_size st"
    "\<forall>q. q \<noteq> p \<longrightarrow> buf_heap st' q = buf_heap st q" by blast
  have hp: "\<forall>q \<in> set ps. buf_heap st' q = buf_heap st q" using st'(8) one(2) by auto
  note others = other_packets [OF hp st'(7)]
  have "pkts_inv st' ps rest"
    using st'(2,6) others one(4) inv by (simp add: pkts_inv_def)
  moreover have "\<forall>q \<in> set ps. blks_of st' q = blks_of st q" using hp by (simp add: blks_of_def)
  ultimately show ?thesis using st' others b by (intro exI [of _ st']) (simp add: blks_of_def)
qed

lemma reset_access_first:
  assumes inv: "pkts_inv st (p # ps) rest"
  shows "\<exists>st'. reset_access p st = Some st' \<and> pkts_inv st' (p # ps) rest
     \<and> acc_inv st' p (blks_of_all st' ps @ rest) 0
     \<and> (\<forall>q \<in> set (p # ps). pkt_bytes st' q = pkt_bytes st q)
     \<and> cfg_blk_size st' = cfg_blk_size st \<and> free_bufs st' = free_bufs st \<and> free_blks st' = free_blks st
     \<and> (\<forall>live. bufs_inv st' (p # live) \<longleftrightarrow> bufs_inv st (p # live))"
proof -
  note one = pkts_inv_one [OF inv]
  from reset_access_at_start [OF one(1)] obtain st' where
    st': "reset_access p st = Some st'" "acc_inv st' p (blks_of_all st ps @ rest) 0"
    "pkt_bytes st' p = pkt_bytes st p" "acc_frame p (blks_of_all st ps @ rest) st st'" by blast
  obtain b b' where b: "buf_heap st p = Some b" "access_start b st = Some b'" "st' = put_buf p b' st"
    using st'(1) by (auto simp: reset_access_def bind_eq_Some_conv)
  have same: "buf_ref b' = buf_ref b" "buf_blk_list b' = buf_blk_list b"
    using b(2) by (auto simp: access_start_def bind_eq_Some_conv split: list.splits)
  have p: "pkt_inv st' p (blks_of_all st ps @ rest)" using st'(2) by (simp add: acc_inv_def)
  have "pkt_ref st' p = pkt_ref st p" using b same by (simp add: pkt_ref_def)
  note step = pkts_inv_step [OF inv p acc_frame_pkt_frame [OF st'(4) p] this]
  have "bufs_inv st' (p # live) \<longleftrightarrow> bufs_inv st (p # live)" for live
    using b same by (auto simp: bufs_inv_def)
  then show ?thesis using st' step acc_frame_free [OF st'(4)] b(3)
    by (intro exI [of _ st']) (simp add: acc_frame_def)
qed

end
