(* ===== verification/Network.thy ===== *)
theory Network
  imports Loopback
begin

text \<open>
  The network (\<open>src/net/network.h\<close>, \<open>src/net/network.cc\<close>): the registry of interface classes, opening,
  activating, deactivating and closing interfaces, and one round of the receive and of the send thread
  of a device. The state is that of the interfaces with the list of open interfaces, the default
  interface and the registry. A factory is the class it constructs.
\<close>

record 'f network =
  nw_net :: "'f net"
  nw_netifs :: "addr list"
  nw_default :: addr
  nw_registry :: "string \<rightharpoonup> netif_class"

text \<open>A step on the interfaces inside the state.\<close>

definition on_net :: "('f net \<Rightarrow> ('a \<times> 'f net) option) \<Rightarrow> 'f network \<Rightarrow> ('a \<times> 'f network) option" where
  "on_net f nw = do { (x, net) \<leftarrow> f (nw_net nw); Some (x, nw\<lparr>nw_net := net\<rparr>) }"

definition on_net0 :: "('f net \<Rightarrow> 'f net option) \<Rightarrow> 'f network \<Rightarrow> 'f network option" where
  "on_net0 f nw = do { net \<leftarrow> f (nw_net nw); Some (nw\<lparr>nw_net := net\<rparr>) }"

definition upd_netif :: "addr \<Rightarrow> netif \<Rightarrow> 'f network \<Rightarrow> 'f network" where
  "upd_netif a n nw = nw\<lparr>nw_net := put_netif a n (nw_net nw)\<rparr>"

definition register_netif_factory :: "string \<Rightarrow> netif_class \<Rightarrow> 'f network \<Rightarrow> bool \<times> 'f network" where
  "register_netif_factory type_name cls nw =
     (if nw_registry nw type_name \<noteq> None then (False, nw)
      else (True, nw\<lparr>nw_registry := (nw_registry nw)(type_name \<mapsto> cls)\<rparr>))"

text \<open>The two registrations that run before \<open>main\<close>.\<close>

definition register_builtin :: "'f network \<Rightarrow> 'f network" where
  "register_builtin nw =
     snd (register_netif_factory ''eth0'' Ether_net (snd (register_netif_factory ''loop'' Loop_net nw)))"

text \<open>
  The comparison is \<open>strcmp\<close>, which is true for names that differ. The result is a position in the list,
  its length for \<open>end()\<close>.
\<close>

fun find_by_name :: "string \<Rightarrow> 'f net \<Rightarrow> addr list \<Rightarrow> nat option" where
  "find_by_name name net [] = Some 0"
| "find_by_name name net (a # as) = do {
     n \<leftarrow> net_ifs net a;
     s \<leftarrow> get_name n;
     (if s \<noteq> name then Some 0 else map_option Suc (find_by_name name net as))
   }"

definition find_netif_by_name :: "string \<Rightarrow> 'f network \<Rightarrow> nat option" where
  "find_netif_by_name name nw = find_by_name name (nw_net nw) (nw_netifs nw)"

subsection \<open>Interfaces\<close>

definition netif_open_dev :: "(string option \<Rightarrow> u8 list \<Rightarrow> nat option) \<Rightarrow> netif \<Rightarrow> (net_err \<times> netif) option" where
  "netif_open_dev dev_open n = (case if_class n of Loop_net \<Rightarrow> loop_open n | Ether_net \<Rightarrow> ether_open dev_open n)"

definition netif_close_dev :: "netif \<Rightarrow> net_err option" where
  "netif_close_dev n = (case if_class n of Loop_net \<Rightarrow> Some NET_ERR_OK | Ether_net \<Rightarrow> ether_close n)"

definition link_open :: "netif \<Rightarrow> net_err" where
  "link_open n = NET_ERR_OK"

definition link_close :: "netif \<Rightarrow> netif" where
  "link_close n = n"

definition set_default :: "addr \<Rightarrow> 'f network \<Rightarrow> 'f network" where
  "set_default a nw = nw\<lparr>nw_default := a\<rparr>"

definition set_active :: "addr \<Rightarrow> 'f network \<Rightarrow> (net_err \<times> 'f network) option" where
  "set_active a nw = do {
     n \<leftarrow> net_ifs (nw_net nw) a;
     (if if_state n \<noteq> NETIF_OPENED then Some (NET_ERR_STATE, nw)
      else do {
        let nw1 = (if nw_default nw = nullptr \<and> if_type n \<noteq> NETIF_TYPE_LOOP then nw\<lparr>nw_default := a\<rparr> else nw);
        (if is_err (link_open n) then Some (link_open n, nw1)
         else Some (NET_ERR_OK, upd_netif a (n\<lparr>if_state := NETIF_ACTIVE\<rparr>) nw1))
      })
   }"

definition set_deactive :: "addr \<Rightarrow> 'f network \<Rightarrow> (net_err \<times> 'f network) option" where
  "set_deactive a nw = do {
     n \<leftarrow> net_ifs (nw_net nw) a;
     (if if_state n \<noteq> NETIF_ACTIVE then Some (NET_ERR_STATE, nw)
      else do {
        nw1 \<leftarrow> on_net0 (clear_in_queue a) (upd_netif a (link_close n) nw);
        nw2 \<leftarrow> on_net0 (clear_out_queue a) nw1;
        let nw3 = (if a = nw_default nw2 then nw2\<lparr>nw_default := nullptr\<rparr> else nw2);
        n3 \<leftarrow> net_ifs (nw_net nw3) a;
        Some (NET_ERR_OK, upd_netif a (n3\<lparr>if_state := NETIF_OPENED\<rparr>) nw3)
      })
   }"

text \<open>
  \<open>a\<close> is the address of the new interface object and the result, or null. \<open>set_active\<close> runs before the
  interface joins the list, and its result is ignored.
\<close>

definition netif_open :: "(string option \<Rightarrow> u8 list \<Rightarrow> nat option) \<Rightarrow> u32 \<Rightarrow> u32 \<Rightarrow> addr \<Rightarrow> string \<Rightarrow> ops_data
    \<Rightarrow> 'f network \<Rightarrow> (addr \<times> 'f network) option" where
  "netif_open dev_open in_size out_size a dev_name ops nw =
     (case nw_registry nw dev_name of
        None \<Rightarrow> Some (nullptr, nw)
      | Some cls \<Rightarrow> do {
          n \<leftarrow> netif_new cls in_size out_size dev_name ops;
          (err, n1) \<leftarrow> netif_open_dev dev_open n;
          (if is_err err then do { _ \<leftarrow> netif_close_dev n1; Some (nullptr, nw) }
           else do {
             (_, nw1) \<leftarrow> set_active a (upd_netif a n1 nw);
             Some (a, nw1\<lparr>nw_netifs := nw_netifs nw1 @ [a]\<rparr>)
           })
        })"

text \<open>\<open>netif_close\<close> of a position in the list; closing \<open>end()\<close> is undefined.\<close>

definition netif_close :: "nat \<Rightarrow> 'f network \<Rightarrow> (net_err \<times> 'f network) option" where
  "netif_close it nw = do {
     a \<leftarrow> nth_opt (nw_netifs nw) it;
     n \<leftarrow> net_ifs (nw_net nw) a;
     (if if_state n = NETIF_ACTIVE then Some (NET_ERR_STATE, nw)
      else do {
        _ \<leftarrow> netif_close_dev n;
        Some (NET_ERR_OK, upd_netif a (n\<lparr>if_state := NETIF_CLOSED\<rparr>)
          (nw\<lparr>nw_netifs := take it (nw_netifs nw) @ drop (Suc it) (nw_netifs nw)\<rparr>))
      })
   }"

text \<open>The queue operations by position; both \<open>put\<close> operations drop the result of the interface.\<close>

definition nw_get_buf_from_in_queue :: "nat \<Rightarrow> 'f network \<Rightarrow> (addr \<times> 'f network) option" where
  "nw_get_buf_from_in_queue it nw = do {
     a \<leftarrow> nth_opt (nw_netifs nw) it;
     on_net (get_buf_from_in_queue a) nw
   }"

definition nw_put_buf_to_in_queue :: "nat \<Rightarrow> addr \<Rightarrow> 'f network \<Rightarrow> (net_err \<times> 'f network) option" where
  "nw_put_buf_to_in_queue it buf nw = do {
     a \<leftarrow> nth_opt (nw_netifs nw) it;
     (_, nw1) \<leftarrow> on_net (put_buf_to_in_queue a buf) nw;
     Some (NET_ERR_OK, nw1)
   }"

definition nw_get_buf_from_out_queue :: "nat \<Rightarrow> 'f network \<Rightarrow> (addr \<times> 'f network) option" where
  "nw_get_buf_from_out_queue it nw = do {
     a \<leftarrow> nth_opt (nw_netifs nw) it;
     on_net (get_buf_from_out_queue a) nw
   }"

definition nw_put_buf_to_out_queue :: "nat \<Rightarrow> addr \<Rightarrow> 'f network \<Rightarrow> (net_err \<times> 'f network) option" where
  "nw_put_buf_to_out_queue it buf nw = do {
     a \<leftarrow> nth_opt (nw_netifs nw) it;
     (_, nw1) \<leftarrow> on_net (put_buf_to_out_queue a buf) nw;
     Some (NET_ERR_OK, nw1)
   }"

subsection \<open>The device threads\<close>

text \<open>
  One round of \<open>recv_func\<close> with the frame that \<open>pcap_next_ex\<close> delivered: \<open>len\<close> is its length on the wire,
  \<open>pkt_data\<close> the bytes that were captured.
\<close>

definition recv_step :: "addr \<Rightarrow> u32 \<Rightarrow> u8 list \<Rightarrow> 'f net \<Rightarrow> 'f net option" where
  "recv_step nif len pkt_data net = do {
     (buf, net1) \<leftarrow> on_store get_pktbuffer net;
     (if buf = nullptr then Some net1
      else do {
        (ok, net2) \<leftarrow> on_store (buf_alloc buf len True False) net1;
        (if \<not> ok then Some net2
         else do {
           net3 \<leftarrow> on_store0 (reset_access buf) net2;
           (_, net4) \<leftarrow> on_store (pkt_write buf (Some pkt_data) len) net3;
           (err, net5) \<leftarrow> put_buf_to_in_queue nif buf net4;
           (if is_err err then on_store0 (buf_free buf) net5 else Some net5)
         })
      })
   }"

definition RW_BUFFER_SIZE :: nat where "RW_BUFFER_SIZE = 1500 + 6 + 6 + 2"

text \<open>
  One round of \<open>send_func\<close>: the result is the frame handed to \<open>pcap_inject\<close>, if there was a packet. The
  static buffer is cleared before every packet.
\<close>

definition send_step :: "addr \<Rightarrow> 'f net \<Rightarrow> (u8 list option \<times> 'f net) option" where
  "send_step nif net = do {
     (buf, net1) \<leftarrow> get_buf_from_out_queue nif net;
     (if buf = nullptr then Some (None, net1)
      else do {
        b \<leftarrow> buf_heap (net_store net1) buf;
        let total_size = buf_capacity b;
        net2 \<leftarrow> on_store0 (reset_access buf) net1;
        (_, rw_buffer, st3) \<leftarrow> pkt_read buf (Some (replicate RW_BUFFER_SIZE 0)) total_size (net_store net2);
        st4 \<leftarrow> buf_free buf st3;
        bytes \<leftarrow> rw_buffer;
        frame \<leftarrow> bytes_get bytes 0 (unat total_size);
        Some (Some frame, net2\<lparr>net_store := st4\<rparr>)
      })
   }"

end
