(* ===== verification/StdSet.thy ===== *)
theory StdSet
  imports Prelude
begin

text \<open>
  \<open>std::set\<close> with a user-defined comparator, as the sources use it: a set is the list of its elements in
  iteration order, an iterator is an index into it (the length is \<open>end()\<close>). The comparator may fail,
  as one that follows pointers does. The contract \<open>keyed_order\<close> says that the comparator orders the
  objects of a heap by a key; under it the operations keep the list strictly sorted.
\<close>

fun set_insert :: "('a \<Rightarrow> 'a \<Rightarrow> bool option) \<Rightarrow> 'a \<Rightarrow> 'a list \<Rightarrow> 'a list option" where
  "set_insert cmp x [] = Some [x]"
| "set_insert cmp x (y # ys) = do {
     yx \<leftarrow> cmp y x;
     (if yx then do { zs \<leftarrow> set_insert cmp x ys; Some (y # zs) }
      else do {
        xy \<leftarrow> cmp x y;
        Some (if xy then x # y # ys else y # ys)
      })
   }"

fun set_lower_bound :: "('a \<Rightarrow> 'a \<Rightarrow> bool option) \<Rightarrow> 'a \<Rightarrow> 'a list \<Rightarrow> nat option" where
  "set_lower_bound cmp x [] = Some 0"
| "set_lower_bound cmp x (y # ys) = do {
     yx \<leftarrow> cmp y x;
     (if yx then map_option Suc (set_lower_bound cmp x ys) else Some 0)
   }"

definition set_find :: "('a \<Rightarrow> 'a \<Rightarrow> bool option) \<Rightarrow> 'a \<Rightarrow> 'a list \<Rightarrow> nat option" where
  "set_find cmp x ys = do {
     i \<leftarrow> set_lower_bound cmp x ys;
     (if i = length ys then Some i
      else do { xy \<leftarrow> cmp x (ys ! i); Some (if xy then length ys else i) })
   }"

text \<open>\<open>erase\<close> of an iterator; erasing \<open>end()\<close> is undefined.\<close>

definition set_erase :: "nat \<Rightarrow> 'a list \<Rightarrow> 'a list option" where
  "set_erase i ys = (if i < length ys then Some (take i ys @ drop (Suc i) ys) else None)"

lemma set_erase_middle [simp]: "set_erase (length xs) (xs @ y # ys) = Some (xs @ ys)"
  by (simp add: set_erase_def)

lemma sorted_keys_unique:
  fixes k :: "'a \<Rightarrow> 'k::linorder"
  assumes "sorted_wrt (\<lambda>a b. k a < k b) xs" "sorted_wrt (\<lambda>a b. k a < k b) ys" "set xs = set ys"
  shows "xs = ys"
  using assms
proof (induction xs arbitrary: ys)
  case (Cons x xs)
  then obtain y zs where ys: "ys = y # zs" by (cases ys) auto
  have "x = y"
  proof (rule ccontr)
    assume "x \<noteq> y"
    then have "x \<in> set zs" "y \<in> set xs" using Cons.prems(3) ys by auto
    then have "k y < k x" "k x < k y" using Cons.prems(1,2) ys by auto
    then show False by simp
  qed
  moreover have "x \<notin> set xs" "y \<notin> set zs" using Cons.prems(1,2) ys by auto
  ultimately have "set xs = set zs" using Cons.prems(3) ys by (simp add: insert_ident)
  with \<open>x = y\<close> show ?case using Cons.IH [of zs] Cons.prems(1,2) ys by simp
qed simp

locale keyed_order =
  fixes cmp :: "'h \<Rightarrow> 'a \<Rightarrow> 'a \<Rightarrow> bool option"
    and key :: "'h \<Rightarrow> 'a \<Rightarrow> 'k::linorder"
    and objs :: "'h \<Rightarrow> 'a set"
  assumes cmp_key: "a \<in> objs h \<Longrightarrow> b \<in> objs h \<Longrightarrow> cmp h a b = Some (key h a < key h b)"
begin

definition ordered :: "'h \<Rightarrow> 'a list \<Rightarrow> bool" where
  "ordered h xs \<longleftrightarrow> set xs \<subseteq> objs h \<and> sorted_wrt (\<lambda>a b. key h a < key h b) xs"

lemma ordered_simps [simp]:
  "ordered h []"
  "ordered h (x # xs) \<longleftrightarrow> x \<in> objs h \<and> (\<forall>y \<in> set xs. key h x < key h y) \<and> ordered h xs"
  "ordered h (xs @ ys) \<longleftrightarrow> ordered h xs \<and> ordered h ys \<and> (\<forall>x \<in> set xs. \<forall>y \<in> set ys. key h x < key h y)"
  by (auto simp: ordered_def sorted_wrt_append)

lemma ordered_distinct: "ordered h xs \<Longrightarrow> distinct xs"
  by (induction xs) auto

lemma ordered_unique: "ordered h xs \<Longrightarrow> ordered h ys \<Longrightarrow> set xs = set ys \<Longrightarrow> xs = ys"
  unfolding ordered_def by (rule sorted_keys_unique) auto

lemma insert_new:
  assumes "ordered h xs" "x \<in> objs h" "\<forall>y \<in> set xs. key h y \<noteq> key h x"
  obtains us vs where "xs = us @ vs" "set_insert (cmp h) x xs = Some (us @ x # vs)"
    "ordered h (us @ x # vs)"
proof -
  have "\<exists>us vs. xs = us @ vs \<and> set_insert (cmp h) x xs = Some (us @ x # vs) \<and> ordered h (us @ x # vs)"
    using assms
  proof (induction xs)
    case (Cons y ys)
    have cmp: "cmp h y x = Some (key h y < key h x)" "cmp h x y = Some (key h x < key h y)"
      using Cons.prems by (simp_all add: cmp_key)
    show ?case
    proof (cases "key h y < key h x")
      case True
      from Cons obtain us vs where "ys = us @ vs" "set_insert (cmp h) x ys = Some (us @ x # vs)"
        "ordered h (us @ x # vs)" by auto
      with True cmp Cons.prems show ?thesis by (intro exI [of _ "y # us"] exI [of _ vs]) auto
    next
      case False
      then have less: "key h x < key h y" using Cons.prems(3) by auto
      then have "set_insert (cmp h) x (y # ys) = Some (x # y # ys)" using cmp False by simp
      moreover have "ordered h (x # y # ys)" using Cons.prems less by fastforce
      ultimately show ?thesis by (intro exI [of _ "[]"] exI [of _ "y # ys"]) simp
    qed
  qed simp
  then show thesis using that by blast
qed

lemma lower_bound:
  assumes "ordered h xs" "x \<in> objs h"
  shows "set_lower_bound (cmp h) x xs = Some (length (takeWhile (\<lambda>y. key h y < key h x) xs))"
  using assms by (induction xs) (simp_all add: cmp_key)

lemma find_at:
  assumes "ordered h (us @ x # vs)"
  shows "set_find (cmp h) x (us @ x # vs) = Some (length us)"
proof -
  have x: "x \<in> objs h" using assms by simp
  have "takeWhile (\<lambda>y. key h y < key h x) (us @ x # vs) = us"
    using assms by (simp add: takeWhile_append2)
  then have "set_lower_bound (cmp h) x (us @ x # vs) = Some (length us)"
    using lower_bound [OF assms x] by simp
  then show ?thesis using x by (simp add: set_find_def cmp_key)
qed

lemma find_missing:
  assumes "ordered h xs" "x \<in> objs h" "\<forall>y \<in> set xs. key h y \<noteq> key h x"
  shows "set_find (cmp h) x xs = Some (length xs)"
proof -
  let ?l = "takeWhile (\<lambda>y. key h y < key h x) xs"
  show ?thesis
  proof (cases "length ?l < length xs")
    case True
    then have m: "xs ! length ?l \<in> set xs" "\<not> key h (xs ! length ?l) < key h x"
      using nth_length_takeWhile by auto
    then have "key h x < key h (xs ! length ?l)" "xs ! length ?l \<in> objs h"
      using assms by (auto simp: ordered_def)
    then show ?thesis using lower_bound [OF assms(1,2)] assms(2) True by (simp add: set_find_def cmp_key)
  next
    case False
    then have "length ?l = length xs" using length_takeWhile_le [of _ xs] by (simp add: le_antisym)
    then show ?thesis using lower_bound [OF assms(1,2)] by (simp add: set_find_def)
  qed
qed

text \<open>A list that is sorted in one heap is sorted in another that gives its elements the same keys.\<close>

lemma ordered_cong:
  assumes "\<And>x. x \<in> set xs \<Longrightarrow> x \<in> objs h' \<and> key h' x = key h x"
  shows "ordered h xs \<Longrightarrow> ordered h' xs"
  using assms by (induction xs) auto

end

subsection \<open>Maps\<close>

text \<open>\<open>std::map\<close>: \<open>m[k] = v\<close> and \<open>erase(k)\<close> on the list of entries in iteration order.\<close>

fun map_put :: "'k::linorder \<Rightarrow> 'v \<Rightarrow> ('k \<times> 'v) list \<Rightarrow> ('k \<times> 'v) list" where
  "map_put k v [] = [(k, v)]"
| "map_put k v ((k', v') # es) =
     (if k' < k then (k', v') # map_put k v es
      else if k < k' then (k, v) # (k', v') # es
      else (k, v) # es)"

definition map_erase :: "'k \<Rightarrow> ('k \<times> 'v) list \<Rightarrow> ('k \<times> 'v) list" where
  "map_erase k es = filter (\<lambda>e. fst e \<noteq> k) es"

definition sorted_map :: "('k::linorder \<times> 'v) list \<Rightarrow> bool" where
  "sorted_map es \<longleftrightarrow> sorted_wrt (<) (map fst es)"

lemma map_of_map_put [simp]: "map_of (map_put k v es) = (map_of es)(k \<mapsto> v)"
  by (induction es) auto

lemma fst_map_put [simp]: "fst ` set (map_put k v es) = insert k (fst ` set es)"
proof (induction es)
  case (Cons e es)
  obtain k' v' where e: "e = (k', v')" by fastforce
  then show ?case using Cons by (cases k k' rule: linorder_cases) (simp_all add: insert_commute)
qed simp

lemma sorted_map_put: "sorted_map es \<Longrightarrow> sorted_map (map_put k v es)"
proof (induction es)
  case (Cons e es)
  have "fst ` set (map_put k v es) = insert k (fst ` set es)" by simp
  then show ?case using Cons by (cases e) (auto simp: sorted_map_def)
qed (simp add: sorted_map_def)

lemma sorted_map_erase: "sorted_map es \<Longrightarrow> sorted_map (map_erase k es)"
  by (simp add: sorted_map_def map_erase_def sorted_wrt_map sorted_wrt_filter)

lemma map_put_last: "\<forall>e \<in> set es. fst e < k \<Longrightarrow> map_put k v es = es @ [(k, v)]"
  by (induction es) auto

lemma map_put_keys: "sorted_map es \<Longrightarrow> k \<in> fst ` set es \<Longrightarrow> map fst (map_put k v es) = map fst es"
proof (induction es)
  case (Cons e es)
  obtain k' v' where e: "e = (k', v')" by fastforce
  have "\<not> k < k'" using Cons.prems e by (auto simp: sorted_map_def dest: less_asym)
  then show ?case using Cons e by (auto simp: sorted_map_def)
qed simp

lemma map_of_erase: "map_of (map_erase k es) = (map_of es)(k := None)"
  by (rule ext, induction es) (auto simp: map_erase_def)

end
