(* ===== verification/Timer.thy ===== *)
theory Timer
  imports StdSet "HOL-Library.Product_Lexorder"
begin

text \<open>
  Timers (\<open>src/timer.h\<close>, \<open>src/timer.cc\<close>). A timer lives at an address; the manager keeps the armed
  timers in a \<open>std::set\<close> ordered by due time and address. Every function takes the time that
  \<open>get_current_ms\<close> returns during its call. The functions run under the manager's lock and are one
  step each. A callback (\<open>std::function\<close>) is \<open>None\<close> when it is empty.
\<close>

record 'f timer =
  t_recurring :: bool
  t_ms :: u64
  t_next :: u64
  t_cb :: "'f option"

type_synonym 'f timers = "addr \<rightharpoonup> 'f timer"

record 'f timer_manager =
  tm_heap :: "'f timers"
  tm_timers :: "addr list"
  tm_tickled :: bool
  tm_previous_time :: u64

text \<open>\<open>Timer::Comparator\<close>: null pointers first, then by due time, then by address.\<close>

definition timer_less :: "'f timers \<Rightarrow> addr \<Rightarrow> addr \<Rightarrow> bool option" where
  "timer_less h lhs rhs =
     (if lhs = nullptr \<and> rhs = nullptr then Some False
      else if lhs = nullptr then Some True
      else if rhs = nullptr then Some False
      else do {
        l \<leftarrow> h lhs;
        r \<leftarrow> h rhs;
        Some (if t_next l < t_next r then True
              else if t_next r < t_next l then False
              else lhs < rhs)
      })"

definition timer_new :: "u64 \<Rightarrow> u64 \<Rightarrow> 'f option \<Rightarrow> bool \<Rightarrow> 'f timer" where
  "timer_new now ms cb recurring = \<lparr>t_recurring = recurring, t_ms = ms, t_next = now + ms, t_cb = cb\<rparr>"

text \<open>The constructor for a bare due time, used as a search key.\<close>

definition timer_at :: "u64 \<Rightarrow> 'f timer" where
  "timer_at due = \<lparr>t_recurring = False, t_ms = 0, t_next = due, t_cb = None\<rparr>"

definition timer_manager_new :: "u64 \<Rightarrow> 'f timer_manager" where
  "timer_manager_new now = \<lparr>tm_heap = (\<lambda>_. None), tm_timers = [], tm_tickled = False, tm_previous_time = now\<rparr>"

text \<open>
  The protected \<open>add_timer\<close>: the result tells whether \<open>on_timer_inserted_at_front\<close> is called.
\<close>

definition insert_timer :: "addr \<Rightarrow> 'f timer_manager \<Rightarrow> (bool \<times> 'f timer_manager) option" where
  "insert_timer a tm = do {
     ts \<leftarrow> set_insert (timer_less (tm_heap tm)) a (tm_timers tm);
     i \<leftarrow> set_find (timer_less (tm_heap tm)) a ts;
     let at_front = (i = 0 \<and> \<not> tm_tickled tm);
     Some (at_front, tm\<lparr>tm_timers := ts, tm_tickled := (tm_tickled tm \<or> at_front)\<rparr>)
   }"

text \<open>The public \<open>add_timer\<close>; \<open>a\<close> is the address of the new object, which is also the handle returned.\<close>

definition add_timer :: "addr \<Rightarrow> u64 \<Rightarrow> u64 \<Rightarrow> 'f option \<Rightarrow> bool \<Rightarrow> 'f timer_manager
    \<Rightarrow> (bool \<times> 'f timer_manager) option" where
  "add_timer a now ms cb recurring tm =
     insert_timer a (tm\<lparr>tm_heap := (tm_heap tm)(a \<mapsto> timer_new now ms cb recurring)\<rparr>)"

definition cancel :: "addr \<Rightarrow> 'f timer_manager \<Rightarrow> (bool \<times> 'f timer_manager) option" where
  "cancel a tm = do {
     t \<leftarrow> tm_heap tm a;
     (if t_cb t \<noteq> None
      then do {
        let h = (tm_heap tm)(a \<mapsto> t\<lparr>t_cb := None\<rparr>);
        i \<leftarrow> set_find (timer_less h) a (tm_timers tm);
        ts \<leftarrow> set_erase i (tm_timers tm);
        Some (True, tm\<lparr>tm_heap := h, tm_timers := ts\<rparr>)
      }
      else Some (False, tm))
   }"

definition refresh :: "addr \<Rightarrow> u64 \<Rightarrow> 'f timer_manager \<Rightarrow> (bool \<times> 'f timer_manager) option" where
  "refresh a now tm = do {
     t \<leftarrow> tm_heap tm a;
     (if t_cb t = None then Some (False, tm)
      else do {
        i \<leftarrow> set_find (timer_less (tm_heap tm)) a (tm_timers tm);
        (if i = length (tm_timers tm) then Some (False, tm)
         else do {
           ts \<leftarrow> set_erase i (tm_timers tm);
           let h = (tm_heap tm)(a \<mapsto> t\<lparr>t_next := now + t_ms t\<rparr>);
           ts' \<leftarrow> set_insert (timer_less h) a ts;
           Some (True, tm\<lparr>tm_heap := h, tm_timers := ts'\<rparr>)
         })
      })
   }"

text \<open>\<open>reset\<close>: the result is the returned flag and whether the manager is tickled.\<close>

definition timer_reset :: "addr \<Rightarrow> u64 \<Rightarrow> bool \<Rightarrow> u64 \<Rightarrow> 'f timer_manager
    \<Rightarrow> ((bool \<times> bool) \<times> 'f timer_manager) option" where
  "timer_reset a ms from_now now tm = do {
     t \<leftarrow> tm_heap tm a;
     (if ms = t_ms t \<and> \<not> from_now then Some ((True, False), tm)
      else if t_cb t = None then Some ((False, False), tm)
      else do {
        i \<leftarrow> set_find (timer_less (tm_heap tm)) a (tm_timers tm);
        (if i = length (tm_timers tm) then Some ((False, False), tm)
         else do {
           ts \<leftarrow> set_erase i (tm_timers tm);
           let start = (if from_now then now else t_next t - t_ms t);
           let h = (tm_heap tm)(a \<mapsto> t\<lparr>t_ms := ms, t_next := start + ms\<rparr>);
           (tickle, tm') \<leftarrow> insert_timer a (tm\<lparr>tm_heap := h, tm_timers := ts\<rparr>);
           Some ((True, tickle), tm')
         })
      })
   }"

definition NO_TIMER :: u64 where "NO_TIMER = - 1"

definition get_next_time :: "u64 \<Rightarrow> 'f timer_manager \<Rightarrow> (u64 \<times> 'f timer_manager) option" where
  "get_next_time now tm =
     (case tm_timers tm of
        [] \<Rightarrow> Some (NO_TIMER, tm\<lparr>tm_tickled := False\<rparr>)
      | a # _ \<Rightarrow> do {
          t \<leftarrow> tm_heap tm a;
          Some (if t_next t \<le> now then 0 else t_next t - now, tm\<lparr>tm_tickled := False\<rparr>)
        })"

definition has_timer :: "'f timer_manager \<Rightarrow> bool" where
  "has_timer tm \<longleftrightarrow> tm_timers tm \<noteq> []"

text \<open>The clock went back by more than an hour, computed on unsigned integers.\<close>

definition clock_rolled_over :: "u64 \<Rightarrow> u64 \<Rightarrow> bool" where
  "clock_rolled_over now_ms previous \<longleftrightarrow> now_ms < previous \<and> now_ms < previous - 60 * 60 * 1000"

definition detect_clock_roll_over :: "u64 \<Rightarrow> 'f timer_manager \<Rightarrow> bool \<times> 'f timer_manager" where
  "detect_clock_roll_over now_ms tm =
     (clock_rolled_over now_ms (tm_previous_time tm), tm\<lparr>tm_previous_time := now_ms\<rparr>)"

text \<open>The loop that passes the timers due exactly now.\<close>

function skip_due :: "'f timers \<Rightarrow> addr list \<Rightarrow> u64 \<Rightarrow> nat \<Rightarrow> nat option" where
  "skip_due h ts now_ms it =
     (if it < length ts
      then do {
        t \<leftarrow> h (ts ! it);
        (if t_next t = now_ms then skip_due h ts now_ms (Suc it) else Some it)
      }
      else Some it)"
  by auto
termination by (relation "measure (\<lambda>(h, ts, n, it). length ts - it)") auto

declare skip_due.simps [simp del]

text \<open>The callbacks of the expired timers, which are armed again or lose their callback.\<close>

fun collect_expired :: "u64 \<Rightarrow> addr list \<Rightarrow> 'f timer_manager \<Rightarrow> ('f option list \<times> 'f timer_manager) option" where
  "collect_expired now_ms [] tm = Some ([], tm)"
| "collect_expired now_ms (a # expired) tm = do {
     t \<leftarrow> tm_heap tm a;
     tm1 \<leftarrow> (if t_recurring t
       then do {
         let h = (tm_heap tm)(a \<mapsto> t\<lparr>t_next := now_ms + t_ms t\<rparr>);
         ts \<leftarrow> set_insert (timer_less h) a (tm_timers tm);
         Some (tm\<lparr>tm_heap := h, tm_timers := ts\<rparr>)
       }
       else Some (tm\<lparr>tm_heap := (tm_heap tm)(a \<mapsto> t\<lparr>t_cb := None\<rparr>)\<rparr>));
     (cbs, tm2) \<leftarrow> collect_expired now_ms expired tm1;
     Some (t_cb t # cbs, tm2)
   }"

text \<open>
  \<open>list_expired_cb\<close>; \<open>tmp\<close> is the address of the temporary timer the search uses. The result holds the
  addresses of the expired timers beside their callbacks.
\<close>

definition list_expired_cb :: "u64 \<Rightarrow> addr \<Rightarrow> 'f timer_manager
    \<Rightarrow> ((addr list \<times> 'f option list) \<times> 'f timer_manager) option" where
  "list_expired_cb now_ms tmp tm =
     (case tm_timers tm of
        [] \<Rightarrow> Some (([], []), tm)
      | a # _ \<Rightarrow> do {
          let (roll_over, tm1) = detect_clock_roll_over now_ms tm;
          t \<leftarrow> tm_heap tm a;
          (if \<not> roll_over \<and> now_ms < t_next t then Some (([], []), tm1)
           else do {
             let h = (tm_heap tm)(tmp \<mapsto> timer_at now_ms);
             it \<leftarrow> (if roll_over then Some (length (tm_timers tm))
                     else set_lower_bound (timer_less h) tmp (tm_timers tm));
             it' \<leftarrow> skip_due (tm_heap tm) (tm_timers tm) now_ms it;
             let expired = take it' (tm_timers tm);
             (cbs, tm2) \<leftarrow> collect_expired now_ms expired (tm1\<lparr>tm_timers := drop it' (tm_timers tm)\<rparr>);
             Some ((expired, cbs), tm2)
           })
        })"

text \<open>
  Condition timers: the callback is bound to a weak pointer and does nothing when the object is gone;
  an empty inner callback throws.
\<close>

datatype 'f callback = Plain 'f | On_timer addr "'f option"

datatype 'f called = Calls 'f | Calls_nothing | Throws_bad_function_call

fun on_timer :: "(addr \<Rightarrow> bool) \<Rightarrow> 'f callback \<Rightarrow> 'f called" where
  "on_timer alive (Plain f) = Calls f"
| "on_timer alive (On_timer weak_cond cb) =
     (if alive weak_cond then (case cb of Some f \<Rightarrow> Calls f | None \<Rightarrow> Throws_bad_function_call)
      else Calls_nothing)"

definition add_condition_timer :: "addr \<Rightarrow> u64 \<Rightarrow> u64 \<Rightarrow> 'f option \<Rightarrow> addr \<Rightarrow> bool
    \<Rightarrow> 'f callback timer_manager \<Rightarrow> (bool \<times> 'f callback timer_manager) option" where
  "add_condition_timer a now ms cb weak_cond recurring tm =
     add_timer a now ms (Some (On_timer weak_cond cb)) recurring tm"

subsection \<open>The comparator orders by due time and address\<close>

definition timer_key :: "'f timers \<Rightarrow> addr \<Rightarrow> u64 \<times> addr" where
  "timer_key h a = (case h a of Some t \<Rightarrow> t_next t | None \<Rightarrow> 0, a)"

definition timer_objs :: "'f timers \<Rightarrow> addr set" where
  "timer_objs h = dom h - {nullptr}"

interpretation tset: keyed_order timer_less timer_key timer_objs
  by unfold_locales (auto simp: timer_less_def timer_key_def timer_objs_def)

text \<open>
  The manager's invariant: the armed timers are strictly sorted, and a timer that has a callback is armed.
\<close>

definition tm_inv :: "'f timer_manager \<Rightarrow> bool" where
  "tm_inv tm \<longleftrightarrow> tset.ordered (tm_heap tm) (tm_timers tm) \<and> nullptr \<notin> dom (tm_heap tm)
     \<and> (\<forall>a t. tm_heap tm a = Some t \<and> t_cb t \<noteq> None \<longrightarrow> a \<in> set (tm_timers tm))"

lemma timer_key_inj [simp]: "timer_key h a = timer_key h' b \<Longrightarrow> a = b"
  by (simp add: timer_key_def)

lemma timer_key_upd [simp]:
  "timer_key (h(a \<mapsto> t)) b = (if b = a then (t_next t, a) else timer_key h b)"
  by (simp add: timer_key_def)

lemma timer_objs_upd [simp]: "timer_objs (h(a \<mapsto> t)) = (if a = nullptr then timer_objs h else insert a (timer_objs h))"
  by (auto simp: timer_objs_def)

lemma ordered_objs: "tset.ordered h xs \<Longrightarrow> x \<in> set xs \<Longrightarrow> x \<in> timer_objs h"
  by (auto simp: tset.ordered_def)

lemma ordered_upd_other:
  assumes "a \<notin> set xs" "tset.ordered h xs"
  shows "tset.ordered (h(a \<mapsto> t)) xs"
  using assms by (intro tset.ordered_cong [OF _ assms(2)]) (auto simp: ordered_objs)

lemma ordered_upd_same:
  assumes "h a = Some t" "t_next t' = t_next t" "tset.ordered h xs"
  shows "tset.ordered (h(a \<mapsto> t')) xs"
proof (rule tset.ordered_cong [OF _ assms(3)])
  fix x assume "x \<in> set xs"
  then have "x \<in> timer_objs h" using assms(3) by (rule ordered_objs [rotated])
  then show "x \<in> timer_objs (h(a \<mapsto> t')) \<and> timer_key (h(a \<mapsto> t')) x = timer_key h x"
    using assms(1,2) by (auto simp: timer_objs_def timer_key_def)
qed

lemma tm_invI:
  "tset.ordered (tm_heap tm) (tm_timers tm) \<Longrightarrow> tm_heap tm nullptr = None
   \<Longrightarrow> (\<And>a t y. tm_heap tm a = Some t \<Longrightarrow> t_cb t = Some y \<Longrightarrow> a \<in> set (tm_timers tm)) \<Longrightarrow> tm_inv tm"
  by (auto simp: tm_inv_def)

lemma tm_invD:
  assumes "tm_inv tm"
  shows "tset.ordered (tm_heap tm) (tm_timers tm)" "tm_heap tm nullptr = None"
    "tm_heap tm a = Some t \<Longrightarrow> t_cb t = Some y \<Longrightarrow> a \<in> set (tm_timers tm)"
  using assms by (auto simp: tm_inv_def)

lemma or_and_not [simp]: "(p \<or> q \<and> \<not> p) = (p \<or> q)"
  by auto

lemma insert_timer_run:
  assumes "tset.ordered (tm_heap tm) (tm_timers tm)" "a \<in> timer_objs (tm_heap tm)" "a \<notin> set (tm_timers tm)"
  obtains us vs where "tm_timers tm = us @ vs" "tset.ordered (tm_heap tm) (us @ a # vs)"
    "insert_timer a tm = Some (us = [] \<and> \<not> tm_tickled tm,
       tm\<lparr>tm_timers := us @ a # vs, tm_tickled := (tm_tickled tm \<or> us = [])\<rparr>)"
proof -
  have "\<forall>y \<in> set (tm_timers tm). timer_key (tm_heap tm) y \<noteq> timer_key (tm_heap tm) a"
    using assms(3) timer_key_inj by blast
  from tset.insert_new [OF assms(1,2) this] obtain us vs where
    i: "tm_timers tm = us @ vs" "set_insert (timer_less (tm_heap tm)) a (tm_timers tm) = Some (us @ a # vs)"
    "tset.ordered (tm_heap tm) (us @ a # vs)" by blast
  then have "insert_timer a tm = Some (us = [] \<and> \<not> tm_tickled tm,
       tm\<lparr>tm_timers := us @ a # vs, tm_tickled := (tm_tickled tm \<or> us = [])\<rparr>)"
    using tset.find_at [OF i(3)] by (auto simp: insert_timer_def Let_def)
  with i show thesis using that by blast
qed

text \<open>What an operation does to a single timer; all others keep their state.\<close>

lemma add_timer_run:
  assumes inv: "tm_inv tm" and a: "a \<noteq> nullptr" "tm_heap tm a = None"
  obtains us vs where "tm_timers tm = us @ vs"
    "add_timer a now ms cb recurring tm = Some (us = [] \<and> \<not> tm_tickled tm,
       tm\<lparr>tm_heap := (tm_heap tm)(a \<mapsto> timer_new now ms cb recurring), tm_timers := us @ a # vs,
          tm_tickled := (tm_tickled tm \<or> us = [])\<rparr>)"
    "tm_inv (tm\<lparr>tm_heap := (tm_heap tm)(a \<mapsto> timer_new now ms cb recurring), tm_timers := us @ a # vs,
          tm_tickled := (tm_tickled tm \<or> us = [])\<rparr>)"
proof -
  let ?h = "(tm_heap tm)(a \<mapsto> timer_new now ms cb recurring)"
  have ord: "tset.ordered (tm_heap tm) (tm_timers tm)" using inv by (simp add: tm_inv_def)
  then have new: "a \<notin> set (tm_timers tm)" using ordered_objs a(2) by (fastforce simp: timer_objs_def)
  then have "tset.ordered ?h (tm_timers tm)" using ord by (rule ordered_upd_other)
  with insert_timer_run [of "tm\<lparr>tm_heap := ?h\<rparr>" a] new a(1)
  obtain us vs where i: "tm_timers tm = us @ vs" "tset.ordered ?h (us @ a # vs)"
    "insert_timer a (tm\<lparr>tm_heap := ?h\<rparr>) = Some (us = [] \<and> \<not> tm_tickled tm,
       tm\<lparr>tm_heap := ?h, tm_timers := us @ a # vs, tm_tickled := (tm_tickled tm \<or> us = [])\<rparr>)"
    by auto
  moreover have "tm_inv (tm\<lparr>tm_heap := ?h, tm_timers := us @ a # vs, tm_tickled := (tm_tickled tm \<or> us = [])\<rparr>)"
    using inv i(1,2) a(1) by (auto simp: tm_inv_def)
  ultimately show thesis using that by (simp add: add_timer_def)
qed

lemma armed_split:
  assumes inv: "tm_inv tm" and t: "tm_heap tm a = Some t" "t_cb t \<noteq> None"
  obtains us vs where "tm_timers tm = us @ a # vs" "a \<notin> set us" "a \<notin> set vs" "a \<noteq> nullptr"
    "tset.ordered (tm_heap tm) (us @ a # vs)"
    "set_find (timer_less (tm_heap tm)) a (tm_timers tm) = Some (length us)"
proof -
  have ord: "tset.ordered (tm_heap tm) (tm_timers tm)" and "a \<in> set (tm_timers tm)"
    using inv t by (auto simp: tm_inv_def)
  then obtain us vs where ts: "tm_timers tm = us @ a # vs" by (meson split_list)
  with ord have "a \<notin> set us" "a \<notin> set vs" "a \<noteq> nullptr"
    using tset.ordered_distinct [OF ord] ordered_objs [OF ord, of a] by (auto simp: timer_objs_def)
  with ts ord tset.find_at [of "tm_heap tm" us a vs] show thesis using that by simp
qed

lemma cancel_run:
  assumes inv: "tm_inv tm" and t: "tm_heap tm a = Some t"
  shows "\<exists>tm'. cancel a tm = Some (t_cb t \<noteq> None, tm') \<and> tm_inv tm'
     \<and> tm_heap tm' = (tm_heap tm)(a \<mapsto> t\<lparr>t_cb := None\<rparr>)
     \<and> set (tm_timers tm') = (if t_cb t = None then set (tm_timers tm) else set (tm_timers tm) - {a})
     \<and> (t_cb t = None \<longrightarrow> tm' = tm)"
proof (cases "t_cb t = None")
  case True
  then have "(tm_heap tm)(a \<mapsto> t\<lparr>t_cb := None\<rparr>) = tm_heap tm" using t by (auto simp: fun_eq_iff)
  then show ?thesis using True t inv by (simp add: cancel_def)
next
  case False
  let ?h = "(tm_heap tm)(a \<mapsto> t\<lparr>t_cb := None\<rparr>)"
  obtain us vs where s: "tm_timers tm = us @ a # vs" "a \<notin> set us" "a \<notin> set vs" "a \<noteq> nullptr"
    "tset.ordered (tm_heap tm) (us @ a # vs)" using armed_split [OF inv t False] by metis
  have ord: "tset.ordered ?h (us @ a # vs)" using t s(5) by (intro ordered_upd_same) simp_all
  from tset.find_at [OF ord] have "cancel a tm = Some (True, tm\<lparr>tm_heap := ?h, tm_timers := us @ vs\<rparr>)"
    using t False s(1) by (simp add: cancel_def Let_def)
  moreover have "tm_inv (tm\<lparr>tm_heap := ?h, tm_timers := us @ vs\<rparr>)"
    using tm_invD(1,2) [OF inv] ord s(1,4)
    by (intro tm_invI) (auto split: if_splits dest!: tm_invD(3) [OF inv])
  ultimately show ?thesis using False s(1-3) by (intro exI [of _ "tm\<lparr>tm_heap := ?h, tm_timers := us @ vs\<rparr>"]) auto
qed

text \<open>Taking an armed timer out, giving it another due time and putting it back.\<close>

lemma rearm:
  assumes inv: "tm_inv tm" and t: "tm_heap tm a = Some t" and ts: "tm_timers tm = us @ a # vs"
    and t': "t_cb t' = t_cb t"
  obtains xs ys where "us @ vs = xs @ ys"
    "insert_timer a (tm\<lparr>tm_heap := (tm_heap tm)(a \<mapsto> t'), tm_timers := us @ vs\<rparr>)
       = Some (xs = [] \<and> \<not> tm_tickled tm, tm\<lparr>tm_heap := (tm_heap tm)(a \<mapsto> t'),
           tm_timers := xs @ a # ys, tm_tickled := (tm_tickled tm \<or> xs = [])\<rparr>)"
    "set_insert (timer_less ((tm_heap tm)(a \<mapsto> t'))) a (us @ vs) = Some (xs @ a # ys)"
    "\<And>b. tm_inv (tm\<lparr>tm_heap := (tm_heap tm)(a \<mapsto> t'), tm_timers := xs @ a # ys, tm_tickled := b\<rparr>)"
proof -
  let ?h = "(tm_heap tm)(a \<mapsto> t')"
  have ord: "tset.ordered (tm_heap tm) (us @ a # vs)" using inv ts by (simp add: tm_inv_def)
  then have a: "a \<notin> set (us @ vs)" "a \<noteq> nullptr"
    using tset.ordered_distinct [OF ord] ordered_objs [OF ord, of a] by (auto simp: timer_objs_def)
  have "tset.ordered (tm_heap tm) (us @ vs)" using ord by auto
  then have ord': "tset.ordered ?h (us @ vs)" using a(1) by (intro ordered_upd_other)
  have objs: "a \<in> timer_objs ?h" using a(2) by simp
  have keys: "\<forall>y \<in> set (us @ vs). timer_key ?h y \<noteq> timer_key ?h a" using a(1) timer_key_inj by blast
  obtain xs ys where i: "us @ vs = xs @ ys" "set_insert (timer_less ?h) a (us @ vs) = Some (xs @ a # ys)"
    "tset.ordered ?h (xs @ a # ys)" using tset.insert_new [OF ord' objs keys] by blast
  have "insert_timer a (tm\<lparr>tm_heap := ?h, tm_timers := us @ vs\<rparr>)
       = Some (xs = [] \<and> \<not> tm_tickled tm, tm\<lparr>tm_heap := ?h, tm_timers := xs @ a # ys,
           tm_tickled := (tm_tickled tm \<or> xs = [])\<rparr>)"
    using i(2) tset.find_at [OF i(3)] by (auto simp: insert_timer_def Let_def)
  moreover have "set (xs @ a # ys) = set (tm_timers tm)" using i(1) ts by (metis Un_insert_right list.simps(15) set_append)
  then have "tm_inv (tm\<lparr>tm_heap := ?h, tm_timers := xs @ a # ys, tm_tickled := b\<rparr>)" for b
    using tm_invD(1,2) [OF inv] i(3) a(2) t t'
    by (intro tm_invI) (auto split: if_splits dest!: tm_invD(3) [OF inv])
  ultimately show thesis using i that by blast
qed

lemma refresh_run:
  assumes inv: "tm_inv tm" and t: "tm_heap tm a = Some t"
  shows "\<exists>tm'. refresh a now tm = Some (t_cb t \<noteq> None, tm') \<and> tm_inv tm'
     \<and> set (tm_timers tm') = set (tm_timers tm) \<and> tm_previous_time tm' = tm_previous_time tm
     \<and> tm_heap tm' = (if t_cb t = None then tm_heap tm
                      else (tm_heap tm)(a \<mapsto> t\<lparr>t_next := now + t_ms t\<rparr>))"
proof (cases "t_cb t = None")
  case True
  then show ?thesis using inv t by (simp add: refresh_def)
next
  case False
  obtain us vs where s: "tm_timers tm = us @ a # vs"
    "set_find (timer_less (tm_heap tm)) a (tm_timers tm) = Some (length us)"
    using armed_split [OF inv t False] by metis
  let ?t = "t\<lparr>t_next := now + t_ms t\<rparr>" and ?b = "tm_tickled tm"
  have same: "t_cb ?t = t_cb t" by simp
  obtain xs ys where r: "us @ vs = xs @ ys"
    "set_insert (timer_less ((tm_heap tm)(a \<mapsto> ?t))) a (us @ vs) = Some (xs @ a # ys)"
    "\<And>b. tm_inv (tm\<lparr>tm_heap := (tm_heap tm)(a \<mapsto> ?t), tm_timers := xs @ a # ys, tm_tickled := b\<rparr>)"
    by (rule rearm [OF inv t s(1) same]) (rule that; assumption)
  have "set us \<union> set vs = set xs \<union> set ys" using r(1) by (metis set_append)
  moreover have "refresh a now tm
      = Some (True, tm\<lparr>tm_heap := (tm_heap tm)(a \<mapsto> ?t), tm_timers := xs @ a # ys, tm_tickled := ?b\<rparr>)"
    using t False s r(2) by (simp add: refresh_def Let_def)
  ultimately show ?thesis using False s(1) r(3) [of ?b] by auto
qed

lemma timer_reset_run:
  assumes inv: "tm_inv tm" and t: "tm_heap tm a = Some t"
  shows "\<exists>tickle tm'. timer_reset a ms from_now now tm
       = Some ((ms = t_ms t \<and> \<not> from_now \<or> t_cb t \<noteq> None, tickle), tm') \<and> tm_inv tm'
     \<and> set (tm_timers tm') = set (tm_timers tm) \<and> tm_previous_time tm' = tm_previous_time tm
     \<and> tm_heap tm' = (if ms = t_ms t \<and> \<not> from_now \<or> t_cb t = None then tm_heap tm
          else (tm_heap tm)(a \<mapsto> t\<lparr>t_ms := ms, t_next := (if from_now then now else t_next t - t_ms t) + ms\<rparr>))"
proof (cases "ms = t_ms t \<and> \<not> from_now \<or> t_cb t = None")
  case True
  then show ?thesis using inv t by (auto simp: timer_reset_def)
next
  case False
  then have cb: "t_cb t \<noteq> None" by simp
  obtain us vs where s: "tm_timers tm = us @ a # vs"
    "set_find (timer_less (tm_heap tm)) a (tm_timers tm) = Some (length us)"
    using armed_split [OF inv t cb] by metis
  let ?t' = "t\<lparr>t_ms := ms, t_next := (if from_now then now else t_next t - t_ms t) + ms\<rparr>"
  have same: "t_cb ?t' = t_cb t" by simp
  obtain xs ys where r: "us @ vs = xs @ ys"
    "insert_timer a (tm\<lparr>tm_heap := (tm_heap tm)(a \<mapsto> ?t'), tm_timers := us @ vs\<rparr>)
       = Some (xs = [] \<and> \<not> tm_tickled tm, tm\<lparr>tm_heap := (tm_heap tm)(a \<mapsto> ?t'),
           tm_timers := xs @ a # ys, tm_tickled := (tm_tickled tm \<or> xs = [])\<rparr>)"
    "\<And>b. tm_inv (tm\<lparr>tm_heap := (tm_heap tm)(a \<mapsto> ?t'), tm_timers := xs @ a # ys, tm_tickled := b\<rparr>)"
    by (rule rearm [OF inv t s(1) same]) (rule that; assumption)
  have "set us \<union> set vs = set xs \<union> set ys" using r(1) by (metis set_append)
  moreover have "timer_reset a ms from_now now tm = Some ((True, xs = [] \<and> \<not> tm_tickled tm),
      tm\<lparr>tm_heap := (tm_heap tm)(a \<mapsto> ?t'), tm_timers := xs @ a # ys, tm_tickled := (tm_tickled tm \<or> xs = [])\<rparr>)"
    using t False s r(2) by (auto simp: timer_reset_def Let_def)
  moreover have "\<not> (ms = t_ms t \<and> \<not> from_now \<or> t_cb t = None)" by (rule False)
  ultimately show ?thesis using s(1) r(3) unfolding if_not_P [OF False] by auto
qed

subsection \<open>Expiry\<close>

text \<open>What happens to an expired timer.\<close>

definition renew :: "u64 \<Rightarrow> 'f timer \<Rightarrow> 'f timer" where
  "renew now t = (if t_recurring t then t\<lparr>t_next := now + t_ms t\<rparr> else t\<lparr>t_cb := None\<rparr>)"

lemma collect_expired_run:
  assumes "tset.ordered (tm_heap tm) (tm_timers tm)" "distinct expired" "set expired \<subseteq> timer_objs (tm_heap tm)"
    "set expired \<inter> set (tm_timers tm) = {}"
  shows "\<exists>ts. collect_expired now expired tm
       = Some (map (\<lambda>a. t_cb (the (tm_heap tm a))) expired,
           tm\<lparr>tm_heap := (\<lambda>a. if a \<in> set expired then map_option (renew now) (tm_heap tm a) else tm_heap tm a),
              tm_timers := ts\<rparr>)
     \<and> tset.ordered (\<lambda>a. if a \<in> set expired then map_option (renew now) (tm_heap tm a) else tm_heap tm a) ts
     \<and> set ts = set (tm_timers tm) \<union> {a \<in> set expired. t_recurring (the (tm_heap tm a))}"
  using assms
proof (induction expired arbitrary: tm)
  case (Cons a expired)
  then obtain t where t: "tm_heap tm a = Some t" "a \<noteq> nullptr" by (auto simp: timer_objs_def)
  define h where "h = (tm_heap tm)(a \<mapsto> renew now t)"
  have new: "a \<notin> set (tm_timers tm)" "a \<notin> set expired" using Cons.prems by auto
  have ord: "tset.ordered h (tm_timers tm)"
    unfolding h_def using new(1) Cons.prems(1) by (rule ordered_upd_other)
  obtain ts where ts: "(if t_recurring t
       then do {
         let h = (tm_heap tm)(a \<mapsto> t\<lparr>t_next := now + t_ms t\<rparr>);
         ts \<leftarrow> set_insert (timer_less h) a (tm_timers tm);
         Some (tm\<lparr>tm_heap := h, tm_timers := ts\<rparr>)
       }
       else Some (tm\<lparr>tm_heap := (tm_heap tm)(a \<mapsto> t\<lparr>t_cb := None\<rparr>)\<rparr>)) = Some (tm\<lparr>tm_heap := h, tm_timers := ts\<rparr>)"
    "tset.ordered h ts" "set ts = set (tm_timers tm) \<union> (if t_recurring t then {a} else {})"
  proof (cases "t_recurring t")
    case True
    have "a \<in> timer_objs h" "\<forall>y \<in> set (tm_timers tm). timer_key h y \<noteq> timer_key h a"
      using t(2) new(1) by (auto simp: h_def timer_key_def)
    from tset.insert_new [OF ord this] obtain us vs where "tm_timers tm = us @ vs"
      "set_insert (timer_less h) a (tm_timers tm) = Some (us @ a # vs)" "tset.ordered h (us @ a # vs)" by blast
    then show ?thesis using that [of "us @ a # vs"] True by (auto simp: h_def renew_def)
  next
    case False
    then show ?thesis using that [of "tm_timers tm"] ord by (simp add: h_def renew_def)
  qed
  let ?tm = "tm\<lparr>tm_heap := h, tm_timers := ts\<rparr>"
  have same: "tm_heap ?tm b = tm_heap tm b" if "b \<in> set expired" for b
    using that new(2) by (auto simp: h_def)
  have "set expired \<subseteq> timer_objs (tm_heap ?tm)" "set expired \<inter> set (tm_timers ?tm) = {}"
    using Cons.prems ts(3) new(2) t(2) by (auto simp: h_def)
  moreover have "tset.ordered (tm_heap ?tm) (tm_timers ?tm)" "distinct expired"
    using ts(2) Cons.prems(2) by simp_all
  ultimately obtain ts' where r0: "collect_expired now expired ?tm
       = Some (map (\<lambda>a. t_cb (the (tm_heap ?tm a))) expired,
           ?tm\<lparr>tm_heap := (\<lambda>a. if a \<in> set expired then map_option (renew now) (tm_heap ?tm a) else tm_heap ?tm a),
              tm_timers := ts'\<rparr>)"
     "tset.ordered (\<lambda>a. if a \<in> set expired then map_option (renew now) (tm_heap ?tm a) else tm_heap ?tm a) ts'"
     "set ts' = set (tm_timers ?tm) \<union> {a \<in> set expired. t_recurring (the (tm_heap ?tm a))}"
    using Cons.IH [of ?tm] by blast
  have tm: "tm_heap ?tm = h" "tm_timers ?tm = ts" by simp_all
  have r: "collect_expired now expired ?tm = Some (map (\<lambda>a. t_cb (the (h a))) expired,
        tm\<lparr>tm_heap := (\<lambda>a. if a \<in> set expired then map_option (renew now) (h a) else h a), tm_timers := ts'\<rparr>)"
    "tset.ordered (\<lambda>a. if a \<in> set expired then map_option (renew now) (h a) else h a) ts'"
    "set ts' = set ts \<union> {a \<in> set expired. t_recurring (the (h a))}"
    using r0 unfolding tm by simp_all
  have h: "(\<lambda>b. if b \<in> set expired then map_option (renew now) (h b) else h b)
      = (\<lambda>b. if b \<in> set (a # expired) then map_option (renew now) (tm_heap tm b) else tm_heap tm b)"
    using new(2) t(1) by (auto simp: h_def fun_eq_iff)
  have "map (\<lambda>b. t_cb (the (h b))) expired = map (\<lambda>b. t_cb (the (tm_heap tm b))) expired"
    using same by (intro map_cong) auto
  then have "collect_expired now (a # expired) tm = Some (map (\<lambda>a. t_cb (the (tm_heap tm a))) (a # expired),
      tm\<lparr>tm_heap := (\<lambda>b. if b \<in> set (a # expired) then map_option (renew now) (tm_heap tm b) else tm_heap tm b),
         tm_timers := ts'\<rparr>)"
    using t(1) ts(1) r(1) unfolding h by simp
  moreover have "set ts' = set (tm_timers tm) \<union> {b \<in> set (a # expired). t_recurring (the (tm_heap tm b))}"
    using r(3) ts(3) t(1) same by auto
  ultimately show ?case using r(2) unfolding h by blast
next
  case Nil
  then show ?case by (intro exI [of _ "tm_timers tm"]) simp
qed


lemma skip_due_run:
  assumes "set ts \<subseteq> dom h" "i \<le> length ts"
  shows "skip_due h ts now i = Some (i + length (takeWhile (\<lambda>a. t_next (the (h a)) = now) (drop i ts)))"
  using assms(2)
proof (induction "length ts - i" arbitrary: i)
  case 0
  then show ?case by (simp add: skip_due.simps)
next
  case (Suc n)
  then have i: "i < length ts" by simp
  then obtain t where "h (ts ! i) = Some t" using assms(1) nth_mem by blast
  then show ?case using Suc.hyps(1) [of "Suc i"] Suc.hyps(2) i
    by (subst skip_due.simps) (simp add: Cons_nth_drop_Suc [OF i, symmetric])
qed

text \<open>
  The search by due time and address, followed by the loop, finds the end of the timers that are due,
  wherever the temporary timer lies in memory.
\<close>

lemma expired_prefix:
  fixes now :: u64
  assumes "tset.ordered h ts" "tmp \<notin> set ts"
  defines "us \<equiv> takeWhile (\<lambda>a. timer_key (h(tmp \<mapsto> timer_at now)) a < (now, tmp)) ts"
  shows "length us + length (takeWhile (\<lambda>a. t_next (the (h a)) = now) (drop (length us) ts))
    = length (takeWhile (\<lambda>a. t_next (the (h a)) \<le> now) ts)"
  using assms(1,2) unfolding us_def
proof (induction ts)
  case (Cons a ts)
  then have "a \<in> timer_objs h" by simp
  then obtain t where t: "h a = Some t" by (auto simp: timer_objs_def)
  have key: "timer_key (h(tmp \<mapsto> timer_at now)) a = (t_next t, a)"
    using t Cons.prems(2) by (simp add: timer_key_def)
  show ?case
  proof (cases "(t_next t, a) < (now, tmp)")
    case True
    then have "t_next t \<le> now" by auto
    then show ?thesis using Cons True key t by (simp del: fun_upd_apply)
  next
    case False
    then have ge: "now \<le> t_next t" by auto
    have "t_next (the (h b)) = now \<longleftrightarrow> t_next (the (h b)) \<le> now" if "b \<in> set (a # ts)" for b
    proof (cases "b = a")
      case False
      with that have "timer_key h a < timer_key h b" "b \<in> timer_objs h"
        using Cons.prems(1) ordered_objs by auto
      then have "now \<le> t_next (the (h b))" using t ge by (auto simp: timer_key_def timer_objs_def)
      then show ?thesis by auto
    qed (use t ge in auto)
    then have eq: "takeWhile (\<lambda>b. t_next (the (h b)) = now) (a # ts)
        = takeWhile (\<lambda>b. t_next (the (h b)) \<le> now) (a # ts)"
      by (intro takeWhile_cong) auto
    have none: "takeWhile (\<lambda>b. timer_key (h(tmp \<mapsto> timer_at now)) b < (now, tmp)) (a # ts) = []"
      unfolding takeWhile.simps key using False by simp
    show ?thesis unfolding none list.size(3) drop_0 add_0 eq ..
  qed
qed simp

definition due :: "u64 \<Rightarrow> 'f timer_manager \<Rightarrow> addr \<Rightarrow> bool" where
  "due now tm a \<longleftrightarrow> t_next (the (tm_heap tm a)) \<le> now"

text \<open>The timers that are due are a prefix of the set.\<close>

lemma due_prefix:
  "tset.ordered (tm_heap tm) ts \<Longrightarrow> takeWhile (due now tm) ts = filter (due now tm) ts"
proof (induction ts)
  case (Cons a ts)
  show ?case
  proof (cases "due now tm a")
    case False
    have "\<not> due now tm b" if "b \<in> set ts" for b
    proof -
      have "timer_key (tm_heap tm) a < timer_key (tm_heap tm) b" "a \<in> timer_objs (tm_heap tm)"
        "b \<in> timer_objs (tm_heap tm)" using Cons.prems that ordered_objs by auto
      then have "t_next (the (tm_heap tm a)) \<le> t_next (the (tm_heap tm b))"
        by (auto simp: timer_key_def timer_objs_def)
      then show ?thesis using False by (simp add: due_def)
    qed
    then show ?thesis using False by (simp add: filter_False)
  qed (use Cons in simp)
qed simp

definition expired_timers :: "u64 \<Rightarrow> 'f timer_manager \<Rightarrow> addr list" where
  "expired_timers now tm = (if clock_rolled_over now (tm_previous_time tm) then tm_timers tm
     else filter (due now tm) (tm_timers tm))"

lemma expired_timers_prefix:
  assumes "tset.ordered (tm_heap tm) (tm_timers tm)"
  shows "tm_timers tm = expired_timers now tm @ drop (length (expired_timers now tm)) (tm_timers tm)"
  using due_prefix [OF assms, of now] takeWhile_eq_take [of "due now tm" "tm_timers tm"]
  by (cases "clock_rolled_over now (tm_previous_time tm)") (simp_all add: expired_timers_def, metis append_take_drop_id)

lemma list_expired_run:
  assumes inv: "tm_inv tm" and tmp: "tmp \<notin> set (tm_timers tm)" "tmp \<noteq> nullptr"
  shows "\<exists>tm'. list_expired_cb now tmp tm
       = Some ((expired_timers now tm, map (\<lambda>a. t_cb (the (tm_heap tm a))) (expired_timers now tm)), tm')
     \<and> tm_inv tm'
     \<and> tm_heap tm' = (\<lambda>a. if a \<in> set (expired_timers now tm) then map_option (renew now) (tm_heap tm a)
                           else tm_heap tm a)
     \<and> set (tm_timers tm') = {a \<in> set (tm_timers tm). a \<in> set (expired_timers now tm) \<longrightarrow> t_recurring (the (tm_heap tm a))}"
proof -
  let ?exp = "expired_timers now tm" and ?roll = "clock_rolled_over now (tm_previous_time tm)"
  have ord: "tset.ordered (tm_heap tm) (tm_timers tm)" using inv by (rule tm_invD)
  note prefix = expired_timers_prefix [OF ord, of now]
  have dom: "set (tm_timers tm) \<subseteq> dom (tm_heap tm)" using ord ordered_objs by (fastforce simp: timer_objs_def)
  show ?thesis
  proof (cases "tm_timers tm")
    case Nil
    then have "?exp = []" using prefix by auto
    then show ?thesis using Nil inv by (simp add: list_expired_cb_def)
  next
    case (Cons a l)
    then obtain t where t: "tm_heap tm a = Some t" using dom by auto
    show ?thesis
    proof (cases "\<not> ?roll \<and> now < t_next t")
      case True
      then have "\<not> t_next t \<le> now" by (simp add: not_le)
      then have exp: "?exp = []"
        using True due_prefix [OF ord, of now] Cons t by (simp add: expired_timers_def due_def)
      have "tm_inv (tm\<lparr>tm_previous_time := now\<rparr>)" using inv by (simp add: tm_inv_def)
      then show ?thesis using Cons t True unfolding exp
        by (intro exI [of _ "tm\<lparr>tm_previous_time := now\<rparr>"])
          (auto simp: list_expired_cb_def detect_clock_roll_over_def)
    next
      case False
      let ?h = "(tm_heap tm)(tmp \<mapsto> timer_at now)"
      let ?stop = "if ?roll then Some (length (tm_timers tm)) else set_lower_bound (timer_less ?h) tmp (tm_timers tm)"
      obtain it where it: "?stop = Some it" "skip_due (tm_heap tm) (tm_timers tm) now it = Some (length ?exp)"
      proof (cases ?roll)
        case True
        then show ?thesis using that [of "length (tm_timers tm)"] skip_due_run [OF dom, of "length (tm_timers tm)"]
          by (simp add: expired_timers_def)
      next
        case False
        let ?us = "takeWhile (\<lambda>a. timer_key ?h a < (now, tmp)) (tm_timers tm)"
        have "tset.ordered ?h (tm_timers tm)" using tmp(1) ord by (rule ordered_upd_other)
        then have "set_lower_bound (timer_less ?h) tmp (tm_timers tm) = Some (length ?us)"
          using tset.lower_bound [of ?h "tm_timers tm" tmp] tmp(2) by (simp add: timer_at_def)
        moreover have "length ?us \<le> length (tm_timers tm)" by (rule length_takeWhile_le)
        from skip_due_run [OF dom this, of now]
        have "skip_due (tm_heap tm) (tm_timers tm) now (length ?us) = Some (length ?exp)"
          using expired_prefix [OF ord tmp(1), of now] due_prefix [OF ord, of now] False
          by (simp add: expired_timers_def due_def [abs_def])
        ultimately show ?thesis using that [of "length ?us"] False by simp
      qed
      define rest where "rest = drop (length ?exp) (tm_timers tm)"
      have split: "tm_timers tm = ?exp @ rest" using prefix by (simp only: rest_def)
      have take: "take (length ?exp) (tm_timers tm) = ?exp" using split by (metis append_eq_conv_conj)
      define tm1 where "tm1 = tm\<lparr>tm_previous_time := now, tm_timers := rest\<rparr>"
      have "tset.ordered (tm_heap tm1) (tm_timers tm1)" "distinct ?exp" "set ?exp \<subseteq> timer_objs (tm_heap tm1)"
        "set ?exp \<inter> set (tm_timers tm1) = {}"
        using ord tset.ordered_distinct [OF ord] ordered_objs [OF ord] unfolding split by (auto simp: tm1_def)
      moreover have tm1: "tm_heap tm1 = tm_heap tm" "tm_timers tm1 = rest" by (simp_all add: tm1_def)
      ultimately obtain ts where
        c: "collect_expired now ?exp tm1 = Some (map (\<lambda>a. t_cb (the (tm_heap tm a))) ?exp,
           tm1\<lparr>tm_heap := (\<lambda>a. if a \<in> set ?exp then map_option (renew now) (tm_heap tm a) else tm_heap tm a),
               tm_timers := ts\<rparr>)"
        "tset.ordered (\<lambda>a. if a \<in> set ?exp then map_option (renew now) (tm_heap tm a) else tm_heap tm a) ts"
        "set ts = set rest \<union> {a \<in> set ?exp. t_recurring (the (tm_heap tm a))}"
        using collect_expired_run [of tm1 ?exp now] unfolding tm1 by blast
      have step: "tm\<lparr>tm_previous_time := now, tm_timers := drop (length ?exp) (a # l)\<rparr> = tm1"
        by (simp add: tm1_def rest_def Cons)
      define tm' where "tm' = tm1\<lparr>tm_heap := (\<lambda>a. if a \<in> set ?exp then map_option (renew now) (tm_heap tm a)
          else tm_heap tm a), tm_timers := ts\<rparr>"
      have "list_expired_cb now tmp tm = Some ((?exp, map (\<lambda>a. t_cb (the (tm_heap tm a))) ?exp), tm')"
        using t it take c(1) unfolding list_expired_cb_def detect_clock_roll_over_def Cons
        by (simp add: if_not_P [OF False] step tm'_def Let_def)
      moreover have "tm_inv tm'"
      proof (rule tm_invI)
        show "tset.ordered (tm_heap tm') (tm_timers tm')" "tm_heap tm' nullptr = None"
          using c(2) tm_invD(2) [OF inv] by (simp_all add: tm'_def)
      next
        fix b u y assume b: "tm_heap tm' b = Some u" "t_cb u = Some y"
        show "b \<in> set (tm_timers tm')"
        proof (cases "b \<in> set ?exp")
          case True
          then obtain u' where "tm_heap tm b = Some u'" "u = renew now u'" using b(1) by (auto simp: tm'_def)
          then have "t_recurring (the (tm_heap tm b))" using b(2) by (auto simp: renew_def split: if_splits)
          then show ?thesis using True c(3) by (simp add: tm'_def)
        next
          case False
          then have "tm_heap tm b = Some u" using b(1) by (simp add: tm'_def)
          then have "b \<in> set (tm_timers tm)" using b(2) by (rule tm_invD(3) [OF inv])
          then have "b \<in> set rest" using False split by (metis Un_iff set_append)
          then show ?thesis using c(3) by (simp add: tm'_def)
        qed
      qed
      moreover have "set ts = {a \<in> set (tm_timers tm). a \<in> set ?exp \<longrightarrow> t_recurring (the (tm_heap tm a))}"
        using c(3) tset.ordered_distinct [OF ord] unfolding split by auto
      ultimately show ?thesis by (intro exI [of _ tm']) (simp add: tm'_def)
    qed
  qed
qed

end
