(* ===== verification/NetCore.thy ===== *)
theory NetCore
  imports Network Timer
begin

text \<open>
  The protocol stack object (\<open>src/net/net.h\<close>, \<open>src/net/net.cc\<close>): its constructor, one round of the
  working thread and one round of the timer thread. A callback is a parameter: \<open>run f\<close> is what calling
  \<open>f\<close> does to the state; an exception it throws is caught and only logged.
\<close>

definition sizeof_exmsg :: nat where "sizeof_exmsg = 40"

text \<open>
  The constructor: the pools and queues of the configured sizes, at the addresses the allocator returns.
  An exception of a queue's constructor ends the program.
\<close>

definition protocol_stack_new :: "addr \<Rightarrow> addr \<Rightarrow> u32 \<Rightarrow> u32 \<Rightarrow> 'f proto_stack option" where
  "protocol_stack_new base timer_base msg_queue_size timer_msg_queue_size = do {
     mb \<leftarrow> mb_new base sizeof_exmsg msg_queue_size;
     tmb \<leftarrow> mb_new timer_base sizeof_exmsg timer_msg_queue_size;
     (case (mb, rq_new nullptr msg_queue_size, tmb, rq_new nullptr timer_msg_queue_size) of
        (Inr m, Inr q, Inr t, Inr (_ :: addr lfrq)) \<Rightarrow>
          Some \<lparr>ps_mem_block = m, ps_msg_queue = q, ps_timer_mem_block = t, ps_msgs = (\<lambda>_. None)\<rparr>
      | _ \<Rightarrow> None)
   }"

subsection \<open>The working thread\<close>

partial_function (option) netif_in_loop :: "byte_order \<Rightarrow> addr \<Rightarrow> 'f net \<Rightarrow> (net_err \<times> 'f net) option" where
  "netif_in_loop ord nif net = do {
     size \<leftarrow> get_in_queue_size nif net;
     (if size = 0 then Some (NET_ERR_OK, net)
      else do {
        (buf, net1) \<leftarrow> get_buf_from_in_queue nif net;
        (if buf = nullptr then Some (NET_ERR_MEM, net1)
         else do {
           (err, net2) \<leftarrow> link_in ord nif buf net1;
           net3 \<leftarrow> (if is_err err then on_store0 (buf_free buf) net2 else Some net2);
           netif_in_loop ord nif net3
         })
      })
   }"

definition do_netif_in :: "byte_order \<Rightarrow> addr \<Rightarrow> 'f net \<Rightarrow> (net_err \<times> 'f net) option" where
  "do_netif_in ord msg net = do {
     m \<leftarrow> ps_msgs (net_stack net) msg;
     (case m of Exmsg_netif_in netif \<Rightarrow> netif_in_loop ord netif net | Exmsg_timer_fun _ \<Rightarrow> None)
   }"

text \<open>A step on the messages inside the state.\<close>

definition on_stack :: "('f proto_stack \<Rightarrow> ('a \<times> 'f proto_stack) option) \<Rightarrow> 'f net \<Rightarrow> ('a \<times> 'f net) option" where
  "on_stack f net = do { (x, ps) \<leftarrow> f (net_stack net); Some (x, net\<lparr>net_stack := ps\<rparr>) }"

definition pop_msg_queue :: "'f proto_stack \<Rightarrow> (addr option \<times> 'f proto_stack) option" where
  "pop_msg_queue ps = do { (r, q) \<leftarrow> pop (ps_msg_queue ps); Some (r, ps\<lparr>ps_msg_queue := q\<rparr>) }"

text \<open>One round of \<open>work_thread_func\<close>; the flag tells whether there was a message.\<close>

definition work_step :: "byte_order \<Rightarrow> ('f \<Rightarrow> 'f net \<Rightarrow> 'f net option) \<Rightarrow> 'f net \<Rightarrow> (bool \<times> 'f net) option" where
  "work_step ord run net = do {
     (r, net1) \<leftarrow> on_stack pop_msg_queue net;
     (case r of
        None \<Rightarrow> Some (False, net1)
      | Some msg \<Rightarrow> do {
          m \<leftarrow> ps_msgs (net_stack net1) msg;
          (case m of
             Exmsg_netif_in _ \<Rightarrow> do {
               (_, net2) \<leftarrow> do_netif_in ord msg net1;
               (_, net3) \<leftarrow> on_stack (release_msg_block msg) net2;
               Some (True, net3)
             }
           | Exmsg_timer_fun func \<Rightarrow> do {
               let net2 = net1\<lparr>net_stack := set_msg msg (Exmsg_timer_fun None) (net_stack net1)\<rparr>;
               net3 \<leftarrow> (case func of None \<Rightarrow> Some net2 | Some f \<Rightarrow> run f net2);
               (_, net4) \<leftarrow> on_stack (release_timer_msg_block msg) net3;
               Some (True, net4)
             })
        })
   }"

text \<open>Rounds of the working thread.\<close>

fun work_steps :: "byte_order \<Rightarrow> ('f \<Rightarrow> 'f net \<Rightarrow> 'f net option) \<Rightarrow> nat \<Rightarrow> 'f net \<Rightarrow> 'f net option" where
  "work_steps ord run 0 net = Some net"
| "work_steps ord run (Suc k) net = do {
     (_, net1) \<leftarrow> work_step ord run net;
     work_steps ord run k net1
   }"

subsection \<open>The timer thread\<close>

definition epoll_timeout :: "u64 \<Rightarrow> u64" where
  "epoll_timeout next_timeout = (if next_timeout \<noteq> NO_TIMER then min next_timeout 3000 else 3000)"

text \<open>Posting one callback: without a free block it is lost, without room in the queue as well.\<close>

definition post_timer :: "'f option \<Rightarrow> 'f proto_stack \<Rightarrow> 'f proto_stack option" where
  "post_timer cb ps = do {
     (timer_exmsg, ps1) \<leftarrow> get_timer_msg_block ps;
     (if timer_exmsg = nullptr then Some ps1
      else do {
        let ps2 = set_msg timer_exmsg (Exmsg_timer_fun cb) ps1;
        (err, ps3) \<leftarrow> push_msg timer_exmsg ps2;
        (if is_err err
         then do { (_, ps4) \<leftarrow> release_timer_msg_block timer_exmsg ps3; Some ps4 }
         else Some ps3)
      })
   }"

fun post_timers :: "'f option list \<Rightarrow> 'f proto_stack \<Rightarrow> 'f proto_stack option" where
  "post_timers [] ps = Some ps"
| "post_timers (cb # cbs) ps = do { ps1 \<leftarrow> post_timer cb ps; post_timers cbs ps1 }"

text \<open>
  One round of \<open>timer_thread_func\<close>: \<open>now\<close> is the time before the wait, \<open>later\<close> the time after it, which
  the caller of \<open>epoll_wait\<close> asks to be at most \<open>epoll_timeout\<close> later. The result is that timeout.
\<close>

definition timer_thread_step :: "u64 \<Rightarrow> u64 \<Rightarrow> addr \<Rightarrow> 'f timer_manager \<Rightarrow> 'f proto_stack
    \<Rightarrow> (u64 \<times> 'f timer_manager \<times> 'f proto_stack) option" where
  "timer_thread_step now later tmp tm ps = do {
     (next_timeout, tm1) \<leftarrow> get_next_time now tm;
     ((_, cbs), tm2) \<leftarrow> list_expired_cb later tmp tm1;
     ps1 \<leftarrow> post_timers cbs ps;
     Some (epoll_timeout next_timeout, tm2, ps1)
   }"

end
