(* ===== verification/NetDrain.thy ===== *)
theory NetDrain
  imports PacketLists NetCore
begin

text \<open>
  The loops that empty the queues of an interface: deactivating it returns every queued packet to the
  pools, and the working thread hands every received packet to the link layer.
\<close>

lemma is_empty_iff: "rq_inv q \<Longrightarrow> is_empty q \<longleftrightarrow> rq_list q = []"
  using length_rq_list [of q] by (auto simp: is_empty_def rq_inv_def unat_eq_0)

text \<open>
  A loop that frees the packets of one queue of an interface until it is empty: \<open>getq\<close> and \<open>setq\<close> choose
  the queue. The class has two of them.
\<close>

locale drain_loop =
  fixes getq :: "netif \<Rightarrow> addr lfrq" and setq :: "addr lfrq \<Rightarrow> netif \<Rightarrow> netif"
    and loop :: "addr \<Rightarrow> addr option \<Rightarrow> 'f net \<Rightarrow> 'f net option"
  assumes get_set: "getq (setq q n) = q" and set_set: "setq q (setq q' n) = setq q n"
    and set_get: "setq (getq n) n = n"
    and loop_step: "loop nif x net = do {
       n \<leftarrow> net_ifs net nif;
       (if is_empty (getq n) then Some net
        else do {
          (r, q) \<leftarrow> pop (getq n);
          let pktbuf' = (case r of None \<Rightarrow> x | Some buf \<Rightarrow> Some buf);
          buf \<leftarrow> pktbuf';
          net1 \<leftarrow> on_store0 (buf_free buf) (put_netif nif (setq q n) net);
          loop nif pktbuf' net1
        })
     }"
begin

lemma drain_run:
  assumes "net_ifs net nif = Some n" "rq_inv (getq n)" "rq_list (getq n) = ps"
    "pkts_inv (net_store net) (ps @ ks) rest" "bufs_inv (net_store net) (ps @ live)"
  shows "\<exists>st' q'. loop nif x net
       = Some (net\<lparr>net_store := st', net_ifs := (net_ifs net)(nif \<mapsto> setq q' n)\<rparr>)
     \<and> rq_inv q' \<and> rq_list q' = [] \<and> rq_room q' = rq_room (getq n)
     \<and> pkts_inv st' ks rest \<and> bufs_inv st' live \<and> free_bufs st' = free_bufs (net_store net) @ ps
     \<and> free_blks st' = free_blks (net_store net) @ blks_of_all (net_store net) ps
     \<and> (\<forall>q \<in> set ks. pkt_bytes st' q = pkt_bytes (net_store net) q \<and> blks_of st' q = blks_of (net_store net) q)"
  using assms
proof (induction ps arbitrary: net n x)
  case Nil
  have "loop nif x net = Some net"
    using Nil.prems by (subst loop_step) (simp add: is_empty_iff)
  then show ?case using Nil.prems
    by (intro exI [of _ "net_store net"] exI [of _ "getq n"]) (simp add: map_upd_triv set_get)
next
  case (Cons p ps)
  from rq.pp_cons [OF Cons.prems(2,3)] obtain q where q: "pop (getq n) = Some (Some p, q)" "rq_inv q"
    "rq_list q = ps" "rq_room q = rq_room (getq n)" by blast
  have "pkts_inv (net_store net) (p # ps @ ks) rest" "bufs_inv (net_store net) (p # ps @ live)"
    using Cons.prems(4,5) by simp_all
  from buf_free_first [OF this] obtain st where
    st: "buf_free p (net_store net) = Some st" "pkts_inv st (ps @ ks) rest" "bufs_inv st (ps @ live)"
    "free_bufs st = free_bufs (net_store net) @ [p]" "free_blks st = free_blks (net_store net) @ blks_of (net_store net) p"
    "\<forall>q \<in> set (ps @ ks). pkt_bytes st q = pkt_bytes (net_store net) q \<and> blks_of st q = blks_of (net_store net) q"
    by blast
  define net1 where "net1 = net\<lparr>net_ifs := (net_ifs net)(nif \<mapsto> setq q n), net_store := st\<rparr>"
  have net1: "net_ifs net1 nif = Some (setq q n)" "net_store net1 = st" by (simp_all add: net1_def)
  have "loop nif x net = loop nif (Some p) net1"
    using Cons.prems(1-3) q(1) st(1)
    by (subst loop_step) (simp add: is_empty_iff on_store0_def put_netif_def net1_def)
  moreover from Cons.IH [OF net1(1), unfolded get_set set_set net1(2) q(4), OF q(2,3) st(2,3)] obtain st' q' where
    r: "loop nif (Some p) net1
       = Some (net1\<lparr>net_store := st', net_ifs := (net_ifs net1)(nif \<mapsto> setq q' n)\<rparr>)"
     "rq_inv q'" "rq_list q' = []" "rq_room q' = rq_room (getq n)"
     "pkts_inv st' ks rest" "bufs_inv st' live" "free_bufs st' = free_bufs st @ ps"
     "free_blks st' = free_blks st @ blks_of_all st ps"
     "\<forall>q \<in> set ks. pkt_bytes st' q = pkt_bytes st q \<and> blks_of st' q = blks_of st q" by blast
  moreover have "blks_of_all st ps = blks_of_all (net_store net) ps"
    using st(6) by (simp add: blks_of_all_def cong: map_cong)
  ultimately show ?case using st(4-6)
    by (intro exI [of _ st'] exI [of _ q']) (simp add: net1_def set_set del: fun_upd_apply)
qed

end

interpretation clear_in: drain_loop if_in_q "\<lambda>q n. n\<lparr>if_in_q := q\<rparr>" clear_in_loop
  by (unfold_locales, simp, simp, simp, rule clear_in_loop.simps)

interpretation clear_out: drain_loop if_out_q "\<lambda>q n. n\<lparr>if_out_q := q\<rparr>" clear_out_loop
  by (unfold_locales, simp, simp, simp, rule clear_out_loop.simps)

text \<open>
  C24. Deactivating an active interface ends and empties both of its queues: every queued packet and its
  blocks go back to the pools, in the order of the queues, received packets first; the interface is
  \<open>NETIF_OPENED\<close> and no longer the default one. Other packets, interfaces and the messages stay as they
  were.
\<close>

theorem set_deactive_returns_packets:
  assumes "net_ifs (nw_net nw) a = Some n" "if_state n = NETIF_ACTIVE" "rq_inv (if_in_q n)" "rq_inv (if_out_q n)"
    and "st = net_store (nw_net nw)" "queued = rq_list (if_in_q n) @ rq_list (if_out_q n)"
    and "pkts_inv st (queued @ ks) rest" "bufs_inv st (queued @ live)"
  shows "\<exists>nw' n' st'. set_deactive a nw = Some (NET_ERR_OK, nw')
     \<and> net_ifs (nw_net nw') = (net_ifs (nw_net nw))(a \<mapsto> n')
     \<and> if_state n' = NETIF_OPENED \<and> rq_list (if_in_q n') = [] \<and> rq_list (if_out_q n') = []
     \<and> rq_room (if_in_q n') = rq_room (if_in_q n) \<and> rq_room (if_out_q n') = rq_room (if_out_q n)
     \<and> net_store (nw_net nw') = st' \<and> free_bufs st' = free_bufs st @ queued
     \<and> free_blks st' = free_blks st @ blks_of_all st queued
     \<and> pkts_inv st' ks rest \<and> bufs_inv st' live \<and> (\<forall>q \<in> set ks. pkt_bytes st' q = pkt_bytes st q)
     \<and> nw_default nw' = (if nw_default nw = a then nullptr else nw_default nw)
     \<and> nw_netifs nw' = nw_netifs nw \<and> net_stack (nw_net nw') = net_stack (nw_net nw)"
proof -
  let ?net = "nw_net nw" and ?out = "rq_list (if_out_q n)"
  have net0: "put_netif a n ?net = ?net" using assms(1) by (simp add: put_netif_def map_upd_triv)
  have "pkts_inv (net_store ?net) (rq_list (if_in_q n) @ ?out @ ks) rest"
    "bufs_inv (net_store ?net) (rq_list (if_in_q n) @ ?out @ live)" using assms(5-8) by simp_all
  from clear_in.drain_run [OF assms(1,3) refl this, of None] obtain st1 q1 where
    c1: "clear_in_loop a None ?net
       = Some (?net\<lparr>net_store := st1, net_ifs := (net_ifs ?net)(a \<mapsto> n\<lparr>if_in_q := q1\<rparr>)\<rparr>)"
    "rq_list q1 = []" "rq_room q1 = rq_room (if_in_q n)"
    "pkts_inv st1 (?out @ ks) rest" "bufs_inv st1 (?out @ live)"
    "free_bufs st1 = free_bufs st @ rq_list (if_in_q n)"
    "free_blks st1 = free_blks st @ blks_of_all st (rq_list (if_in_q n))"
    "\<forall>q \<in> set (?out @ ks). pkt_bytes st1 q = pkt_bytes st q \<and> blks_of st1 q = blks_of st q"
    using assms(5) by blast
  define net1 where "net1 = ?net\<lparr>net_store := st1, net_ifs := (net_ifs ?net)(a \<mapsto> n\<lparr>if_in_q := q1\<rparr>)\<rparr>"
  have n1: "net_ifs net1 a = Some (n\<lparr>if_in_q := q1\<rparr>)" "net_store net1 = st1" by (simp_all add: net1_def)
  from clear_out.drain_run [OF n1(1), unfolded n1(2), OF _ _ c1(4,5), of None] assms(4) obtain st2 q2 where
    c2: "clear_out_loop a None net1
       = Some (net1\<lparr>net_store := st2, net_ifs := (net_ifs net1)(a \<mapsto> n\<lparr>if_in_q := q1, if_out_q := q2\<rparr>)\<rparr>)"
    "rq_list q2 = []" "rq_room q2 = rq_room (if_out_q n)" "pkts_inv st2 ks rest" "bufs_inv st2 live"
    "free_bufs st2 = free_bufs st1 @ ?out" "free_blks st2 = free_blks st1 @ blks_of_all st1 ?out"
    "\<forall>q \<in> set ks. pkt_bytes st2 q = pkt_bytes st1 q \<and> blks_of st2 q = blks_of st1 q" by auto
  define net2 where "net2 = net1\<lparr>net_store := st2, net_ifs := (net_ifs net1)(a \<mapsto> n\<lparr>if_in_q := q1, if_out_q := q2\<rparr>)\<rparr>"
  let ?n' = "n\<lparr>if_in_q := q1, if_out_q := q2, if_state := NETIF_OPENED\<rparr>"
  have "blks_of_all st1 ?out = blks_of_all st ?out" using c1(8) by (simp add: blks_of_all_def cong: map_cong)
  moreover have "set_deactive a nw = Some (NET_ERR_OK,
      nw\<lparr>nw_default := if nw_default nw = a then nullptr else nw_default nw, nw_net := put_netif a ?n' net2\<rparr>)"
    using assms(1,2) c1(1) c2(1)
    by (simp add: set_deactive_def on_net0_def clear_in_queue_def clear_out_queue_def upd_netif_def link_close_def
        net0 net1_def [symmetric] net2_def [symmetric]) (simp add: net2_def)
  ultimately show ?thesis using assms(5,6) c1 c2
    by (intro exI [of _ "nw\<lparr>nw_default := if nw_default nw = a then nullptr else nw_default nw, nw_net := put_netif a ?n' net2\<rparr>"]
          exI [of _ ?n'] exI [of _ st2]) (simp add: put_netif_def net2_def net1_def)
qed

text \<open>Two packets of 10 and 20 bytes, one free packet and one free block; the packets are queued.\<close>

definition demo_two :: pkt_store where
  "demo_two = \<lparr>cfg_blk_size = 64,
     blk_heap = [100 \<mapsto> \<lparr>blk_size = 10, blk_data = 0, blk_payload = replicate 64 1\<rparr>,
                 124 \<mapsto> \<lparr>blk_size = 20, blk_data = 4, blk_payload = replicate 64 2\<rparr>,
                 148 \<mapsto> \<lparr>blk_size = 0, blk_data = 0, blk_payload = replicate 64 0\<rparr>],
     blk_pool = demo_pool 24 [148],
     buf_heap = [328 \<mapsto> pkt_buffer_new\<lparr>buf_capacity := 10, buf_blk_list := [100], buf_ref := 1\<rparr>,
                 392 \<mapsto> pkt_buffer_new\<lparr>buf_capacity := 20, buf_blk_list := [124], buf_ref := 1\<rparr>,
                 456 \<mapsto> pkt_buffer_new],
     buf_pool = demo_pool 64 [456]\<rparr>"

lemma demo_two_free: "free_blks demo_two = [148]" "free_bufs demo_two = [456]"
  by (simp_all add: free_blks_def free_bufs_def demo_two_def demo_pool)

lemma demo_two_blks: "blks_of demo_two 328 = [100]" "blks_of demo_two 392 = [124]"
  by (simp_all add: blks_of_def demo_two_def)

lemma demo_two: "pkts_inv demo_two [328, 392] []" "bufs_inv demo_two [328, 392]"
proof -
  have "blk_inv demo_two [100, 124]" unfolding blk_inv_def demo_two_free
    by (simp add: demo_two_def demo_pool)
  moreover have "pkt_wf demo_two 328" "pkt_wf demo_two 392"
    by (simp_all add: pkt_wf_def demo_two_def blks_ok_def blk_ok_def blks_bytes_def blk_bytes_def)
  ultimately show "pkts_inv demo_two [328, 392] []" by (simp add: pkts_inv_def demo_two_blks)
  show "bufs_inv demo_two [328, 392]" unfolding bufs_inv_def demo_two_free
    by (simp add: demo_two_def demo_pool pkt_buffer_new_def)
qed

definition demo_queued :: "addr list \<Rightarrow> addr list \<Rightarrow> netif" where
  "demo_queued ins outs = (demo_netif Ether_net NETIF_TYPE_ETHER)
     \<lparr>if_in_q := mb_queue (demo_pool 8 ins), if_out_q := mb_queue (demo_pool 8 outs)\<rparr>"

lemma demo_queued:
  assumes "length ins < 4" "length outs < 4"
  shows "rq_inv (if_in_q (demo_queued ins outs))" "rq_list (if_in_q (demo_queued ins outs)) = ins"
    "rq_inv (if_out_q (demo_queued ins outs))" "rq_list (if_out_q (demo_queued ins outs)) = outs"
    "rq_room (if_in_q (demo_queued ins outs)) = 3" "rq_room (if_out_q (demo_queued ins outs)) = 3"
    "if_class (demo_queued ins outs) = Ether_net" "if_state (demo_queued ins outs) = NETIF_ACTIVE"
  using demo_pool(1,2) [of ins 8] demo_pool(1,2) [of outs 8] demo_pool(3) [of 8] assms
  by (simp_all add: demo_queued_def mb_inv_def mb_free_list_def mb_room_def demo_netif_def)

definition demo_queued_net :: "addr list \<Rightarrow> addr list \<Rightarrow> nat net" where
  "demo_queued_net ins outs = \<lparr>net_store = demo_two, net_stack = demo_stack_room, net_ifs = [5 \<mapsto> demo_queued ins outs]\<rparr>"

theorem set_deactive_returns_packets_witness:
  "\<exists>nw'. set_deactive 5 \<lparr>nw_net = demo_queued_net [328] [392], nw_netifs = [5], nw_default = 5, nw_registry = (\<lambda>_. None)\<rparr>
       = Some (NET_ERR_OK, nw')
     \<and> free_bufs (net_store (nw_net nw')) = [456, 328, 392] \<and> free_blks (net_store (nw_net nw')) = [148, 100, 124]
     \<and> nw_default nw' = nullptr"
proof -
  let ?nw = "\<lparr>nw_net = demo_queued_net [328] [392], nw_netifs = [5], nw_default = 5, nw_registry = (\<lambda>_. None)\<rparr>"
  have "net_ifs (nw_net ?nw) 5 = Some (demo_queued [328] [392])" by (simp add: demo_queued_net_def)
  from set_deactive_returns_packets [OF this, where queued = "[328, 392]" and st = demo_two and ks = "[]"
      and live = "[]" and rest = "[]"] demo_queued [of "[328]" "[392]"] demo_two
  show ?thesis by (auto simp: demo_queued_net_def demo_two_free demo_two_blks)
qed

subsection \<open>The working thread's input loop\<close>

lemma release_pktblock_bufs: "release_pktblock a st = Some st' \<Longrightarrow> buf_heap st' = buf_heap st"
  by (auto simp: release_pktblock_def bind_eq_Some_conv Let_def split: if_splits prod.splits)

lemma cont_header_loop_bufs:
  "cont_header_loop f as r ptr cur st = Some (l, c, st') \<Longrightarrow> buf_heap st' = buf_heap st"
proof (induction as arbitrary: r ptr cur st)
  case (Cons a as)
  show ?case
  proof (cases "r = 0")
    case False
    show ?thesis
      by (insert Cons.prems, unfold cont_header_loop.simps(2) if_not_P [OF False] bind_eq_Some_conv Let_def,
          elim exE conjE, split if_split_asm)
         (auto simp only: bind_eq_Some_conv put_blk_def dest!: Cons.IH release_pktblock_bufs; simp)+
  qed (use Cons.prems in simp)
qed simp

lemma set_cont_header_ref:
  assumes "set_cont_header p sz st = Some (err, st')" shows "pkt_ref st' p = pkt_ref st p"
  using assms
  by (auto simp: set_cont_header_def bind_eq_Some_conv Let_def pkt_ref_def put_blk_def put_buf_def
      dest!: cont_header_loop_bufs split: if_splits list.splits)

lemma ether_link_in_state:
  "ether_link_in ord p st = Some (r, st') \<Longrightarrow> \<exists>err. set_cont_header p (of_nat (sizeof_ether_hdr ether_hdr)) st = Some (err, st')"
  by (auto simp: ether_link_in_def bind_eq_Some_conv Let_def split: if_splits prod.splits)

lemma bufs_inv_frame:
  assumes fr: "pkt_frame p rest st st'" and bufs: "bufs_inv st (p # live)"
  shows "bufs_inv st' (p # live)" "free_bufs st' = free_bufs st"
proof -
  show free: "free_bufs st' = free_bufs st" using fr by (simp add: pkt_frame_def free_bufs_def)
  have other: "buf_heap st' q = buf_heap st q" if "q \<noteq> p" for q using fr that by (simp add: pkt_frame_def)
  have old: "\<forall>q \<in> set (free_bufs st @ p # live). q \<noteq> nullptr \<and> buf_heap st q \<noteq> None"
    "\<forall>q \<in> set (free_bufs st). \<forall>b. buf_heap st q = Some b \<longrightarrow> buf_blk_list b = []" "p \<notin> set (free_bufs st)"
    using bufs by (simp_all add: bufs_inv_def)
  have "buf_heap st' q \<noteq> None" if "q \<in> set (free_bufs st @ p # live)" for q
    using old(1) that other [of q] fr by (cases "q = p") (auto simp: pkt_frame_def)
  moreover have "buf_heap st' q = buf_heap st q" if "q \<in> set (free_bufs st)" for q
    using old(3) that other [of q] by auto
  moreover have "buf_pool st' = buf_pool st" using fr by (simp add: pkt_frame_def)
  ultimately show "bufs_inv st' (p # live)" using bufs old unfolding bufs_inv_def free by metis
qed

definition frame_ok :: "pkt_store \<Rightarrow> addr \<Rightarrow> bool" where
  "frame_ok st p \<longleftrightarrow> 14 \<le> length (pkt_bytes st p) \<and> length (pkt_bytes st p) \<le> 1514"

text \<open>The link layer on the first of several packets.\<close>

lemma ether_link_in_first:
  assumes inv: "pkts_inv st (p # ps) rest" and bufs: "bufs_inv st (p # live)"
    and ne: "pkt_bytes st p \<noteq> []" and cfg: "14 \<le> unat (cfg_blk_size st)"
  shows "\<exists>st' ev. ether_link_in ord p st = Some ((if frame_ok st p then NET_ERR_OK else NET_ERR_SIZE, ev), st')
     \<and> pkts_inv st' (p # ps) rest \<and> bufs_inv st' (p # live) \<and> free_bufs st' = free_bufs st
     \<and> cfg_blk_size st' = cfg_blk_size st \<and> (\<forall>q \<in> set (p # ps). pkt_bytes st' q = pkt_bytes st q)"
proof -
  from ether_link_in_run [OF pkts_inv_one(1) [OF inv] ne cfg, of ord] obtain ev st' where
    st': "ether_link_in ord p st = Some ((if frame_ok st p then NET_ERR_OK else NET_ERR_SIZE, ev), st')"
    "pkt_inv st' p (blks_of_all st ps @ rest)" "pkt_bytes st' p = pkt_bytes st p"
    "pkt_frame p (blks_of_all st ps @ rest) st st'" by (auto simp: frame_ok_def split: if_splits)
  obtain err where "set_cont_header p (of_nat (sizeof_ether_hdr ether_hdr)) st = Some (err, st')"
    using ether_link_in_state [OF st'(1)] by blast
  then have ref: "pkt_ref st' p = pkt_ref st p" by (rule set_cont_header_ref)
  note step = pkts_inv_step [OF inv st'(2,4) ref]
  note frame = bufs_inv_frame [OF st'(4) bufs]
  show ?thesis using st' step frame by (intro exI [of _ st'] exI [of _ ev]) (simp add: pkt_frame_def)
qed

text \<open>Taking the first of the received packets.\<close>

lemma get_buf_from_in_queue_run:
  assumes n: "net_ifs net nif = Some n" and q: "rq_inv (if_in_q n)" "rq_list (if_in_q n) = p # ps"
    and inv: "pkts_inv (net_store net) (p # os) rest" and bufs: "bufs_inv (net_store net) (p # live)"
  shows "\<exists>st' q'. get_buf_from_in_queue nif net
       = Some (p, net\<lparr>net_ifs := (net_ifs net)(nif \<mapsto> n\<lparr>if_in_q := q'\<rparr>), net_store := st'\<rparr>)
     \<and> rq_inv q' \<and> rq_list q' = ps \<and> rq_room q' = rq_room (if_in_q n)
     \<and> pkts_inv st' (p # os) rest \<and> bufs_inv st' (p # live)
     \<and> (\<forall>q \<in> set (p # os). pkt_bytes st' q = pkt_bytes (net_store net) q)
     \<and> cfg_blk_size st' = cfg_blk_size (net_store net) \<and> free_bufs st' = free_bufs (net_store net)"
proof -
  from rq.pp_cons [OF q] obtain q' where q': "pop (if_in_q n) = Some (Some p, q')" "rq_inv q'"
    "rq_list q' = ps" "rq_room q' = rq_room (if_in_q n)" by blast
  from reset_access_first [OF inv] bufs obtain st' where "reset_access p (net_store net) = Some st'"
    "pkts_inv st' (p # os) rest" "bufs_inv st' (p # live)" "free_bufs st' = free_bufs (net_store net)"
    "\<forall>q \<in> set (p # os). pkt_bytes st' q = pkt_bytes (net_store net) q"
    "cfg_blk_size st' = cfg_blk_size (net_store net)" by auto
  with q' n show ?thesis
    by (intro exI [of _ st'] exI [of _ q'])
       (simp add: get_buf_from_in_queue_def put_netif_def on_store0_def Let_def del: fun_upd_apply)
qed

lemma rq_length_0: "rq_inv q \<Longrightarrow> rq_length q = 0 \<longleftrightarrow> rq_list q = []"
  using is_empty_iff [of q] by (simp add: is_empty_def)

lemma frame_ok_cong: "pkt_bytes st' p = pkt_bytes st p \<Longrightarrow> frame_ok st' p = frame_ok st p"
  by (simp add: frame_ok_def)

text \<open>One packet through the loop: a frame of an admissible length keeps its packet, another is freed.\<close>

lemma netif_in_once:
  assumes n: "net_ifs net nif = Some n" "if_class n = Ether_net"
    and q: "rq_inv (if_in_q n)" "rq_list (if_in_q n) = p # ps"
    and inv: "pkts_inv (net_store net) (p # ps @ ks) rest" and bufs: "bufs_inv (net_store net) (p # ps @ ks @ live)"
    and ne: "pkt_bytes (net_store net) p \<noteq> []" and cfg: "14 \<le> unat (cfg_blk_size (net_store net))"
  shows "\<exists>st' q'. netif_in_loop ord nif net
       = netif_in_loop ord nif (net\<lparr>net_ifs := (net_ifs net)(nif \<mapsto> n\<lparr>if_in_q := q'\<rparr>), net_store := st'\<rparr>)
     \<and> rq_inv q' \<and> rq_list q' = ps \<and> rq_room q' = rq_room (if_in_q n)
     \<and> (let ks' = (if frame_ok (net_store net) p then p # ks else ks)
        in pkts_inv st' (ps @ ks') rest \<and> bufs_inv st' (ps @ ks' @ live))
     \<and> free_bufs st' = free_bufs (net_store net) @ (if frame_ok (net_store net) p then [] else [p])
     \<and> cfg_blk_size st' = cfg_blk_size (net_store net)
     \<and> (\<forall>r \<in> set (ps @ ks). pkt_bytes st' r = pkt_bytes (net_store net) r)
     \<and> (frame_ok (net_store net) p \<longrightarrow> pkt_bytes st' p = pkt_bytes (net_store net) p)"
proof -
  let ?st = "net_store net" and ?live = "ps @ ks @ live"
  from get_buf_from_in_queue_run [OF n(1) q inv bufs] obtain st1 q' where
    g: "get_buf_from_in_queue nif net
       = Some (p, net\<lparr>net_ifs := (net_ifs net)(nif \<mapsto> n\<lparr>if_in_q := q'\<rparr>), net_store := st1\<rparr>)"
    "rq_inv q'" "rq_list q' = ps" "rq_room q' = rq_room (if_in_q n)"
    "pkts_inv st1 (p # ps @ ks) rest" "bufs_inv st1 (p # ?live)"
    "\<forall>r \<in> set (p # ps @ ks). pkt_bytes st1 r = pkt_bytes ?st r"
    "cfg_blk_size st1 = cfg_blk_size ?st" "free_bufs st1 = free_bufs ?st" by blast
  have nz: "p \<noteq> nullptr" using bufs by (simp add: bufs_inv_def)
  have ok: "frame_ok st1 p = frame_ok ?st p" using g(7) by (intro frame_ok_cong) simp
  have "pkt_bytes st1 p \<noteq> []" "14 \<le> unat (cfg_blk_size st1)" using g(7,8) ne cfg by simp_all
  from ether_link_in_first [OF g(5,6) this, of ord] obtain st2 ev where
    e: "ether_link_in ord p st1 = Some ((if frame_ok ?st p then NET_ERR_OK else NET_ERR_SIZE, ev), st2)"
    "pkts_inv st2 (p # ps @ ks) rest" "bufs_inv st2 (p # ?live)" "free_bufs st2 = free_bufs ?st"
    "cfg_blk_size st2 = cfg_blk_size ?st" "\<forall>r \<in> set (p # ps @ ks). pkt_bytes st2 r = pkt_bytes ?st r"
    unfolding ok g(8,9) using g(7) by auto
  define net1 where "net1 = net\<lparr>net_ifs := (net_ifs net)(nif \<mapsto> n\<lparr>if_in_q := q'\<rparr>), net_store := st1\<rparr>"
  have n1: "net_ifs net1 nif = Some (n\<lparr>if_in_q := q'\<rparr>)" "net_store net1 = st1" by (simp_all add: net1_def)
  have size: "get_in_queue_size nif net = Some (rq_length (if_in_q n))" "rq_length (if_in_q n) \<noteq> 0"
    using n(1) q rq_length_0 [OF q(1)] by (simp_all add: get_in_queue_size_def)
  have link: "link_in ord nif p net1
     = Some (if frame_ok ?st p then NET_ERR_OK else NET_ERR_SIZE, net1\<lparr>net_store := st2\<rparr>)"
    using n1 n(2) e(1) by (simp add: link_in_def on_store_def)
  have upd: "net1\<lparr>net_store := st\<rparr> = net\<lparr>net_ifs := (net_ifs net)(nif \<mapsto> n\<lparr>if_in_q := q'\<rparr>), net_store := st\<rparr>" for st
    by (simp add: net1_def)
  have loop: "netif_in_loop ord nif net = do {
      net3 \<leftarrow> (if frame_ok ?st p then Some (net1\<lparr>net_store := st2\<rparr>) else on_store0 (buf_free p) (net1\<lparr>net_store := st2\<rparr>));
      netif_in_loop ord nif net3
    }" using size g(1) nz link by (subst netif_in_loop.simps) (simp add: net1_def [symmetric])
  show ?thesis
  proof (cases "frame_ok ?st p")
    case True
    have "pkts_inv st2 (ps @ p # ks) rest" "bufs_inv st2 (ps @ (p # ks) @ live)"
      using e(2,3) pkts_inv_perm [of "ps @ p # ks" "p # ps @ ks" st2 rest]
        bufs_inv_perm [of "ps @ (p # ks) @ live" "p # ?live" st2] by simp_all
    then show ?thesis using True loop upd g(2-4) e(4-6)
      by (intro exI [of _ st2] exI [of _ q']) (simp add: Let_def)
  next
    case False
    from buf_free_first [OF e(2,3)] obtain st3 where st3: "buf_free p st2 = Some st3"
      "pkts_inv st3 (ps @ ks) rest" "bufs_inv st3 ?live" "free_bufs st3 = free_bufs ?st @ [p]"
      "cfg_blk_size st3 = cfg_blk_size ?st" "\<forall>r \<in> set (ps @ ks). pkt_bytes st3 r = pkt_bytes ?st r"
      using e(4-6) by auto
    then show ?thesis using False loop upd g(2-4)
      by (intro exI [of _ st3] exI [of _ q']) (simp add: Let_def on_store0_def)
  qed
qed

lemma netif_in_loop_run:
  assumes "net_ifs net nif = Some n" "if_class n = Ether_net" "rq_inv (if_in_q n)" "rq_list (if_in_q n) = ps"
    and "pkts_inv (net_store net) (ps @ ks) rest" "bufs_inv (net_store net) (ps @ ks @ live)"
    and "\<forall>p \<in> set ps. pkt_bytes (net_store net) p \<noteq> []" "14 \<le> unat (cfg_blk_size (net_store net))"
  shows "\<exists>st' q'. netif_in_loop ord nif net
       = Some (NET_ERR_OK, net\<lparr>net_ifs := (net_ifs net)(nif \<mapsto> n\<lparr>if_in_q := q'\<rparr>), net_store := st'\<rparr>)
     \<and> rq_inv q' \<and> rq_list q' = [] \<and> rq_room q' = rq_room (if_in_q n) \<and> cfg_blk_size st' = cfg_blk_size (net_store net)
     \<and> pkts_inv st' (filter (frame_ok (net_store net)) ps @ ks) rest
     \<and> bufs_inv st' (filter (frame_ok (net_store net)) ps @ ks @ live)
     \<and> free_bufs st' = free_bufs (net_store net) @ filter (\<lambda>p. \<not> frame_ok (net_store net) p) ps
     \<and> (\<forall>r \<in> set (filter (frame_ok (net_store net)) ps @ ks). pkt_bytes st' r = pkt_bytes (net_store net) r)"
  using assms
proof (induction ps arbitrary: net n ks)
  case Nil
  then have "netif_in_loop ord nif net = Some (NET_ERR_OK, net)"
    by (subst netif_in_loop.simps) (simp add: get_in_queue_size_def rq_length_0)
  then show ?case using Nil.prems
    by (intro exI [of _ "net_store net"] exI [of _ "if_in_q n"]) (simp add: map_upd_triv)
next
  case (Cons p ps)
  let ?ok = "frame_ok (net_store net)" and ?ks = "if frame_ok (net_store net) p then p # ks else ks"
  have "pkts_inv (net_store net) (p # ps @ ks) rest" "bufs_inv (net_store net) (p # ps @ ks @ live)"
    "pkt_bytes (net_store net) p \<noteq> []" using Cons.prems(5-7) by simp_all
  from netif_in_once [OF Cons.prems(1-4) this Cons.prems(8), of ord] obtain st1 q1 where
    o: "netif_in_loop ord nif net
       = netif_in_loop ord nif (net\<lparr>net_ifs := (net_ifs net)(nif \<mapsto> n\<lparr>if_in_q := q1\<rparr>), net_store := st1\<rparr>)"
    "rq_inv q1" "rq_list q1 = ps" "rq_room q1 = rq_room (if_in_q n)" "pkts_inv st1 (ps @ ?ks) rest"
    "bufs_inv st1 (ps @ ?ks @ live)" "free_bufs st1 = free_bufs (net_store net) @ (if ?ok p then [] else [p])"
    "cfg_blk_size st1 = cfg_blk_size (net_store net)"
    "\<forall>r \<in> set (ps @ ks). pkt_bytes st1 r = pkt_bytes (net_store net) r"
    "?ok p \<longrightarrow> pkt_bytes st1 p = pkt_bytes (net_store net) p" by (auto simp: Let_def)
  define net1 where "net1 = net\<lparr>net_ifs := (net_ifs net)(nif \<mapsto> n\<lparr>if_in_q := q1\<rparr>), net_store := st1\<rparr>"
  have n1: "net_ifs net1 nif = Some (n\<lparr>if_in_q := q1\<rparr>)" "net_store net1 = st1" by (simp_all add: net1_def)
  have same: "frame_ok st1 r = ?ok r" if "r \<in> set ps" for r using o(9) that by (intro frame_ok_cong) simp
  then have filter: "filter (frame_ok st1) ps = filter ?ok ps"
    "filter (\<lambda>p. \<not> frame_ok st1 p) ps = filter (\<lambda>p. \<not> ?ok p) ps" by (auto intro: filter_cong)
  have prems: "if_class (n\<lparr>if_in_q := q1\<rparr>) = Ether_net" "rq_inv (if_in_q (n\<lparr>if_in_q := q1\<rparr>))"
    "rq_list (if_in_q (n\<lparr>if_in_q := q1\<rparr>)) = ps" "pkts_inv (net_store net1) (ps @ ?ks) rest"
    "bufs_inv (net_store net1) (ps @ ?ks @ live)" "\<forall>p \<in> set ps. pkt_bytes (net_store net1) p \<noteq> []"
    "14 \<le> unat (cfg_blk_size (net_store net1))"
    using o(2-9) Cons.prems(2,7,8) n1(2) by simp_all
  from Cons.IH [OF n1(1) prems] obtain st2 q2 where
    r: "netif_in_loop ord nif net1
       = Some (NET_ERR_OK, net1\<lparr>net_ifs := (net_ifs net1)(nif \<mapsto> n\<lparr>if_in_q := q2\<rparr>), net_store := st2\<rparr>)"
    "rq_inv q2" "rq_list q2 = []" "rq_room q2 = rq_room (if_in_q n)" "cfg_blk_size st2 = cfg_blk_size st1" "pkts_inv st2 (filter ?ok ps @ ?ks) rest"
    "bufs_inv st2 (filter ?ok ps @ ?ks @ live)"
    "free_bufs st2 = free_bufs st1 @ filter (\<lambda>p. \<not> ?ok p) ps"
    "\<forall>r \<in> set (filter ?ok ps @ ?ks). pkt_bytes st2 r = pkt_bytes st1 r"
    by (simp add: n1(2) filter o(4) del: fun_upd_apply) blast
  have "pkts_inv st2 (filter ?ok (p # ps) @ ks) rest" "bufs_inv st2 (filter ?ok (p # ps) @ ks @ live)"
    using r(6,7) pkts_inv_perm [of "filter ?ok (p # ps) @ ks" "filter ?ok ps @ ?ks" st2 rest]
      bufs_inv_perm [of "filter ?ok (p # ps) @ ks @ live" "filter ?ok ps @ ?ks @ live" st2] by (simp_all split: if_splits)
  moreover have "\<forall>r \<in> set (filter ?ok (p # ps) @ ks). pkt_bytes st2 r = pkt_bytes (net_store net) r"
    using r(9) o(9,10) by auto
  ultimately show ?case
    using o(1,7,8) r(1-5,8) by (intro exI [of _ st2] exI [of _ q2]) (simp add: net1_def del: fun_upd_apply)
qed

text \<open>
  C25. The working thread's \<open>do_netif_in\<close> on an Ethernet interface ends and empties the queue of received
  packets: frames shorter than 14 or longer than 1514 bytes are freed in their order; every other frame is
  accepted with its bytes unchanged, and its packet is returned to no pool and to no queue, so it stays
  allocated.
\<close>

theorem do_netif_in_drains:
  assumes "ps_msgs (net_stack net) msg = Some (Exmsg_netif_in nif)" "net_ifs net nif = Some n"
    and "if_class n = Ether_net" "rq_inv (if_in_q n)" "received = rq_list (if_in_q n)" "st = net_store net"
    and "pkts_inv st (received @ ks) rest" "bufs_inv st (received @ ks @ live)"
    and "\<forall>p \<in> set received. pkt_bytes st p \<noteq> []" "14 \<le> unat (cfg_blk_size st)"
    and "accepted = filter (\<lambda>p. 14 \<le> length (pkt_bytes st p) \<and> length (pkt_bytes st p) \<le> 1514) received"
  shows "\<exists>net' n' st'. do_netif_in ord msg net = Some (NET_ERR_OK, net') \<and> net_store net' = st'
     \<and> net_ifs net' = (net_ifs net)(nif \<mapsto> n') \<and> rq_list (if_in_q n') = []
     \<and> if_out_q n' = if_out_q n \<and> net_stack net' = net_stack net
     \<and> free_bufs st' = free_bufs st @ filter (\<lambda>p. p \<notin> set accepted) received
     \<and> pkts_inv st' (accepted @ ks) rest \<and> bufs_inv st' (accepted @ ks @ live)
     \<and> (\<forall>r \<in> set (accepted @ ks). pkt_bytes st' r = pkt_bytes st r)"
proof -
  have acc: "accepted = filter (frame_ok st) received" using assms(11) by (simp add: frame_ok_def [abs_def])
  then have rej: "filter (\<lambda>p. p \<notin> set accepted) received = filter (\<lambda>p. \<not> frame_ok st p) received"
    by (auto intro: filter_cong)
  from netif_in_loop_run [OF assms(2-4) assms(5) [symmetric], of ks rest live ord] assms(6-10) obtain st' q' where
    "netif_in_loop ord nif net
       = Some (NET_ERR_OK, net\<lparr>net_ifs := (net_ifs net)(nif \<mapsto> n\<lparr>if_in_q := q'\<rparr>), net_store := st'\<rparr>)"
    "rq_list q' = []" "pkts_inv st' (accepted @ ks) rest" "bufs_inv st' (accepted @ ks @ live)"
    "free_bufs st' = free_bufs st @ filter (\<lambda>p. \<not> frame_ok st p) received"
    "\<forall>r \<in> set (accepted @ ks). pkt_bytes st' r = pkt_bytes st r" by (auto simp: acc)
  then show ?thesis unfolding rej using assms(1)
    by (intro exI [of _ "net\<lparr>net_ifs := (net_ifs net)(nif \<mapsto> n\<lparr>if_in_q := q'\<rparr>), net_store := st'\<rparr>"]
          exI [of _ "n\<lparr>if_in_q := q'\<rparr>"] exI [of _ st']) (simp add: do_netif_in_def del: fun_upd_apply)
qed

theorem do_netif_in_drains_witness:
  "\<exists>net net'. net = (demo_queued_net [328, 392] [])\<lparr>net_stack := demo_stack_room\<lparr>ps_msgs := [100 \<mapsto> Exmsg_netif_in 5]\<rparr>\<rparr>
     \<and> do_netif_in Little_endian 100 net = Some (NET_ERR_OK, net')
     \<and> free_bufs (net_store net') = [456, 328] \<and> pkt_bytes (net_store net') 392 = replicate 20 2"
proof -
  let ?net = "(demo_queued_net [328, 392] [])\<lparr>net_stack := demo_stack_room\<lparr>ps_msgs := [100 \<mapsto> Exmsg_netif_in 5]\<rparr>\<rparr>"
  have len: "pkt_bytes demo_two 328 = replicate 10 1" "pkt_bytes demo_two 392 = replicate 20 2"
    by (simp_all add: pkt_bytes_def demo_two_def blks_bytes_def blk_bytes_def)
  have net: "ps_msgs (net_stack ?net) 100 = Some (Exmsg_netif_in 5)" "net_ifs ?net 5 = Some (demo_queued [328, 392] [])"
    "net_store ?net = demo_two" by (simp_all add: demo_queued_net_def)
  have cfg: "cfg_blk_size demo_two = 64" by (simp add: demo_two_def)
  from do_netif_in_drains [OF net(1,2), where received = "[328, 392]" and st = demo_two and ks = "[]" and rest = "[]"
      and live = "[]" and accepted = "[392]" and ord = Little_endian] net(3) demo_queued [of "[328, 392]" "[]"] demo_two
  show ?thesis by (auto simp: len cfg demo_two_free)
qed

end
