(* ===== verification/TimerRuns.thy ===== *)
theory TimerRuns
  imports Timer
begin

text \<open>
  The timer manager as a state machine: every sequence of calls, at any times the clock may show, and
  the properties of timers. Handles are kept by the callers, so an address is never used twice.
\<close>

datatype 'f timer_event =
    Ev_add addr u64 u64 "'f option" bool
  | Ev_cancel addr bool
  | Ev_refresh addr u64 bool
  | Ev_reset addr u64 bool u64 bool
  | Ev_next u64 u64
  | Ev_expire u64 "addr list" "'f option list"

inductive timer_step :: "'f timer_manager \<Rightarrow> 'f timer_event \<Rightarrow> 'f timer_manager \<Rightarrow> bool" where
  step_add: "a \<noteq> nullptr \<Longrightarrow> tm_heap tm a = None \<Longrightarrow> add_timer a now ms cb recurring tm = Some (tickle, tm')
    \<Longrightarrow> timer_step tm (Ev_add a now ms cb recurring) tm'"
| step_cancel: "cancel a tm = Some (ok, tm') \<Longrightarrow> timer_step tm (Ev_cancel a ok) tm'"
| step_refresh: "refresh a now tm = Some (ok, tm') \<Longrightarrow> timer_step tm (Ev_refresh a now ok) tm'"
| step_reset: "timer_reset a ms from_now now tm = Some ((ok, tickle), tm')
    \<Longrightarrow> timer_step tm (Ev_reset a ms from_now now ok) tm'"
| step_next: "get_next_time now tm = Some (n, tm') \<Longrightarrow> timer_step tm (Ev_next now n) tm'"
| step_expire: "tmp \<noteq> nullptr \<Longrightarrow> tm_heap tm tmp = None \<Longrightarrow> list_expired_cb now tmp tm = Some ((fired, cbs), tm')
    \<Longrightarrow> timer_step tm (Ev_expire now fired cbs) tm'"

inductive timer_run :: "'f timer_manager \<Rightarrow> 'f timer_event list \<Rightarrow> 'f timer_manager \<Rightarrow> bool" for tm0 where
  run_nil: "timer_run tm0 [] tm0"
| run_snoc: "timer_run tm0 evs tm \<Longrightarrow> timer_step tm e tm' \<Longrightarrow> timer_run tm0 (evs @ [e]) tm'"

inductive_cases timer_step_elims:
  "timer_step tm (Ev_add a now ms cb recurring) tm'" "timer_step tm (Ev_cancel a ok) tm'"
  "timer_step tm (Ev_refresh a now ok) tm'" "timer_step tm (Ev_reset a ms from_now now ok) tm'"
  "timer_step tm (Ev_next now n) tm'" "timer_step tm (Ev_expire now fired cbs) tm'"

lemma get_next_time_run:
  assumes "tm_inv tm"
  obtains n where "get_next_time now tm = Some (n, tm\<lparr>tm_tickled := False\<rparr>)"
    "tm_inv (tm\<lparr>tm_tickled := False\<rparr>)"
    "n = (case tm_timers tm of [] \<Rightarrow> NO_TIMER | a # _ \<Rightarrow>
       if t_next (the (tm_heap tm a)) \<le> now then 0 else t_next (the (tm_heap tm a)) - now)"
proof -
  have inv: "tm_inv (tm\<lparr>tm_tickled := False\<rparr>)" using assms by (simp add: tm_inv_def)
  show thesis
  proof (cases "tm_timers tm")
    case (Cons a ts)
    then have "a \<in> timer_objs (tm_heap tm)" using tm_invD(1) [OF assms] by simp
    then obtain t where "tm_heap tm a = Some t" by (auto simp: timer_objs_def)
    then show thesis using that inv Cons by (simp add: get_next_time_def)
  qed (use that inv in \<open>simp add: get_next_time_def\<close>)
qed

text \<open>What a step does to one timer object.\<close>

definition disarmed :: "'f timer_manager \<Rightarrow> addr \<Rightarrow> bool" where
  "disarmed tm a \<longleftrightarrow> (\<exists>t. tm_heap tm a = Some t \<and> t_cb t = None) \<and> a \<notin> set (tm_timers tm)"

definition one_shot :: "'f timer_manager \<Rightarrow> addr \<Rightarrow> bool" where
  "one_shot tm a \<longleftrightarrow> (\<exists>t. tm_heap tm a = Some t \<and> \<not> t_recurring t)"

lemma fresh_not_armed: "tm_inv tm \<Longrightarrow> tm_heap tm a = None \<Longrightarrow> a \<notin> set (tm_timers tm)"
  using tm_invD(1) ordered_objs by (fastforce simp: timer_objs_def)

lemma expired_timers_subset: "set (expired_timers now tm) \<subseteq> set (tm_timers tm)"
  by (auto simp: expired_timers_def)

lemma timer_step_facts:
  assumes step: "timer_step tm e tm'" and inv: "tm_inv tm"
  shows "tm_inv tm' \<and> (disarmed tm a \<longrightarrow> disarmed tm' a) \<and> (one_shot tm a \<longrightarrow> one_shot tm' a)
     \<and> (e = Ev_cancel a True \<longrightarrow> disarmed tm' a) \<and> ((\<exists>n ms cb. e = Ev_add a n ms cb False) \<longrightarrow> one_shot tm' a)
     \<and> (\<forall>now fired cbs. e = Ev_expire now fired cbs \<longrightarrow> set fired \<subseteq> set (tm_timers tm)
          \<and> (a \<in> set fired \<and> one_shot tm a \<longrightarrow> disarmed tm' a))"
  using step
proof cases
  case (step_add b now ms cb recurring tickle)
  then obtain us vs where r: "tm_timers tm = us @ vs" "tm_inv tm'"
    "tm' = tm\<lparr>tm_heap := (tm_heap tm)(b \<mapsto> timer_new now ms cb recurring), tm_timers := us @ b # vs,
          tm_tickled := (tm_tickled tm \<or> us = [])\<rparr>"
    using add_timer_run [OF inv, of b now ms cb recurring] by (metis option.inject prod.inject)
  then show ?thesis using step_add by (auto simp: disarmed_def one_shot_def timer_new_def)
next
  case (step_cancel b ok)
  then obtain t where t: "tm_heap tm b = Some t" by (auto simp: cancel_def bind_eq_Some_conv)
  from cancel_run [OF inv t] step_cancel have "tm_inv tm'" "ok = (t_cb t \<noteq> None)"
    "tm_heap tm' = (tm_heap tm)(b \<mapsto> t\<lparr>t_cb := None\<rparr>)" "t_cb t = None \<longrightarrow> tm' = tm"
    "set (tm_timers tm') = (if t_cb t = None then set (tm_timers tm) else set (tm_timers tm) - {b})"
    by auto
  then show ?thesis using t step_cancel by (cases "t_cb t") (auto simp: disarmed_def one_shot_def)
next
  case (step_refresh b now ok)
  then obtain t where t: "tm_heap tm b = Some t" by (auto simp: refresh_def bind_eq_Some_conv)
  from refresh_run [OF inv t, of now] step_refresh show ?thesis using t
    by (cases "t_cb t") (auto simp: disarmed_def one_shot_def)
next
  case (step_reset b ms from_now now ok tickle)
  then obtain t where t: "tm_heap tm b = Some t" by (auto simp: timer_reset_def bind_eq_Some_conv)
  from timer_reset_run [OF inv t, of ms from_now now] step_reset show ?thesis using t
    by (cases "ms = t_ms t \<and> \<not> from_now \<or> t_cb t = None") (auto simp: disarmed_def one_shot_def)
next
  case (step_next now n)
  obtain n' where "get_next_time now tm = Some (n', tm\<lparr>tm_tickled := False\<rparr>)"
    "tm_inv (tm\<lparr>tm_tickled := False\<rparr>)" by (rule get_next_time_run [OF inv])
  then have "tm' = tm\<lparr>tm_tickled := False\<rparr>" "tm_inv tm'" using step_next by auto
  then show ?thesis using step_next by (simp add: disarmed_def one_shot_def)
next
  case (step_expire tmp now fired cbs)
  from list_expired_run [OF inv fresh_not_armed [OF inv step_expire(3)] step_expire(2), of now] step_expire
  have r: "fired = expired_timers now tm" "tm_inv tm'"
    "tm_heap tm' = (\<lambda>a. if a \<in> set (expired_timers now tm) then map_option (renew now) (tm_heap tm a)
                           else tm_heap tm a)"
    "set (tm_timers tm') = {a \<in> set (tm_timers tm). a \<in> set (expired_timers now tm) \<longrightarrow> t_recurring (the (tm_heap tm a))}"
    by auto
  then show ?thesis using step_expire expired_timers_subset [of now tm]
    by (auto simp: disarmed_def one_shot_def renew_def)
qed

lemma timer_manager_new_inv: "tm_inv (timer_manager_new now)"
  by (simp add: tm_inv_def timer_manager_new_def)

lemma timer_run_inv: "timer_run tm0 evs tm \<Longrightarrow> tm_inv tm0 \<Longrightarrow> tm_inv tm"
  by (induction rule: timer_run.induct) (auto dest: timer_step_facts)

lemma timer_run_split:
  "timer_run tm0 evs tm \<Longrightarrow> evs = evs1 @ e # evs2
   \<Longrightarrow> \<exists>tm1 tm2. timer_run tm0 evs1 tm1 \<and> timer_step tm1 e tm2 \<and> timer_run tm2 evs2 tm"
proof (induction arbitrary: evs2 rule: timer_run.induct)
  case (run_snoc evs tm e' tm')
  show ?case
  proof (cases evs2 rule: rev_cases)
    case Nil
    then show ?thesis using run_snoc timer_run.run_nil by fastforce
  next
    case (snoc evs2' e'')
    then have "evs = evs1 @ e # evs2'" "e' = e''" using run_snoc.prems by auto
    then show ?thesis using run_snoc.IH run_snoc.hyps(2) snoc timer_run.run_snoc by metis
  qed
qed simp

lemma disarmed_stays:
  "timer_run tm0 evs tm \<Longrightarrow> tm_inv tm0 \<Longrightarrow> disarmed tm0 a
   \<Longrightarrow> disarmed tm a \<and> (\<forall>now fired cbs. Ev_expire now fired cbs \<in> set evs \<longrightarrow> a \<notin> set fired)"
proof (induction rule: timer_run.induct)
  case (run_snoc evs tm e tm')
  then have inv: "tm_inv tm" and d: "disarmed tm a" using timer_run_inv by blast+
  from timer_step_facts [OF run_snoc.hyps(2) inv, of a] d run_snoc show ?case
    by (auto simp: disarmed_def)
qed simp

lemma added_one_shot:
  "timer_run tm0 evs tm \<Longrightarrow> tm_inv tm0 \<Longrightarrow> Ev_add a n ms cb False \<in> set evs \<Longrightarrow> one_shot tm a"
proof (induction rule: timer_run.induct)
  case (run_snoc evs tm e tm')
  have inv: "tm_inv tm" using run_snoc timer_run_inv by blast
  show ?case using run_snoc timer_step_facts [OF run_snoc.hyps(2) inv, of a] by auto
qed simp

subsection \<open>Properties\<close>

text \<open>
  C19. \<open>list_expired_cb\<close> returns the callbacks of exactly the timers whose time has come, in the order of
  their due times, wherever the temporary search timer lies in memory; when the clock has gone back by
  more than an hour it returns those of all timers. Each of them is armed again for one period from now
  if it recurs and loses its callback otherwise; all others stay as they are.
\<close>

theorem expiry_exact:
  assumes "tm_inv tm" "tmp \<notin> set (tm_timers tm)" "tmp \<noteq> nullptr"
  shows "\<exists>fired tm'. list_expired_cb now tmp tm = Some ((fired, map (\<lambda>a. t_cb (the (tm_heap tm a))) fired), tm')
     \<and> fired = (if clock_rolled_over now (tm_previous_time tm) then tm_timers tm
                else filter (\<lambda>a. t_next (the (tm_heap tm a)) \<le> now) (tm_timers tm))
     \<and> tm_inv tm'
     \<and> (\<forall>a. tm_heap tm' a = (if a \<in> set fired then map_option (renew now) (tm_heap tm a) else tm_heap tm a))
     \<and> set (tm_timers tm') = {a \<in> set (tm_timers tm). a \<in> set fired \<longrightarrow> t_recurring (the (tm_heap tm a))}"
  using list_expired_run [OF assms, of now] by (fastforce simp: expired_timers_def due_def [abs_def])

text \<open>Three timers, two of them due at the same time as the clock; the second one recurs.\<close>

definition demo_timers :: "nat timer_manager" where
  "demo_timers = \<lparr>tm_heap = [16 \<mapsto> timer_new 100 50 (Some 1) False, 32 \<mapsto> timer_new 140 10 (Some 2) True,
       48 \<mapsto> timer_new 100 70 (Some 3) False],
     tm_timers = [16, 32, 48], tm_tickled = False, tm_previous_time = 100\<rparr>"

lemma demo_timers: "tm_inv demo_timers"
proof (rule tm_invI)
  show "tset.ordered (tm_heap demo_timers) (tm_timers demo_timers)"
    by (simp add: demo_timers_def timer_objs_def timer_key_def timer_new_def)
qed (auto simp: demo_timers_def split: if_splits)

theorem expiry_exact_witness:
  "\<exists>tm'. list_expired_cb 150 24 demo_timers = Some (([16, 32], [Some 1, Some 2]), tm')
     \<and> set (tm_timers tm') = {32, 48} \<and> t_next (the (tm_heap tm' 32)) = 160"
proof -
  have "24 \<notin> set (tm_timers demo_timers)" by (simp add: demo_timers_def)
  from expiry_exact [OF demo_timers this, of 150] obtain fired tm' where
    r: "list_expired_cb 150 24 demo_timers
        = Some ((fired, map (\<lambda>a. t_cb (the (tm_heap demo_timers a))) fired), tm')"
    "fired = (if clock_rolled_over 150 (tm_previous_time demo_timers) then tm_timers demo_timers
        else filter (\<lambda>a. t_next (the (tm_heap demo_timers a)) \<le> 150) (tm_timers demo_timers))"
    "\<forall>a. tm_heap tm' a = (if a \<in> set fired then map_option (renew 150) (tm_heap demo_timers a)
        else tm_heap demo_timers a)"
    "set (tm_timers tm') = {a \<in> set (tm_timers demo_timers). a \<in> set fired
        \<longrightarrow> t_recurring (the (tm_heap demo_timers a))}" by auto
  have fired: "fired = [16, 32]"
    unfolding r(2) by (simp add: demo_timers_def clock_rolled_over_def timer_new_def)
  have "set (tm_timers tm') = {32, 48}"
    unfolding r(4) fired by (auto simp: demo_timers_def timer_new_def)
  moreover have "t_next (the (tm_heap tm' 32)) = 160"
    using r(3) fired by (simp add: demo_timers_def timer_new_def renew_def)
  ultimately show ?thesis using r(1) unfolding fired by (auto simp: demo_timers_def timer_new_def)
qed

text \<open>
  C20. After any sequence of calls on a new manager the set of timers is strictly sorted by due time and
  address, a timer with a callback is armed, and every call on a known timer returns.
\<close>

theorem timer_manager_invariant:
  assumes "timer_run (timer_manager_new t0) evs tm"
  shows "tm_inv tm \<and> (\<forall>a. tm_heap tm a \<noteq> None \<longrightarrow> cancel a tm \<noteq> None \<and> refresh a now tm \<noteq> None
       \<and> timer_reset a ms from_now now tm \<noteq> None) \<and> get_next_time now tm \<noteq> None
     \<and> (\<forall>tmp. tmp \<noteq> nullptr \<and> tm_heap tm tmp = None \<longrightarrow> list_expired_cb now tmp tm \<noteq> None
          \<and> add_timer tmp now ms cb recurring tm \<noteq> None)"
proof -
  have inv: "tm_inv tm" using assms timer_manager_new_inv by (rule timer_run_inv)
  obtain n where "get_next_time now tm = Some (n, tm\<lparr>tm_tickled := False\<rparr>)" by (rule get_next_time_run [OF inv])
  moreover have "cancel a tm \<noteq> None \<and> refresh a now tm \<noteq> None \<and> timer_reset a ms from_now now tm \<noteq> None"
    if "tm_heap tm a = Some t" for a t
    using cancel_run [OF inv that] refresh_run [OF inv that, of now]
      timer_reset_run [OF inv that, of ms from_now now] by auto
  moreover have "list_expired_cb now tmp tm \<noteq> None \<and> add_timer tmp now ms cb recurring tm \<noteq> None"
    if "tmp \<noteq> nullptr" "tm_heap tm tmp = None" for tmp
    using list_expired_run [OF inv fresh_not_armed [OF inv that(2)] that(1), of now]
      add_timer_run [OF inv that, of now ms cb recurring] by fastforce
  ultimately show ?thesis using inv by blast
qed

text \<open>A run: a recurring timer is added, fires, and is cancelled.\<close>

definition demo_run :: "nat timer_event list" where
  "demo_run = [Ev_add 16 100 50 (Some 1) True, Ev_expire 150 [16] [Some 1], Ev_cancel 16 True,
     Ev_expire 300 [] []]"

lemma demo_run:
  "\<exists>tm. timer_run (timer_manager_new 100) demo_run tm"
proof -
  let ?t0 = "timer_manager_new 100 :: nat timer_manager"
  define t1 where "t1 = ?t0\<lparr>tm_heap := [16 \<mapsto> timer_new 100 50 (Some 1) True], tm_timers := [16], tm_tickled := True\<rparr>"
  define t2 where "t2 = t1\<lparr>tm_previous_time := 150, tm_heap := [16 \<mapsto> (timer_new 100 50 (Some 1) True)\<lparr>t_next := 200\<rparr>]\<rparr>"
  have "add_timer 16 100 50 (Some 1) True ?t0 = Some (True, t1)"
    by (simp add: add_timer_def insert_timer_def timer_manager_new_def set_find_def timer_less_def t1_def)
  then have s1: "timer_step ?t0 (Ev_add 16 100 50 (Some 1) True) t1"
    by (rule step_add [rotated 2]) (simp_all add: timer_manager_new_def)
  have "list_expired_cb 150 24 t1 = Some (([16], [Some 1]), t2)"
    by (simp add: list_expired_cb_def detect_clock_roll_over_def t1_def t2_def timer_manager_new_def
        clock_rolled_over_def timer_new_def timer_less_def timer_at_def skip_due.simps)
  then have s2: "timer_step t1 (Ev_expire 150 [16] [Some 1]) t2"
    by (rule step_expire [rotated 2]) (simp_all add: t1_def)
  define t3 where "t3 = t2\<lparr>tm_heap := [16 \<mapsto> (timer_new 100 50 None True)\<lparr>t_next := 200\<rparr>], tm_timers := []\<rparr>"
  have "cancel 16 t2 = Some (True, t3)"
    by (simp add: cancel_def t2_def t1_def timer_new_def timer_manager_new_def set_find_def
        timer_less_def set_erase_def t3_def)
  then have s3: "timer_step t2 (Ev_cancel 16 True) t3" by (rule step_cancel)
  have "list_expired_cb 300 24 t3 = Some (([], []), t3)" by (simp add: list_expired_cb_def t3_def)
  then have s4: "timer_step t3 (Ev_expire 300 [] []) t3"
    by (rule step_expire [rotated 2]) (simp_all add: t3_def)
  have "timer_run ?t0 [] ?t0" by (rule run_nil)
  from run_snoc [OF run_snoc [OF run_snoc [OF run_snoc [OF this s1] s2] s3] s4] show ?thesis
    by (auto simp: demo_run_def)
qed

theorem timer_manager_invariant_witness:
  "\<exists>tm. timer_run (timer_manager_new 100) demo_run tm \<and> tm_inv tm"
  using demo_run timer_manager_invariant [of 100 demo_run] by blast

text \<open>
  C21. A timer never fires after it was cancelled, and a timer added as one-shot fires at most once: once
  \<open>cancel\<close> has returned true, or the one-shot timer is among the expired ones, no later expiry holds it,
  whatever is done with it.
\<close>

theorem timer_not_fired_again:
  assumes "timer_run (timer_manager_new t0) (evs1 @ e # evs2) tm"
    and "e = Ev_cancel a True \<or> (\<exists>n ms cb. Ev_add a n ms cb False \<in> set evs1)
      \<and> (\<exists>now fired cbs. e = Ev_expire now fired cbs \<and> a \<in> set fired)"
  shows "\<forall>now fired cbs. Ev_expire now fired cbs \<in> set evs2 \<longrightarrow> a \<notin> set fired"
proof -
  from timer_run_split [OF assms(1)] obtain tm1 tm2 where s: "timer_run (timer_manager_new t0) evs1 tm1"
    "timer_step tm1 e tm2" "timer_run tm2 evs2 tm" by blast
  have inv: "tm_inv tm1" using s(1) timer_manager_new_inv by (rule timer_run_inv)
  have "disarmed tm2 a"
    using assms(2) timer_step_facts [OF s(2) inv, of a] added_one_shot [OF s(1) timer_manager_new_inv] by blast
  then show ?thesis using disarmed_stays [OF s(3)] timer_step_facts [OF s(2) inv] by blast
qed

theorem timer_not_fired_again_witness:
  "(\<exists>tm. timer_run (timer_manager_new 100) demo_run tm)
     \<and> (\<nexists>now fired cbs. Ev_expire now fired cbs \<in> set (drop 3 demo_run) \<and> 16 \<in> set fired)"
proof -
  have "demo_run = take 2 demo_run @ Ev_cancel 16 True # drop 3 demo_run" by (simp add: demo_run_def)
  with demo_run timer_not_fired_again [of 100 "take 2 demo_run" "Ev_cancel 16 True" "drop 3 demo_run" _ 16]
  show ?thesis by auto
qed

text \<open>
  The time that \<open>get_next_time\<close> returns is exact: without clock changes, a check for expired timers at
  a later time finds one if and only if that many milliseconds have passed.
\<close>

theorem next_time_exact:
  assumes "tm_inv tm" "tm_timers tm \<noteq> []" "get_next_time now tm = Some (n, tm1)"
    and "now \<le> later" "\<not> clock_rolled_over later (tm_previous_time tm)"
    and "tmp \<notin> set (tm_timers tm)" "tmp \<noteq> nullptr"
  shows "\<exists>fired cbs tm'. list_expired_cb later tmp tm1 = Some ((fired, cbs), tm')
     \<and> (fired \<noteq> [] \<longleftrightarrow> unat now + unat n \<le> unat later)"
proof -
  obtain a ts where ts: "tm_timers tm = a # ts" using assms(2) by (cases "tm_timers tm") auto
  obtain n' where "get_next_time now tm = Some (n', tm\<lparr>tm_tickled := False\<rparr>)"
    "tm_inv (tm\<lparr>tm_tickled := False\<rparr>)"
    "n' = (case tm_timers tm of [] \<Rightarrow> NO_TIMER | a # _ \<Rightarrow>
       if t_next (the (tm_heap tm a)) \<le> now then 0 else t_next (the (tm_heap tm a)) - now)"
    by (rule get_next_time_run [OF assms(1)])
  then have r: "tm1 = tm\<lparr>tm_tickled := False\<rparr>" "tm_inv tm1"
    "n = (if t_next (the (tm_heap tm a)) \<le> now then 0 else t_next (the (tm_heap tm a)) - now)"
    using assms(3) by (simp_all add: ts)
  have "tmp \<notin> set (tm_timers tm1)" using assms(6) r(1) by simp
  from list_expired_run [OF r(2) this assms(7), of later] obtain tm' where
    l: "list_expired_cb later tmp tm1 = Some ((expired_timers later tm1,
          map (\<lambda>a. t_cb (the (tm_heap tm1 a))) (expired_timers later tm1)), tm')" by blast
  have "takeWhile (due later tm1) (tm_timers tm1) = expired_timers later tm1"
    using due_prefix [OF tm_invD(1) [OF r(2)], of later] assms(5) r(1) by (simp add: expired_timers_def)
  then have "expired_timers later tm1 \<noteq> [] \<longleftrightarrow> t_next (the (tm_heap tm a)) \<le> later"
    using ts r(1) by (auto simp: due_def split: if_splits)
  moreover have "t_next (the (tm_heap tm a)) \<le> later \<longleftrightarrow> unat now + unat n \<le> unat later"
    using r(3) assms(4) by (auto simp: word_le_nat_alt unat_sub_le not_le word_less_nat_alt)
  ultimately show ?thesis using l by blast
qed

theorem next_time_exact_witness:
  "\<exists>fired cbs tm'. list_expired_cb 149 24 (demo_timers\<lparr>tm_tickled := False\<rparr>) = Some ((fired, cbs), tm') \<and> fired = []"
proof -
  have "get_next_time 110 demo_timers = Some (40, demo_timers\<lparr>tm_tickled := False\<rparr>)"
    by (simp add: get_next_time_def demo_timers_def timer_new_def)
  from next_time_exact [OF demo_timers _ this, of 149 24] show ?thesis
    by (auto simp: demo_timers_def clock_rolled_over_def)
qed

end
