(* ===== verification/TimerPost.thy ===== *)
theory TimerPost
  imports NetDrain TimerRuns
begin

text \<open>
  From an expired timer to its callback: the timer thread posts a message per callback, the working
  thread takes the messages in turn, runs the callbacks and gives the blocks back.
\<close>

definition tfree :: "'f proto_stack \<Rightarrow> addr list" where
  "tfree ps = mb_free_list (ps_timer_mem_block ps)"

definition qroom :: "'f proto_stack \<Rightarrow> nat" where
  "qroom ps = rq_room (ps_msg_queue ps)"

text \<open>\<open>held\<close> are the blocks of the timer messages in the queue.\<close>

definition tq_inv :: "'f proto_stack \<Rightarrow> addr list \<Rightarrow> bool" where
  "tq_inv ps held \<longleftrightarrow> mb_inv (ps_timer_mem_block ps) \<and> rq_inv (ps_msg_queue ps)
     \<and> distinct (tfree ps @ held) \<and> length (tfree ps @ held) \<le> mb_room (ps_timer_mem_block ps)
     \<and> (\<forall>a \<in> set (tfree ps @ held). a \<noteq> nullptr) \<and> set (tfree ps) \<inter> set (ps_queue_list ps) = {}"

lemma post_timer_run:
  assumes inv: "tq_inv ps held"
  shows "\<exists>ps'. post_timer cb ps = Some ps' \<and> qroom ps' = qroom ps
     \<and> (case tfree ps of
          [] \<Rightarrow> ps' = ps
        | a # fs \<Rightarrow> if length (ps_queue_list ps) < qroom ps
            then tq_inv ps' (held @ [a]) \<and> ps_queue_list ps' = ps_queue_list ps @ [a] \<and> tfree ps' = fs
               \<and> ps_msgs ps' = (ps_msgs ps)(a \<mapsto> Exmsg_timer_fun cb)
            else tq_inv ps' held \<and> ps_queue_list ps' = ps_queue_list ps \<and> tfree ps' = fs @ [a]
               \<and> ps_msgs ps' = (ps_msgs ps)(a := None))"
proof (cases "tfree ps")
  case Nil
  then have "mb_alloc (ps_timer_mem_block ps) = Some (None, ps_timer_mem_block ps)"
    using inv mb.pp_empty by (simp add: tq_inv_def tfree_def)
  then show ?thesis using Nil by (simp add: post_timer_def get_timer_msg_block_def)
next
  case (Cons a fs)
  have mb: "mb_inv (ps_timer_mem_block ps)" and q: "rq_inv (ps_msg_queue ps)" and a: "a \<noteq> nullptr"
    and free: "mb_free_list (ps_timer_mem_block ps) = a # fs"
    using inv Cons by (auto simp: tq_inv_def tfree_def)
  from mb.pp_cons [OF mb free] obtain pool where pool: "mb_alloc (ps_timer_mem_block ps) = Some (Some a, pool)"
    "mb_inv pool" "mb_free_list pool = fs" "mb_room pool = mb_room (ps_timer_mem_block ps)" by blast
  let ?room = "length (ps_queue_list ps) < qroom ps"
  from rq.psh_cases [OF q, of a] obtain q' where q': "push (ps_msg_queue ps) a = Some (?room, q')" "rq_inv q'"
    "rq_room q' = qroom ps" "rq_list q' = (if ?room then ps_queue_list ps @ [a] else ps_queue_list ps)"
    unfolding ps_queue_list_def qroom_def by metis
  define ps1 where "ps1 = set_msg a (Exmsg_timer_fun cb) (set_msg a (Exmsg_timer_fun None) (ps\<lparr>ps_timer_mem_block := pool\<rparr>))"
  have post: "post_timer cb ps = (if ?room then Some (ps1\<lparr>ps_msg_queue := q'\<rparr>)
      else do { (_, ps4) \<leftarrow> release_timer_msg_block a (ps1\<lparr>ps_msg_queue := q'\<rparr>); Some ps4 })"
    using pool(1) q'(1) a
    by (simp add: post_timer_def get_timer_msg_block_def push_msg_def ps1_def Let_def set_msg_def)
  show ?thesis
  proof (cases ?room)
    case True
    then show ?thesis using Cons post pool(2-4) q' inv
      by (intro exI [of _ "ps1\<lparr>ps_msg_queue := q'\<rparr>"])
         (auto simp: ps1_def tq_inv_def tfree_def qroom_def ps_queue_list_def set_msg_def)
  next
    case False
    have "length fs < mb_room pool" using inv Cons pool(4) by (simp add: tq_inv_def)
    with pool(2,3) mb.psh_room [of pool a] obtain pool' where pool': "mb_free pool a = Some (True, pool')"
      "mb_inv pool'" "mb_free_list pool' = fs @ [a]" "mb_room pool' = mb_room (ps_timer_mem_block ps)"
      using pool(4) by auto
    define ps' where "ps' = ps1\<lparr>ps_msg_queue := q', ps_timer_mem_block := pool', ps_msgs := (ps_msgs ps1)(a := None)\<rparr>"
    have "post_timer cb ps = Some ps'"
      using post False a pool'(1) by (simp add: release_timer_msg_block_def ps1_def ps'_def set_msg_def)
    then show ?thesis using Cons False q' pool' inv
      by (intro exI [of _ ps'])
         (auto simp: ps'_def ps1_def tq_inv_def tfree_def qroom_def ps_queue_list_def set_msg_def)
  qed
qed

text \<open>
  Posting a list: as many callbacks as there are blocks and room get through, the first ones; the others
  are lost.
\<close>

definition posted :: "'a list \<Rightarrow> 'f proto_stack \<Rightarrow> nat" where
  "posted cbs ps = min (length cbs) (min (length (tfree ps)) (qroom ps - length (ps_queue_list ps)))"

lemma post_timers_run:
  assumes "tq_inv ps held"
  shows "\<exists>ps'. post_timers cbs ps = Some ps' \<and> qroom ps' = qroom ps
     \<and> tq_inv ps' (held @ take (posted cbs ps) (tfree ps))
     \<and> ps_queue_list ps' = ps_queue_list ps @ take (posted cbs ps) (tfree ps)
     \<and> (\<forall>i < posted cbs ps. ps_msgs ps' (tfree ps ! i) = Some (Exmsg_timer_fun (cbs ! i)))
     \<and> (\<forall>a. a \<notin> set (tfree ps) \<longrightarrow> ps_msgs ps' a = ps_msgs ps a)
     \<and> set (tfree ps') = set (drop (posted cbs ps) (tfree ps))"
  using assms
proof (induction cbs arbitrary: ps held)
  case (Cons cb cbs)
  from post_timer_run [OF Cons.prems, of cb] obtain ps1 where
    p: "post_timer cb ps = Some ps1" "qroom ps1 = qroom ps"
    "case tfree ps of
          [] \<Rightarrow> ps1 = ps
        | a # fs \<Rightarrow> if length (ps_queue_list ps) < qroom ps
            then tq_inv ps1 (held @ [a]) \<and> ps_queue_list ps1 = ps_queue_list ps @ [a] \<and> tfree ps1 = fs
               \<and> ps_msgs ps1 = (ps_msgs ps)(a \<mapsto> Exmsg_timer_fun cb)
            else tq_inv ps1 held \<and> ps_queue_list ps1 = ps_queue_list ps \<and> tfree ps1 = fs @ [a]
               \<and> ps_msgs ps1 = (ps_msgs ps)(a := None)" by blast
  show ?case
  proof (cases "tfree ps \<noteq> [] \<and> length (ps_queue_list ps) < qroom ps")
    case True
    then obtain a fs where a: "tfree ps = a # fs" by (cases "tfree ps") auto
    with p(3) True have p1: "tq_inv ps1 (held @ [a])" "ps_queue_list ps1 = ps_queue_list ps @ [a]" "tfree ps1 = fs"
      "ps_msgs ps1 = (ps_msgs ps)(a \<mapsto> Exmsg_timer_fun cb)" by simp_all
    have n: "posted (cb # cbs) ps = Suc (posted cbs ps1)"
      using True a p1(2,3) p(2) by (simp add: posted_def)
    have "a \<notin> set fs" using Cons.prems a by (simp add: tq_inv_def)
    with Cons.IH [OF p1(1)] p(1,2) p1(2-4) a n show ?thesis
      by (fastforce simp: less_Suc_eq_0_disj)
  next
    case False
    have n: "posted (cb # cbs) ps = 0" using False by (auto simp: posted_def)
    have p1: "tq_inv ps1 held" "ps_queue_list ps1 = ps_queue_list ps" "set (tfree ps1) = set (tfree ps)"
      "\<forall>a. a \<notin> set (tfree ps) \<longrightarrow> ps_msgs ps1 a = ps_msgs ps a"
      using p(3) False Cons.prems by (auto split: list.splits)
    have "posted cbs ps1 = 0"
      using False p1(2,3) p(2) by (auto simp: posted_def)
    with Cons.IH [OF p1(1)] p(1,2) p1(2-4) n show ?thesis by auto
  qed
qed (simp add: posted_def)

subsection \<open>Running the callbacks\<close>

text \<open>Callbacks that act on the packets, one after the other; an empty one does nothing.\<close>

fun run_all :: "('f \<Rightarrow> pkt_store \<Rightarrow> pkt_store option) \<Rightarrow> 'f option list \<Rightarrow> pkt_store \<Rightarrow> pkt_store option" where
  "run_all h [] st = Some st"
| "run_all h (None # cbs) st = run_all h cbs st"
| "run_all h (Some f # cbs) st = do { st1 \<leftarrow> h f st; run_all h cbs st1 }"

text \<open>One message.\<close>

lemma work_step_timer:
  assumes inv: "tq_inv (net_stack net) (a # held)" and q: "ps_queue_list (net_stack net) = a # as" "a \<notin> set as"
    and m: "ps_msgs (net_stack net) a = Some (Exmsg_timer_fun func)"
    and run: "run_all h [func] (net_store net) = Some st'"
  shows "\<exists>ps'. work_step ord (\<lambda>f. on_store0 (h f)) net = Some (True, net\<lparr>net_store := st', net_stack := ps'\<rparr>)
     \<and> tq_inv ps' held \<and> ps_queue_list ps' = as \<and> tfree ps' = tfree (net_stack net) @ [a]
     \<and> ps_msgs ps' = (ps_msgs (net_stack net))(a := None) \<and> qroom ps' = qroom (net_stack net)"
proof -
  let ?ps = "net_stack net"
  have rq: "rq_inv (ps_msg_queue ?ps)" "rq_list (ps_msg_queue ?ps) = a # as" "a \<noteq> nullptr"
    using inv q(1) by (auto simp: tq_inv_def ps_queue_list_def)
  from rq.pp_cons [OF rq(1,2)] obtain q' where q': "pop (ps_msg_queue ?ps) = Some (Some a, q')" "rq_inv q'"
    "rq_list q' = as" "rq_room q' = qroom ?ps" unfolding qroom_def by blast
  have "mb_inv (ps_timer_mem_block ?ps)" "length (tfree ?ps) < mb_room (ps_timer_mem_block ?ps)"
    using inv by (auto simp: tq_inv_def)
  from mb.psh_room [OF this(1) this(2) [unfolded tfree_def], of a] obtain pool where
    pool: "mb_free (ps_timer_mem_block ?ps) a = Some (True, pool)" "mb_inv pool"
    "mb_free_list pool = tfree ?ps @ [a]" "mb_room pool = mb_room (ps_timer_mem_block ?ps)" unfolding tfree_def by blast
  define ps' where "ps' = ?ps\<lparr>ps_msg_queue := q', ps_timer_mem_block := pool, ps_msgs := (ps_msgs ?ps)(a := None)\<rparr>"
  have "work_step ord (\<lambda>f. on_store0 (h f)) net = Some (True, net\<lparr>net_store := st', net_stack := ps'\<rparr>)"
    using q'(1) pool(1) m run rq(3)
    by (cases func) (auto simp: work_step_def on_stack_def pop_msg_queue_def on_store0_def release_timer_msg_block_def
        set_msg_def Let_def ps'_def bind_eq_Some_conv split: option.splits)
  moreover have "tq_inv ps' held"
    using inv q'(2,3) pool(2-4) q by (auto simp: tq_inv_def ps'_def tfree_def ps_queue_list_def)
  ultimately show ?thesis using q' pool
    by (intro exI [of _ ps']) (simp add: ps'_def ps_queue_list_def tfree_def qroom_def)
qed

lemma work_steps_timers:
  assumes "tq_inv (net_stack net) as" "ps_queue_list (net_stack net) = as" "length cbs = length as"
    and "\<forall>i < length as. ps_msgs (net_stack net) (as ! i) = Some (Exmsg_timer_fun (cbs ! i))"
    and "run_all h cbs (net_store net) = Some st'"
  shows "\<exists>ps'. work_steps ord (\<lambda>f. on_store0 (h f)) (length as) net = Some (net\<lparr>net_store := st', net_stack := ps'\<rparr>)
     \<and> tq_inv ps' [] \<and> ps_queue_list ps' = [] \<and> tfree ps' = tfree (net_stack net) @ as"
  using assms
proof (induction as arbitrary: cbs net)
  case Nil
  then show ?case by (intro exI [of _ "net_stack net"]) simp
next
  case (Cons a as)
  then obtain cb cbs' where cbs: "cbs = cb # cbs'" "length cbs' = length as" by (cases cbs) auto
  obtain st1 where st1: "run_all h [cb] (net_store net) = Some st1" "run_all h cbs' st1 = Some st'"
    using Cons.prems(5) cbs(1) by (cases cb) (auto simp: bind_eq_Some_conv)
  have a: "a \<notin> set as" using Cons.prems(1) by (simp add: tq_inv_def)
  have "ps_msgs (net_stack net) a = Some (Exmsg_timer_fun cb)" using Cons.prems(4) cbs by auto
  from work_step_timer [OF Cons.prems(1,2) a this st1(1), of ord] obtain ps1 where
    w: "work_step ord (\<lambda>f. on_store0 (h f)) net = Some (True, net\<lparr>net_store := st1, net_stack := ps1\<rparr>)"
    "tq_inv ps1 as" "ps_queue_list ps1 = as" "tfree ps1 = tfree (net_stack net) @ [a]"
    "ps_msgs ps1 = (ps_msgs (net_stack net))(a := None)" by blast
  have m: "\<forall>i < length as. ps_msgs ps1 (as ! i) = Some (Exmsg_timer_fun (cbs' ! i))"
    using Cons.prems(4) cbs(1) a w(5) by fastforce
  from Cons.IH [of "net\<lparr>net_store := st1, net_stack := ps1\<rparr>" cbs'] w(2-4) m cbs(2) st1(2) w(1)
  show ?case by auto
qed

subsection \<open>Properties\<close>

lemma get_next_time_total: "tm_inv tm \<Longrightarrow> \<exists>n. get_next_time now tm = Some (n, tm\<lparr>tm_tickled := False\<rparr>)"
  by (rule get_next_time_run) auto

text \<open>
  C27. Every expired timer gets its turn: after a round of the timer thread, with a message block and a place
  in the empty queue for each expired timer, as many rounds of the working thread run the callbacks of
  exactly these timers once, in the order of their due times, and all message blocks are free again.
  The wait before the round is at most three seconds.
\<close>

theorem expired_callbacks_run:
  assumes "tm_inv tm" "tmp \<notin> set (tm_timers tm)" "tmp \<noteq> nullptr"
    and "tq_inv (net_stack net) []" "ps_queue_list (net_stack net) = []"
    and "fired = expired_timers later tm" "length fired \<le> length (tfree (net_stack net))"
    and "length fired \<le> qroom (net_stack net)"
    and "run_all h (map (\<lambda>a. t_cb (the (tm_heap tm a))) fired) (net_store net) = Some st'"
  shows "\<exists>timeout tm' ps' net'. timer_thread_step now later tmp tm (net_stack net) = Some (timeout, tm', ps')
     \<and> timeout \<le> 3000 \<and> tm_inv tm'
     \<and> work_steps ord (\<lambda>f. on_store0 (h f)) (length fired) (net\<lparr>net_stack := ps'\<rparr>) = Some net'
     \<and> net_store net' = st' \<and> net_ifs net' = net_ifs net \<and> ps_queue_list (net_stack net') = []
     \<and> set (tfree (net_stack net')) = set (tfree (net_stack net))"
proof -
  let ?ps = "net_stack net" and ?cbs = "map (\<lambda>a. t_cb (the (tm_heap tm a))) fired"
  define tm1 where "tm1 = tm\<lparr>tm_tickled := False\<rparr>"
  have tm1: "tm_inv tm1" "tmp \<notin> set (tm_timers tm1)" using assms(1,2) by (simp_all add: tm1_def tm_inv_def)
  obtain n where n: "get_next_time now tm = Some (n, tm1)"
    using get_next_time_total [OF assms(1)] tm1_def by blast
  have "expired_timers later tm1 = fired" using assms(6) by (simp add: expired_timers_def due_def [abs_def] tm1_def)
  with list_expired_run [OF tm1 assms(3), of later] obtain tm2 where
    tm2: "list_expired_cb later tmp tm1 = Some ((fired, ?cbs), tm2)" "tm_inv tm2" by (auto simp: tm1_def)
  have posted: "posted ?cbs ?ps = length fired" using assms(5,7,8) by (simp add: posted_def)
  from post_timers_run [OF assms(4), of ?cbs] obtain ps' where
    p: "post_timers ?cbs ?ps = Some ps'" "tq_inv ps' (take (length fired) (tfree ?ps))"
    "ps_queue_list ps' = take (length fired) (tfree ?ps)"
    "\<forall>i < length fired. ps_msgs ps' (tfree ?ps ! i) = Some (Exmsg_timer_fun (?cbs ! i))"
    "set (tfree ps') = set (drop (length fired) (tfree ?ps))" unfolding posted assms(5) by auto
  have len: "length (take (length fired) (tfree ?ps)) = length fired" using assms(7) by simp
  have m: "\<forall>i < length fired. ps_msgs ps' (take (length fired) (tfree ?ps) ! i) = Some (Exmsg_timer_fun (?cbs ! i))"
    using p(4) by simp
  from work_steps_timers [of "net\<lparr>net_stack := ps'\<rparr>" "take (length fired) (tfree ?ps)" ?cbs h st' ord]
    p(2,3) m len assms(9) obtain ps2 where
    w: "work_steps ord (\<lambda>f. on_store0 (h f)) (length fired) (net\<lparr>net_stack := ps'\<rparr>)
        = Some (net\<lparr>net_store := st', net_stack := ps2\<rparr>)"
    "ps_queue_list ps2 = []" "tfree ps2 = tfree ps' @ take (length fired) (tfree ?ps)" by auto
  have "set (tfree ps2) = set (tfree ?ps)"
    unfolding w(3) set_append p(5) by (metis Un_commute append_take_drop_id set_append)
  moreover have "timer_thread_step now later tmp tm ?ps = Some (epoll_timeout n, tm2, ps')"
    using n tm2(1) p(1) by (simp add: timer_thread_step_def)
  moreover have "epoll_timeout n \<le> 3000" by (simp add: epoll_timeout_def)
  ultimately show ?thesis using w(1,2) tm2(2) by auto
qed

text \<open>A net with the given timer message blocks and an empty queue, and callbacks that leave a trace.\<close>

definition demo_timer_net :: "addr list \<Rightarrow> nat net" where
  "demo_timer_net blocks = \<lparr>net_store = demo_two,
     net_stack = demo_stack_room\<lparr>ps_timer_mem_block := demo_pool 40 blocks\<rparr>, net_ifs = (\<lambda>_. None)\<rparr>"

definition demo_trace :: "nat \<Rightarrow> pkt_store \<Rightarrow> pkt_store option" where
  "demo_trace f st = Some (st\<lparr>cfg_blk_size := 10 * cfg_blk_size st + of_nat f\<rparr>)"

lemma demo_timer_net:
  assumes "length blocks < 4" "distinct blocks" "nullptr \<notin> set blocks"
  shows "tq_inv (net_stack (demo_timer_net blocks)) []" "tfree (net_stack (demo_timer_net blocks)) = blocks"
    "ps_queue_list (net_stack (demo_timer_net blocks)) = []" "qroom (net_stack (demo_timer_net blocks)) = 3"
proof -
  show f: "tfree (net_stack (demo_timer_net blocks)) = blocks" "ps_queue_list (net_stack (demo_timer_net blocks)) = []"
    "qroom (net_stack (demo_timer_net blocks)) = 3"
    using demo_pool(2) [of blocks 40] demo_stack_room(3,4) assms(1)
    by (simp_all add: tfree_def demo_timer_net_def ps_queue_list_def qroom_def)
  have "\<forall>a \<in> set blocks. a \<noteq> nullptr" using assms(3) by metis
  then show "tq_inv (net_stack (demo_timer_net blocks)) []"
    using demo_stack_room(1) demo_pool(1) [of blocks 40] demo_pool(3) [of 40 blocks] assms
    unfolding tq_inv_def f by (simp add: demo_timer_net_def ps_inv_def)
qed

theorem expired_callbacks_run_witness:
  "\<exists>timeout tm' ps' net'. timer_thread_step 130 150 24 demo_timers (net_stack (demo_timer_net [300, 340]))
       = Some (timeout, tm', ps')
     \<and> work_steps Little_endian (\<lambda>f. on_store0 (demo_trace f)) 2 ((demo_timer_net [300, 340])\<lparr>net_stack := ps'\<rparr>)
       = Some net'
     \<and> cfg_blk_size (net_store net') = 6412"
proof -
  have fired: "expired_timers 150 demo_timers = [16, 32]"
    by (simp add: expired_timers_def due_def demo_timers_def clock_rolled_over_def timer_new_def)
  have cbs: "map (\<lambda>a. t_cb (the (tm_heap demo_timers a))) [16, 32] = [Some 1, Some 2]"
    by (simp add: demo_timers_def timer_new_def)
  have tmp: "24 \<notin> set (tm_timers demo_timers)" by (simp add: demo_timers_def)
  have run: "run_all demo_trace [Some 1, Some 2] (net_store (demo_timer_net [300, 340])) = Some (demo_two\<lparr>cfg_blk_size := 6412\<rparr>)"
    by (simp add: demo_trace_def demo_timer_net_def demo_two_def)
  from expired_callbacks_run [OF demo_timers tmp _ _ _ fired [symmetric], of "demo_timer_net [300, 340]" demo_trace
      "demo_two\<lparr>cfg_blk_size := 6412\<rparr>" 130 Little_endian] run demo_timer_net [of "[300, 340]"]
  show ?thesis unfolding cbs by (auto simp: numeral_2_eq_2 simp del: work_steps.simps run_all.simps)
qed

text \<open>
  When message blocks or places in the queue run short, only the first callbacks of a round are posted, as
  many as there are blocks and places; the others are lost, although their timers have been disarmed or
  armed for the next period before.
\<close>

theorem expired_callbacks_lost:
  assumes "tq_inv ps held"
    and "m = min (length cbs) (min (length (tfree ps)) (qroom ps - length (ps_queue_list ps)))"
  shows "\<exists>ps'. post_timers cbs ps = Some ps' \<and> ps_queue_list ps' = ps_queue_list ps @ take m (tfree ps)
     \<and> map (ps_msgs ps') (take m (tfree ps)) = map (\<lambda>cb. Some (Exmsg_timer_fun cb)) (take m cbs)
     \<and> tq_inv ps' (held @ take m (tfree ps)) \<and> set (tfree ps') = set (drop m (tfree ps))"
proof -
  have "posted cbs ps = m" using assms(2) by (simp add: posted_def)
  with post_timers_run [OF assms(1), of cbs] obtain ps' where
    p: "post_timers cbs ps = Some ps'" "tq_inv ps' (held @ take m (tfree ps))"
    "ps_queue_list ps' = ps_queue_list ps @ take m (tfree ps)"
    "\<forall>i < m. ps_msgs ps' (tfree ps ! i) = Some (Exmsg_timer_fun (cbs ! i))"
    "set (tfree ps') = set (drop m (tfree ps))" by auto
  have "map (ps_msgs ps') (take m (tfree ps)) = map (\<lambda>cb. Some (Exmsg_timer_fun cb)) (take m cbs)"
    using p(4) assms(2) by (intro nth_equalityI) auto
  then show ?thesis using p by blast
qed

theorem expired_callbacks_lost_witness:
  "\<exists>ps'. post_timers [Some 1, Some 2] (net_stack (demo_timer_net [300])) = Some ps' \<and> ps_queue_list ps' = [300]
     \<and> ps_msgs ps' 300 = Some (Exmsg_timer_fun (Some 1))"
  using expired_callbacks_lost [OF demo_timer_net(1), of "[300]" 1 "[Some 1, Some 2]"] demo_timer_net(2-4) [of "[300]"]
  by auto

end
