(* ===== verification/TimerThread.thy ===== *)
theory TimerThread
  imports NetCore TimerRuns
begin

text \<open>
  The timer thread of \<open>src/net/net.cc\<close> among the threads that use the timers: \<open>timer_thread_func\<close> asks for the
  next due time, waits with \<open>epoll_wait\<close> and posts what has expired; a timer that comes first tickles the event
  descriptor. The kernel objects behave as Linux documents them. The source waits on the event descriptor,
  which is no \<open>epoll\<close> instance.
\<close>

subsection \<open>Descriptors\<close>

datatype descriptor = Event_fd | Epoll_fd

text \<open>
  An event descriptor with its counter, and what an edge-triggered \<open>epoll\<close> instance knows of it: every successful
  write is an event, reported once.
\<close>

record event_poll =
  ev_counter :: nat
  ev_added :: bool
  ev_edge :: bool

definition eventfd_write :: "nat \<Rightarrow> event_poll \<Rightarrow> event_poll" where
  "eventfd_write value ep =
     (if ev_counter ep + value \<le> 2 ^ 64 - 2
      then ep\<lparr>ev_counter := ev_counter ep + value, ev_edge := (ev_edge ep \<or> ev_added ep)\<rparr> else ep)"

definition tickle_event :: "event_poll \<Rightarrow> event_poll" where
  "tickle_event ep = eventfd_write 0xFF ep"

definition on_timer_inserted_at_front :: "event_poll \<Rightarrow> event_poll" where
  "on_timer_inserted_at_front ep = tickle_event ep"

text \<open>
  The descriptors of \<open>timer_thread_init\<close>; the arguments are the results of the four calls. The pool and the queue that
  it makes are in \<open>protocol_stack_new\<close>.
\<close>

definition timer_thread_init :: "int \<Rightarrow> int \<Rightarrow> int \<Rightarrow> int \<Rightarrow> event_poll option" where
  "timer_thread_init epoll_fd event_fd fcntl_rt epoll_ctl_rt = do {
     check (epoll_fd \<noteq> -1);
     check (event_fd \<noteq> -1);
     check (fcntl_rt = 0);
     check (epoll_ctl_rt = 0);
     Some \<lparr>ev_counter = 0, ev_added = True, ev_edge = False\<rparr>
   }"

text \<open>
  \<open>epoll_wait\<close> with the result \<open>rt\<close>, or \<open>None\<close> when it does not return that now: it fails at once on a descriptor
  that is no \<open>epoll\<close> instance; otherwise it reports an event, runs out of time, or has been interrupted by a
  signal.
\<close>

definition epoll_wait :: "descriptor \<Rightarrow> bool \<Rightarrow> bool \<Rightarrow> int \<Rightarrow> event_poll \<Rightarrow> event_poll option" where
  "epoll_wait fd interrupted elapsed rt ep = (case fd of
       Event_fd \<Rightarrow> if rt = -1 then Some ep else None
     | Epoll_fd \<Rightarrow>
         if rt = 1 \<and> ev_edge ep then Some (ep\<lparr>ev_edge := False\<rparr>)
         else if rt = 0 \<and> elapsed \<and> \<not> ev_edge ep then Some ep
         else if rt = -1 \<and> interrupted then Some ep else None)"

definition EINTR :: int where "EINTR = 4"

definition waited_fd :: descriptor where "waited_fd = Event_fd"

subsection \<open>Steps\<close>

text \<open>
  Of the timer thread: before \<open>get_next_time\<close>; in the loop around the wait with the timeout and the time of the
  call; after it; with the time it read for \<open>list_expired_cb\<close>.
\<close>

datatype timer_pc = Timer_next | Timer_wait u64 nat | Timer_collect | Timer_expire u64

text \<open>\<open>tw_tickles\<close>: the threads that have put a timer in front and not yet tickled.\<close>

record 'f timer_world =
  tw_tm :: "'f timer_manager"
  tw_ep :: event_poll
  tw_now :: u64
  tw_pc :: timer_pc
  tw_tickles :: "nat \<Rightarrow> bool"

definition wait_again :: "int \<Rightarrow> bool" where
  "wait_again rt \<longleftrightarrow> rt < 0 \<and> rt = EINTR"

datatype 'f world_label =
    W_time u64
  | W_client "'f timer_event"
  | W_tickle
  | W_next u64
  | W_woke bool int
  | W_clock
  | W_posts "addr list" "'f option list"

text \<open>
  The clock goes on; other threads \<open>t\<close> call the functions of timers (a new timer is due from the time that its
  constructor read before it took the lock) and tickle; the timer thread takes its steps. \<open>W_woke\<close> tells whether
  a signal has interrupted the wait, and its result.
\<close>

inductive world_step :: "'f timer_world \<Rightarrow> 'f world_label \<Rightarrow> 'f timer_world \<Rightarrow> bool" where
  time_passes: "tw_now w \<le> now \<Longrightarrow> world_step w (W_time now) (w\<lparr>tw_now := now\<rparr>)"
| client_adds: "\<not> tw_tickles w t \<Longrightarrow> a \<noteq> nullptr \<Longrightarrow> tm_heap (tw_tm w) a = None \<Longrightarrow> now \<le> tw_now w
    \<Longrightarrow> add_timer a now ms cb recurring (tw_tm w) = Some (tickle, tm)
    \<Longrightarrow> world_step w (W_client (Ev_add a now ms cb recurring)) (w\<lparr>tw_tm := tm, tw_tickles := (tw_tickles w)(t := tickle)\<rparr>)"
| client_resets: "\<not> tw_tickles w t \<Longrightarrow> timer_reset a ms from_now (tw_now w) (tw_tm w) = Some ((ok, tickle), tm)
    \<Longrightarrow> world_step w (W_client (Ev_reset a ms from_now (tw_now w) ok)) (w\<lparr>tw_tm := tm, tw_tickles := (tw_tickles w)(t := tickle)\<rparr>)"
| client_refreshes: "refresh a (tw_now w) (tw_tm w) = Some (ok, tm)
    \<Longrightarrow> world_step w (W_client (Ev_refresh a (tw_now w) ok)) (w\<lparr>tw_tm := tm\<rparr>)"
| client_cancels: "cancel a (tw_tm w) = Some (ok, tm) \<Longrightarrow> world_step w (W_client (Ev_cancel a ok)) (w\<lparr>tw_tm := tm\<rparr>)"
| client_tickles: "tw_tickles w t
    \<Longrightarrow> world_step w W_tickle (w\<lparr>tw_ep := on_timer_inserted_at_front (tw_ep w), tw_tickles := (tw_tickles w)(t := False)\<rparr>)"
| thread_next: "tw_pc w = Timer_next \<Longrightarrow> get_next_time (tw_now w) (tw_tm w) = Some (next_timeout, tm)
    \<Longrightarrow> world_step w (W_next next_timeout) (w\<lparr>tw_tm := tm, tw_pc := Timer_wait (epoll_timeout next_timeout) (unat (tw_now w))\<rparr>)"
| thread_waits: "tw_pc w = Timer_wait timeout start
    \<Longrightarrow> epoll_wait waited_fd interrupted (start + unat timeout \<le> unat (tw_now w)) rt (tw_ep w) = Some ep
    \<Longrightarrow> world_step w (W_woke interrupted rt) (w\<lparr>tw_ep := ep,
          tw_pc := if wait_again rt then Timer_wait timeout (unat (tw_now w)) else Timer_collect\<rparr>)"
| thread_reads_clock: "tw_pc w = Timer_collect \<Longrightarrow> world_step w W_clock (w\<lparr>tw_pc := Timer_expire (tw_now w)\<rparr>)"
| thread_expires: "tw_pc w = Timer_expire now \<Longrightarrow> tmp \<noteq> nullptr \<Longrightarrow> tm_heap (tw_tm w) tmp = None
    \<Longrightarrow> list_expired_cb now tmp (tw_tm w) = Some ((fired, cbs), tm)
    \<Longrightarrow> world_step w (W_posts fired cbs) (w\<lparr>tw_tm := tm, tw_pc := Timer_next\<rparr>)"

inductive world_run :: "'f timer_world \<Rightarrow> 'f world_label list \<Rightarrow> 'f timer_world \<Rightarrow> bool" for w0 where
  world_nil: "world_run w0 [] w0"
| world_snoc: "world_run w0 ls w \<Longrightarrow> world_step w l w' \<Longrightarrow> world_run w0 (ls @ [l]) w'"

definition timer_world_new :: "u64 \<Rightarrow> event_poll \<Rightarrow> 'f timer_world" where
  "timer_world_new now ep = \<lparr>tw_tm = timer_manager_new now, tw_ep = ep, tw_now = now, tw_pc = Timer_next, tw_tickles = (\<lambda>_. False)\<rparr>"

inductive_cases world_step_elims:
  "world_step w (W_time now) w'" "world_step w (W_client ev) w'" "world_step w W_tickle w'" "world_step w (W_next n) w'"
  "world_step w (W_woke interrupted rt) w'" "world_step w W_clock w'" "world_step w (W_posts fired cbs) w'"

text \<open>The steps of the timer thread, those that need no signal, and the calls that concern a timer.\<close>

fun of_thread :: "'f world_label \<Rightarrow> bool" where
  "of_thread (W_next n) = True"
| "of_thread (W_woke interrupted rt) = True"
| "of_thread W_clock = True"
| "of_thread (W_posts fired cbs) = True"
| "of_thread l = False"

fun alone :: "'f world_label \<Rightarrow> bool" where
  "alone (W_woke interrupted rt) = (\<not> interrupted)"
| "alone l = of_thread l"

fun concerns :: "addr \<Rightarrow> 'f world_label \<Rightarrow> bool" where
  "concerns a (W_client (Ev_cancel b ok)) \<longleftrightarrow> b = a"
| "concerns a (W_client (Ev_refresh b now ok)) \<longleftrightarrow> b = a"
| "concerns a (W_client (Ev_reset b ms from_now now ok)) \<longleftrightarrow> b = a"
| "concerns a l \<longleftrightarrow> False"

subsection \<open>What every step keeps\<close>

text \<open>The invariant of the timers; and there is always room for one more object.\<close>

definition world_ok :: "'f timer_world \<Rightarrow> bool" where
  "world_ok w \<longleftrightarrow> tm_inv (tw_tm w) \<and> finite (dom (tm_heap (tw_tm w)))"

text \<open>The effect of a call on the manager; the last two facts are about a timer \<open>a\<close> that the call is not about.\<close>

definition frames :: "'f timer_manager \<Rightarrow> addr \<Rightarrow> 'f timer_manager \<Rightarrow> bool" where
  "frames tm a tm' \<longleftrightarrow> (a \<in> set (tm_timers tm) \<longrightarrow> a \<in> set (tm_timers tm') \<and> tm_heap tm' a = tm_heap tm a)"

lemma client_step_frames:
  assumes step: "timer_step tm e tm'" and inv: "tm_inv tm" and e: "\<not> concerns a (W_client e)"
    and calls: "\<And>now n. e \<noteq> Ev_next now n" "\<And>now fired cbs. e \<noteq> Ev_expire now fired cbs"
  shows "frames tm a tm'"
  using step
proof cases
  case (step_add b now ms cb recurring tickle)
  then obtain us vs where r: "tm_timers tm = us @ vs"
    "tm' = tm\<lparr>tm_heap := (tm_heap tm)(b \<mapsto> timer_new now ms cb recurring), tm_timers := us @ b # vs,
          tm_tickled := (tm_tickled tm \<or> us = [])\<rparr>"
    using add_timer_run [OF inv, of b now ms cb recurring] by (metis option.inject prod.inject)
  then show ?thesis using fresh_not_armed [OF inv step_add(3)] by (auto simp: frames_def)
next
  case (step_cancel b ok)
  then obtain t where t: "tm_heap tm b = Some t" by (auto simp: cancel_def bind_eq_Some_conv)
  from cancel_run [OF inv t] step_cancel e show ?thesis by (auto simp: frames_def)
next
  case (step_refresh b now ok)
  then obtain t where t: "tm_heap tm b = Some t" by (auto simp: refresh_def bind_eq_Some_conv)
  from refresh_run [OF inv t, of now] step_refresh e show ?thesis by (auto simp: frames_def)
next
  case (step_reset b ms from_now now ok tickle)
  then obtain t where t: "tm_heap tm b = Some t" by (auto simp: timer_reset_def bind_eq_Some_conv)
  from timer_reset_run [OF inv t, of ms from_now now] step_reset e show ?thesis by (auto simp: frames_def)
qed (use calls in simp_all)

lemma timer_step_finite:
  assumes step: "timer_step tm e tm'" and inv: "tm_inv tm" and fin: "finite (dom (tm_heap tm))"
  shows "finite (dom (tm_heap tm'))"
  using step
proof cases
  case (step_add b now ms cb recurring tickle)
  then have "tm_heap tm' = (tm_heap tm)(b \<mapsto> timer_new now ms cb recurring)"
    using add_timer_run [OF inv, of b now ms cb recurring] by fastforce
  then show ?thesis using fin by simp
next
  case (step_cancel b ok)
  then obtain t where t: "tm_heap tm b = Some t" by (auto simp: cancel_def bind_eq_Some_conv)
  from cancel_run [OF inv t] step_cancel fin show ?thesis by auto
next
  case (step_refresh b now ok)
  then obtain t where t: "tm_heap tm b = Some t" by (auto simp: refresh_def bind_eq_Some_conv)
  from refresh_run [OF inv t, of now] step_refresh fin show ?thesis by auto
next
  case (step_reset b ms from_now now ok tickle)
  then obtain t where t: "tm_heap tm b = Some t" by (auto simp: timer_reset_def bind_eq_Some_conv)
  from timer_reset_run [OF inv t, of ms from_now now] step_reset fin show ?thesis by auto
next
  case (step_next now n)
  obtain n' where "get_next_time now tm = Some (n', tm\<lparr>tm_tickled := False\<rparr>)" by (rule get_next_time_run [OF inv])
  then show ?thesis using step_next fin by simp
next
  case (step_expire tmp now fired cbs)
  from list_expired_run [OF inv fresh_not_armed [OF inv step_expire(3)] step_expire(2), of now] step_expire
  have "dom (tm_heap tm') \<subseteq> dom (tm_heap tm)" by (auto split: if_splits)
  then show ?thesis using fin finite_subset by blast
qed

text \<open>A step of the world is a call of the manager, or leaves it alone.\<close>

lemma world_step_manager:
  assumes "world_step w l w'"
  shows "tw_tm w' = tw_tm w \<and> (\<forall>now fired cbs. l \<noteq> W_posts fired cbs)
     \<or> (\<exists>e. l = W_client e \<and> timer_step (tw_tm w) e (tw_tm w')
          \<and> (\<forall>now n. e \<noteq> Ev_next now n) \<and> (\<forall>now fired cbs. e \<noteq> Ev_expire now fired cbs))
     \<or> (\<exists>n. l = W_next n \<and> timer_step (tw_tm w) (Ev_next (tw_now w) n) (tw_tm w'))
     \<or> (\<exists>now fired cbs. l = W_posts fired cbs \<and> tw_pc w = Timer_expire now \<and> timer_step (tw_tm w) (Ev_expire now fired cbs) (tw_tm w'))"
  using assms by cases (auto intro: timer_step.intros)

lemma world_step_ok:
  assumes "world_step w l w'" "world_ok w" shows "world_ok w'"
proof -
  have inv: "tm_inv (tw_tm w)" "finite (dom (tm_heap (tw_tm w)))" using assms(2) by (simp_all add: world_ok_def)
  have "tw_tm w' = tw_tm w \<or> (\<exists>e. timer_step (tw_tm w) e (tw_tm w'))" using world_step_manager [OF assms(1)] by blast
  then show ?thesis
  proof (elim disjE exE)
    fix e assume "timer_step (tw_tm w) e (tw_tm w')"
    note e = this
    have "tm_inv (tw_tm w')" by (rule conjunct1 [OF timer_step_facts [OF e inv(1)]])
    with timer_step_finite [OF e inv] show ?thesis by (simp add: world_ok_def)
  qed (use inv in \<open>simp add: world_ok_def\<close>)
qed

lemma world_run_ok: "world_run w ls w' \<Longrightarrow> world_ok w \<Longrightarrow> world_ok w'"
  by (induction rule: world_run.induct) (auto intro: world_step_ok)

lemma timer_world_new_ok: "world_ok (timer_world_new now ep)"
  using timer_manager_new_inv [of now] by (simp add: world_ok_def timer_world_new_def timer_manager_new_def)

lemma fresh_object:
  assumes "world_ok w"
  obtains tmp where "tmp \<noteq> nullptr" "tm_heap (tw_tm w) tmp = None"
proof -
  have "finite (insert nullptr (dom (tm_heap (tw_tm w))))" using assms by (simp add: world_ok_def)
  from ex_new_if_finite [OF infinite_UNIV_nat this] that show thesis by auto
qed

subsection \<open>The thread never blocks\<close>

lemma alone_stepI: "world_step w l w' \<Longrightarrow> alone l \<Longrightarrow> \<exists>l w'. alone l \<and> world_step w l w'"
  by blast

lemma thread_progress:
  assumes "world_ok w"
  shows "\<exists>l w'. alone l \<and> world_step w l w'"
proof (cases "tw_pc w")
  case Timer_next
  obtain n where "get_next_time (tw_now w) (tw_tm w) = Some (n, (tw_tm w)\<lparr>tm_tickled := False\<rparr>)"
    using assms by (auto simp: world_ok_def elim: get_next_time_run)
  from alone_stepI [OF thread_next [OF Timer_next this]] show ?thesis by simp
next
  case (Timer_wait timeout start)
  have "epoll_wait waited_fd False (start + unat timeout \<le> unat (tw_now w)) (-1) (tw_ep w) = Some (tw_ep w)"
    by (simp add: epoll_wait_def waited_fd_def)
  from alone_stepI [OF thread_waits [OF Timer_wait this]] show ?thesis by simp
next
  case Timer_collect
  from alone_stepI [OF thread_reads_clock [OF this]] show ?thesis by simp
next
  case (Timer_expire now)
  obtain tmp where tmp: "tmp \<noteq> nullptr" "tm_heap (tw_tm w) tmp = None" using fresh_object [OF assms] .
  have inv: "tm_inv (tw_tm w)" using assms by (simp add: world_ok_def)
  obtain fired cbs tm where "list_expired_cb now tmp (tw_tm w) = Some ((fired, cbs), tm)"
    using list_expired_run [OF inv fresh_not_armed [OF inv tmp(2)] tmp(1), of now] by blast
  from alone_stepI [OF thread_expires [OF Timer_expire tmp this]] show ?thesis by simp
qed

text \<open>So it goes on by itself for any number of steps.\<close>

lemma thread_runs_on:
  assumes "world_ok w"
  shows "\<exists>ls w'. world_run w ls w' \<and> length ls = k \<and> (\<forall>l \<in> set ls. alone l)"
proof (induction k)
  case 0
  then show ?case using world_nil by fastforce
next
  case (Suc k)
  then obtain ls w' where r: "world_run w ls w'" "length ls = k" "\<forall>l \<in> set ls. alone l" by blast
  from thread_progress [OF world_run_ok [OF r(1) assms]] obtain l w'' where "alone l" "world_step w' l w''" by blast
  then show ?case using r world_snoc [OF r(1)] by (intro exI [of _ "ls @ [l]"] exI [of _ w'']) auto
qed

subsection \<open>A due timer is posted soon\<close>

definition overdue :: "'f timer_world \<Rightarrow> addr \<Rightarrow> bool" where
  "overdue w a \<longleftrightarrow> a \<in> set (tm_timers (tw_tm w)) \<and> t_next (the (tm_heap (tw_tm w) a)) \<le> tw_now w"

text \<open>How many steps the thread still takes before it posts the timer \<open>a\<close>, which is due.\<close>

definition steps_left :: "'f timer_world \<Rightarrow> addr \<Rightarrow> nat" where
  "steps_left w a = (case tw_pc w of
       Timer_next \<Rightarrow> 4 | Timer_wait timeout start \<Rightarrow> 3 | Timer_collect \<Rightarrow> 2
     | Timer_expire now \<Rightarrow> if t_next (the (tm_heap (tw_tm w) a)) \<le> now then 1 else 5)"

lemma steps_left_same:
  "tw_pc w' = tw_pc w \<Longrightarrow> tm_heap (tw_tm w') a = tm_heap (tw_tm w) a \<Longrightarrow> steps_left w' a = steps_left w a"
  by (simp add: steps_left_def split: timer_pc.split)

lemma steps_left_pos: "0 < steps_left w a"
  by (simp add: steps_left_def split: timer_pc.split)

lemma never_again: "epoll_wait waited_fd interrupted elapsed rt ep = Some ep' \<Longrightarrow> rt = -1 \<and> ep' = ep \<and> \<not> wait_again rt"
  by (auto simp: epoll_wait_def waited_fd_def wait_again_def EINTR_def split: if_splits)

lemma expired_now:
  assumes "a \<in> set (tm_timers tm)" "t_next (the (tm_heap tm a)) \<le> now"
  shows "a \<in> set (expired_timers now tm)"
  using assms by (simp add: expired_timers_def due_def)

lemma overdue_step:
  assumes step: "world_step w l w'" and ok: "world_ok w" and a: "overdue w a"
    and l: "\<not> concerns a l" "\<And>fired cbs. l = W_posts fired cbs \<Longrightarrow> a \<notin> set fired"
  shows "overdue w' a \<and> steps_left w' a + (if of_thread l then 1 else 0) \<le> steps_left w a"
proof -
  have inv: "tm_inv (tw_tm w)" using ok by (simp add: world_ok_def)
  show ?thesis
    using step
  proof cases
    case (time_passes now)
    then show ?thesis using a steps_left_same [of w' w a] by (auto simp: overdue_def)
  next
    case (client_adds t b now ms cb recurring tickle tm)
    have "\<not> concerns a (W_client (Ev_add b now ms cb recurring))" using l(1) by (simp add: client_adds(1))
    from client_step_frames [OF step_add [OF client_adds(4,5,7)] inv this] have "frames (tw_tm w) a tm" by simp
    then show ?thesis using a client_adds steps_left_same [of w' w a] by (simp add: overdue_def frames_def)
  next
    case (client_resets t b ms from_now ok' tickle tm)
    have "\<not> concerns a (W_client (Ev_reset b ms from_now (tw_now w) ok'))" using l(1) by (simp add: client_resets(1))
    from client_step_frames [OF step_reset [OF client_resets(4)] inv this] have "frames (tw_tm w) a tm" by simp
    then show ?thesis using a client_resets steps_left_same [of w' w a] by (simp add: overdue_def frames_def)
  next
    case (client_refreshes b ok' tm)
    have "\<not> concerns a (W_client (Ev_refresh b (tw_now w) ok'))" using l(1) by (simp add: client_refreshes(1))
    from client_step_frames [OF step_refresh [OF client_refreshes(3)] inv this] have "frames (tw_tm w) a tm" by simp
    then show ?thesis using a client_refreshes steps_left_same [of w' w a] by (simp add: overdue_def frames_def)
  next
    case (client_cancels b ok' tm)
    have "\<not> concerns a (W_client (Ev_cancel b ok'))" using l(1) by (simp add: client_cancels(1))
    from client_step_frames [OF step_cancel [OF client_cancels(3)] inv this] have "frames (tw_tm w) a tm" by simp
    then show ?thesis using a client_cancels steps_left_same [of w' w a] by (simp add: overdue_def frames_def)
  next
    case (client_tickles t)
    then show ?thesis using a steps_left_same [of w' w a] by (simp add: overdue_def)
  next
    case (thread_next n tm)
    obtain n' where "get_next_time (tw_now w) (tw_tm w) = Some (n', (tw_tm w)\<lparr>tm_tickled := False\<rparr>)"
      using ok by (auto simp: world_ok_def elim: get_next_time_run)
    then show ?thesis using a thread_next by (simp add: overdue_def steps_left_def)
  next
    case (thread_waits timeout start interrupted rt ep)
    have "\<not> wait_again rt" "rt = -1 \<and> ep = tw_ep w" using never_again [OF thread_waits(4)] by blast+
    then show ?thesis using a thread_waits by (simp add: overdue_def steps_left_def)
  next
    case thread_reads_clock
    then show ?thesis using a by (simp add: overdue_def steps_left_def)
  next
    case (thread_expires now tmp fired cbs tm)
    from list_expired_run [OF inv fresh_not_armed [OF inv thread_expires(5)] thread_expires(4), of now] thread_expires(6)
    have r: "fired = expired_timers now (tw_tm w)"
      "tm_heap tm = (\<lambda>a. if a \<in> set (expired_timers now (tw_tm w)) then map_option (renew now) (tm_heap (tw_tm w) a) else tm_heap (tw_tm w) a)"
      "set (tm_timers tm) = {a \<in> set (tm_timers (tw_tm w)). a \<in> set (expired_timers now (tw_tm w)) \<longrightarrow> t_recurring (the (tm_heap (tw_tm w) a))}"
      by auto
    have "a \<notin> set (expired_timers now (tw_tm w))" using l(2) [OF thread_expires(1)] r(1) by simp
    moreover from this have "\<not> t_next (the (tm_heap (tw_tm w) a)) \<le> now" using expired_now a unfolding overdue_def by blast
    ultimately show ?thesis using a thread_expires(1-3) r(2,3) by (simp add: overdue_def steps_left_def)
  qed
qed

lemma overdue_run:
  assumes "world_run w ls w'" "world_ok w" "overdue w a"
    and "\<forall>l \<in> set ls. \<not> concerns a l" "\<forall>fired cbs. W_posts fired cbs \<in> set ls \<longrightarrow> a \<notin> set fired"
  shows "overdue w' a \<and> steps_left w' a + length (filter of_thread ls) \<le> steps_left w a"
  using assms
proof (induction rule: world_run.induct)
  case (world_snoc ls w1 l w2)
  have "\<forall>l \<in> set ls. \<not> concerns a l" "\<forall>fired cbs. W_posts fired cbs \<in> set ls \<longrightarrow> a \<notin> set fired"
    using world_snoc.prems(3,4) by auto
  note ih = world_snoc.IH [OF world_snoc.prems(1,2) this]
  have "overdue w2 a \<and> steps_left w2 a + (if of_thread l then 1 else 0) \<le> steps_left w1 a"
    using world_snoc by (intro overdue_step [OF _ world_run_ok conjunct1 [OF ih]]) auto
  then show ?case using ih by (auto split: if_splits)
qed simp

subsection \<open>Rounds without a wait\<close>

lemma list_expired_nothing:
  assumes "tm_inv tm" "\<forall>a \<in> set (tm_timers tm). now < t_next (the (tm_heap tm a))" "\<not> clock_rolled_over now (tm_previous_time tm)"
  shows "list_expired_cb now tmp tm = Some (([], []), if tm_timers tm = [] then tm else tm\<lparr>tm_previous_time := now\<rparr>)"
proof (cases "tm_timers tm")
  case (Cons a ts)
  then obtain t where "tm_heap tm a = Some t" using tm_invD(1) [OF assms(1)] by (auto simp: timer_objs_def)
  then show ?thesis using assms(2,3) Cons by (simp add: list_expired_cb_def detect_clock_roll_over_def)
qed (simp add: list_expired_cb_def)

text \<open>A round of the thread without any wait.\<close>

definition nothing_due :: "'f timer_world \<Rightarrow> bool" where
  "nothing_due w \<longleftrightarrow> tw_pc w = Timer_next \<and> \<not> clock_rolled_over (tw_now w) (tm_previous_time (tw_tm w))
     \<and> (\<forall>a \<in> set (tm_timers (tw_tm w)). tw_now w < t_next (the (tm_heap (tw_tm w) a)))"

lemma idle_round:
  assumes "nothing_due w" "tm_inv (tw_tm w)" "tmp \<noteq> nullptr" "tm_heap (tw_tm w) tmp = None"
  shows "\<exists>n w'. world_run w [W_next n, W_woke False (-1), W_clock, W_posts [] []] w' \<and> nothing_due w' \<and> tm_inv (tw_tm w')
     \<and> tw_now w' = tw_now w \<and> tm_heap (tw_tm w') = tm_heap (tw_tm w) \<and> tm_timers (tw_tm w') = tm_timers (tw_tm w)"
proof -
  have w: "tm_inv (tw_tm w)" "tw_pc w = Timer_next" "\<not> clock_rolled_over (tw_now w) (tm_previous_time (tw_tm w))"
    "\<forall>a \<in> set (tm_timers (tw_tm w)). tw_now w < t_next (the (tm_heap (tw_tm w) a))"
    using assms(1,2) by (simp_all add: nothing_due_def)
  obtain n where n: "get_next_time (tw_now w) (tw_tm w) = Some (n, (tw_tm w)\<lparr>tm_tickled := False\<rparr>)"
    and inv: "tm_inv ((tw_tm w)\<lparr>tm_tickled := False\<rparr>)" by (rule get_next_time_run [OF w(1)])
  let ?tm = "(tw_tm w)\<lparr>tm_tickled := False\<rparr>"
  let ?tm' = "if tm_timers ?tm = [] then ?tm else ?tm\<lparr>tm_previous_time := tw_now w\<rparr>"
  let ?w1 = "w\<lparr>tw_tm := ?tm, tw_pc := Timer_wait (epoll_timeout n) (unat (tw_now w))\<rparr>"
  let ?w2 = "?w1\<lparr>tw_ep := tw_ep w, tw_pc := if wait_again (-1) then Timer_wait (epoll_timeout n) (unat (tw_now ?w1)) else Timer_collect\<rparr>"
  let ?w3 = "?w2\<lparr>tw_pc := Timer_expire (tw_now ?w2)\<rparr>"
  let ?w4 = "?w3\<lparr>tw_tm := ?tm', tw_pc := Timer_next\<rparr>"
  have again: "\<not> wait_again (-1)" by (simp add: wait_again_def EINTR_def)
  have "list_expired_cb (tw_now w) tmp ?tm = Some (([], []), ?tm')"
    by (rule list_expired_nothing [OF inv]) (use w in simp_all)
  then have s4: "world_step ?w3 (W_posts [] []) ?w4"
    using assms(3,4) by (intro thread_expires [where tmp = tmp and fired = "[]" and now = "tw_now w"]) simp_all
  have s3: "world_step ?w2 W_clock ?w3" by (rule thread_reads_clock) (simp add: again)
  have s2: "world_step ?w1 (W_woke False (-1)) ?w2"
    by (rule thread_waits [where start = "unat (tw_now w)"]) (simp_all add: epoll_wait_def waited_fd_def)
  have s1: "world_step w (W_next n) ?w1" by (rule thread_next [OF w(2) n])
  have "world_run w ([] @ [W_next n] @ [W_woke False (-1)] @ [W_clock] @ [W_posts [] []]) ?w4"
    using world_snoc [OF world_snoc [OF world_snoc [OF world_snoc [OF world_nil s1] s2] s3] s4] by simp
  moreover have "nothing_due ?w4" using w by (auto simp: nothing_due_def clock_rolled_over_def)
  moreover have "tm_inv (tw_tm ?w4)" using inv by (auto simp: tm_inv_def)
  ultimately show ?thesis by (intro exI [of _ n] exI [of _ ?w4]) simp
qed

lemma world_run_append:
  "world_run w1 ls' w2 \<Longrightarrow> world_run w0 ls w1 \<Longrightarrow> world_run w0 (ls @ ls') w2"
proof (induction rule: world_run.induct)
  case (world_snoc ls' w l w')
  then show ?case using world_run.world_snoc by fastforce
qed simp

lemma idle_rounds:
  assumes "nothing_due w" "tm_inv (tw_tm w)" "tmp \<noteq> nullptr" "tm_heap (tw_tm w) tmp = None"
  shows "\<exists>ls w'. world_run w ls w' \<and> length (filter (\<lambda>l. l = W_posts [] []) ls) = k
     \<and> (\<forall>l \<in> set ls. alone l \<and> (\<forall>fired cbs. l = W_posts fired cbs \<longrightarrow> fired = [] \<and> cbs = [])) \<and> nothing_due w' \<and> tw_now w' = tw_now w \<and> tm_timers (tw_tm w') = tm_timers (tw_tm w)"
  using assms
proof (induction k arbitrary: w)
  case 0
  then show ?case by (intro exI [of _ "[]"] exI [of _ w]) (simp add: world_nil)
next
  case (Suc k)
  from idle_round [OF Suc.prems] obtain n w1 where
    r: "world_run w [W_next n, W_woke False (-1), W_clock, W_posts [] []] w1" "nothing_due w1" "tm_inv (tw_tm w1)"
      "tw_now w1 = tw_now w" "tm_heap (tw_tm w1) = tm_heap (tw_tm w)" "tm_timers (tw_tm w1) = tm_timers (tw_tm w)" by blast
  from Suc.IH [OF r(2,3) Suc.prems(3)] r(5) Suc.prems(4) obtain ls w' where
    "world_run w1 ls w'" "length (filter (\<lambda>l. l = W_posts [] []) ls) = k" "\<forall>l \<in> set ls. alone l \<and> (\<forall>fired cbs. l = W_posts fired cbs \<longrightarrow> fired = [] \<and> cbs = [])"
    "nothing_due w'" "tw_now w' = tw_now w1" "tm_timers (tw_tm w') = tm_timers (tw_tm w1)" by auto
  with world_run_append [OF this(1) r(1)] r(4,6) show ?case
    by (intro exI [of _ "[W_next n, W_woke False (-1), W_clock, W_posts [] []] @ ls"] exI [of _ w']) simp
qed

lemma woke_result:
  assumes "world_run w ls w'" "W_woke interrupted rt \<in> set ls" shows "rt = -1"
  using assms
proof (induction rule: world_run.induct)
  case (world_snoc ls w1 l w2)
  then show ?case by (auto elim!: world_step_elims dest: never_again)
qed simp

subsection \<open>Properties\<close>



definition demo_ep :: event_poll where
  "demo_ep = \<lparr>ev_counter = 0, ev_added = True, ev_edge = False\<rparr>"

lemma demo_ep: "timer_thread_init 3 4 0 0 = Some demo_ep"
  by (simp add: timer_thread_init_def demo_ep_def)


text \<open>While the thread waits for want of timers, thread 3 adds one that is due at once, and tickles.\<close>

definition demo_tm :: "nat timer_manager" where
  "demo_tm = \<lparr>tm_heap = [16 \<mapsto> timer_new 100 0 (Some 7) False], tm_timers = [16], tm_tickled = True, tm_previous_time = 100\<rparr>"

definition demo_world :: "nat timer_world" where
  "demo_world = \<lparr>tw_tm = demo_tm, tw_ep = tickle_event demo_ep, tw_now = 100, tw_pc = Timer_wait 3000 100, tw_tickles = (\<lambda>_. False)\<rparr>"

lemma demo_world_run:
  "world_run (timer_world_new 100 demo_ep)
     [W_next NO_TIMER, W_client (Ev_add 16 100 0 (Some 7) False), W_tickle] demo_world"
proof -
  let ?w0 = "timer_world_new 100 demo_ep :: nat timer_world"
  let ?w1 = "?w0\<lparr>tw_tm := (tw_tm ?w0)\<lparr>tm_tickled := False\<rparr>,
    tw_pc := Timer_wait (epoll_timeout NO_TIMER) (unat (tw_now ?w0))\<rparr>"
  let ?w2 = "?w1\<lparr>tw_tm := demo_tm, tw_tickles := (tw_tickles ?w1)(3 := True)\<rparr>"
  let ?w3 = "?w2\<lparr>tw_ep := on_timer_inserted_at_front (tw_ep ?w2), tw_tickles := (tw_tickles ?w2)(3 := False)\<rparr>"
  note defs = timer_world_new_def timer_manager_new_def
  have "world_step ?w0 (W_next NO_TIMER) ?w1"
    by (rule thread_next) (simp_all add: defs get_next_time_def)
  note s1 = world_snoc [OF world_nil this]
  have "add_timer 16 100 0 (Some 7) False (tw_tm ?w1) = Some (True, demo_tm)"
    by (simp add: defs add_timer_def insert_timer_def demo_tm_def set_find_def timer_less_def timer_new_def)
  then have "world_step ?w1 (W_client (Ev_add 16 100 0 (Some 7) False)) ?w2"
    by (intro client_adds [where t = 3]) (simp_all add: defs)
  note s2 = world_snoc [OF s1 this]
  have "world_step ?w2 W_tickle ?w3" by (rule client_tickles) simp
  note s3 = world_snoc [OF s2 this]
  have "?w3 = demo_world"
    by (simp add: defs demo_world_def on_timer_inserted_at_front_def epoll_timeout_def NO_TIMER_def fun_eq_iff)
  with s3 show ?thesis by simp
qed


end
