(* ===== verification/Wire.thy ===== *)
theory Wire
  imports NetDrain
begin

text \<open>
  The two ends of a device: a frame received from it becomes a packet in the queue of received packets
  and a message, a packet in the queue for sending becomes the injected frame.
\<close>

lemma buf_alloc_ref: "buf_alloc p sz af insf st = Some (ok, st') \<Longrightarrow> pkt_ref st' p = Some 1"
  by (auto simp: buf_alloc_def access_start_def pkt_ref_def put_buf_def bind_eq_Some_conv Let_def
      split: if_splits list.splits)

text \<open>A fresh packet with \<open>len\<close> bytes, or a packet without blocks when they run out.\<close>

lemma fresh_packet:
  assumes bufs: "bufs_inv st live" and pool: "free_bufs st = p # ps" and own: "blk_inv st rest"
    and cfg: "0 < unat (cfg_blk_size st)"
  shows "\<exists>st1 st2. get_pktbuffer st = Some (p, st1) \<and> p \<noteq> nullptr
     \<and> buf_alloc p len True False st1 = Some (blks_needed st len \<le> length (free_blks st), st2)
     \<and> pkt_inv st2 p rest \<and> pkt_ref st2 p = Some 1 \<and> bufs_inv st2 (p # live) \<and> free_bufs st2 = ps
     \<and> length (pkt_bytes st2 p) = (if blks_needed st len \<le> length (free_blks st) then unat len else 0)
     \<and> cfg_blk_size st2 = cfg_blk_size st
     \<and> (\<forall>q. q \<noteq> p \<longrightarrow> buf_heap st2 q = buf_heap st q) \<and> (\<forall>a \<in> set rest. blk_heap st2 a = blk_heap st a)
     \<and> free_blks st2 = (if blks_needed st len \<le> length (free_blks st) then drop (blks_needed st len) (free_blks st)
                        else free_blks st)"
proof -
  obtain st1 b where st1: "get_pktbuffer st = Some (p, st1)" "p \<noteq> nullptr" "free_bufs st1 = ps"
    "bufs_inv st1 (p # live)" "buf_heap st p = Some b" "buf_blk_list b = []"
    "buf_heap st1 = (buf_heap st)(p \<mapsto> buf_reset b)"
    "blk_heap st1 = blk_heap st" "blk_pool st1 = blk_pool st" "cfg_blk_size st1 = cfg_blk_size st"
    by (rule get_pktbuffer_cons [OF bufs pool])
  have inv1: "pkt_inv st1 p rest" "pkt_bytes st1 p = []"
    using st1(5-7) own blk_inv_cong [OF st1(8-10)] by (simp_all add: pkt_inv_def pkt_bytes_def buf_reset_def)
  have free: "free_blks st1 = free_blks st" using st1(9) by (simp add: free_blks_def)
  have need: "blks_needed st1 len = blks_needed st len" using st1(10) by (rule blks_needed_cong)
  have cfg1: "0 < unat (cfg_blk_size st1)" using cfg st1(10) by simp
  obtain ok st2 where st2: "buf_alloc p len True False st1 = Some (ok, st2)"
    "ok \<longleftrightarrow> blks_needed st len \<le> length (free_blks st)" "pkt_inv st2 p rest" "pkt_frame p rest st1 st2"
    "length (pkt_bytes st2 p) = (if ok then unat len else 0)"
    "free_blks st2 = (if ok then drop (blks_needed st len) (free_blks st) else free_blks st)"
  proof (cases "blks_needed st len \<le> length (free_blks st)")
    case True
    have "length (pkt_bytes st1 p) + unat len < 2 ^ 32" using inv1(2) unsigned_less [of len] by simp
    from buf_alloc_ok [OF inv1(1) cfg1 this, of True False] True free need inv1(2) that [of True] show ?thesis by auto
  next
    case False
    with buf_alloc_fail [OF inv1(1) cfg1, of len True False] free need inv1(2) that [of False] show ?thesis by auto
  qed
  have ref: "pkt_ref st2 p = Some 1" using st2(1) by (rule buf_alloc_ref)
  note frame = bufs_inv_frame [OF st2(4) st1(4)]
  have "cfg_blk_size st2 = cfg_blk_size st" "\<forall>q. q \<noteq> p \<longrightarrow> buf_heap st2 q = buf_heap st q"
    "\<forall>a \<in> set rest. blk_heap st2 a = blk_heap st a"
    using st2(4) st1(7,8,10) by (simp_all add: pkt_frame_def)
  then show ?thesis using st1(1-3) st2 ref frame
    by - (rule exI [of _ st1], rule exI [of _ st2], simp)
qed

text \<open>Moving, writing and resetting the access position keep the reference count.\<close>

lemma move_forward_ref:
  assumes "move_forward p sz st = Some st'" shows "pkt_ref st' p = pkt_ref st p"
proof -
  from assms obtain b where b: "buf_heap st p = Some b" by (auto simp: move_forward_def bind_eq_Some_conv)
  show ?thesis
  proof (cases "buf_cur_blk b")
    case (At i)
    with assms b show ?thesis
      by (auto simp: move_forward_def pkt_ref_def put_buf_def bind_eq_Some_conv Let_def split: if_split_asm)
  qed (use assms b in \<open>simp_all add: move_forward_def\<close>)
qed

lemma write_loop_ref:
  assumes "write_loop p src sz st = Some st'" shows "pkt_ref st' p = pkt_ref st p"
  using assms
proof (induction p src sz st st' rule: write_loop.raw_induct [rotated, consumes 1, case_names step])
  case (step rec p src sz st st')
  show ?case
  proof (cases "sz = 0")
    case False
    with step(2) obtain b_size bytes st1 st2 and b :: pkt_buffer where
      s: "mem_write (buf_blk_offset b) bytes st = Some st1" "move_forward p (min sz b_size) st1 = Some st2"
      "rec p (drop (unat (min sz b_size)) src) (sz - min sz b_size) st2 = Some st'"
      by (auto simp: bind_eq_Some_conv)
    have "buf_heap st1 = buf_heap st"
      using s(1) by (auto simp: mem_write_def put_blk_def bind_eq_Some_conv split: option.splits if_splits)
    then have "pkt_ref st1 p = pkt_ref st p" by (simp add: pkt_ref_def)
    with step(1) [OF s(3)] move_forward_ref [OF s(2)] show ?thesis by simp
  qed (use step(2) in simp)
qed

lemma pkt_write_ref: "pkt_write p src sz st = Some (err, st') \<Longrightarrow> pkt_ref st' p = pkt_ref st p"
  by (auto simp: pkt_write_def bind_eq_Some_conv dest: write_loop_ref split: option.splits if_splits)

lemma reset_access_ref:
  assumes "reset_access p st = Some st'" shows "pkt_ref st' p = pkt_ref st p"
proof -
  obtain b b' where b: "buf_heap st p = Some b" "access_start b st = Some b'" "st' = put_buf p b' st"
    using assms by (auto simp: reset_access_def bind_eq_Some_conv)
  have "buf_ref b' = buf_ref b"
    using b(2) by (auto simp: access_start_def bind_eq_Some_conv split: list.splits)
  with b show ?thesis by (simp add: pkt_ref_def put_buf_def)
qed

text \<open>
  What a round does, whether or not the blocks suffice: the packet that was taken has one reference and is
  in no pool, and no other packet or block changed.
\<close>

lemma recv_step_run:
  assumes "net_ifs net nif = Some n" "rq_inv (if_in_q n)" "length (rq_list (if_in_q n)) < rq_room (if_in_q n)"
    and "ps_inv (net_stack net)" "st = net_store net"
    and "bufs_inv st live" "free_bufs st = p # ps" "blk_inv st rest" "0 < unat (cfg_blk_size st)"
    and "0 < unat len" "unat len \<le> length frame"
  shows "\<exists>st'. bufs_inv st' (p # live) \<and> free_bufs st' = ps \<and> pkt_inv st' p rest \<and> pkt_ref st' p = Some 1
     \<and> cfg_blk_size st' = cfg_blk_size st \<and> (\<forall>q. q \<noteq> p \<longrightarrow> buf_heap st' q = buf_heap st q)
     \<and> (\<forall>a \<in> set rest. blk_heap st' a = blk_heap st a)
     \<and> (if blks_needed st len \<le> length (free_blks st)
        then \<exists>q' err ps'. recv_step nif len frame net
              = Some (net\<lparr>net_store := st', net_stack := ps', net_ifs := (net_ifs net)(nif \<mapsto> n\<lparr>if_in_q := q'\<rparr>)\<rparr>)
          \<and> exmsg_netif_in nif (net_stack net) = Some (err, ps') \<and> ps_inv ps'
          \<and> rq_inv q' \<and> rq_room q' = rq_room (if_in_q n) \<and> rq_list q' = rq_list (if_in_q n) @ [p]
          \<and> pkt_bytes st' p = take (unat len) frame
        else recv_step nif len frame net = Some (net\<lparr>net_store := st'\<rparr>)
          \<and> pkt_bytes st' p = [] \<and> free_blks st' = free_blks st)"
proof -
  let ?ok = "blks_needed st len \<le> length (free_blks st)"
  from fresh_packet [OF assms(6-9), of len] obtain st1 st2 where
    f: "get_pktbuffer st = Some (p, st1)" "p \<noteq> nullptr" "buf_alloc p len True False st1 = Some (?ok, st2)"
    "pkt_inv st2 p rest" "bufs_inv st2 (p # live)" "free_bufs st2 = ps"
    "length (pkt_bytes st2 p) = (if ?ok then unat len else 0)"
    "free_blks st2 = (if ?ok then drop (blks_needed st len) (free_blks st) else free_blks st)"
    "pkt_ref st2 p = Some 1" "cfg_blk_size st2 = cfg_blk_size st" "\<forall>q. q \<noteq> p \<longrightarrow> buf_heap st2 q = buf_heap st q"
    "\<forall>a \<in> set rest. blk_heap st2 a = blk_heap st a" by blast
  show ?thesis
  proof (cases ?ok)
    case False
    then have "recv_step nif len frame net = Some (net\<lparr>net_store := st2\<rparr>)"
      using f(1-3) assms(5) by (simp add: recv_step_def on_store_def)
    then show ?thesis using False f by (intro exI [of _ st2]) simp
  next
    case True
    from reset_access_at_start [OF f(4)] obtain st3 where st3: "reset_access p st2 = Some st3"
      "acc_inv st3 p rest 0" "pkt_bytes st3 p = pkt_bytes st2 p" "acc_frame p rest st2 st3" by blast
    have len: "len \<noteq> 0" "length (pkt_bytes st3 p) = unat len" using assms(10) f(7) st3(3) True by auto
    with pkt_write_run [OF st3(2) assms(11)] obtain st4 where
      st4: "pkt_write p (Some frame) len st3 = Some (NET_ERR_OK, st4)" "acc_inv st4 p rest (unat len)"
      "acc_frame p rest st3 st4" "pkt_bytes st4 p = take (unat len) frame" by auto
    have fr: "pkt_frame p rest st2 st4"
      using acc_frame_trans [OF st3(4) st4(3)] st4(2) by (auto simp: acc_inv_def intro: acc_frame_pkt_frame)
    define net1 where "net1 = net\<lparr>net_store := st4\<rparr>"
    have "net_ifs net1 nif = Some n" "ps_inv (net_stack net1)" using assms(1,4) by (simp_all add: net1_def)
    from put_buf_to_in_queue_run [OF this(1) assms(2,3) this(2), of p] obtain q' err ps' where
      q: "put_buf_to_in_queue nif p net1
         = Some (NET_ERR_OK, net1\<lparr>net_stack := ps', net_ifs := (net_ifs net1)(nif \<mapsto> n\<lparr>if_in_q := q'\<rparr>)\<rparr>)"
      "exmsg_netif_in nif (net_stack net1) = Some (err, ps')" "ps_inv ps'" "rq_inv q'"
      "rq_room q' = rq_room (if_in_q n)" "rq_list q' = rq_list (if_in_q n) @ [p]" by blast
    define net2 where "net2 = net1\<lparr>net_stack := ps', net_ifs := (net_ifs net1)(nif \<mapsto> n\<lparr>if_in_q := q'\<rparr>)\<rparr>"
    have "recv_step nif len frame net = Some net2"
      using f(1-3) assms(5) True st3(1) st4(1) q(1)
      by (simp add: recv_step_def on_store_def on_store0_def net1_def [symmetric] net2_def)
    moreover have "pkt_ref st4 p = Some 1" using reset_access_ref [OF st3(1)] pkt_write_ref [OF st4(1)] f(9) by simp
    moreover have "cfg_blk_size st4 = cfg_blk_size st" "\<forall>q. q \<noteq> p \<longrightarrow> buf_heap st4 q = buf_heap st q"
      "\<forall>a \<in> set rest. blk_heap st4 a = blk_heap st a" using fr f(10-12) by (simp_all add: pkt_frame_def)
    ultimately show ?thesis
      using True q st4(2,4) bufs_inv_frame [OF fr f(5)] f(6)
      by (intro exI [of _ st4]) (auto simp: net2_def net1_def acc_inv_def)
  qed
qed

text \<open>
  C26. A round of the receive thread with a frame of \<open>len\<close> bytes and a free packet. When the blocks
  suffice, the packet with exactly the bytes of the frame joins the queue of received packets, and one
  message for the interface is appended when there is a message block and room for
  it. When the blocks run out, nothing is queued and no message is sent, but the packet does not go back
  to the pool.
\<close>

theorem recv_step_queues_frame:
  assumes "net_ifs net nif = Some n" "rq_inv (if_in_q n)" "length (rq_list (if_in_q n)) < rq_room (if_in_q n)"
    and "ps_inv (net_stack net)" "st = net_store net"
    and "bufs_inv st live" "free_bufs st = p # ps" "blk_inv st rest" "0 < unat (cfg_blk_size st)"
    and "0 < unat len" "unat len \<le> length frame"
  shows "\<exists>net'. recv_step nif len frame net = Some net' \<and> free_bufs (net_store net') = ps
     \<and> bufs_inv (net_store net') (p # live) \<and> pkt_inv (net_store net') p rest
     \<and> (if blks_needed st len \<le> length (free_blks st)
        then \<exists>n'. net_ifs net' = (net_ifs net)(nif \<mapsto> n') \<and> if_out_q n' = if_out_q n
          \<and> rq_list (if_in_q n') = rq_list (if_in_q n) @ [p]
          \<and> pkt_bytes (net_store net') p = take (unat len) frame
          \<and> ps_inv (net_stack net')
          \<and> (\<forall>a free. mb_free_list (ps_mem_block (net_stack net)) = a # free
               \<and> length (ps_queue_list (net_stack net)) < rq_room (ps_msg_queue (net_stack net)) \<longrightarrow>
               ps_queue_list (net_stack net') = ps_queue_list (net_stack net) @ [a]
               \<and> ps_msgs (net_stack net') a = Some (Exmsg_netif_in nif))
        else net_ifs net' = net_ifs net \<and> net_stack net' = net_stack net
          \<and> pkt_bytes (net_store net') p = [] \<and> free_blks (net_store net') = free_blks st)"
proof -
  note run = recv_step_run [OF assms]
  show ?thesis
  proof (cases "blks_needed st len \<le> length (free_blks st)")
    case False
    with run obtain st' where "recv_step nif len frame net = Some (net\<lparr>net_store := st'\<rparr>)"
      "free_bufs st' = ps" "bufs_inv st' (p # live)" "pkt_inv st' p rest" "pkt_bytes st' p = []" "free_blks st' = free_blks st"
      by auto
    then show ?thesis using False by (intro exI [of _ "net\<lparr>net_store := st'\<rparr>"]) simp
  next
    case True
    with run obtain st' q' err ps' where r: "recv_step nif len frame net
        = Some (net\<lparr>net_store := st', net_stack := ps', net_ifs := (net_ifs net)(nif \<mapsto> n\<lparr>if_in_q := q'\<rparr>)\<rparr>)"
      "free_bufs st' = ps" "bufs_inv st' (p # live)" "pkt_inv st' p rest" "pkt_bytes st' p = take (unat len) frame"
      "exmsg_netif_in nif (net_stack net) = Some (err, ps')" "ps_inv ps'" "rq_list q' = rq_list (if_in_q n) @ [p]"
      by auto
    then show ?thesis
      using True exmsg_netif_in_run [OF assms(4), of nif]
      by (intro exI [of _ "net\<lparr>net_store := st', net_stack := ps', net_ifs := (net_ifs net)(nif \<mapsto> n\<lparr>if_in_q := q'\<rparr>)\<rparr>"]) auto
  qed
qed

theorem recv_step_queues_frame_witness:
  "(\<exists>net net'. net = \<lparr>net_store = demo_blank, net_stack = demo_stack_room, net_ifs = [5 \<mapsto> demo_queued [] []]\<rparr>
     \<and> recv_step 5 60 (replicate 60 9) net = Some net'
     \<and> pkt_bytes (net_store net') 328 = replicate 60 9 \<and> ps_queue_list (net_stack net') = [100])
   \<and> (\<exists>net'. recv_step 5 200 (replicate 200 9)
       \<lparr>net_store = demo_blank, net_stack = demo_stack_room, net_ifs = [5 \<mapsto> demo_queued [] []]\<rparr> = Some net'
     \<and> free_bufs (net_store net') = [] \<and> ps_queue_list (net_stack net') = [])"
proof (rule conjI)
  let ?net = "\<lparr>net_store = demo_blank, net_stack = demo_stack_room, net_ifs = [5 \<mapsto> demo_queued [] []]\<rparr>"
  have net: "net_ifs ?net 5 = Some (demo_queued [] [])" "net_store ?net = demo_blank" "net_stack ?net = demo_stack_room"
    by simp_all
  have need: "blks_needed demo_blank 60 = 1" "blks_needed demo_blank 200 = 4"
    by (simp_all add: blks_needed_def demo_blank(5) length_chunks)
  from recv_step_queues_frame [OF net(1), where len = 60 and frame = "replicate 60 9" and live = "[]" and rest = "[]"
      and p = 328 and ps = "[]" and st = demo_blank] demo_queued [of "[]" "[]"] demo_blank demo_stack_room need
  show "\<exists>net net'. net = ?net \<and> recv_step 5 60 (replicate 60 9) net = Some net'
     \<and> pkt_bytes (net_store net') 328 = replicate 60 9 \<and> ps_queue_list (net_stack net') = [100]"
    by (auto simp: net)
  from recv_step_queues_frame [OF net(1), where len = 200 and frame = "replicate 200 9" and live = "[]" and rest = "[]"
      and p = 328 and ps = "[]" and st = demo_blank] demo_queued [of "[]" "[]"] demo_blank demo_stack_room need
  show "\<exists>net'. recv_step 5 200 (replicate 200 9) ?net = Some net'
     \<and> free_bufs (net_store net') = [] \<and> ps_queue_list (net_stack net') = []"
    by (auto simp: net)
qed

subsection \<open>Sending\<close>

text \<open>The copy into a buffer that is too small runs over its end.\<close>

lemma mem_read_length: "mem_read ptr k st = Some bytes \<Longrightarrow> length bytes = k"
  by (auto simp: mem_read_def bytes_get_def bind_eq_Some_conv split: if_splits option.splits)

lemma read_loop_fits:
  assumes "read_loop p dest i sz st = Some (dest', st')"
  shows "i \<le> length dest \<Longrightarrow> i + unat sz \<le> length dest"
  using assms
proof (induction p dest i sz st "(dest', st')" arbitrary: dest' st' rule: read_loop.raw_induct [rotated, consumes 1, case_names step])
  case (step rec p dest i sz st dest' st')
  show ?case
  proof (cases "sz = 0")
    case False
    with step(2) obtain b_size bytes dest1 st1 and b :: pkt_buffer where
      s: "mem_read (buf_blk_offset b) (unat (min sz b_size)) st = Some bytes" "bytes_put dest i bytes = Some dest1"
      "rec p dest1 (i + unat (min sz b_size)) (sz - min sz b_size) st1 = Some (dest', st')"
      by (auto simp: bind_eq_Some_conv)
    have m: "unat (min sz b_size) \<le> unat sz" by (simp add: min_def word_le_nat_alt)
    then have "unat (sz - min sz b_size) = unat sz - unat (min sz b_size)"
      by (simp add: unat_sub word_le_nat_alt)
    moreover have "i + unat (min sz b_size) \<le> length dest" "length dest1 = length dest"
      using s(2) mem_read_length [OF s(1)] by (auto simp: bytes_put_def split: if_splits)
    ultimately show ?thesis using step(1) [OF s(3)] m by simp
  qed (use step(3) in simp)
qed

text \<open>Reading keeps the reference count.\<close>

lemma read_loop_ref:
  assumes "read_loop p dest i sz st = Some (dest', st')" shows "pkt_ref st' p = pkt_ref st p"
  using assms
proof (induction p dest i sz st "(dest', st')" arbitrary: dest' st' rule: read_loop.raw_induct [rotated, consumes 1, case_names step])
  case (step rec p dest i sz st dest' st')
  then show ?case by (cases "sz = 0") (auto simp: bind_eq_Some_conv dest!: move_forward_ref step(1))
qed

lemma reset_access_blks:
  assumes "reset_access p st = Some st'" shows "blks_of st' p = blks_of st p"
proof -
  obtain b b' where b: "buf_heap st p = Some b" "access_start b st = Some b'" "st' = put_buf p b' st"
    using assms by (auto simp: reset_access_def bind_eq_Some_conv)
  have "buf_blk_list b' = buf_blk_list b"
    using b(2) by (auto simp: access_start_def bind_eq_Some_conv split: list.splits)
  then show ?thesis using b by (simp add: blks_of_def put_buf_def)
qed

lemma pkt_read_overrun:
  assumes inv: "acc_inv st p rest 0" and n: "unat n = length (pkt_bytes st p)" "length dest < unat n"
  shows "pkt_read p (Some dest) n st = None"
proof -
  from total_blk_remain_run [OF inv] obtain r where r: "total_blk_remain p st = Some r"
    "unat r = length (pkt_bytes st p)" by auto
  have "\<not> r < n" "n \<noteq> 0" using r(2) n by (auto simp: word_less_nat_alt)
  moreover have "read_loop p dest 0 n st = None"
    using read_loop_fits [of p dest 0 n st] n(2) by (cases "read_loop p dest 0 n st") force+
  ultimately show ?thesis using r(1) by (simp add: pkt_read_def)
qed

text \<open>The first part of the round: the packet in front is taken and its access position reset twice.\<close>

lemma send_step_front:
  assumes "net_ifs net nif = Some n" "rq_inv (if_out_q n)" "rq_list (if_out_q n) = p # ps"
    and "pkts_inv (net_store net) (p # ks) rest" "bufs_inv (net_store net) (p # live)"
  shows "\<exists>q' st2 c. send_step nif net = do {
       (_, rw_buffer, st3) \<leftarrow> pkt_read p (Some (replicate RW_BUFFER_SIZE 0)) c st2;
       st4 \<leftarrow> buf_free p st3;
       bytes \<leftarrow> rw_buffer;
       frame \<leftarrow> bytes_get bytes 0 (unat c);
       Some (Some frame, net\<lparr>net_ifs := (net_ifs net)(nif \<mapsto> n\<lparr>if_out_q := q'\<rparr>), net_store := st4\<rparr>)
     } \<and> rq_inv q' \<and> rq_room q' = rq_room (if_out_q n) \<and> rq_list q' = ps \<and> unat c = length (pkt_bytes (net_store net) p)
     \<and> pkts_inv st2 (p # ks) rest \<and> bufs_inv st2 (p # live) \<and> acc_inv st2 p (blks_of_all st2 ks @ rest) 0
     \<and> (\<forall>q \<in> set (p # ks). pkt_bytes st2 q = pkt_bytes (net_store net) q)
     \<and> blks_of st2 p = blks_of (net_store net) p
     \<and> free_bufs st2 = free_bufs (net_store net) \<and> free_blks st2 = free_blks (net_store net)
     \<and> cfg_blk_size st2 = cfg_blk_size (net_store net)"
proof -
  let ?st = "net_store net"
  have nz: "p \<noteq> nullptr" using assms(5) by (simp add: bufs_inv_def)
  from rq.pp_cons [OF assms(2,3)] obtain q' where q': "pop (if_out_q n) = Some (Some p, q')" "rq_list q' = ps" "rq_inv q'" "rq_room q' = rq_room (if_out_q n)"
    by blast
  define net1 where "net1 = net\<lparr>net_ifs := (net_ifs net)(nif \<mapsto> n\<lparr>if_out_q := q'\<rparr>)\<rparr>"
  from reset_access_first [OF assms(4)] assms(5) obtain st1 where
    st1: "reset_access p ?st = Some st1" "pkts_inv st1 (p # ks) rest" "bufs_inv st1 (p # live)"
    "\<forall>q \<in> set (p # ks). pkt_bytes st1 q = pkt_bytes ?st q" "free_bufs st1 = free_bufs ?st" "free_blks st1 = free_blks ?st"
    "cfg_blk_size st1 = cfg_blk_size ?st" by auto
  have get: "get_buf_from_out_queue nif net = Some (p, net1\<lparr>net_store := st1\<rparr>)"
    using assms(1) q'(1) st1(1)
    by (simp add: get_buf_from_out_queue_def put_netif_def on_store0_def net1_def Let_def del: fun_upd_apply)
  from reset_access_first [OF st1(2)] st1(3) obtain st2 where
    st2: "reset_access p st1 = Some st2" "pkts_inv st2 (p # ks) rest" "bufs_inv st2 (p # live)"
    "acc_inv st2 p (blks_of_all st2 ks @ rest) 0" "\<forall>q \<in> set (p # ks). pkt_bytes st2 q = pkt_bytes st1 q"
    "free_bufs st2 = free_bufs st1" "free_blks st2 = free_blks st1" "cfg_blk_size st2 = cfg_blk_size st1" by auto
  from pkts_inv_one(1) [OF st1(2)] obtain b where b: "buf_heap st1 p = Some b"
    "unat (buf_capacity b) = length (pkt_bytes ?st p)" using st1(4) by (auto elim!: pkt_inv_bytes)
  have "send_step nif net = do {
      (_, rw_buffer, st3) \<leftarrow> pkt_read p (Some (replicate RW_BUFFER_SIZE 0)) (buf_capacity b) st2;
      st4 \<leftarrow> buf_free p st3;
      bytes \<leftarrow> rw_buffer;
      frame \<leftarrow> bytes_get bytes 0 (unat (buf_capacity b));
      Some (Some frame, net1\<lparr>net_store := st4\<rparr>)
    }" using get nz b(1) st2(1) by (simp add: send_step_def on_store0_def Let_def)
  then show ?thesis using q'(2-4) b(2) st1 st2 reset_access_blks [OF st1(1)] reset_access_blks [OF st2(1)]
    unfolding net1_def by (intro exI [of _ q'] exI [of _ st2] exI [of _ "buf_capacity b"]) simp
qed

text \<open>Reading the whole packet into a buffer that holds it, and freeing it.\<close>

lemma read_all_and_free:
  assumes inv: "pkts_inv st (p # ks) rest" and bufs: "bufs_inv st (p # live)"
    and acc: "acc_inv st p (blks_of_all st ks @ rest) 0"
    and n: "unat n = length (pkt_bytes st p)" "n \<noteq> 0" "unat n \<le> length dest"
  shows "\<exists>st3 st4. pkt_read p (Some dest) n st = Some (NET_ERR_OK, Some (pkt_bytes st p @ drop (unat n) dest), st3)
     \<and> buf_free p st3 = Some st4 \<and> pkts_inv st4 ks rest \<and> bufs_inv st4 live
     \<and> free_bufs st4 = free_bufs st @ [p] \<and> free_blks st4 = free_blks st @ blks_of st p
     \<and> cfg_blk_size st4 = cfg_blk_size st \<and> (\<forall>q \<in> set ks. pkt_bytes st4 q = pkt_bytes st q)"
proof -
  from pkt_read_run [OF acc n(3)] n obtain st3 where
    st3: "pkt_read p (Some dest) n st = Some (NET_ERR_OK, Some (pkt_bytes st p @ drop (unat n) dest), st3)"
    "acc_inv st3 p (blks_of_all st ks @ rest) (unat n)" "acc_frame p (blks_of_all st ks @ rest) st st3" by auto
  have p3: "pkt_inv st3 p (blks_of_all st ks @ rest)" using st3(2) by (simp add: acc_inv_def)
  note fr = acc_frame_pkt_frame [OF st3(3) p3]
  have "pkt_ref st3 p = pkt_ref st p"
    using st3(1) n(2) by (auto simp: pkt_read_def bind_eq_Some_conv dest!: read_loop_ref split: if_splits)
  note inv3 = pkts_inv_step [OF inv p3 fr this]
  note bufs3 = bufs_inv_frame [OF fr bufs]
  have "blks_of st3 p = blks_of st p"
    using st3(3) by (auto simp: acc_frame_def blks_of_def split: option.splits)
  moreover from buf_free_first [OF inv3(1) bufs3(1)] obtain st4 where
    "buf_free p st3 = Some st4" "pkts_inv st4 ks rest" "bufs_inv st4 live" "free_bufs st4 = free_bufs st3 @ [p]"
    "free_blks st4 = free_blks st3 @ blks_of st3 p" "cfg_blk_size st4 = cfg_blk_size st3" "\<forall>q \<in> set ks. pkt_bytes st4 q = pkt_bytes st3 q" by blast
  ultimately show ?thesis using st3(1) inv3(2) bufs3(2) acc_frame_free [OF st3(3)] st3(3) [unfolded acc_frame_def, THEN conjunct1]
    by - (rule exI [of _ st3], rule exI [of _ st4], simp)
qed

text \<open>The whole round.\<close>

lemma send_step_run:
  assumes "net_ifs net nif = Some n" "rq_inv (if_out_q n)" "rq_list (if_out_q n) = p # ps" "st = net_store net"
    and "pkts_inv st (p # ks) rest" "bufs_inv st (p # live)" "pkt_bytes st p \<noteq> []"
  shows "if length (pkt_bytes st p) \<le> 1514
     then \<exists>q' st'. send_step nif net
         = Some (Some (pkt_bytes st p), net\<lparr>net_ifs := (net_ifs net)(nif \<mapsto> n\<lparr>if_out_q := q'\<rparr>), net_store := st'\<rparr>)
       \<and> cfg_blk_size st' = cfg_blk_size st \<and> rq_inv q' \<and> rq_room q' = rq_room (if_out_q n) \<and> rq_list q' = ps
       \<and> free_bufs st' = free_bufs st @ [p] \<and> free_blks st' = free_blks st @ blks_of st p
       \<and> pkts_inv st' ks rest \<and> bufs_inv st' live \<and> (\<forall>q \<in> set ks. pkt_bytes st' q = pkt_bytes st q)
     else send_step nif net = None"
proof -
  from send_step_front [OF assms(1-3), of ks rest live] assms(4-6) obtain q' st2 c where
    step: "send_step nif net = do {
       (_, rw_buffer, st3) \<leftarrow> pkt_read p (Some (replicate RW_BUFFER_SIZE 0)) c st2;
       st4 \<leftarrow> buf_free p st3;
       bytes \<leftarrow> rw_buffer;
       frame \<leftarrow> bytes_get bytes 0 (unat c);
       Some (Some frame, net\<lparr>net_ifs := (net_ifs net)(nif \<mapsto> n\<lparr>if_out_q := q'\<rparr>), net_store := st4\<rparr>)
     }"
    and s: "rq_list q' = ps \<and> rq_inv q' \<and> rq_room q' = rq_room (if_out_q n)" "unat c = length (pkt_bytes st p)" "pkts_inv st2 (p # ks) rest" "bufs_inv st2 (p # live)"
    "acc_inv st2 p (blks_of_all st2 ks @ rest) 0" "\<forall>q \<in> set (p # ks). pkt_bytes st2 q = pkt_bytes st q"
    "blks_of st2 p = blks_of st p" "free_bufs st2 = free_bufs st" "free_blks st2 = free_blks st" "cfg_blk_size st2 = cfg_blk_size st" by blast
  have len: "unat c = length (pkt_bytes st2 p)" "length (replicate RW_BUFFER_SIZE (0::u8)) = 1514"
    using s(2,6) by (simp_all add: RW_BUFFER_SIZE_def)
  show ?thesis
  proof (cases "length (pkt_bytes st p) \<le> 1514")
    case False
    then have "pkt_read p (Some (replicate RW_BUFFER_SIZE 0)) c st2 = None"
      using pkt_read_overrun [OF s(5) len(1)] len(2) s(2) by simp
    then show ?thesis using False step by simp
  next
    case True
    have "c \<noteq> 0" "unat c \<le> length (replicate RW_BUFFER_SIZE (0::u8))" using True s(2) len(2) assms(7) by auto
    from read_all_and_free [OF s(3-5) len(1) this] obtain st3 st4 where
      r: "pkt_read p (Some (replicate RW_BUFFER_SIZE 0)) c st2
          = Some (NET_ERR_OK, Some (pkt_bytes st2 p @ drop (unat c) (replicate RW_BUFFER_SIZE 0)), st3)"
      "buf_free p st3 = Some st4" "pkts_inv st4 ks rest" "bufs_inv st4 live" "free_bufs st4 = free_bufs st2 @ [p]"
      "free_blks st4 = free_blks st2 @ blks_of st2 p" "\<forall>q \<in> set ks. pkt_bytes st4 q = pkt_bytes st2 q"
      "cfg_blk_size st4 = cfg_blk_size st2" by blast
    have "send_step nif net = Some (Some (pkt_bytes st p),
        net\<lparr>net_ifs := (net_ifs net)(nif \<mapsto> n\<lparr>if_out_q := q'\<rparr>), net_store := st4\<rparr>)"
      unfolding step using r(1,2) len(1) s(6) by (simp add: bytes_get_def)
    then show ?thesis using True r(3-8) s
      by simp (rule exI [of _ q'], rule exI [of _ st4], simp)
  qed
qed

text \<open>
  A round of the send thread with the packet \<open>p\<close> in front of the queue: a packet of at most 1514 bytes
  is injected as exactly its bytes, and the packet and its blocks go back to the pools; the other packets
  keep their bytes. A longer packet is copied over the end of the static buffer.
\<close>

theorem send_step_injects:
  assumes "net_ifs net nif = Some n" "rq_inv (if_out_q n)" "rq_list (if_out_q n) = p # ps" "st = net_store net"
    and "pkts_inv st (p # ks) rest" "bufs_inv st (p # live)" "pkt_bytes st p \<noteq> []"
  shows "if length (pkt_bytes st p) \<le> 1514
     then \<exists>net' n' st'. send_step nif net = Some (Some (pkt_bytes st p), net') \<and> net_store net' = st'
       \<and> net_ifs net' = (net_ifs net)(nif \<mapsto> n') \<and> rq_list (if_out_q n') = ps \<and> if_in_q n' = if_in_q n
       \<and> net_stack net' = net_stack net \<and> free_bufs st' = free_bufs st @ [p]
       \<and> free_blks st' = free_blks st @ blks_of st p
       \<and> pkts_inv st' ks rest \<and> bufs_inv st' live \<and> (\<forall>q \<in> set ks. pkt_bytes st' q = pkt_bytes st q)
     else send_step nif net = None"
proof (cases "length (pkt_bytes st p) \<le> 1514")
  case True
  with send_step_run [OF assms] obtain q' st' where r: "send_step nif net
      = Some (Some (pkt_bytes st p), net\<lparr>net_ifs := (net_ifs net)(nif \<mapsto> n\<lparr>if_out_q := q'\<rparr>), net_store := st'\<rparr>)"
    "rq_list q' = ps" "free_bufs st' = free_bufs st @ [p]" "free_blks st' = free_blks st @ blks_of st p"
    "pkts_inv st' ks rest" "bufs_inv st' live" "\<forall>q \<in> set ks. pkt_bytes st' q = pkt_bytes st q" by auto
  then show ?thesis using True
    by (simp del: fun_upd_apply) (intro exI [of _ "n\<lparr>if_out_q := q'\<rparr>"], simp)
qed (use send_step_run [OF assms] in simp)

theorem send_step_injects_witness:
  "\<exists>net'. send_step 5 (demo_queued_net [] [392]) = Some (Some (replicate 20 2), net')
     \<and> free_bufs (net_store net') = [456, 392] \<and> free_blks (net_store net') = [148, 124]"
proof -
  have len: "pkt_bytes demo_two 392 = replicate 20 2"
    by (simp add: pkt_bytes_def demo_two_def blks_bytes_def blk_bytes_def)
  have "pkts_inv demo_two [392, 328] []" "bufs_inv demo_two [392, 328]"
    using demo_two pkts_inv_perm [of "[392, 328]" "[328, 392]"] bufs_inv_perm [of "[392, 328]" "[328, 392]"] by simp_all
  with send_step_injects [of "demo_queued_net [] [392]" 5 "demo_queued [] [392]" 392 "[]" demo_two "[328]" "[]" "[328]"]
    demo_queued [of "[]" "[392]"]
  show ?thesis by (auto simp: demo_queued_net_def len demo_two_free demo_two_blks)
qed

end
