(* ===== verification/Reception.thy ===== *)
theory Reception
  imports Wire
begin

text \<open>
  The receive thread and the working thread together: a frame from the device, then the message it caused.
  The link layer accepts a frame without taking its packet over, and nobody frees the packet, so every
  accepted frame costs a packet for ever.
\<close>

subsection \<open>A packet joins the live ones\<close>

lemma pkts_inv_new:
  assumes inv: "pkts_inv st ps rest" "p \<notin> set ps"
    and new: "pkt_inv st' p (blks_of_all st ps @ rest)" "pkt_ref st' p = Some 1"
    and frame: "\<forall>q. q \<noteq> p \<longrightarrow> buf_heap st' q = buf_heap st q" "cfg_blk_size st' = cfg_blk_size st"
      "\<forall>a \<in> set (blks_of_all st ps @ rest). blk_heap st' a = blk_heap st a"
  shows "pkts_inv st' (p # ps) rest" "\<forall>q \<in> set ps. pkt_bytes st' q = pkt_bytes st q"
proof -
  have "\<forall>q \<in> set ps. buf_heap st' q = buf_heap st q" "\<forall>a \<in> set (blks_of_all st ps). blk_heap st' a = blk_heap st a"
    using inv(2) frame by auto
  note others = other_packets [OF this(1) frame(2) this(2)]
  from others show "\<forall>q \<in> set ps. pkt_bytes st' q = pkt_bytes st q" by simp
  from new(1) obtain b where b: "buf_heap st' p = Some b" "blk_inv st' (buf_blk_list b @ blks_of_all st ps @ rest)"
    "blks_ok (cfg_blk_size st') (blk_heap st') (buf_blk_list b)"
    "length (blks_bytes (blk_heap st') (buf_blk_list b)) = unat (buf_capacity b)"
    by (auto simp: pkt_inv_def)
  moreover have "buf_ref b = 1" using new(2) b(1) by (simp add: pkt_ref_def)
  ultimately have "pkt_wf st' p" by (simp add: pkt_wf_def)
  moreover have "blks_of st' p = buf_blk_list b" using b(1) by (simp add: blks_of_def)
  ultimately show "pkts_inv st' (p # ps) rest"
    using inv others b(2) by (simp add: pkts_inv_def)
qed

subsection \<open>Rounds\<close>

text \<open>A round of the receive thread, followed by a round of the working thread.\<close>

definition receive :: "byte_order \<Rightarrow> ('f \<Rightarrow> 'f net \<Rightarrow> 'f net option) \<Rightarrow> addr \<Rightarrow> u8 list \<Rightarrow> 'f net \<Rightarrow> 'f net option" where
  "receive ord run nif frame net = do {
     net1 \<leftarrow> recv_step nif (of_nat (length frame)) frame net;
     (_, net2) \<leftarrow> work_step ord run net1;
     Some net2
   }"

fun receive_all :: "byte_order \<Rightarrow> ('f \<Rightarrow> 'f net \<Rightarrow> 'f net option) \<Rightarrow> addr \<Rightarrow> u8 list list \<Rightarrow> 'f net \<Rightarrow> 'f net option" where
  "receive_all ord run nif [] net = Some net"
| "receive_all ord run nif (frame # frames) net = do {
     net1 \<leftarrow> receive ord run nif frame net;
     receive_all ord run nif frames net1
   }"

text \<open>
  Between rounds: the queue of received packets and the message queue are empty, there is a message block,
  and \<open>live\<close> are the packets that are in no pool.
\<close>

definition receiving :: "addr \<Rightarrow> netif \<Rightarrow> addr list \<Rightarrow> 'f net \<Rightarrow> bool" where
  "receiving nif n live net \<longleftrightarrow> net_ifs net nif = Some n \<and> if_class n = Ether_net
     \<and> rq_inv (if_in_q n) \<and> rq_list (if_in_q n) = [] \<and> 0 < rq_room (if_in_q n)
     \<and> ps_inv (net_stack net) \<and> ps_queue_list (net_stack net) = [] \<and> 0 < rq_room (ps_msg_queue (net_stack net))
     \<and> mb_free_list (ps_mem_block (net_stack net)) \<noteq> []
     \<and> pkts_inv (net_store net) live [] \<and> bufs_inv (net_store net) live \<and> 14 \<le> unat (cfg_blk_size (net_store net))"

lemma work_step_idle:
  assumes "ps_inv (net_stack net)" "ps_queue_list (net_stack net) = []"
  shows "work_step ord run net = Some (False, net)"
proof -
  have "pop (ps_msg_queue (net_stack net)) = Some (None, ps_msg_queue (net_stack net))"
    using assms by (intro rq.pp_empty) (simp_all add: ps_inv_def ps_queue_list_def)
  then show ?thesis by (simp add: work_step_def on_stack_def pop_msg_queue_def)
qed

text \<open>A message for the interface with one accepted packet in its queue.\<close>

lemma work_step_netif_in:
  assumes "net_ifs net nif = Some n" "if_class n = Ether_net" "rq_inv (if_in_q n)" "rq_list (if_in_q n) = [p]"
    and "ps_inv (net_stack net)" "ps_queue_list (net_stack net) = [a]" "ps_msgs (net_stack net) a = Some (Exmsg_netif_in nif)"
    and "a \<noteq> nullptr" "length (mb_free_list (ps_mem_block (net_stack net))) < mb_room (ps_mem_block (net_stack net))"
    and "pkts_inv (net_store net) (p # live) []" "bufs_inv (net_store net) (p # live)"
    and "frame_ok (net_store net) p" "14 \<le> unat (cfg_blk_size (net_store net))"
  shows "\<exists>st' q' ps'. work_step ord run net
      = Some (True, net\<lparr>net_store := st', net_stack := ps', net_ifs := (net_ifs net)(nif \<mapsto> n\<lparr>if_in_q := q'\<rparr>)\<rparr>)
    \<and> rq_inv q' \<and> rq_list q' = [] \<and> rq_room q' = rq_room (if_in_q n)
    \<and> pkts_inv st' (p # live) [] \<and> bufs_inv st' (p # live) \<and> free_bufs st' = free_bufs (net_store net)
    \<and> cfg_blk_size st' = cfg_blk_size (net_store net) \<and> ps_inv ps' \<and> ps_queue_list ps' = [] \<and> rq_room (ps_msg_queue ps') = rq_room (ps_msg_queue (net_stack net))
    \<and> mb_free_list (ps_mem_block ps') = mb_free_list (ps_mem_block (net_stack net)) @ [a]"
proof -
  let ?ps = "net_stack net"
  have q: "rq_inv (ps_msg_queue ?ps)" "rq_list (ps_msg_queue ?ps) = [a]" "mb_inv (ps_mem_block ?ps)"
    using assms(5,6) by (simp_all add: ps_inv_def ps_queue_list_def)
  from rq.pp_cons [OF q(1,2)] obtain mq where mq: "pop (ps_msg_queue ?ps) = Some (Some a, mq)" "rq_inv mq"
    "rq_list mq = []" "rq_room mq = rq_room (ps_msg_queue ?ps)" by blast
  from mb.psh_room [OF q(3) assms(9), of a] obtain mb where mb: "mb_free (ps_mem_block ?ps) a = Some (True, mb)" "mb_inv mb"
    "mb_free_list mb = mb_free_list (ps_mem_block ?ps) @ [a]" "mb_room mb = mb_room (ps_mem_block ?ps)" by blast
  define net1 where "net1 = net\<lparr>net_stack := ?ps\<lparr>ps_msg_queue := mq\<rparr>\<rparr>"
  have n1: "net_ifs net1 nif = Some n" "net_store net1 = net_store net" using assms(1) by (simp_all add: net1_def)
  have "pkt_bytes (net_store net) p \<noteq> []" using assms(12) by (auto simp: frame_ok_def)
  with netif_in_loop_run [OF n1(1) assms(2-4), of live "[]" "[]" ord] assms(10-13) n1(2) obtain st' q' where
    r: "netif_in_loop ord nif net1
       = Some (NET_ERR_OK, net1\<lparr>net_ifs := (net_ifs net1)(nif \<mapsto> n\<lparr>if_in_q := q'\<rparr>), net_store := st'\<rparr>)"
     "rq_inv q'" "rq_list q' = []" "rq_room q' = rq_room (if_in_q n)" "cfg_blk_size st' = cfg_blk_size (net_store net)"
     "pkts_inv st' (p # live) []" "bufs_inv st' (p # live)" "free_bufs st' = free_bufs (net_store net)" by auto
  define ps' where "ps' = ?ps\<lparr>ps_msg_queue := mq, ps_mem_block := mb\<rparr>"
  have "work_step ord run net
      = Some (True, net\<lparr>net_store := st', net_stack := ps', net_ifs := (net_ifs net)(nif \<mapsto> n\<lparr>if_in_q := q'\<rparr>)\<rparr>)"
    using mq(1) assms(7) r(1) mb(1)
    by (simp add: work_step_def on_stack_def pop_msg_queue_def do_netif_in_def release_msg_block_def net1_def ps'_def
        del: fun_upd_apply) 
  moreover have "ps_inv ps'" using assms(5,6,8) mq(2,3) mb(2,3) by (auto simp: ps_inv_def ps'_def ps_queue_list_def)
  ultimately show ?thesis using r(2-8) mq(3,4) mb(3)
    by - (rule exI [of _ st'], rule exI [of _ q'], rule exI [of _ ps'], simp add: ps'_def ps_queue_list_def)
qed

lemma receive_keeps_packet:
  assumes inv: "receiving nif n live net" and pool: "free_bufs (net_store net) = p # ps"
    and len: "14 \<le> length frame" "length frame \<le> 1514"
  shows "\<exists>net' n'. receive ord run nif frame net = Some net' \<and> receiving nif n' (p # live) net'
    \<and> free_bufs (net_store net') = ps"
proof -
  let ?st = "net_store net" and ?len = "of_nat (length frame) :: u32"
  note i = inv [unfolded receiving_def]
  have ul: "unat ?len = length frame" using len(2) by (simp add: unat_of_nat)
  have own: "blk_inv ?st (blks_of_all ?st live)" using i by (simp add: pkts_inv_def)
  have room: "length (rq_list (if_in_q n)) < rq_room (if_in_q n)" using i by simp
  have cfg: "0 < unat (cfg_blk_size ?st)" "0 < unat ?len" "unat ?len \<le> length frame" using i len ul by auto
  from i have i': "net_ifs net nif = Some n" "rq_inv (if_in_q n)" "ps_inv (net_stack net)" "bufs_inv ?st live" by auto
  from recv_step_run [OF i'(1,2) room i'(3) refl i'(4) pool own cfg] obtain st' where
    r: "bufs_inv st' (p # live)" "free_bufs st' = ps" "pkt_inv st' p (blks_of_all ?st live)" "pkt_ref st' p = Some 1"
      "cfg_blk_size st' = cfg_blk_size ?st" "\<forall>q. q \<noteq> p \<longrightarrow> buf_heap st' q = buf_heap ?st q"
      "\<forall>a \<in> set (blks_of_all ?st live). blk_heap st' a = blk_heap ?st a"
    and step: "if blks_needed ?st ?len \<le> length (free_blks ?st)
        then \<exists>q' err ps'. recv_step nif ?len frame net
              = Some (net\<lparr>net_store := st', net_stack := ps', net_ifs := (net_ifs net)(nif \<mapsto> n\<lparr>if_in_q := q'\<rparr>)\<rparr>)
          \<and> exmsg_netif_in nif (net_stack net) = Some (err, ps') \<and> ps_inv ps'
          \<and> rq_inv q' \<and> rq_room q' = rq_room (if_in_q n) \<and> rq_list q' = rq_list (if_in_q n) @ [p]
          \<and> pkt_bytes st' p = take (unat ?len) frame
        else recv_step nif ?len frame net = Some (net\<lparr>net_store := st'\<rparr>)
          \<and> pkt_bytes st' p = [] \<and> free_blks st' = free_blks ?st" by blast
  have "p \<notin> set live" using r(1) by (simp add: bufs_inv_def)
  with pkts_inv_new [of ?st live "[]" p st'] r(3-7) i have pk: "pkts_inv st' (p # live) []" by simp
  show ?thesis
  proof (cases "blks_needed ?st ?len \<le> length (free_blks ?st)")
    case False
    let ?net = "net\<lparr>net_store := st'\<rparr>"
    have "work_step ord run ?net = Some (False, ?net)" using i by (intro work_step_idle) simp_all
    moreover have "receiving nif n (p # live) ?net" using i pk r(1,5) by (simp add: receiving_def)
    ultimately show ?thesis using step False r(2) by (auto simp: receive_def)
  next
    case True
    with step obtain q' err ps' where s: "recv_step nif ?len frame net
        = Some (net\<lparr>net_store := st', net_stack := ps', net_ifs := (net_ifs net)(nif \<mapsto> n\<lparr>if_in_q := q'\<rparr>)\<rparr>)"
      "exmsg_netif_in nif (net_stack net) = Some (err, ps')" "ps_inv ps'" "rq_inv q'" "rq_room q' = rq_room (if_in_q n)"
      "rq_list q' = [p]" "pkt_bytes st' p = frame" using i ul by auto
    obtain a free where a: "mb_free_list (ps_mem_block (net_stack net)) = a # free" using i by (cases "mb_free_list (ps_mem_block (net_stack net))") auto
    with exmsg_netif_in_run [OF i'(3), of nif] s(2) i have m: "mb_free_list (ps_mem_block ps') = free"
      "ps_msgs ps' a = Some (Exmsg_netif_in nif)" "ps_queue_list ps' = [a]"
      "rq_room (ps_msg_queue ps') = rq_room (ps_msg_queue (net_stack net))"
      and mr: "mb_room (ps_mem_block ps') = mb_room (ps_mem_block (net_stack net))" by auto
    have mbroom: "a \<noteq> nullptr" "length free < mb_room (ps_mem_block ps')"
      using i'(3) a mr mb.bounded [of "ps_mem_block (net_stack net)"] by (auto simp: ps_inv_def)
    let ?net = "net\<lparr>net_store := st', net_stack := ps', net_ifs := (net_ifs net)(nif \<mapsto> n\<lparr>if_in_q := q'\<rparr>)\<rparr>"
    have f: "frame_ok st' p" using s(7) len by (simp add: frame_ok_def)
    from work_step_netif_in [of ?net nif "n\<lparr>if_in_q := q'\<rparr>" p a live ord run] i s m mbroom pk r(1,5) f obtain st2 q2 ps2 where
      w: "work_step ord run ?net = Some (True, ?net\<lparr>net_store := st2, net_stack := ps2,
          net_ifs := (net_ifs ?net)(nif \<mapsto> n\<lparr>if_in_q := q', if_in_q := q2\<rparr>)\<rparr>)" "rq_inv q2" "rq_list q2 = []"
      "rq_room q2 = rq_room (if_in_q n)" "pkts_inv st2 (p # live) []" "bufs_inv st2 (p # live)"
      "free_bufs st2 = free_bufs st'" "cfg_blk_size st2 = cfg_blk_size st'" "ps_inv ps2" "ps_queue_list ps2 = []"
      "rq_room (ps_msg_queue ps2) = rq_room (ps_msg_queue (net_stack net))" "mb_free_list (ps_mem_block ps2) = free @ [a]"
      by auto
    have "receive ord run nif frame net = Some (?net\<lparr>net_store := st2, net_stack := ps2,
          net_ifs := (net_ifs ?net)(nif \<mapsto> n\<lparr>if_in_q := q', if_in_q := q2\<rparr>)\<rparr>)"
      using s(1) w(1) by (simp add: receive_def del: fun_upd_apply)
    moreover have "receiving nif (n\<lparr>if_in_q := q2\<rparr>) (p # live) (?net\<lparr>net_store := st2, net_stack := ps2,
          net_ifs := (net_ifs ?net)(nif \<mapsto> n\<lparr>if_in_q := q', if_in_q := q2\<rparr>)\<rparr>)"
      using i w r(5) by (simp add: receiving_def)
    ultimately show ?thesis using w(7) r(2) by auto
  qed
qed

text \<open>Without a free packet a frame is dropped by the receive thread.\<close>

lemma recv_step_deaf:
  assumes "receiving nif n live net" "free_bufs (net_store net) = []"
  shows "recv_step nif len frame net = Some net"
proof -
  have "mb_inv (buf_pool (net_store net))" using assms(1) by (simp add: receiving_def bufs_inv_def)
  then have "mb_alloc (buf_pool (net_store net)) = Some (None, buf_pool (net_store net))"
    using assms(2) by (intro mb.pp_empty) (simp_all add: free_bufs_def)
  then show ?thesis by (simp add: recv_step_def on_store_def get_pktbuffer_def)
qed

lemma receive_deaf:
  assumes "receiving nif n live net" "free_bufs (net_store net) = []"
  shows "receive ord run nif frame net = Some net"
proof -
  have "work_step ord run net = Some (False, net)" using assms(1) by (intro work_step_idle) (simp_all add: receiving_def)
  with recv_step_deaf [OF assms] show ?thesis by (simp add: receive_def)
qed

lemma receive_all_run:
  assumes "receiving nif n live net" "list_all (\<lambda>f. 14 \<le> length f \<and> length f \<le> 1514) frames"
  shows "\<exists>net' n' live'. receive_all ord run nif frames net = Some net' \<and> receiving nif n' live' net'
    \<and> free_bufs (net_store net') = drop (length frames) (free_bufs (net_store net))"
  using assms
proof (induction frames arbitrary: net n live)
  case Nil
  then show ?case by auto
next
  case (Cons f frames)
  then have f: "14 \<le> length f" "length f \<le> 1514" "list_all (\<lambda>f. 14 \<le> length f \<and> length f \<le> 1514) frames" by simp_all
  show ?case
  proof (cases "free_bufs (net_store net)")
    case Nil
    with Cons.IH [OF Cons.prems(1) f(3)] receive_deaf [OF Cons.prems(1) Nil] show ?thesis by auto
  next
    case pool: (Cons p ps)
    from receive_keeps_packet [OF Cons.prems(1) pool f(1,2)] obtain net1 n1 where
      r: "receive ord run nif f net = Some net1" "receiving nif n1 (p # live) net1" "free_bufs (net_store net1) = ps" by blast
    from Cons.IH [OF r(2) f(3)] r(1,3) pool show ?thesis by auto
  qed
qed

text \<open>
  C4. Reception ends after as many frames as there are packets. Every frame of an acceptable length that is
  received and handled by the working thread takes one packet out of the pool for good, also when it
  found no blocks; when as many frames as free packets have been handled, the receive thread drops every
  further frame without a trace.
\<close>

theorem reception_stops:
  assumes "receiving nif n live net" "list_all (\<lambda>f. 14 \<le> length f \<and> length f \<le> 1514) frames"
  shows "\<exists>net'. receive_all ord run nif frames net = Some net'
    \<and> free_bufs (net_store net') = drop (length frames) (free_bufs (net_store net))
    \<and> (length frames < length (free_bufs (net_store net)) \<or> (\<forall>len frame. recv_step nif len frame net' = Some net'))"
proof -
  from receive_all_run [OF assms, of ord run] obtain net' n' live' where
    r: "receive_all ord run nif frames net = Some net'" "receiving nif n' live' net'"
    "free_bufs (net_store net') = drop (length frames) (free_bufs (net_store net))" by blast
  have "recv_step nif len frame net' = Some net'" if "length (free_bufs (net_store net)) \<le> length frames" for len frame
    using recv_step_deaf [OF r(2)] r(3) that by simp
  with r show ?thesis by (cases "length frames < length (free_bufs (net_store net))") auto
qed

definition demo_receiver :: "nat net" where
  "demo_receiver = \<lparr>net_store = demo_blank, net_stack = demo_stack_room, net_ifs = [5 \<mapsto> demo_queued [] []]\<rparr>"

lemma demo_receiving: "receiving 5 (demo_queued [] []) [] demo_receiver"
  using demo_queued [of "[]" "[]"] demo_stack_room demo_blank
  by (simp add: receiving_def demo_receiver_def pkts_inv_def)

theorem reception_stops_witness:
  "\<exists>net'. receive_all Little_endian (\<lambda>_. Some) 5 [replicate 60 1] demo_receiver = Some net'
    \<and> (\<forall>len frame. recv_step 5 len frame net' = Some net')"
  using reception_stops [OF demo_receiving, of "[replicate 60 1]" Little_endian "\<lambda>_. Some"] demo_blank(4)
  by (auto simp: demo_receiver_def)

end
