(* ===== verification/Transmission.thy ===== *)
theory Transmission
  imports Reception
begin

text \<open>
  Asking for an address and the send thread together: every request becomes one injected frame, and the
  packet and its blocks come back to the pools, so that sending can go on for ever.
\<close>

subsection \<open>Who has the blocks\<close>

text \<open>
  The packet \<open>p\<close> and the pool have the blocks \<open>S\<close> between them, apart from the blocks \<open>rest\<close> of others;
  \<open>custody\<close> adds that the packet is referenced once. Every operation that builds a frame keeps both.
\<close>

definition owns :: "addr \<Rightarrow> addr list \<Rightarrow> addr multiset \<Rightarrow> pkt_store \<Rightarrow> bool" where
  "owns p rest S st \<longleftrightarrow> (\<exists>b. buf_heap st p = Some b \<and> blk_inv st (buf_blk_list b @ rest)
     \<and> mset (free_blks st @ buf_blk_list b) = S) \<and> 0 < unat (cfg_blk_size st)"

definition custody :: "addr \<Rightarrow> addr list \<Rightarrow> addr multiset \<Rightarrow> pkt_store \<Rightarrow> bool" where
  "custody p rest S st \<longleftrightarrow> owns p rest S st \<and> pkt_ref st p = Some 1"

named_theorems custody \<open>operations that keep the custody of the blocks\<close>

lemma custody_put_buf:
  assumes "custody p rest S st" "buf_heap st p = Some b" "buf_blk_list b' = buf_blk_list b" "buf_ref b' = buf_ref b"
  shows "custody p rest S (put_buf p b' st)"
  using assms by (simp add: custody_def owns_def pkt_ref_def)

lemma owns_put_blk:
  assumes "owns p rest S st" "length (blk_payload b) = unat (cfg_blk_size st)"
  shows "owns p rest S (put_blk a b st)"
  using assms by (auto simp: owns_def intro: blk_inv_put_blk)

lemma custody_put_blk:
  "custody p rest S st \<Longrightarrow> length (blk_payload b) = unat (cfg_blk_size st) \<Longrightarrow> custody p rest S (put_blk a b st)"
  by (simp add: custody_def owns_put_blk pkt_ref_def)

text \<open>The blocks of the packet and of the pool have whole payloads.\<close>

lemma owns_payload:
  assumes "owns p rest S st" "buf_heap st p = Some b" "a \<in> set (buf_blk_list b)" "blk_heap st a = Some blk"
  shows "length (blk_payload blk) = unat (cfg_blk_size st)"
proof -
  from assms obtain b' where "blk_inv st (buf_blk_list b' @ rest)" "b' = b" by (auto simp: owns_def)
  with assms(3,4) blk_inv_owned [of st "buf_blk_list b @ rest" a] show ?thesis by auto
qed

lemma move_forward_keeps [custody]:
  assumes "move_forward p sz st = Some st'" "custody p rest S st" shows "custody p rest S st'"
proof -
  from assms obtain b where b: "buf_heap st p = Some b" by (auto simp: move_forward_def bind_eq_Some_conv)
  show ?thesis
  proof (cases "buf_cur_blk b")
    case (At i)
    with assms b show ?thesis
      by (auto simp: move_forward_def bind_eq_Some_conv Let_def intro!: custody_put_buf [OF assms(2) b] split: if_split_asm)
  qed (use assms b in \<open>simp_all add: move_forward_def\<close>)
qed

text \<open>Writing at a pointer changes bytes in place, whichever block they lie in.\<close>

lemma mem_write_keeps [custody]:
  assumes "mem_write ptr bytes st = Some st'" "custody p rest S st" shows "custody p rest S st'"
proof -
  from assms(1) obtain a off blk payload where w: "ptr = Some (a, off)" "blk_heap st a = Some blk"
    "bytes_put (blk_payload blk) off bytes = Some payload" "st' = put_blk a (blk\<lparr>blk_payload := payload\<rparr>) st"
    by (auto simp: mem_write_def bind_eq_Some_conv)
  have "length payload = length (blk_payload blk)" using w(3) by (auto simp: bytes_put_def split: if_splits)
  then have "blk_inv st' own" if "blk_inv st own" for own
  proof -
    have "\<exists>b. blk_heap st' x = Some b \<and> length (blk_payload b) = unat (cfg_blk_size st)"
      if "\<exists>b. blk_heap st x = Some b \<and> length (blk_payload b) = unat (cfg_blk_size st)" for x
      using that w(2) \<open>length payload = _\<close> by (auto simp: w(4))
    with that show ?thesis by (simp add: blk_inv_def w(4) free_blks_def)
  qed
  with assms(2) show ?thesis by (auto simp: w(4) custody_def owns_def pkt_ref_def)
qed

lemma write_fields_keeps [custody]:
  "write_fields ptr fs st = Some st' \<Longrightarrow> custody p rest S st \<Longrightarrow> custody p rest S st'"
  by (induction ptr fs st rule: write_fields.induct) (auto simp: bind_eq_Some_conv dest: mem_write_keeps)

lemma access_start_list:
  "access_start b st = Some b' \<Longrightarrow> buf_blk_list b' = buf_blk_list b \<and> buf_ref b' = buf_ref b"
  by (auto simp: access_start_def bind_eq_Some_conv split: list.splits)

lemma reset_access_keeps [custody]:
  "reset_access p st = Some st' \<Longrightarrow> custody p rest S st \<Longrightarrow> custody p rest S st'"
  by (auto simp: reset_access_def bind_eq_Some_conv dest: access_start_list intro: custody_put_buf)

lemma seek_loop_keeps [custody]:
  assumes "seek_loop p n st = Some st'" "custody p rest S st" shows "custody p rest S st'"
  using assms
proof (induction p n st st' rule: seek_loop.raw_induct [rotated, consumes 1, case_names step])
  case (step rec p n st st')
  then show ?case by (cases "n = 0") (auto simp: bind_eq_Some_conv dest: move_forward_keeps)
qed

lemma pkt_seek_keeps [custody]:
  assumes "pkt_seek p n st = Some (err, st')" "custody p rest S st" shows "custody p rest S st'"
proof -
  from assms(1) obtain b where b: "buf_heap st p = Some b" by (auto simp: pkt_seek_def bind_eq_Some_conv)
  have "custody p rest S (put_buf p (b\<lparr>buf_cur_blk := c, buf_blk_offset := off, buf_pos := pos\<rparr>) st)" for c off pos
    using custody_put_buf [OF assms(2) b] by simp
  with assms b show ?thesis
    by (auto simp: pkt_seek_def bind_eq_Some_conv split: if_split_asm dest!: seek_loop_keeps [where rest = rest and S = S])
qed

lemma fill_loop_keeps [custody]:
  assumes "fill_loop p v n st = Some st'" "custody p rest S st" shows "custody p rest S st'"
  using assms
proof (induction p v n st st' rule: fill_loop.raw_induct [rotated, consumes 1, case_names step])
  case (step rec p v n st st')
  then show ?case
    by (cases "n = 0") (auto simp: bind_eq_Some_conv dest: mem_write_keeps move_forward_keeps)
qed

lemma pkt_fill_keeps [custody]:
  "pkt_fill p v n st = Some (err, st') \<Longrightarrow> custody p rest S st \<Longrightarrow> custody p rest S st'"
  by (auto simp: pkt_fill_def bind_eq_Some_conv dest: fill_loop_keeps split: if_splits)

subsection \<open>Allocation takes from the pool what it adds to the packet\<close>

lemma buf_alloc_keeps [custody]:
  assumes "buf_alloc p sz front ins st = Some (True, st')" "owns p rest S st" shows "custody p rest S st'"
proof -
  from assms(2) obtain b where b: "buf_heap st p = Some b" "blk_inv st ([] @ buf_blk_list b @ rest)"
    "mset (free_blks st) + mset (buf_blk_list b) = S" "0 < unat (cfg_blk_size st)" by (auto simp: owns_def)
  let ?n = "length (chunks (unat (cfg_blk_size st)) (unat sz))"
  let ?blks = "take ?n (free_blks st)"
  have room: "?n \<le> length (free_blks st)"
  proof (rule ccontr)
    assume "\<not> ?n \<le> length (free_blks st)"
    with alloc_blks_fail [OF b(2,4) refl, of sz front] assms(1) b(1) show False
      by (auto simp: buf_alloc_def Let_def not_le)
  qed
  from alloc_blks_ok [OF b(2,4) refl room, of front] obtain st1 where
    st1: "alloc_blks sz front [] st = Some (True, ?blks, st1)" "free_blks st1 = drop ?n (free_blks st)"
    "blk_inv st1 (?blks @ buf_blk_list b @ rest)" "blk_frame (- set ?blks) st st1" by auto
  from assms(1) b(1) st1(1) obtain b1 b2 where b2: "access_start b1 st1 = Some b2" "st' = put_buf p b2 st1"
    "buf_blk_list b1 = join_blks front ins ?blks (buf_blk_list b)" "buf_ref b1 = 1"
    by (auto simp: buf_alloc_def Let_def bind_eq_Some_conv)
  note list = access_start_list [OF b2(1)]
  have mset: "mset (buf_blk_list b2) = mset ?blks + mset (buf_blk_list b)"
    using list b2(3) by (simp add: join_blks Let_def)
  then have "blk_inv st1 (buf_blk_list b2 @ rest)"
    using st1(3) by (subst blk_inv_perm [of _ "?blks @ buf_blk_list b @ rest"]) simp_all
  moreover have "mset (drop ?n (free_blks st)) + mset ?blks = mset (free_blks st)"
    by (metis append_take_drop_id mset_append union_commute)
  ultimately show ?thesis
    using mset b(3,4) st1(2,4) list b2(4)
    by (simp add: custody_def owns_def pkt_ref_def b2(2) blk_frame_def) (metis add.assoc)
qed
lemma custody_owns: "custody p rest S st \<Longrightarrow> owns p rest S st"
  by (simp add: custody_def)

lemma resize_keeps [custody]:
  assumes "resize p sz st = Some (NET_ERR_OK, st')" "custody p rest S st"
    and b: "buf_heap st p = Some b" and le: "buf_capacity b \<le> sz"
  shows "custody p rest S st'"
proof -
  consider (same) "sz = buf_capacity b" | (empty) "sz \<noteq> buf_capacity b" "buf_capacity b = 0"
    | (grow) "buf_capacity b \<noteq> 0" "buf_capacity b < sz" using le by force
  then show ?thesis
  proof cases
    case empty
    with assms(1) b have "buf_alloc p sz False False st = Some (True, st')"
      by (auto simp: resize_def bind_eq_Some_conv split: if_splits)
    then show ?thesis using custody_owns [OF assms(2)] by (rule buf_alloc_keeps)
  next
    case grow
    then have run: "resize_grow p sz st = Some (NET_ERR_OK, st')"
      using assms(1) b by (simp add: resize_def split: if_splits)
    let ?t = "last (buf_blk_list b)"
    from run b obtain tb where t: "buf_blk_list b \<noteq> []" "blk_heap st ?t = Some tb"
      by (auto simp: resize_grow_def bind_eq_Some_conv Let_def split: if_splits)
    then have pl: "length (blk_payload tb) = unat (cfg_blk_size st)"
      by (intro owns_payload [OF custody_owns [OF assms(2)] b, of ?t]) simp_all
    have mid: "custody p rest S (put_buf p (b\<lparr>buf_capacity := c\<rparr>) (put_blk ?t (tb\<lparr>blk_size := n\<rparr>) st))" for c n
      using custody_put_buf [OF custody_put_blk [OF assms(2), of "tb\<lparr>blk_size := n\<rparr>" ?t]] pl b by simp
    show ?thesis
    proof (cases "ucast sz \<le> blk_get_last_size (cfg_blk_size st) tb")
      case True
      then show ?thesis using run b t mid by (auto simp: resize_grow_def Let_def)
    next
      case False
      then obtain c n m where "buf_alloc p m False False
          (put_buf p (b\<lparr>buf_capacity := c\<rparr>) (put_blk ?t (tb\<lparr>blk_size := n\<rparr>) st)) = Some (True, st')"
        using run b t by (auto simp: resize_grow_def Let_def bind_eq_Some_conv split: if_splits)
      then show ?thesis using custody_owns [OF mid] by (rule buf_alloc_keeps)
    qed
  qed (use assms(1,2) b in \<open>simp add: resize_def\<close>)
qed

lemma alloc_header_keeps [custody]:
  assumes "alloc_header p sz True st = Some (NET_ERR_OK, st')" "custody p rest S st" shows "custody p rest S st'"
proof -
  from assms(1) obtain b a l fb where b: "buf_heap st p = Some b" "buf_blk_list b = a # l" "blk_heap st a = Some fb"
    by (cases "buf_heap st p") (auto simp: alloc_header_def bind_eq_Some_conv Let_def split: list.splits)
  then have pl: "length (blk_payload fb) = unat (cfg_blk_size st)"
    by (intro owns_payload [OF custody_owns [OF assms(2)] b(1), of a]) simp_all
  show ?thesis
  proof (cases "unat sz \<le> blk_data fb")
    case True
    have "custody p rest S (put_buf p (b\<lparr>buf_capacity := c\<rparr>) (put_blk a fb' st))"
      if "blk_payload fb' = blk_payload fb" for c fb'
      using custody_put_buf [OF custody_put_blk [OF assms(2), of fb' a]] pl b that by simp
    then show ?thesis using assms(1) b True
      by (auto simp: alloc_header_def bind_eq_Some_conv Let_def blk_set_data_def split: if_splits)
  next
    case False
    from assms(2) b have own: "blk_inv st (a # l @ rest)" "mset (free_blks st) + mset (a # l) = S"
      "buf_ref b = 1" "0 < unat (cfg_blk_size st)" by (auto simp: custody_def owns_def pkt_ref_def)
    have "free_blks st \<noteq> []"
      using assms(1) b False get_pktblock_empty [OF own(1)]
      by (auto simp: alloc_header_def Let_def split: if_splits)
    then obtain x fs where free: "free_blks st = x # fs" by (cases "free_blks st") auto
    from get_pktblock_cons [OF own(1) free] obtain st1 nb where st1: "get_pktblock st = Some (x, st1)" "x \<noteq> nullptr"
      "free_blks st1 = fs" "blk_inv st1 (x # a # l @ rest)" "blk_heap st1 x = Some nb"
      "length (blk_payload nb) = unat (cfg_blk_size st)" "blk_frame (- {x}) st st1" by blast
    have cfg: "cfg_blk_size st1 = cfg_blk_size st" using st1(7) by (simp add: blk_frame_def)
    from assms(1) b False st1(1,2,5) obtain nb' b' where
      st': "st' = put_buf p b' (put_blk x nb' st1)" "blk_payload nb' = blk_payload nb"
      "buf_blk_list b' = x # a # l" "buf_ref b' = buf_ref b"
      by (auto simp: alloc_header_def bind_eq_Some_conv Let_def blk_set_data_def split: if_splits)
    have "blk_inv (put_blk x nb' st1) (x # a # l @ rest)"
      using st1(4,6) st'(2) cfg by (intro blk_inv_put_blk) simp_all
    then show ?thesis
      using st'(3,4) own(2-4) free st1(3) cfg
      by (auto simp: st'(1) custody_def owns_def pkt_ref_def)
  qed
qed

lemma pad_payload_keeps [custody]:
  assumes "pad_payload p st = Some (NET_ERR_OK, st')" "custody p rest S st" shows "custody p rest S st'"
proof -
  from assms(1) obtain b where b: "buf_heap st p = Some b" by (auto simp: pad_payload_def bind_eq_Some_conv)
  show ?thesis
  proof (cases "buf_capacity b < of_nat ETHER_DATA_MIN")
    case True
    with assms(1) b obtain err st1 st2 st3 e3 e4 n where
      s: "resize p (of_nat ETHER_DATA_MIN) st = Some (err, st1)" "\<not> is_err err" "reset_access p st1 = Some st2"
      "pkt_seek p (buf_capacity b) st2 = Some (e3, st3)" "pkt_fill p 0 n st3 = Some (e4, st')"
      by (auto simp: pad_payload_def bind_eq_Some_conv Let_def split: if_splits)
    have "err = NET_ERR_OK" using s(2) by simp
    then have "custody p rest S st1" using resize_keeps [of p _ st st1] s(1) assms(2) b True by simp
    then show ?thesis using s(3-5) by (blast intro: custody)
  qed (use assms b in \<open>simp add: pad_payload_def\<close>)
qed

lemma build_frame_keeps [custody]:
  assumes "build_frame ord protocol dest n p st = Some (NET_ERR_OK, st')" "custody p rest S st"
  shows "custody p rest S st'"
proof -
  from assms(1) obtain err st1 where s1: "pad_payload p st = Some (err, st1)" "\<not> is_err err"
    by (auto simp: build_frame_def bind_eq_Some_conv split: if_splits)
  with assms(1) obtain err2 ptr fs sz st2 where s2: "alloc_header p sz True st1 = Some (err2, st2)"
    "\<not> is_err err2" "write_fields ptr fs st2 = Some st'"
    by (auto simp: build_frame_def bind_eq_Some_conv simp del: write_fields.simps split: if_splits)
  have "err = NET_ERR_OK" "err2 = NET_ERR_OK" using s1(2) s2(2) by simp_all
  with s1(1) s2 assms(2) show ?thesis by (blast intro: custody)
qed

subsection \<open>Rounds\<close>

text \<open>A request for every address of the list, each followed by a round of the send thread.\<close>

fun request_all :: "byte_order \<Rightarrow> addr \<Rightarrow> ipaddr list \<Rightarrow> 'f net \<Rightarrow> (u8 list option list \<times> 'f net) option" where
  "request_all ord nif [] net = Some ([], net)"
| "request_all ord nif (dest # dests) net = do {
     (_, net1) \<leftarrow> make_arp_request ord nif dest net;
     (frame, net2) \<leftarrow> send_step nif net1;
     (frames, net3) \<leftarrow> request_all ord nif dests net2;
     Some (frame # frames, net3)
   }"

text \<open>
  Between rounds: the queue for sending is empty, one packet and three blocks are free, and \<open>live\<close> are
  the packets that are in no pool.
\<close>

definition sending :: "addr \<Rightarrow> netif \<Rightarrow> addr list \<Rightarrow> 'f net \<Rightarrow> bool" where
  "sending nif n live net \<longleftrightarrow> net_ifs net nif = Some n
     \<and> rq_inv (if_out_q n) \<and> rq_list (if_out_q n) = [] \<and> 0 < rq_room (if_out_q n)
     \<and> 6 \<le> length (hw_addr (if_hwaddr n)) \<and> take 6 (hw_addr (if_hwaddr n)) \<noteq> ether_broadcast_addr
     \<and> 4 \<le> length (a_addr (if_ipaddr n))
     \<and> pkts_inv (net_store net) live [] \<and> bufs_inv (net_store net) live
     \<and> free_bufs (net_store net) \<noteq> [] \<and> 3 \<le> length (free_blks (net_store net))
     \<and> 46 \<le> unat (cfg_blk_size (net_store net))"

text \<open>The request leaves one well-formed packet, which holds all the blocks that left the pool.\<close>

lemma request_custody:
  assumes inv: "pkts_inv st live []" "bufs_inv st live" and pool: "free_bufs st = p # ps"
    and cfg: "0 < unat (cfg_blk_size st)"
    and sta: "get_pktbuffer st = Some (p, sta)" "buf_alloc p 28 True False sta = Some (True, stb)"
    and st1: "buf_heap st1 = buf_heap stb" "free_blks st1 = free_blks stb" "pkt_inv st1 p (blks_of_all st live)"
      "pkt_frame p (blks_of_all st live) sta st1"
    and st2: "build_frame ord protocol dest n p st1 = Some (NET_ERR_OK, st2)" "pkt_inv st2 p (blks_of_all st live)"
      "pkt_frame p (blks_of_all st live) st1 st2"
  shows "pkts_inv st2 (p # live) []" "bufs_inv st2 (p # live)" "free_bufs st2 = ps"
    "mset (free_blks st2) + mset (blks_of st2 p) = mset (free_blks st)"
    "\<forall>q \<in> set live. pkt_bytes st2 q = pkt_bytes st q" "cfg_blk_size st2 = cfg_blk_size st"
proof -
  let ?rest = "blks_of_all st live" and ?S = "mset (free_blks st)"
  obtain sta' b where "get_pktbuffer st = Some (p, sta')" and a': "free_bufs sta' = ps" "bufs_inv sta' (p # live)"
    "buf_blk_list b = []" "buf_heap sta' = (buf_heap st)(p \<mapsto> buf_reset b)" "blk_heap sta' = blk_heap st"
    "blk_pool sta' = blk_pool st" "cfg_blk_size sta' = cfg_blk_size st"
    by (rule get_pktbuffer_cons [OF inv(2) pool])
  then have "sta' = sta" using sta(1) by simp
  note a = a' [unfolded this]
  have own: "blk_inv st ?rest" using inv(1) by (simp add: pkts_inv_def)
  have "owns p ?rest ?S sta"
    using own a(3-7) cfg blk_inv_cong [OF a(5-7)] by (simp add: owns_def buf_reset_def free_blks_def)
  note b = buf_alloc_keeps [OF sta(2) this]
  have fr: "pkt_frame p ?rest sta st2" using st1(4) st2(3) by (rule pkt_frame_trans)
  then show cfg2: "cfg_blk_size st2 = cfg_blk_size st" using a(7) by (simp add: pkt_frame_def)
  have "0 < unat (cfg_blk_size st1)" using st1(4) a(7) cfg by (simp add: pkt_frame_def)
  then have "custody p ?rest ?S st1"
    using b st1(1-3) by (auto simp: custody_def owns_def pkt_ref_def pkt_inv_def)
  note c = build_frame_keeps [OF st2(1) this]
  from c show "mset (free_blks st2) + mset (blks_of st2 p) = ?S"
    by (auto simp: custody_def owns_def blks_of_def)
  show "bufs_inv st2 (p # live)" "free_bufs st2 = ps" using bufs_inv_frame [OF fr a(2)] a(1) by simp_all
  have "p \<notin> set live" using a(2) by (simp add: bufs_inv_def)
  from pkts_inv_new [OF inv(1) this, of st2] st2(2) c fr a(4,5) cfg2
  show "pkts_inv st2 (p # live) []" "\<forall>q \<in> set live. pkt_bytes st2 q = pkt_bytes st q"
    by (simp_all add: custody_def pkt_frame_def)
qed

lemma request_round:
  assumes s: "sending nif n live net" and dest: "4 \<le> length (a_addr dest)"
  shows "\<exists>net1 net2 q. make_arp_request ord nif dest net = Some (NET_ERR_OK, net1)
     \<and> send_step nif net1 = Some (Some (arp_request_frame n dest), net2)
     \<and> sending nif (n\<lparr>if_out_q := q\<rparr>) live net2
     \<and> mset (free_blks (net_store net2)) = mset (free_blks (net_store net))
     \<and> mset (free_bufs (net_store net2)) = mset (free_bufs (net_store net))
     \<and> (\<forall>k \<in> set live. pkt_bytes (net_store net2) k = pkt_bytes (net_store net) k)
     \<and> net_stack net2 = net_stack net"
proof -
  let ?st = "net_store net"
  note i = s [unfolded sending_def]
  from i obtain p ps where pool: "free_bufs ?st = p # ps" by (cases "free_bufs ?st") auto
  have "blk_inv ?st (blks_of_all ?st live)" "length (rq_list (if_out_q n)) < rq_room (if_out_q n)"
    using i by (simp_all add: pkts_inv_def)
  with make_arp_request_run [of net nif n live p ps "blks_of_all ?st live" dest ord] i pool dest obtain sta stb st1 st2 q where
    r: "get_pktbuffer ?st = Some (p, sta)" "buf_alloc p 28 True False sta = Some (True, stb)"
      "buf_heap st1 = buf_heap stb" "free_blks st1 = free_blks stb" "pkt_inv st1 p (blks_of_all ?st live)"
      "pkt_frame p (blks_of_all ?st live) sta st1"
      "build_frame ord NET_PROTOCOL_ARP ether_broadcast_addr n p st1 = Some (NET_ERR_OK, st2)"
      "pkt_inv st2 p (blks_of_all ?st live)" "pkt_frame p (blks_of_all ?st live) st1 st2"
    and q: "pkt_bytes st2 p = arp_request_frame n dest"
      "rq_inv q" "rq_list q = [p]" "rq_room q = rq_room (if_out_q n)"
      "make_arp_request ord nif dest net
       = Some (NET_ERR_OK, net\<lparr>net_store := st2, net_ifs := (net_ifs net)(nif \<mapsto> n\<lparr>if_out_q := q\<rparr>)\<rparr>)"
    by (auto simp del: fun_upd_apply)
  have "0 < unat (cfg_blk_size ?st)" "pkts_inv ?st live []" "bufs_inv ?st live" using i by auto
  note k = request_custody [OF this(2,3) pool this(1) r]
  let ?net = "net\<lparr>net_store := st2, net_ifs := (net_ifs net)(nif \<mapsto> n\<lparr>if_out_q := q\<rparr>)\<rparr>"
  have len: "length (arp_request_frame n dest) = 60" using i dest by (simp add: arp_request_frame_def)
  then have "pkt_bytes st2 p \<noteq> []" "net_ifs ?net nif = Some (n\<lparr>if_out_q := q\<rparr>)" using q(1) by auto
  with send_step_run [of ?net nif "n\<lparr>if_out_q := q\<rparr>" p "[]" st2 live "[]" live] q len k(1,2) obtain q' st' where
    t: "send_step nif ?net = Some (Some (arp_request_frame n dest),
        ?net\<lparr>net_ifs := (net_ifs ?net)(nif \<mapsto> n\<lparr>if_out_q := q, if_out_q := q'\<rparr>), net_store := st'\<rparr>)"
      "cfg_blk_size st' = cfg_blk_size st2" "rq_inv q'" "rq_room q' = rq_room q" "rq_list q' = []"
      "free_bufs st' = free_bufs st2 @ [p]" "free_blks st' = free_blks st2 @ blks_of st2 p"
      "pkts_inv st' live []" "bufs_inv st' live" "\<forall>q \<in> set live. pkt_bytes st' q = pkt_bytes st2 q"
    by (auto simp del: fun_upd_apply)
  have free: "mset (free_blks st') = mset (free_blks ?st)" "mset (free_bufs st') = mset (free_bufs ?st)"
    using t(6,7) k(3,4) pool by simp_all
  have "length (free_blks st') = length (free_blks ?st)" "free_bufs st' \<noteq> []"
    using mset_eq_length [OF free(1)] t(6) by simp_all
  then show ?thesis using q(4,5) t k(5,6) free i
    by (intro exI [of _ ?net] exI [of _ q']
        exI [of _ "?net\<lparr>net_ifs := (net_ifs ?net)(nif \<mapsto> n\<lparr>if_out_q := q, if_out_q := q'\<rparr>), net_store := st'\<rparr>"])
      (simp add: sending_def)
qed

text \<open>All the rounds.\<close>

lemma request_all_run:
  assumes "sending nif n live net" "\<forall>dest \<in> set dests. 4 \<le> length (a_addr dest)"
  shows "\<exists>net' n'. request_all ord nif dests net = Some (map (\<lambda>dest. Some (arp_request_frame n dest)) dests, net')
     \<and> sending nif n' live net'
     \<and> mset (free_blks (net_store net')) = mset (free_blks (net_store net))
     \<and> mset (free_bufs (net_store net')) = mset (free_bufs (net_store net))
     \<and> (\<forall>k \<in> set live. pkt_bytes (net_store net') k = pkt_bytes (net_store net) k)
     \<and> net_stack net' = net_stack net"
  using assms
proof (induction dests arbitrary: n net)
  case (Cons dest dests)
  from request_round [OF Cons.prems(1), of dest ord] Cons.prems(2) obtain net1 net2 q where
    r: "make_arp_request ord nif dest net = Some (NET_ERR_OK, net1)"
      "send_step nif net1 = Some (Some (arp_request_frame n dest), net2)" "sending nif (n\<lparr>if_out_q := q\<rparr>) live net2"
      "mset (free_blks (net_store net2)) = mset (free_blks (net_store net))"
      "mset (free_bufs (net_store net2)) = mset (free_bufs (net_store net))"
      "\<forall>k \<in> set live. pkt_bytes (net_store net2) k = pkt_bytes (net_store net) k" "net_stack net2 = net_stack net"
    by auto
  have same: "arp_request_frame (n\<lparr>if_out_q := q\<rparr>) = arp_request_frame n" by (simp add: fun_eq_iff arp_request_frame_def)
  from Cons.IH [OF r(3)] Cons.prems(2) r same show ?case by auto
qed auto

text \<open>
  C2. Sending never runs out: from a state with one free packet and three free blocks, every address of a
  list of any length can be asked for in turn. Each request is injected as its own 60-byte frame, in order;
  afterwards the pools hold what they held before, in some order, the queue is empty, the packets of
  others have their bytes, and the messages of the working thread are untouched.
\<close>

theorem requests_reach_the_wire:
  assumes "sending nif n live net" "\<forall>dest \<in> set dests. 4 \<le> length (a_addr dest)"
  shows "\<exists>net' n'. request_all ord nif dests net = Some (map (\<lambda>dest. Some (arp_request_frame n dest)) dests, net')
     \<and> sending nif n' live net'
     \<and> mset (free_blks (net_store net')) = mset (free_blks (net_store net))
     \<and> mset (free_bufs (net_store net')) = mset (free_bufs (net_store net))
     \<and> (\<forall>k \<in> set live. pkt_bytes (net_store net') k = pkt_bytes (net_store net) k)
     \<and> net_stack net' = net_stack net"
  using request_all_run [OF assms] .

theorem requests_reach_the_wire_witness:
  "\<exists>net'. request_all Little_endian 5 (replicate 1000 \<lparr>ip_type = IPADDR_V4, a_addr = [192, 168, 1, 1]\<rparr>)
       (demo_net Ether_net NETIF_TYPE_ETHER) = Some (replicate 1000 (Some ([255, 255, 255, 255, 255, 255]
         @ [2, 4, 6, 8, 10, 12, 8, 6, 0, 1, 8, 0, 6, 4, 0, 1, 2, 4, 6, 8, 10, 12, 192, 168, 1, 20]
         @ [0, 0, 0, 0, 0, 0, 192, 168, 1, 1] @ replicate 18 0)), net')
     \<and> free_bufs (net_store net') = [328]"
proof -
  let ?n = "demo_netif Ether_net NETIF_TYPE_ETHER" and ?net = "demo_net Ether_net NETIF_TYPE_ETHER"
  let ?dest = "\<lparr>ip_type = IPADDR_V4, a_addr = [192, 168, 1, 1]\<rparr>"
  have net: "net_ifs ?net 5 = Some ?n" "net_store ?net = demo_blank" by (simp_all add: demo_net_def)
  have hw: "6 \<le> length (hw_addr (if_hwaddr ?n))" "take 6 (hw_addr (if_hwaddr ?n)) = [2, 4, 6, 8, 10, 12]"
    "a_addr (if_ipaddr ?n) = [192, 168, 1, 20]" by (simp_all add: demo_netif_def)
  then have "take 6 (hw_addr (if_hwaddr ?n)) \<noteq> ether_broadcast_addr" by (simp add: ether_broadcast_addr_def)
  with hw net demo_blank demo_netif_queues(1-3) [of Ether_net NETIF_TYPE_ETHER]
  have "sending 5 ?n [] ?net" by (simp add: sending_def pkts_inv_def)
  moreover have "arp_request_frame ?n ?dest = [255, 255, 255, 255, 255, 255]
      @ [2, 4, 6, 8, 10, 12, 8, 6, 0, 1, 8, 0, 6, 4, 0, 1, 2, 4, 6, 8, 10, 12, 192, 168, 1, 20]
      @ [0, 0, 0, 0, 0, 0, 192, 168, 1, 1] @ replicate 18 0"
    unfolding arp_request_frame_def hw(2,3) by (simp add: eval_nat_numeral)
  ultimately show ?thesis
    using requests_reach_the_wire [of 5 ?n "[]" ?net "replicate 1000 ?dest" Little_endian] demo_blank(4) net(2)
    by auto
qed

end
