(* ===== verification/NetLife.thy ===== *)
theory NetLife
  imports NetDrain
begin

text \<open>
  The life of the interfaces of a network: opening, activating, deactivating and closing them in any
  order, as a step relation with its invariant.
\<close>

subsection \<open>What the operations keep\<close>

text \<open>A step that leaves every interface its type and state.\<close>

definition keeps_ifs :: "'f net \<Rightarrow> 'f net \<Rightarrow> bool" where
  "keeps_ifs net net' \<longleftrightarrow> (\<forall>a. map_option (\<lambda>n. (if_type n, if_state n)) (net_ifs net' a)
     = map_option (\<lambda>n. (if_type n, if_state n)) (net_ifs net a))"

lemma keeps_ifs_refl [simp]: "keeps_ifs net net"
  by (simp add: keeps_ifs_def)

lemma keeps_ifs_trans: "keeps_ifs net net1 \<Longrightarrow> keeps_ifs net1 net2 \<Longrightarrow> keeps_ifs net net2"
  by (simp add: keeps_ifs_def)

lemma on_store0_ifs: "on_store0 f net = Some net' \<Longrightarrow> net_ifs net' = net_ifs net"
  by (auto simp: on_store0_def bind_eq_Some_conv)

lemma keeps_ifs_pop:
  assumes "net_ifs net a = Some n" "if_type n' = if_type n" "if_state n' = if_state n"
    "on_store0 f (put_netif a n' net) = Some net1"
  shows "keeps_ifs net net1"
  using assms on_store0_ifs [OF assms(4)] by (auto simp: keeps_ifs_def put_netif_def)

lemma clear_in_loop_keeps:
  assumes "clear_in_loop a x net = Some net'" shows "keeps_ifs net net'"
  using assms
proof (induction a x net net' rule: clear_in_loop.raw_induct [rotated, consumes 1, case_names step])
  case (step rec a x net net')
  from step(2) obtain n where n: "net_ifs net a = Some n" by (auto simp: bind_eq_Some_conv)
  show ?case
  proof (cases "is_empty (if_in_q n)")
    case False
    with step(2) n obtain r q buf net1 where
      s: "on_store0 (buf_free buf) (put_netif a (n\<lparr>if_in_q := q\<rparr>) net) = Some net1" "rec a r net1 = Some net'"
      by (auto simp: bind_eq_Some_conv Let_def)
    from keeps_ifs_pop [OF n _ _ s(1)] step(1) [OF s(2)] show ?thesis by (auto intro: keeps_ifs_trans)
  qed (use step(2) n in simp)
qed

lemma clear_out_loop_keeps:
  assumes "clear_out_loop a x net = Some net'" shows "keeps_ifs net net'"
  using assms
proof (induction a x net net' rule: clear_out_loop.raw_induct [rotated, consumes 1, case_names step])
  case (step rec a x net net')
  from step(2) obtain n where n: "net_ifs net a = Some n" by (auto simp: bind_eq_Some_conv)
  show ?case
  proof (cases "is_empty (if_out_q n)")
    case False
    with step(2) n obtain r q buf net1 where
      s: "on_store0 (buf_free buf) (put_netif a (n\<lparr>if_out_q := q\<rparr>) net) = Some net1" "rec a r net1 = Some net'"
      by (auto simp: bind_eq_Some_conv Let_def)
    from keeps_ifs_pop [OF n _ _ s(1)] step(1) [OF s(2)] show ?thesis by (auto intro: keeps_ifs_trans)
  qed (use step(2) n in simp)
qed

subsection \<open>Steps\<close>

text \<open>
  The calls a program makes: opening an interface with a fresh object, and the calls on the pointers and
  iterators it got. \<open>dev_open\<close> and the queue sizes are those of the run.
\<close>

datatype life_event = Ev_open addr string ops_data addr | Ev_active addr net_err | Ev_deactive addr net_err
  | Ev_close nat net_err

inductive life_step :: "(string option \<Rightarrow> u8 list \<Rightarrow> nat option) \<Rightarrow> u32 \<Rightarrow> u32
    \<Rightarrow> 'f network \<Rightarrow> life_event \<Rightarrow> 'f network \<Rightarrow> bool" for dev_open in_size out_size where
  open_step: "a \<noteq> nullptr \<Longrightarrow> net_ifs (nw_net nw) a = None \<Longrightarrow>
     netif_open dev_open in_size out_size a name ops nw = Some (r, nw') \<Longrightarrow>
     life_step dev_open in_size out_size nw (Ev_open a name ops r) nw'"
| active_step: "set_active a nw = Some (err, nw') \<Longrightarrow> a \<in> set (nw_netifs nw) \<Longrightarrow>
     life_step dev_open in_size out_size nw (Ev_active a err) nw'"
| deactive_step: "set_deactive a nw = Some (err, nw') \<Longrightarrow> life_step dev_open in_size out_size nw (Ev_deactive a err) nw'"
| close_step: "netif_close it nw = Some (err, nw') \<Longrightarrow> life_step dev_open in_size out_size nw (Ev_close it err) nw'"

inductive life_run :: "(string option \<Rightarrow> u8 list \<Rightarrow> nat option) \<Rightarrow> u32 \<Rightarrow> u32
    \<Rightarrow> 'f network \<Rightarrow> life_event list \<Rightarrow> 'f network \<Rightarrow> bool" for dev_open in_size out_size where
  life_nil: "life_run dev_open in_size out_size nw [] nw"
| life_snoc: "life_run dev_open in_size out_size nw evs nw1 \<Longrightarrow> life_step dev_open in_size out_size nw1 ev nw2 \<Longrightarrow>
     life_run dev_open in_size out_size nw (evs @ [ev]) nw2"

inductive_cases life_stepE: "life_step dev_open in_size out_size nw ev nw'"

text \<open>
  The open interfaces are distinct objects that are not closed, only they are active, and the default
  interface is an active one that is not the loopback interface.
\<close>

definition life_inv :: "'f network \<Rightarrow> bool" where
  "life_inv nw \<longleftrightarrow> distinct (nw_netifs nw) \<and> nullptr \<notin> set (nw_netifs nw)
     \<and> (\<forall>a \<in> set (nw_netifs nw). \<exists>n. net_ifs (nw_net nw) a = Some n \<and> if_state n \<noteq> NETIF_CLOSED)
     \<and> (\<forall>a n. net_ifs (nw_net nw) a = Some n \<and> if_state n = NETIF_ACTIVE \<longrightarrow> a \<in> set (nw_netifs nw))
     \<and> (nw_default nw \<noteq> nullptr \<longrightarrow>
          (\<exists>n. net_ifs (nw_net nw) (nw_default nw) = Some n \<and> if_state n = NETIF_ACTIVE \<and> if_type n \<noteq> NETIF_TYPE_LOOP))"

text \<open>Activation of an object that is, or is about to be, in the list.\<close>

lemma set_active_run:
  assumes n: "net_ifs (nw_net nw) a = Some n" and r: "set_active a nw = Some (err, nw')"
  shows "if if_state n = NETIF_OPENED
     then err = NET_ERR_OK \<and> nw_netifs nw' = nw_netifs nw \<and> nw_registry nw' = nw_registry nw
       \<and> net_ifs (nw_net nw') = (net_ifs (nw_net nw))(a \<mapsto> n\<lparr>if_state := NETIF_ACTIVE\<rparr>)
       \<and> nw_default nw' = (if nw_default nw = nullptr \<and> if_type n \<noteq> NETIF_TYPE_LOOP then a else nw_default nw)
     else err = NET_ERR_STATE \<and> nw' = nw"
  using n r by (auto simp: set_active_def link_open_def upd_netif_def put_netif_def Let_def is_err_def split: if_splits)

lemma netif_open_dev_run:
  assumes "netif_new cls in_size out_size name ops = Some n" "netif_open_dev dev_open n = Some (err, n1)"
  shows "err = NET_ERR_OK \<and> if_state n1 = NETIF_OPENED \<and> if_class n1 = cls
     \<and> if_type n1 = (case cls of Loop_net \<Rightarrow> NETIF_TYPE_LOOP | Ether_net \<Rightarrow> NETIF_TYPE_ETHER)"
  using assms
  by (auto simp: netif_new_def netif_open_dev_def loop_open_def ether_open_def set_name_def bind_eq_Some_conv
      split: sum.splits netif_class.splits ops_data.splits)

text \<open>A successful \<open>netif_open\<close>: the object at \<open>a\<close> is new.\<close>

lemma netif_open_run:
  assumes new: "net_ifs (nw_net nw) a = None" "a \<noteq> nullptr"
    and run: "netif_open dev_open in_size out_size a name ops nw = Some (r, nw')"
  shows "if nw_registry nw name = None then r = nullptr \<and> nw' = nw
     else r = a \<and> nw_netifs nw' = nw_netifs nw @ [a] \<and> nw_registry nw' = nw_registry nw
       \<and> (\<exists>n. net_ifs (nw_net nw') = (net_ifs (nw_net nw))(a \<mapsto> n) \<and> if_state n = NETIF_ACTIVE
            \<and> Some (if_class n) = nw_registry nw name
            \<and> if_type n = (case if_class n of Loop_net \<Rightarrow> NETIF_TYPE_LOOP | Ether_net \<Rightarrow> NETIF_TYPE_ETHER)
            \<and> nw_default nw' = (if nw_default nw = nullptr \<and> if_class n = Ether_net then a else nw_default nw))"
proof (cases "nw_registry nw name")
  case None
  then show ?thesis using run by (simp add: netif_open_def)
next
  case (Some cls)
  with run obtain n err n1 where o: "netif_new cls in_size out_size name ops = Some n"
    "netif_open_dev dev_open n = Some (err, n1)" by (auto simp: netif_open_def bind_eq_Some_conv)
  note n1 = netif_open_dev_run [OF o]
  define nw0 where "nw0 = upd_netif a n1 nw"
  from run Some o n1 obtain e nw1 where act: "set_active a nw0 = Some (e, nw1)"
    "r = a" "nw' = nw1\<lparr>nw_netifs := nw_netifs nw1 @ [a]\<rparr>"
    by (auto simp: netif_open_def is_err_def bind_eq_Some_conv nw0_def)
  have "net_ifs (nw_net nw0) a = Some n1" by (simp add: nw0_def upd_netif_def put_netif_def)
  from set_active_run [OF this act(1)] n1 Some act show ?thesis
    by (cases cls) (auto simp: nw0_def upd_netif_def put_netif_def intro!: exI [of _ "n1\<lparr>if_state := NETIF_ACTIVE\<rparr>"])
qed

lemma set_deactive_run:
  assumes "set_deactive a nw = Some (err, nw')"
  shows "(err = NET_ERR_STATE \<and> nw' = nw)
     \<or> (err = NET_ERR_OK \<and> nw_netifs nw' = nw_netifs nw
        \<and> nw_default nw' = (if a = nw_default nw then nullptr else nw_default nw)
        \<and> (\<exists>n. net_ifs (nw_net nw) a = Some n \<and> if_state n = NETIF_ACTIVE)
        \<and> (\<exists>n'. net_ifs (nw_net nw') a = Some n' \<and> if_state n' = NETIF_OPENED)
        \<and> (\<forall>b. b \<noteq> a \<longrightarrow> map_option (\<lambda>n. (if_type n, if_state n)) (net_ifs (nw_net nw') b)
             = map_option (\<lambda>n. (if_type n, if_state n)) (net_ifs (nw_net nw) b)))"
proof -
  obtain n where n: "net_ifs (nw_net nw) a = Some n" using assms by (auto simp: set_deactive_def bind_eq_Some_conv)
  show ?thesis
  proof (cases "if_state n = NETIF_ACTIVE")
    case False
    then show ?thesis using assms n by (simp add: set_deactive_def)
  next
    case True
    have "upd_netif a n nw = nw" using n by (simp add: upd_netif_def put_netif_def map_upd_triv)
    with assms n True have r: "do {
        nw1 \<leftarrow> on_net0 (clear_in_queue a) nw;
        nw2 \<leftarrow> on_net0 (clear_out_queue a) nw1;
        let nw3 = (if a = nw_default nw2 then nw2\<lparr>nw_default := nullptr\<rparr> else nw2);
        n3 \<leftarrow> net_ifs (nw_net nw3) a;
        Some (NET_ERR_OK, upd_netif a (n3\<lparr>if_state := NETIF_OPENED\<rparr>) nw3)
      } = Some (err, nw')" by (simp add: set_deactive_def link_close_def)
    then obtain net1 net2 where
      c: "clear_in_loop a None (nw_net nw) = Some net1" "clear_out_loop a None net1 = Some net2"
      by (auto simp: on_net0_def clear_in_queue_def clear_out_queue_def bind_eq_Some_conv)
    with r obtain n3 where d: "net_ifs net2 a = Some n3" "err = NET_ERR_OK"
      "nw_netifs nw' = nw_netifs nw" "nw_default nw' = (if a = nw_default nw then nullptr else nw_default nw)"
      "nw_net nw' = put_netif a (n3\<lparr>if_state := NETIF_OPENED\<rparr>) net2"
      by (cases "a = nw_default nw")
         (auto simp: on_net0_def clear_in_queue_def clear_out_queue_def bind_eq_Some_conv Let_def upd_netif_def)
    have "keeps_ifs (nw_net nw) net2"
      using clear_in_loop_keeps [OF c(1)] clear_out_loop_keeps [OF c(2)] by (rule keeps_ifs_trans)
    then show ?thesis using d n True by (simp add: keeps_ifs_def put_netif_def)
  qed
qed

lemma netif_close_run:
  assumes "netif_close it nw = Some (err, nw')"
  shows "\<exists>a n. it < length (nw_netifs nw) \<and> nw_netifs nw ! it = a \<and> net_ifs (nw_net nw) a = Some n
     \<and> (if if_state n = NETIF_ACTIVE then err = NET_ERR_STATE \<and> nw' = nw
        else err = NET_ERR_OK \<and> nw_netifs nw' = take it (nw_netifs nw) @ drop (Suc it) (nw_netifs nw)
          \<and> nw_default nw' = nw_default nw
          \<and> net_ifs (nw_net nw') = (net_ifs (nw_net nw))(a \<mapsto> n\<lparr>if_state := NETIF_CLOSED\<rparr>))"
proof -
  from assms obtain a n where a: "it < length (nw_netifs nw)" "nw_netifs nw ! it = a" "net_ifs (nw_net nw) a = Some n"
    by (auto simp: netif_close_def bind_eq_Some_conv)
  with assms show ?thesis
    by (cases "if_state n = NETIF_ACTIVE")
       (auto simp: netif_close_def bind_eq_Some_conv upd_netif_def put_netif_def)
qed

text \<open>Every step keeps the invariant.\<close>

lemma life_step_inv:
  assumes "life_step dev_open in_size out_size nw ev nw'" and inv: "life_inv nw"
  shows "life_inv nw'"
  using assms(1)
proof (cases rule: life_step.cases)
  case (open_step a name ops r)
  from netif_open_run [OF open_step(3,2,4)] inv open_step(2,3) show ?thesis
    by (auto simp: life_inv_def split: if_splits netif_class.splits)
next
  case (active_step a err)
  obtain n where n: "net_ifs (nw_net nw) a = Some n" using inv active_step(3) by (auto simp: life_inv_def)
  from set_active_run [OF n active_step(2)] inv active_step(3) n show ?thesis
    by (auto simp: life_inv_def split: if_splits)
next
  case (deactive_step a err)
  from set_deactive_run [OF deactive_step(2)] show ?thesis
  proof
    assume r: "err = NET_ERR_OK \<and> nw_netifs nw' = nw_netifs nw
        \<and> nw_default nw' = (if a = nw_default nw then nullptr else nw_default nw)
        \<and> (\<exists>n. net_ifs (nw_net nw) a = Some n \<and> if_state n = NETIF_ACTIVE)
        \<and> (\<exists>n'. net_ifs (nw_net nw') a = Some n' \<and> if_state n' = NETIF_OPENED)
        \<and> (\<forall>b. b \<noteq> a \<longrightarrow> map_option (\<lambda>n. (if_type n, if_state n)) (net_ifs (nw_net nw') b)
             = map_option (\<lambda>n. (if_type n, if_state n)) (net_ifs (nw_net nw) b))"
    then have same: "\<And>b n'. b \<noteq> a \<Longrightarrow> net_ifs (nw_net nw') b = Some n' \<Longrightarrow>
        \<exists>n. net_ifs (nw_net nw) b = Some n \<and> if_type n = if_type n' \<and> if_state n = if_state n'"
      "\<And>b n. b \<noteq> a \<Longrightarrow> net_ifs (nw_net nw) b = Some n \<Longrightarrow>
        \<exists>n'. net_ifs (nw_net nw') b = Some n' \<and> if_type n = if_type n' \<and> if_state n = if_state n'"
      by (metis (mono_tags, lifting) map_option_eq_Some prod.inject)+
    have "nullptr \<notin> set (nw_netifs nw)" "distinct (nw_netifs nw)"
      and open_ifs: "\<forall>b \<in> set (nw_netifs nw). \<exists>n. net_ifs (nw_net nw) b = Some n \<and> if_state n \<noteq> NETIF_CLOSED"
      and active: "\<And>b n. net_ifs (nw_net nw) b = Some n \<Longrightarrow> if_state n = NETIF_ACTIVE \<Longrightarrow> b \<in> set (nw_netifs nw)"
      and dflt: "nw_default nw \<noteq> nullptr \<Longrightarrow> \<exists>n. net_ifs (nw_net nw) (nw_default nw) = Some n
          \<and> if_state n = NETIF_ACTIVE \<and> if_type n \<noteq> NETIF_TYPE_LOOP"
      using inv by (auto simp: life_inv_def)
    moreover have "\<exists>n. net_ifs (nw_net nw') b = Some n \<and> if_state n \<noteq> NETIF_CLOSED" if "b \<in> set (nw_netifs nw)" for b
      using r open_ifs that same(2) [of b] by (cases "b = a") fastforce+
    moreover have "b \<in> set (nw_netifs nw)" if "net_ifs (nw_net nw') b = Some n" "if_state n = NETIF_ACTIVE" for b n
      using r active same(1) [OF _ that(1)] that by (cases "b = a") auto
    moreover have "\<exists>n. net_ifs (nw_net nw') (nw_default nw') = Some n \<and> if_state n = NETIF_ACTIVE
        \<and> if_type n \<noteq> NETIF_TYPE_LOOP" if "nw_default nw' \<noteq> nullptr"
      using r dflt that same(2) [of "nw_default nw"] by (cases "a = nw_default nw") fastforce+
    ultimately show ?thesis using r by (auto simp: life_inv_def)
  qed (use inv in simp)
next
  case (close_step it err)
  from netif_close_run [OF close_step(2)] obtain a n where
    c: "it < length (nw_netifs nw)" "nw_netifs nw ! it = a" "net_ifs (nw_net nw) a = Some n"
    "if if_state n = NETIF_ACTIVE then err = NET_ERR_STATE \<and> nw' = nw
        else err = NET_ERR_OK \<and> nw_netifs nw' = take it (nw_netifs nw) @ drop (Suc it) (nw_netifs nw)
          \<and> nw_default nw' = nw_default nw
          \<and> net_ifs (nw_net nw') = (net_ifs (nw_net nw))(a \<mapsto> n\<lparr>if_state := NETIF_CLOSED\<rparr>)" by blast
  have split: "nw_netifs nw = take it (nw_netifs nw) @ a # drop (Suc it) (nw_netifs nw)"
    using c(1,2) by (metis id_take_nth_drop)
  define l1 l2 where "l1 = take it (nw_netifs nw)" and "l2 = drop (Suc it) (nw_netifs nw)"
  note split' = split [folded l1_def l2_def]
  show ?thesis
  proof (cases "if_state n = NETIF_ACTIVE")
    case False
    with c(4) have r: "nw_netifs nw' = l1 @ l2" "nw_default nw' = nw_default nw"
      "net_ifs (nw_net nw') = (net_ifs (nw_net nw))(a \<mapsto> n\<lparr>if_state := NETIF_CLOSED\<rparr>)"
      by (simp_all add: l1_def l2_def)
    show ?thesis using inv False c(3) unfolding life_inv_def r split' by auto
  qed (use c(4) inv in simp)
qed

lemma netif_new_fields:
  assumes "in_size \<noteq> 0" "unat in_size \<le> 2 ^ 31" "out_size \<noteq> 0" "unat out_size \<le> 2 ^ 31" "length name \<le> NETIF_NAME_SIZE"
  shows "\<exists>n. netif_new cls in_size out_size name ops = Some n \<and> if_class n = cls \<and> if_ops_data n = ops
     \<and> if_state n = NETIF_OPENED \<and> if_name n = name @ replicate (NETIF_NAME_SIZE - length name) (CHR 0x00)
     \<and> if_hwaddr n = hwaddr_new \<and> if_ipaddr n = ipaddr_new \<and> if_netmask n = ipaddr_new
     \<and> rq_inv (if_in_q n) \<and> rq_list (if_in_q n) = [] \<and> rq_inv (if_out_q n) \<and> rq_list (if_out_q n) = []
     \<and> rq_room (if_in_q n) = unat (rq_round_size in_size) - 1 \<and> rq_room (if_out_q n) = unat (rq_round_size out_size) - 1"
proof -
  obtain inq where inq: "rq_new nullptr in_size = Inr inq" "rq_inv inq" "rq_list inq = []" "rq_size inq = rq_round_size in_size"
    using rq_new_inv [OF assms(1,2), of nullptr] by blast
  obtain outq where outq: "rq_new nullptr out_size = Inr outq" "rq_inv outq" "rq_list outq = []" "rq_size outq = rq_round_size out_size"
    using rq_new_inv [OF assms(3,4), of nullptr] by blast
  show ?thesis using assms(5) inq outq by (simp add: netif_new_def set_name_def bytes_put_def rq_room_def)
qed

lemma set_active_opened:
  assumes "net_ifs (nw_net nw) a = Some n" "if_state n = NETIF_OPENED"
  shows "\<exists>nw'. set_active a nw = Some (NET_ERR_OK, nw')"
  using assms by (auto simp: set_active_def link_open_def is_err_def Let_def)

lemma netif_open_total:
  assumes "nw_registry nw name = Some cls" "netif_new cls in_size out_size name ops = Some n"
    "netif_open_dev dev_open n = Some (NET_ERR_OK, n1)"
  shows "\<exists>nw'. netif_open dev_open in_size out_size a name ops nw = Some (a, nw')
     \<and> net_ifs (nw_net nw') = (net_ifs (nw_net nw))(a \<mapsto> n1\<lparr>if_state := NETIF_ACTIVE\<rparr>)
     \<and> nw_netifs nw' = nw_netifs nw @ [a] \<and> nw_registry nw' = nw_registry nw
     \<and> nw_default nw' = (if nw_default nw = nullptr \<and> if_type n1 \<noteq> NETIF_TYPE_LOOP then a else nw_default nw)"
proof -
  have n1: "net_ifs (nw_net (upd_netif a n1 nw)) a = Some n1" "if_state n1 = NETIF_OPENED"
    using netif_open_dev_run [OF assms(2,3)] by (simp_all add: upd_netif_def put_netif_def)
  from set_active_opened [OF this] obtain nw1 where act: "set_active a (upd_netif a n1 nw) = Some (NET_ERR_OK, nw1)" by blast
  from set_active_run [OF n1(1) act] n1(2) show ?thesis using assms act
    by (auto simp: netif_open_def is_err_def upd_netif_def put_netif_def)
qed

lemma parse_four:
  assumes "length ss = 4" "\<forall>s \<in> set ss. list_all is_digit s"
  shows "parse_addr (dotted ss) (replicate IPV4_ADDR_SIZE 0) 0 0 = Some (True, map (\<lambda>s. of_nat (dec_val s)) ss)"
proof -
  have "ss \<noteq> []" using assms(1) by auto
  from parse_dotted [OF this assms(2), of "replicate 4 0" 0] assms(1) show ?thesis
    by (simp add: IPV4_ADDR_SIZE_def)
qed

lemma loop_open_run:
  "loop_open n = Some (NET_ERR_OK, n\<lparr>if_type := NETIF_TYPE_LOOP,
     if_ipaddr := \<lparr>ip_type = IPADDR_V4, a_addr = [127, 0, 0, 1]\<rparr>,
     if_netmask := \<lparr>ip_type = IPADDR_V4, a_addr = [255, 0, 0, 0]\<rparr>\<rparr>)"
proof -
  have "parse_addr ''127.0.0.1'' (replicate IPV4_ADDR_SIZE 0) 0 0 = Some (True, [127, 0, 0, 1])"
    "parse_addr ''255.0.0.0'' (replicate IPV4_ADDR_SIZE 0) 0 0 = Some (True, [255, 0, 0, 0])"
    using parse_four [of "[''127'', ''0'', ''0'', ''1'']"] parse_four [of "[''255'', ''0'', ''0'', ''0'']"]
    by (simp_all add: is_digit_def dec_val_def)
  then show ?thesis by (simp add: loop_open_def ipaddr_of_str_def ipaddr_from_str_def)
qed

lemma ether_open_run:
  assumes "if_ops_data n = Ops_pcap_data d" "if_hwaddr n = hwaddr_new" "dev_open (pd_ip d) (pd_hwaddr d) = Some pcap"
    "pd_ip d = Some (dotted ss)" "length ss = 4" "\<forall>s \<in> set ss. list_all is_digit s" "6 \<le> length (pd_hwaddr d)"
  shows "\<exists>hw. ether_open dev_open n = Some (NET_ERR_OK, n\<lparr>if_type := NETIF_TYPE_ETHER, if_mtu := 1500,
     if_ipaddr := \<lparr>ip_type = IPADDR_V4, a_addr = map (\<lambda>s. of_nat (dec_val s)) ss\<rparr>, if_hwaddr := hw,
     if_ops_data := Ops_pcap pcap\<rparr>) \<and> take 6 (hw_addr hw) = take 6 (pd_hwaddr d)"
  using assms parse_four [OF assms(5,6)]
  by (intro exI [of _ "\<lparr>hw_addr = take 6 (pd_hwaddr d) @ replicate 26 0, hw_len = 6\<rparr>"])
     (simp add: ether_open_def ipaddr_from_str_def hwaddr_reset_def bytes_get_def bytes_put_def hwaddr_new_def
      NETIF_HWADDR_SIZE_def ETHER_MTU_def)

subsection \<open>Properties\<close>

text \<open>
  C28. Whatever sequence of opening, activating, deactivating and closing interfaces runs on a new network
  (without \<open>set_default\<close>, which takes any pointer): the listed interfaces are distinct and not closed, an active interface is listed, and the default interface,
  if there is one, is active and not the loopback interface.
\<close>

theorem default_netif_is_active:
  assumes "life_run dev_open in_size out_size nw0 evs nw"
    and "nw_netifs nw0 = []" "nw_default nw0 = nullptr" "net_ifs (nw_net nw0) = Map.empty"
  shows "distinct (nw_netifs nw)
     \<and> (\<forall>a \<in> set (nw_netifs nw). \<exists>n. net_ifs (nw_net nw) a = Some n \<and> if_state n \<noteq> NETIF_CLOSED)
     \<and> (\<forall>a n. net_ifs (nw_net nw) a = Some n \<and> if_state n = NETIF_ACTIVE \<longrightarrow> a \<in> set (nw_netifs nw))
     \<and> (nw_default nw \<noteq> nullptr \<longrightarrow> (\<exists>n. net_ifs (nw_net nw) (nw_default nw) = Some n
          \<and> if_state n = NETIF_ACTIVE \<and> if_type n \<noteq> NETIF_TYPE_LOOP))"
proof -
  have "life_inv nw" using assms
  proof (induction rule: life_run.induct)
    case (life_snoc nw evs nw1 ev nw2)
    then show ?case by (blast intro: life_step_inv)
  qed (simp add: life_inv_def)
  then show ?thesis by (simp add: life_inv_def)
qed

text \<open>A network with the two built-in classes and no interfaces yet.\<close>

definition demo_network :: "nat network" where
  "demo_network = register_builtin \<lparr>nw_net = \<lparr>net_store = demo_two, net_stack = demo_stack_room, net_ifs = Map.empty\<rparr>,
     nw_netifs = [], nw_default = nullptr, nw_registry = Map.empty\<rparr>"

lemma demo_network:
  "nw_registry demo_network ''loop'' = Some Loop_net" "nw_registry demo_network ''eth0'' = Some Ether_net"
  "nw_netifs demo_network = []" "nw_default demo_network = nullptr" "net_ifs (nw_net demo_network) = Map.empty"
  by (simp_all add: demo_network_def register_builtin_def register_netif_factory_def)

theorem default_netif_is_active_witness:
  "\<exists>nw. life_run (\<lambda>_ _. None) 64 64 demo_network [Ev_open 5 ''loop'' Ops_null 5] nw
     \<and> nw_netifs nw = [5] \<and> (\<exists>n. net_ifs (nw_net nw) 5 = Some n \<and> if_state n \<noteq> NETIF_CLOSED)
     \<and> distinct (nw_netifs nw)"
proof -
  obtain n where n: "netif_new Loop_net 64 64 ''loop'' Ops_null = Some n" "if_class n = Loop_net"
    using netif_new_fields [of 64 64 "''loop''" Loop_net Ops_null] by (auto simp: NETIF_NAME_SIZE_def)
  have "netif_open_dev (\<lambda>_ _. None) n = loop_open n" by (simp add: netif_open_dev_def n(2))
  from netif_open_total [OF demo_network(1) n(1) this [unfolded loop_open_run], of 5] demo_network(3)
  obtain nw where nw: "netif_open (\<lambda>_ _. None) 64 64 5 ''loop'' Ops_null demo_network = Some (5, nw)"
    "nw_netifs nw = [5]" by auto
  have "life_step (\<lambda>_ _. None) 64 64 demo_network (Ev_open 5 ''loop'' Ops_null 5) nw"
    by (rule open_step [OF _ _ nw(1)]) (simp_all add: demo_network)
  then have run: "life_run (\<lambda>_ _. None) 64 64 demo_network [Ev_open 5 ''loop'' Ops_null 5] nw"
    using life_snoc [OF life_nil] by fastforce
  from default_netif_is_active [OF run demo_network(3-5)] show ?thesis using run nw(2) by auto
qed

text \<open>
  \<open>netif_open\<close> of a registered class with usable queue sizes: the loopback interface becomes active with
  127.0.0.1/255.0.0.0 and is never the default; an Ethernet interface takes the address text and the
  hardware address of its device and becomes the default if there is none, but a device that does not open
  is used through its null handle. An unknown name gives null and changes nothing.
\<close>

theorem netif_open_outcome:
  assumes "in_size \<noteq> 0" "unat in_size \<le> 2 ^ 31" "out_size \<noteq> 0" "unat out_size \<le> 2 ^ 31"
    and "nw_registry nw ''loop'' = Some Loop_net" "nw_registry nw ''eth0'' = Some Ether_net"
    and "pd_ip d = Some (dotted ss)" "length ss = 4" "\<forall>s \<in> set ss. list_all is_digit s" "6 \<le> length (pd_hwaddr d)"
  shows "(\<exists>n nw'. netif_open dev_open in_size out_size a ''loop'' ops nw = Some (a, nw')
       \<and> net_ifs (nw_net nw') = (net_ifs (nw_net nw))(a \<mapsto> n) \<and> nw_netifs nw' = nw_netifs nw @ [a]
       \<and> if_state n = NETIF_ACTIVE \<and> if_type n = NETIF_TYPE_LOOP \<and> nw_default nw' = nw_default nw
       \<and> get_name n = Some ''loop'' \<and> a_addr (if_ipaddr n) = [127, 0, 0, 1] \<and> a_addr (if_netmask n) = [255, 0, 0, 0]
       \<and> rq_list (if_in_q n) = [] \<and> rq_list (if_out_q n) = [])
   \<and> (case dev_open (pd_ip d) (pd_hwaddr d) of
        None \<Rightarrow> netif_open dev_open in_size out_size a ''eth0'' (Ops_pcap_data d) nw = None
      | Some pcap \<Rightarrow> \<exists>n nw'. netif_open dev_open in_size out_size a ''eth0'' (Ops_pcap_data d) nw = Some (a, nw')
          \<and> net_ifs (nw_net nw') = (net_ifs (nw_net nw))(a \<mapsto> n) \<and> nw_netifs nw' = nw_netifs nw @ [a]
          \<and> if_state n = NETIF_ACTIVE \<and> if_type n = NETIF_TYPE_ETHER \<and> if_ops_data n = Ops_pcap pcap
          \<and> nw_default nw' = (if nw_default nw = nullptr then a else nw_default nw)
          \<and> a_addr (if_ipaddr n) = map (\<lambda>s. of_nat (dec_val s)) ss
          \<and> take 6 (hw_addr (if_hwaddr n)) = take 6 (pd_hwaddr d) \<and> if_mtu n = 1500)
   \<and> (\<forall>name. nw_registry nw name = None \<longrightarrow>
        netif_open dev_open in_size out_size a name ops nw = Some (nullptr, nw))"
  (is "?loop \<and> ?ether \<and> ?none")
proof (intro conjI)
  obtain n where n: "netif_new Loop_net in_size out_size ''loop'' ops = Some n" "if_class n = Loop_net"
    "if_state n = NETIF_OPENED" "if_name n = ''loop'' @ replicate (NETIF_NAME_SIZE - 4) (CHR 0x00)"
    "rq_list (if_in_q n) = []" "rq_list (if_out_q n) = []"
    using netif_new_fields [OF assms(1-4), of "''loop''" Loop_net ops] by (auto simp: NETIF_NAME_SIZE_def)
  have "netif_open_dev dev_open n = loop_open n" by (simp add: netif_open_dev_def n(2))
  from netif_open_total [OF assms(5) n(1) this [unfolded loop_open_run], of a] show ?loop
    by (fastforce simp: n get_name_def NETIF_NAME_SIZE_def numeral_eq_Suc)
next
  obtain n where n: "netif_new Ether_net in_size out_size ''eth0'' (Ops_pcap_data d) = Some n" "if_class n = Ether_net"
    "if_ops_data n = Ops_pcap_data d" "if_hwaddr n = hwaddr_new"
    using netif_new_fields [OF assms(1-4), of "''eth0''" Ether_net "Ops_pcap_data d"] by (auto simp: NETIF_NAME_SIZE_def)
  have dev: "netif_open_dev dev_open n = ether_open dev_open n" by (simp add: netif_open_dev_def n(2))
  show ?ether
  proof (cases "dev_open (pd_ip d) (pd_hwaddr d)")
    case None
    then show ?thesis using n(1,3) assms(6) dev by (simp add: netif_open_def ether_open_def)
  next
    case (Some pcap)
    from ether_open_run [of n d dev_open, OF n(3,4) Some assms(7-10)] obtain hw where
      hw: "ether_open dev_open n = Some (NET_ERR_OK, n\<lparr>if_type := NETIF_TYPE_ETHER, if_mtu := 1500,
         if_ipaddr := \<lparr>ip_type = IPADDR_V4, a_addr = map (\<lambda>s. of_nat (dec_val s)) ss\<rparr>, if_hwaddr := hw,
         if_ops_data := Ops_pcap pcap\<rparr>)" "take 6 (hw_addr hw) = take 6 (pd_hwaddr d)" by blast
    from netif_open_total [OF assms(6) n(1) dev [unfolded hw(1)], of a] hw(2) Some show ?thesis by fastforce
  qed
next
  show ?none by (simp add: netif_open_def)
qed

theorem netif_open_outcome_witness:
  "\<exists>n nw'. netif_open (\<lambda>_ _. Some 7) 64 64 5 ''eth0''
       (Ops_pcap_data \<lparr>pd_ip = Some ''192.168.1.20'', pd_hwaddr = [2, 4, 6, 8, 10, 12]\<rparr>) demo_network = Some (5, nw')
     \<and> net_ifs (nw_net nw') 5 = Some n \<and> a_addr (if_ipaddr n) = [192, 168, 1, 20] \<and> nw_default nw' = 5"
proof -
  let ?d = "\<lparr>pd_ip = Some ''192.168.1.20'', pd_hwaddr = [2, 4, 6, 8, 10, 12]\<rparr>" and ?ss = "[''192'', ''168'', ''1'', ''20'']"
  have d: "pd_ip ?d = Some (dotted ?ss)" "length ?ss = 4" "\<forall>s \<in> set ?ss. list_all is_digit s" "6 \<le> length (pd_hwaddr ?d)"
    by (simp_all add: is_digit_def)
  have sizes: "(64::u32) \<noteq> 0" "unat (64::u32) \<le> 2 ^ 31" by simp_all
  from netif_open_outcome [OF sizes sizes demo_network(1,2) d, where dev_open = "\<lambda>_ _. Some 7" and a = 5 and ops = Ops_null]
  show ?thesis by (auto simp: demo_network(4) dec_val_def)
qed

end
