(* ===== verification/Boot.thy ===== *)
theory Boot
  imports Transmission NetLife
begin

text \<open>
  Starting the program: the pools, queues and messages of the configured sizes, the registered interface
  classes, and an Ethernet interface on a device. The state this ends in is the one the other theories
  start from.
\<close>

subsection \<open>The configured sizes\<close>

text \<open>The defaults of the configuration variables. The count of packets is looked up by the name of the count
  of blocks, so both are the same variable.\<close>

definition tcp_msg_queue_size :: u32 where "tcp_msg_queue_size = 1024"
definition tcp_timer_msg_queue_size :: u32 where "tcp_timer_msg_queue_size = 128"
definition netif_in_queue_size :: u32 where "netif_in_queue_size = 1024"
definition netif_out_queue_size :: u32 where "netif_out_queue_size = 1024"
definition pktbuf_blk_size :: u32 where "pktbuf_blk_size = 1024"
definition pktbuf_blk_cnt :: u32 where "pktbuf_blk_cnt = 1024"
definition pktbuf_buf_cnt :: u32 where "pktbuf_buf_cnt = pktbuf_blk_cnt"

lemmas default_sizes = tcp_msg_queue_size_def tcp_timer_msg_queue_size_def netif_in_queue_size_def
  netif_out_queue_size_def pktbuf_blk_size_def pktbuf_blk_cnt_def pktbuf_buf_cnt_def

lemma default_rounding: "rq_round_size 1024 = 1024" "rq_round_size 128 = 128"
  by (simp_all add: rq_round_size_def is_power_of_two_def word_le_nat_alt)

subsection \<open>The start\<close>

text \<open>
  The packet manager and the protocol stack with its network. The arguments are the addresses that the
  allocator returns for the four arrays, and what the payloads hold before they are written.
\<close>

record arrays =
  msgs_at :: addr
  timer_msgs_at :: addr
  blks_at :: addr
  bufs_at :: addr

definition start_stack :: "arrays \<Rightarrow> (addr \<Rightarrow> nat \<Rightarrow> u8) \<Rightarrow> 'f network option" where
  "start_stack m junk = do {
     st \<leftarrow> pkt_manager_new pktbuf_blk_size pktbuf_blk_cnt pktbuf_buf_cnt (blks_at m) (bufs_at m) junk;
     ps \<leftarrow> protocol_stack_new (msgs_at m) (timer_msgs_at m) tcp_msg_queue_size tcp_timer_msg_queue_size;
     Some (register_builtin \<lparr>nw_net = \<lparr>net_store = st, net_stack = ps, net_ifs = Map.empty\<rparr>,
             nw_netifs = [], nw_default = nullptr, nw_registry = Map.empty\<rparr>)
   }"

text \<open>Opening the Ethernet interface of the device \<open>d\<close>, whose object is at \<open>a\<close>.\<close>

definition start_ethernet :: "(string option \<Rightarrow> u8 list \<Rightarrow> nat option) \<Rightarrow> addr \<Rightarrow> pcap_data \<Rightarrow> arrays
    \<Rightarrow> (addr \<Rightarrow> nat \<Rightarrow> u8) \<Rightarrow> (addr \<times> 'f network) option" where
  "start_ethernet dev_open a d m junk = do {
     nw \<leftarrow> start_stack m junk;
     netif_open dev_open netif_in_queue_size netif_out_queue_size a ''eth0'' (Ops_pcap_data d) nw
   }"

text \<open>What is needed of the device: it opens, its address is a dotted one and its hardware address not the broadcast.\<close>

definition device_ok :: "(string option \<Rightarrow> u8 list \<Rightarrow> nat option) \<Rightarrow> pcap_data \<Rightarrow> string list \<Rightarrow> bool" where
  "device_ok dev_open d ss \<longleftrightarrow> dev_open (pd_ip d) (pd_hwaddr d) \<noteq> None
     \<and> pd_ip d = Some (dotted ss) \<and> length ss = 4 \<and> (\<forall>s \<in> set ss. list_all is_digit s)
     \<and> 6 \<le> length (pd_hwaddr d) \<and> take 6 (pd_hwaddr d) \<noteq> ether_broadcast_addr"

lemma protocol_stack_new_run:
  assumes "0 < base" "n \<noteq> 0" "unat n \<le> 2 ^ 30" "k \<noteq> 0" "unat k \<le> 2 ^ 30"
  shows "\<exists>ps. protocol_stack_new base timer_base n k = Some ps \<and> ps_inv ps \<and> ps_queue_list ps = []
     \<and> rq_room (ps_msg_queue ps) = unat (rq_round_size n) - 1
     \<and> length (mb_free_list (ps_mem_block ps)) = unat (rq_round_size n) - 1"
proof -
  from mb_new_ok [OF assms(2,3), of base sizeof_exmsg] obtain mb where mb: "mb_new base sizeof_exmsg n = Some (Inr mb)"
    "mb_inv mb" "mb_free_list mb = map (\<lambda>i. base + i * sizeof_exmsg) [0 ..< unat (rq_round_size n) - 1]" by blast
  from mb_new_ok [OF assms(4,5), of timer_base sizeof_exmsg] obtain tmb where
    tmb: "mb_new timer_base sizeof_exmsg k = Some (Inr tmb)" "mb_inv tmb" by blast
  have le: "unat n \<le> 2 ^ 31" "unat k \<le> 2 ^ 31" using assms(3,5) by simp_all
  from rq_new_inv [OF assms(2) le(1), of nullptr] obtain q where q: "rq_new nullptr n = Inr q" "rq_inv q" "rq_list q = []"
    "rq_size q = rq_round_size n" by blast
  from rq_new_inv [OF assms(4) le(2), of nullptr] obtain tq :: "addr lfrq" where "rq_new nullptr k = Inr tq" by blast
  then show ?thesis using assms(1) mb tmb q
    by (simp add: protocol_stack_new_def ps_inv_def ps_queue_list_def rq_room_def mb_free_list_distinct sizeof_exmsg_def)
qed
text \<open>Opening an interface touches neither packets nor messages.\<close>

lemma netif_open_keeps:
  assumes "netif_open dev_open in_size out_size a name ops nw = Some (r, nw')"
  shows "net_store (nw_net nw') = net_store (nw_net nw)" "net_stack (nw_net nw') = net_stack (nw_net nw)"
  using assms
  by (auto simp: netif_open_def set_active_def upd_netif_def put_netif_def bind_eq_Some_conv Let_def
      split: option.splits if_splits)

text \<open>The started interface is ready to send and to receive, and nothing is in use.\<close>

lemma start_ethernet_run:
  assumes "0 < msgs_at m" "0 < blks_at m" "0 < bufs_at m" and dev: "device_ok dev_open d ss"
  shows "\<exists>nw n. start_ethernet dev_open a d m junk = Some (a, nw) \<and> nw_netifs nw = [a] \<and> nw_default nw = a
     \<and> if_state n = NETIF_ACTIVE \<and> sending a n [] (nw_net nw) \<and> receiving a n [] (nw_net nw)
     \<and> length (free_bufs (net_store (nw_net nw))) = 1023 \<and> length (free_blks (net_store (nw_net nw))) = 1023
     \<and> take 6 (hw_addr (if_hwaddr n)) = take 6 (pd_hwaddr d)
     \<and> a_addr (if_ipaddr n) = map (\<lambda>s. of_nat (dec_val s)) ss"
proof -
  from dev obtain pcap where pcap: "dev_open (pd_ip d) (pd_hwaddr d) = Some pcap" by (auto simp: device_ok_def)
  from pkt_manager_new_wf [of 1024 1024 "blks_at m" "bufs_at m" 1024 junk] assms(2,3) obtain st where
    st: "pkt_manager_new 1024 1024 1024 (blks_at m) (bufs_at m) junk = Some st" "blk_inv st []" "bufs_inv st []"
      "cfg_blk_size st = 1024" "length (free_blks st) = 1023" "length (free_bufs st) = 1023"
    by (auto simp: default_rounding)
  from protocol_stack_new_run [OF assms(1), of 1024 128 "timer_msgs_at m"] obtain ps :: "'a proto_stack" where
    ps: "protocol_stack_new (msgs_at m) (timer_msgs_at m) 1024 128 = Some ps" "ps_inv ps" "ps_queue_list ps = []"
      "rq_room (ps_msg_queue ps) = 1023" "length (mb_free_list (ps_mem_block ps)) = 1023"
    by (auto simp: default_rounding)
  let ?net = "\<lparr>net_store = st, net_stack = ps, net_ifs = Map.empty\<rparr>"
  let ?nw = "register_builtin \<lparr>nw_net = ?net, nw_netifs = [], nw_default = nullptr, nw_registry = Map.empty\<rparr>"
  have nw: "nw_registry ?nw ''eth0'' = Some Ether_net" "nw_net ?nw = ?net" "nw_netifs ?nw = []" "nw_default ?nw = nullptr"
    by (simp_all add: register_builtin_def register_netif_factory_def)
  have start: "start_stack m junk = Some ?nw" using st(1) ps(1) by (simp add: start_stack_def default_sizes)
  obtain n where n: "netif_new Ether_net 1024 1024 ''eth0'' (Ops_pcap_data d) = Some n" "if_class n = Ether_net"
    "if_ops_data n = Ops_pcap_data d" "if_hwaddr n = hwaddr_new" "rq_inv (if_in_q n)" "rq_list (if_in_q n) = []"
    "rq_inv (if_out_q n)" "rq_list (if_out_q n) = []" "rq_room (if_in_q n) = 1023" "rq_room (if_out_q n) = 1023"
    using netif_new_fields [of 1024 1024 "''eth0''" Ether_net "Ops_pcap_data d"]
    by (auto simp: NETIF_NAME_SIZE_def default_rounding)
  from ether_open_run [of n d dev_open, OF n(3,4) pcap] dev obtain hw where
    hw: "ether_open dev_open n = Some (NET_ERR_OK, n\<lparr>if_type := NETIF_TYPE_ETHER, if_mtu := 1500,
       if_ipaddr := \<lparr>ip_type = IPADDR_V4, a_addr = map (\<lambda>s. of_nat (dec_val s)) ss\<rparr>, if_hwaddr := hw,
       if_ops_data := Ops_pcap pcap\<rparr>)" "take 6 (hw_addr hw) = take 6 (pd_hwaddr d)"
    unfolding device_ok_def by blast
  define n1 where "n1 = n\<lparr>if_type := NETIF_TYPE_ETHER, if_mtu := 1500,
       if_ipaddr := \<lparr>ip_type = IPADDR_V4, a_addr = map (\<lambda>s. of_nat (dec_val s)) ss\<rparr>, if_hwaddr := hw,
       if_ops_data := Ops_pcap pcap, if_state := NETIF_ACTIVE\<rparr>"
  have dev_run: "netif_open_dev dev_open n = ether_open dev_open n" by (simp add: netif_open_dev_def n(2))
  from netif_open_total [OF nw(1) n(1) dev_run [unfolded hw(1)], of a] obtain nw' where
    o: "netif_open dev_open 1024 1024 a ''eth0'' (Ops_pcap_data d) ?nw = Some (a, nw')"
      "net_ifs (nw_net nw') = [a \<mapsto> n1]" "nw_netifs nw' = [a]" "nw_default nw' = a"
    by (auto simp: nw n1_def)
  note kept = netif_open_keeps [OF o(1), unfolded nw(2), simplified]
  have "length (take 6 (pd_hwaddr d)) = 6" "take 6 (pd_hwaddr d) \<noteq> ether_broadcast_addr" "length ss = 4"
    using dev by (simp_all add: device_ok_def)
  then have hw6: "6 \<le> length (hw_addr hw)" "take 6 (hw_addr hw) \<noteq> ether_broadcast_addr" "length ss = 4"
    using hw(2) by (metis length_take min.cobounded1, simp_all)
  show ?thesis
    using st ps n o hw hw6 kept start
    by - (rule exI [of _ nw'], rule exI [of _ n1],
      auto simp: start_ethernet_def default_sizes sending_def receiving_def n1_def pkts_inv_def nw)
qed

text \<open>Without a free packet no request can be made.\<close>

lemma request_without_packet:
  assumes "receiving nif n live net" "free_bufs (net_store net) = []"
  shows "make_arp_request ord nif dest net = Some (NET_ERR_NONE, net)"
proof -
  have "net_ifs net nif = Some n" "bufs_inv (net_store net) live" using assms(1) by (simp_all add: receiving_def)
  with get_pktbuffer_empty [OF this(2) assms(2)] show ?thesis
    by (simp add: make_arp_request_def make_request_def on_store_def)
qed

subsection \<open>Properties\<close>

text \<open>
  C3. The life of an interface with the default configuration, from the constructors on. When the device
  opens, the interface comes up as the default one with the device's addresses, and any number of ARP
  requests can be sent over it. But it survives only 1023 received frames: after that no packet is
  left, every further frame is dropped and every request fails with \<open>NET_ERR_NONE\<close>.
\<close>

theorem started_interface_life:
  assumes "0 < msgs_at m" "0 < blks_at m" "0 < bufs_at m" "device_ok dev_open d ss"
  shows "\<exists>nw n. start_ethernet dev_open a d m junk = Some (a, nw) \<and> nw_default nw = a
     \<and> net_ifs (nw_net nw) a = Some n \<and> if_state n = NETIF_ACTIVE
     \<and> take 6 (hw_addr (if_hwaddr n)) = take 6 (pd_hwaddr d)
     \<and> a_addr (if_ipaddr n) = map (\<lambda>s. of_nat (dec_val s)) ss
     \<and> (\<forall>dests. list_all (\<lambda>dest. 4 \<le> length (a_addr dest)) dests \<longrightarrow>
         (\<exists>net'. request_all ord a dests (nw_net nw) = Some (map (\<lambda>dest. Some (arp_request_frame n dest)) dests, net')))
     \<and> (\<forall>frames. 1023 \<le> length frames \<and> list_all (\<lambda>f. 14 \<le> length f \<and> length f \<le> 1514) frames \<longrightarrow>
         (\<exists>net'. receive_all ord run a frames (nw_net nw) = Some net'
            \<and> (\<forall>len frame. recv_step a len frame net' = Some net')
            \<and> (\<forall>dest. make_arp_request ord a dest net' = Some (NET_ERR_NONE, net'))))"
proof -
  from start_ethernet_run [OF assms, of a junk] obtain nw :: "'a network" and n where
    s: "start_ethernet dev_open a d m junk = Some (a, nw)" "nw_default nw = a" "if_state n = NETIF_ACTIVE"
      "sending a n [] (nw_net nw)" "receiving a n [] (nw_net nw)" "length (free_bufs (net_store (nw_net nw))) = 1023"
      "take 6 (hw_addr (if_hwaddr n)) = take 6 (pd_hwaddr d)" "a_addr (if_ipaddr n) = map (\<lambda>s. of_nat (dec_val s)) ss"
    by blast
  have out: "\<exists>net'. request_all ord a dests (nw_net nw) = Some (map (\<lambda>dest. Some (arp_request_frame n dest)) dests, net')"
    if "list_all (\<lambda>dest. 4 \<le> length (a_addr dest)) dests" for dests
    using request_all_run [OF s(4), of dests ord] that by (auto simp: list_all_iff)
  have dead: "\<exists>net'. receive_all ord run a frames (nw_net nw) = Some net'
      \<and> (\<forall>len frame. recv_step a len frame net' = Some net')
      \<and> (\<forall>dest. make_arp_request ord a dest net' = Some (NET_ERR_NONE, net'))"
    if f: "1023 \<le> length frames" "list_all (\<lambda>f. 14 \<le> length f \<and> length f \<le> 1514) frames" for frames
  proof -
    from receive_all_run [OF s(5) f(2), of ord run] obtain net' n' live' where
      r: "receive_all ord run a frames (nw_net nw) = Some net'" "receiving a n' live' net'"
      "free_bufs (net_store net') = drop (length frames) (free_bufs (net_store (nw_net nw)))" by blast
    have "free_bufs (net_store net') = []" using r(3) f(1) s(6) by simp
    with r(1) recv_step_deaf [OF r(2)] request_without_packet [OF r(2)] show ?thesis by auto
  qed
  have "net_ifs (nw_net nw) a = Some n" using s(5) by (simp add: receiving_def)
  with s(1-3,7,8) out dead show ?thesis by blast
qed

theorem started_interface_life_witness:
  "\<exists>(nw :: nat network) frames net1 net2. start_ethernet (\<lambda>_ _. Some 7) 5
       \<lparr>pd_ip = Some ''192.168.1.20'', pd_hwaddr = [2, 4, 6, 8, 10, 12]\<rparr>
       \<lparr>msgs_at = 1000, timer_msgs_at = 100000, blks_at = 200000, bufs_at = 300000\<rparr> (\<lambda>a i. 0) = Some (5, nw)
     \<and> request_all Little_endian 5 [\<lparr>ip_type = IPADDR_V4, a_addr = [192, 168, 1, 1]\<rparr>] (nw_net nw) = Some (frames, net1)
     \<and> map (map_option length) frames = [Some 60]
     \<and> receive_all Little_endian (\<lambda>_. Some) 5 (replicate 1023 (replicate 60 1)) (nw_net nw) = Some net2
     \<and> make_arp_request Little_endian 5 ipaddr_new net2 = Some (NET_ERR_NONE, net2)"
proof -
  let ?d = "\<lparr>pd_ip = Some ''192.168.1.20'', pd_hwaddr = [2, 4, 6, 8, 10, 12]\<rparr>"
    and ?m = "\<lparr>msgs_at = 1000, timer_msgs_at = 100000, blks_at = 200000, bufs_at = 300000\<rparr>"
    and ?dest = "\<lparr>ip_type = IPADDR_V4, a_addr = [192, 168, 1, 1]\<rparr>" and ?ss = "[''192'', ''168'', ''1'', ''20'']"
  have d: "device_ok (\<lambda>_ _. Some 7) ?d ?ss"
    by (simp add: device_ok_def is_digit_def ether_broadcast_addr_def)
  have fr: "1023 \<le> length (replicate 1023 (replicate 60 (1 :: u8)))
      \<and> list_all (\<lambda>f. 14 \<le> length f \<and> length f \<le> 1514) (replicate 1023 (replicate 60 (1 :: u8)))"
    by (simp add: list_all_iff)
  from started_interface_life [OF _ _ _ d, of ?m 5 "\<lambda>a i. 0" Little_endian "\<lambda>_. Some"] obtain nw :: "nat network" and n where
    r: "start_ethernet (\<lambda>_ _. Some 7) 5 ?d ?m (\<lambda>a i. 0) = Some (5, nw)"
      "take 6 (hw_addr (if_hwaddr n)) = take 6 (pd_hwaddr ?d)"
      "a_addr (if_ipaddr n) = map (\<lambda>s. of_nat (dec_val s)) ?ss"
      "\<forall>dests. list_all (\<lambda>dest. 4 \<le> length (a_addr dest)) dests \<longrightarrow>
         (\<exists>net'. request_all Little_endian 5 dests (nw_net nw) = Some (map (\<lambda>dest. Some (arp_request_frame n dest)) dests, net'))"
      "\<forall>frames. 1023 \<le> length frames \<and> list_all (\<lambda>f. 14 \<le> length f \<and> length f \<le> 1514) frames \<longrightarrow>
         (\<exists>net'. receive_all Little_endian (\<lambda>_. Some) 5 frames (nw_net nw) = Some net'
            \<and> (\<forall>len frame. recv_step 5 len frame net' = Some net')
            \<and> (\<forall>dest. make_arp_request Little_endian 5 dest net' = Some (NET_ERR_NONE, net')))"
    by auto
  from r(5) [rule_format, OF fr] obtain net2 where "receive_all Little_endian (\<lambda>_. Some) 5 (replicate 1023 (replicate 60 1)) (nw_net nw) = Some net2"
    "make_arp_request Little_endian 5 ipaddr_new net2 = Some (NET_ERR_NONE, net2)" by blast
  moreover have "list_all (\<lambda>dest. 4 \<le> length (a_addr dest)) [?dest]" by simp
  from r(4) [rule_format, OF this] obtain net1 where
    "request_all Little_endian 5 [?dest] (nw_net nw) = Some ([Some (arp_request_frame n ?dest)], net1)" by auto
  moreover have "length (arp_request_frame n ?dest) = 60"
    unfolding arp_request_frame_def r(2,3) by simp
  ultimately show ?thesis using r(1)
    by (intro exI [of _ nw] exI [of _ "[Some (arp_request_frame n ?dest)]"] exI [of _ net1] exI [of _ net2]) simp
qed

end
