(* ===== verification/RingQueueConc.thy ===== *)
theory RingQueueConc
  imports RingQueue "HOL-Library.Sublist"
begin

text \<open>
  The ring queue of \<open>src/lock_free_ring_queue.h\<close> under interleaving: every access to an atomic member
  and to a slot is a step of its own, a weak compare-and-exchange may fail for no reason, and any number
  of threads take turns. The accesses are sequentially consistent here; the relaxed ones of the source
  allow more.
\<close>

subsection \<open>Threads\<close>

text \<open>The program counter of a thread with its local variables.\<close>

datatype 'a pc =
    Idle
  | Push_load_read 'a
  | Push_load_write 'a u32
  | Push_cas 'a u32
  | Push_store 'a u32
  | Push_confirm 'a u32
  | Push_count
  | Pop_load_read
  | Pop_load_last u32
  | Pop_load_slot u32
  | Pop_cas u32 'a
  | Pop_count 'a

text \<open>What a step shows: the calls, the push that claims an index, and the returns of both operations.\<close>

datatype 'a label = Internal | Called_push 'a | Called_pop | Claimed 'a | Push_returned bool | Took 'a | Found_empty

definition compare_exchange_weak :: "bool \<Rightarrow> u32 \<Rightarrow> u32 \<Rightarrow> u32 \<Rightarrow> bool \<times> u32 \<times> u32" where
  "compare_exchange_weak spurious obj expected desired =
     (if spurious then (False, obj, obj) else compare_exchange obj expected desired)"

fun thread_step :: "bool \<Rightarrow> 'a lfrq \<Rightarrow> 'a pc \<Rightarrow> ('a pc \<times> 'a lfrq \<times> 'a label) option" where
  "thread_step sp q Idle = None"
| "thread_step sp q (Push_load_read x) = Some (Push_load_write x (rq_read_index q), q, Internal)"
| "thread_step sp q (Push_load_write x current_read_index) =
     (let current_write_index = rq_write_index q
      in if index_of_queue q (current_write_index + 1) = index_of_queue q current_read_index
         then Some (Idle, q, Push_returned False)
         else Some (Push_cas x current_write_index, q, Internal))"
| "thread_step sp q (Push_cas x current_write_index) =
     (case compare_exchange_weak sp (rq_write_index q) current_write_index (current_write_index + 1) of
        (ok, w, _) \<Rightarrow> if ok then Some (Push_store x current_write_index, q\<lparr>rq_write_index := w\<rparr>, Claimed x)
                      else Some (Push_load_read x, q, Internal))"
| "thread_step sp q (Push_store x current_write_index) = do {
     slots \<leftarrow> upd_opt (rq_queue q) (unat (index_of_queue q current_write_index)) x;
     Some (Push_confirm x current_write_index, q\<lparr>rq_queue := slots\<rparr>, Internal)
   }"
| "thread_step sp q (Push_confirm x current_write_index) =
     (case compare_exchange_weak sp (rq_last_write_index q) current_write_index (current_write_index + 1) of
        (ok, l, expected) \<Rightarrow> if ok then Some (Push_count, q\<lparr>rq_last_write_index := l\<rparr>, Internal)
                             else Some (Push_confirm x expected, q, Internal))"
| "thread_step sp q Push_count = Some (Idle, q\<lparr>rq_length := rq_length q + 1\<rparr>, Push_returned True)"
| "thread_step sp q Pop_load_read = Some (Pop_load_last (rq_read_index q), q, Internal)"
| "thread_step sp q (Pop_load_last current_read_index) =
     (if index_of_queue q (rq_last_write_index q) = index_of_queue q current_read_index
      then Some (Idle, q, Found_empty) else Some (Pop_load_slot current_read_index, q, Internal))"
| "thread_step sp q (Pop_load_slot current_read_index) = do {
     d \<leftarrow> nth_opt (rq_queue q) (unat (index_of_queue q current_read_index));
     Some (Pop_cas current_read_index d, q, Internal)
   }"
| "thread_step sp q (Pop_cas current_read_index d) =
     (case compare_exchange_weak sp (rq_read_index q) current_read_index (current_read_index + 1) of
        (ok, r, _) \<Rightarrow> if ok then Some (Pop_count d, q\<lparr>rq_read_index := r\<rparr>, Internal)
                      else Some (Pop_load_read, q, Internal))"
| "thread_step sp q (Pop_count d) = Some (Idle, q\<lparr>rq_length := rq_length q - 1\<rparr>, Took d)"

text \<open>
  Runs of any number of threads: an idle thread starts a push or a pop, or a thread takes a step. The
  labels are recorded with their threads.
\<close>

type_synonym 'a threads = "nat \<Rightarrow> 'a pc"

inductive conc_step :: "'a lfrq \<Rightarrow> 'a threads \<Rightarrow> nat \<times> 'a label \<Rightarrow> 'a lfrq \<Rightarrow> 'a threads \<Rightarrow> bool" where
  call_push: "ts t = Idle \<Longrightarrow> conc_step q ts (t, Called_push x) q (ts(t := Push_load_read x))"
| call_pop: "ts t = Idle \<Longrightarrow> conc_step q ts (t, Called_pop) q (ts(t := Pop_load_read))"
| own_step: "thread_step sp q (ts t) = Some (pc, q', l) \<Longrightarrow> conc_step q ts (t, l) q' (ts(t := pc))"

inductive conc_run :: "'a lfrq \<Rightarrow> 'a threads \<Rightarrow> (nat \<times> 'a label) list \<Rightarrow> 'a lfrq \<Rightarrow> 'a threads \<Rightarrow> bool"
  for q0 ts0 where
  run_nil: "conc_run q0 ts0 [] q0 ts0"
| run_snoc: "conc_run q0 ts0 evs q ts \<Longrightarrow> conc_step q ts ev q' ts' \<Longrightarrow> conc_run q0 ts0 (evs @ [ev]) q' ts'"

text \<open>The values in the order in which pushes claimed their indices, and in which pops returned them.\<close>

definition claims :: "(nat \<times> 'a label) list \<Rightarrow> 'a list" where
  "claims evs = concat (map (\<lambda>(_, l). case l of Claimed x \<Rightarrow> [x] | _ \<Rightarrow> []) evs)"

definition takes :: "(nat \<times> 'a label) list \<Rightarrow> 'a list" where
  "takes evs = concat (map (\<lambda>(_, l). case l of Took x \<Rightarrow> [x] | _ \<Rightarrow> []) evs)"

lemma history_simps [simp]:
  "claims [] = []" "claims (evs @ [(t, l)]) = claims evs @ (case l of Claimed x \<Rightarrow> [x] | _ \<Rightarrow> [])"
  "takes [] = []" "takes (evs @ [(t, l)]) = takes evs @ (case l of Took x \<Rightarrow> [x] | _ \<Rightarrow> [])"
  by (simp_all add: claims_def takes_def)

text \<open>A schedule as a list of moves, to run examples.\<close>

datatype 'a move = Do_push nat 'a | Do_pop nat | Do_step nat bool

fun conc_exec :: "'a move list \<Rightarrow> 'a lfrq \<Rightarrow> 'a threads \<Rightarrow> (nat \<times> 'a label) list
    \<Rightarrow> ((nat \<times> 'a label) list \<times> 'a lfrq \<times> 'a threads) option" where
  "conc_exec [] q ts evs = Some (evs, q, ts)"
| "conc_exec (Do_push t x # ms) q ts evs =
     (case ts t of Idle \<Rightarrow> conc_exec ms q (ts(t := Push_load_read x)) (evs @ [(t, Called_push x)]) | _ \<Rightarrow> None)"
| "conc_exec (Do_pop t # ms) q ts evs =
     (case ts t of Idle \<Rightarrow> conc_exec ms q (ts(t := Pop_load_read)) (evs @ [(t, Called_pop)]) | _ \<Rightarrow> None)"
| "conc_exec (Do_step t sp # ms) q ts evs = do {
     (pc, q1, l) \<leftarrow> thread_step sp q (ts t);
     conc_exec ms q1 (ts(t := pc)) (evs @ [(t, l)])
   }"

lemma conc_exec_run:
  "conc_exec ms q ts evs = Some (evs', q', ts') \<Longrightarrow> conc_run q0 ts0 evs q ts \<Longrightarrow> conc_run q0 ts0 evs' q' ts'"
proof (induction ms q ts evs rule: conc_exec.induct)
  case (2 t x ms q ts evs)
  then show ?case by (auto split: pc.splits intro: run_snoc call_push simp del: fun_upd_apply)
next
  case (3 t ms q ts evs)
  then show ?case by (auto split: pc.splits intro: run_snoc call_pop simp del: fun_upd_apply)
next
  case (4 t sp ms q ts evs)
  from "4.prems"(1) obtain pc q1 l where s: "thread_step sp q (ts t) = Some (pc, q1, l)"
    "conc_exec ms q1 (ts(t := pc)) (evs @ [(t, l)]) = Some (evs', q', ts')" by (auto simp: bind_eq_Some_conv)
  have "conc_run q0 ts0 (evs @ [(t, l)]) q1 (ts(t := pc))" using "4.prems"(2) own_step [of sp q ts t, OF s(1)] by (rule run_snoc)
  with "4.IH" [OF s(1) refl refl s(2)] show ?case .
qed simp

subsection \<open>The elements between the indices\<close>

text \<open>Advancing the confirmed index, advancing the read index, and storing behind the elements.\<close>

lemma unat_diff_Suc:
  fixes a b :: u32
  assumes "unat (a - b) + 1 < 2 ^ 32"
  shows "unat (a + 1 - b) = unat (a - b) + 1"
proof -
  have "a + 1 - b = (a - b) + 1" by simp
  then show ?thesis using unat_add_no_wrap [of "a - b" 1] assms by (simp only: unat_1) simp
qed

lemma unat_diff_less:
  fixes a b :: u32
  assumes "a \<noteq> b"
  shows "unat (a - (b + 1)) = unat (a - b) - 1"
proof -
  have "a - (b + 1) = (a - b) - 1" by simp
  moreover have "a - b \<noteq> 0" using assms by simp
  ultimately show ?thesis using unat_minus_one by metis
qed

definition slot :: "'a lfrq \<Rightarrow> u32 \<Rightarrow> 'a" where
  "slot q i = rq_queue q ! unat (index_of_queue q i)"

lemma rq_list_confirm:
  assumes "is_power_of_two (rq_size q)" "unat (rq_last_write_index q - rq_read_index q) + 1 < unat (rq_size q)"
  shows "rq_list (q\<lparr>rq_last_write_index := rq_last_write_index q + 1\<rparr>) = rq_list q @ [slot q (rq_last_write_index q)]"
proof -
  have "unat (rq_last_write_index q - rq_read_index q) + 1 < 2 ^ 32"
    using assms(2) unat_u32_less [of "rq_size q"] by simp
  note n = unat_diff_Suc [OF this]
  have "rq_read_index q + of_nat (unat (rq_last_write_index q - rq_read_index q)) = rq_last_write_index q" by simp
  then show ?thesis by (simp add: rq_list_def n slot_def index_of_queue_def)
qed

lemma rq_list_take:
  assumes "rq_last_write_index q \<noteq> rq_read_index q"
  shows "rq_list q = slot q (rq_read_index q) # rq_list (q\<lparr>rq_read_index := rq_read_index q + 1\<rparr>)"
proof -
  let ?n = "unat (rq_last_write_index q - rq_read_index q)"
  have "0 < ?n" using assms by (simp add: unat_gt_0)
  then have "[0 ..< ?n] = 0 # map Suc [0 ..< ?n - 1]" by (simp add: upt_conv_Cons map_Suc_upt)
  then show ?thesis
    by (simp add: rq_list_def unat_diff_less [OF assms] slot_def index_of_queue_def add.assoc comp_def)
qed

lemma rq_list_store:
  assumes "is_power_of_two (rq_size q)" "unat (rq_last_write_index q - rq_read_index q) < unat (rq_size q)"
  shows "rq_list (q\<lparr>rq_queue := (rq_queue q)[unat (index_of_queue q (rq_last_write_index q)) := x]\<rparr>) = rq_list q"
proof -
  let ?n = "unat (rq_last_write_index q - rq_read_index q)"
  have "unat (index_of_queue q (rq_last_write_index q)) = (unat (rq_read_index q) + ?n) mod unat (rq_size q)"
    using unat_index_add [OF assms(1), of "rq_read_index q" ?n] by simp
  moreover have "(unat (rq_read_index q) + ?n) mod unat (rq_size q) \<noteq> (unat (rq_read_index q) + j) mod unat (rq_size q)"
    if "j < ?n" for j
    using that assms(2) by (subst add_mod_eq_iff) auto
  ultimately have "unat (index_of_queue q (rq_last_write_index q)) \<noteq> unat (index_of_queue q (rq_read_index q + of_nat j))"
    if "j < ?n" for j
    using that unat_index_add [OF assms(1)] by simp
  then show ?thesis by (simp add: rq_list_def index_of_queue_def cong: map_cong)
qed

subsection \<open>One producer and one consumer\<close>

lemma index_dist:
  assumes "is_power_of_two (rq_size q)" "unat (a - b) \<le> unat (rq_size q)"
  shows "index_of_queue q a = index_of_queue q b \<longleftrightarrow> unat (a - b) = 0 \<or> unat (a - b) = unat (rq_size q)"
proof -
  let ?n = "unat (a - b)" and ?s = "unat (rq_size q)"
  have s: "0 < ?s" using assms(1) by (auto simp: is_power_of_two_def unat_gt_0)
  have "index_of_queue q a = index_of_queue q b \<longleftrightarrow> (unat b + ?n) mod ?s = (unat b + 0) mod ?s"
    using index_eq_iff [OF assms(1), of b ?n 0] by simp
  also have "\<dots> \<longleftrightarrow> ?s dvd ?n" by (simp add: mod_eq_dvd_iff_nat)
  also have "\<dots> \<longleftrightarrow> ?n = 0 \<or> ?n = ?s" using assms(2) s
    by (metis dvd_0_right dvd_imp_le dvd_refl le_antisym not_gr_zero)
  finally show ?thesis .
qed

text \<open>
  What holds of the shared members at each program counter; the read index that a push has loaded may
  be behind the current one, but not behind the write index by a whole round.
\<close>

fun prod_inv :: "'a lfrq \<Rightarrow> 'a pc \<Rightarrow> bool" where
  "prod_inv q Idle \<longleftrightarrow> rq_write_index q = rq_last_write_index q"
| "prod_inv q (Push_load_read x) \<longleftrightarrow> rq_write_index q = rq_last_write_index q"
| "prod_inv q (Push_load_write x r) \<longleftrightarrow> rq_write_index q = rq_last_write_index q
     \<and> unat (rq_read_index q - r) \<le> unat (rq_write_index q - r) \<and> unat (rq_write_index q - r) < unat (rq_size q)"
| "prod_inv q (Push_cas x w) \<longleftrightarrow> w = rq_write_index q \<and> rq_write_index q = rq_last_write_index q
     \<and> unat (rq_last_write_index q - rq_read_index q) + 1 < unat (rq_size q)"
| "prod_inv q (Push_store x w) \<longleftrightarrow> w = rq_last_write_index q \<and> rq_write_index q = rq_last_write_index q + 1
     \<and> unat (rq_last_write_index q - rq_read_index q) + 1 < unat (rq_size q)"
| "prod_inv q (Push_confirm x w) \<longleftrightarrow> w = rq_last_write_index q \<and> rq_write_index q = rq_last_write_index q + 1
     \<and> unat (rq_last_write_index q - rq_read_index q) + 1 < unat (rq_size q) \<and> slot q (rq_last_write_index q) = x"
| "prod_inv q Push_count \<longleftrightarrow> rq_write_index q = rq_last_write_index q"
| "prod_inv q pc \<longleftrightarrow> False"

fun cons_inv :: "'a lfrq \<Rightarrow> 'a pc \<Rightarrow> bool" where
  "cons_inv q Idle \<longleftrightarrow> True"
| "cons_inv q Pop_load_read \<longleftrightarrow> True"
| "cons_inv q (Pop_load_last r) \<longleftrightarrow> r = rq_read_index q"
| "cons_inv q (Pop_load_slot r) \<longleftrightarrow> r = rq_read_index q \<and> rq_last_write_index q \<noteq> rq_read_index q"
| "cons_inv q (Pop_cas r d) \<longleftrightarrow> r = rq_read_index q \<and> rq_last_write_index q \<noteq> rq_read_index q
     \<and> d = slot q (rq_read_index q)"
| "cons_inv q (Pop_count d) \<longleftrightarrow> True"
| "cons_inv q pc \<longleftrightarrow> False"

fun inflight_push :: "'a pc \<Rightarrow> 'a list" where
  "inflight_push (Push_store x w) = [x]"
| "inflight_push (Push_confirm x w) = [x]"
| "inflight_push pc = []"

fun inflight_pop :: "'a pc \<Rightarrow> 'a list" where
  "inflight_pop (Pop_count d) = [d]"
| "inflight_pop pc = []"

definition shape_inv :: "'a lfrq \<Rightarrow> bool" where
  "shape_inv q \<longleftrightarrow> is_power_of_two (rq_size q) \<and> 2 \<le> unat (rq_size q) \<and> length (rq_queue q) = unat (rq_size q)
     \<and> unat (rq_last_write_index q - rq_read_index q) < unat (rq_size q)"

definition count_inv :: "'a lfrq \<Rightarrow> 'a pc \<Rightarrow> 'a pc \<Rightarrow> bool" where
  "count_inv q p c \<longleftrightarrow> rq_length q = rq_last_write_index q - rq_read_index q
     + (if inflight_pop c = [] then 0 else 1) - (if p = Push_count then 1 else 0)"

definition pair_inv :: "'a lfrq \<Rightarrow> 'a pc \<Rightarrow> 'a pc \<Rightarrow> 'a list \<Rightarrow> 'a list \<Rightarrow> bool" where
  "pair_inv q p c claimed taken \<longleftrightarrow> shape_inv q \<and> prod_inv q p \<and> cons_inv q c \<and> count_inv q p c
     \<and> claimed = taken @ inflight_pop c @ rq_list q @ inflight_push p"

text \<open>A step of the producer.\<close>

lemma stale_read_index:
  fixes w r r0 :: u32
  assumes "unat (r - r0) \<le> unat (w - r0)"
  shows "unat (w - r) = unat (w - r0) - unat (r - r0)"
proof -
  have "w - r = (w - r0) - (r - r0)" by simp
  then show ?thesis using assms by (metis unat_sub word_le_nat_alt)
qed

lemma rq_list_upd_other [simp]:
  "rq_list (q\<lparr>rq_write_index := w\<rparr>) = rq_list q" "rq_list (q\<lparr>rq_length := n\<rparr>) = rq_list q"
  "slot (q\<lparr>rq_write_index := w\<rparr>) i = slot q i" "slot (q\<lparr>rq_length := n\<rparr>) i = slot q i"
  "slot (q\<lparr>rq_last_write_index := w\<rparr>) i = slot q i" "slot (q\<lparr>rq_read_index := w\<rparr>) i = slot q i"
  by (simp_all add: rq_list_def slot_def index_of_queue_def)

lemma index_of_queue_store [simp]: "index_of_queue (q\<lparr>rq_queue := xs\<rparr>) i = index_of_queue q i"
  "index_of_queue (q\<lparr>rq_last_write_index := w\<rparr>) i = index_of_queue q i"
  by (simp_all add: index_of_queue_def)

lemma store_other_slot:
  assumes "shape_inv q" "rq_last_write_index q \<noteq> rq_read_index q"
  shows "slot (q\<lparr>rq_queue := (rq_queue q)[unat (index_of_queue q (rq_last_write_index q)) := x]\<rparr>) (rq_read_index q)
     = slot q (rq_read_index q)"
proof -
  have "unat (rq_last_write_index q - rq_read_index q) \<noteq> 0" using assms(2) by (simp add: unat_eq_0)
  then have "index_of_queue q (rq_last_write_index q) \<noteq> index_of_queue q (rq_read_index q)"
    using index_dist [of q "rq_last_write_index q" "rq_read_index q"] assms(1) by (simp add: shape_inv_def)
  then have "unat (index_of_queue q (rq_last_write_index q)) \<noteq> unat (index_of_queue q (rq_read_index q))"
    by (simp add: word_unat_eq_iff)
  then show ?thesis by (simp add: slot_def)
qed

lemma index_bound: "shape_inv q \<Longrightarrow> unat (index_of_queue q i) < length (rq_queue q)"
  by (auto simp: shape_inv_def unat_index_of_queue)

lemma store_slot:
  "shape_inv q \<Longrightarrow> slot (q\<lparr>rq_queue := (rq_queue q)[unat (index_of_queue q i) := x]\<rparr>) i = x"
  using index_bound [of q i] by (simp add: slot_def)

text \<open>The consumer's view does not change while the producer works.\<close>

lemma cons_inv_cong:
  assumes "cons_inv q c" "rq_read_index q' = rq_read_index q"
    "rq_last_write_index q \<noteq> rq_read_index q \<Longrightarrow> rq_last_write_index q' \<noteq> rq_read_index q \<and> slot q' (rq_read_index q) = slot q (rq_read_index q)"
  shows "cons_inv q' c"
  using assms by (cases c) auto

lemma producer_step:
  assumes inv: "pair_inv q p c claimed taken" and step: "thread_step sp q p = Some (p', q', l)"
  shows "pair_inv q' p' c (claimed @ (case l of Claimed x \<Rightarrow> [x] | _ \<Rightarrow> [])) taken \<and> (\<forall>d. l \<noteq> Took d)"
proof -
  have sh: "shape_inv q" and pi: "prod_inv q p" and ci: "cons_inv q c" and ct: "count_inv q p c"
    and hist: "claimed = taken @ inflight_pop c @ rq_list q @ inflight_push p" using inv by (simp_all add: pair_inv_def)
  note defs = pair_inv_def count_inv_def
  show ?thesis
  proof (cases p)
    case (Push_load_read x)
    then have "prod_inv q p'" using step pi sh by (auto simp: shape_inv_def)
    then show ?thesis using Push_load_read step sh ci ct hist by (auto simp: defs)
  next
    case (Push_load_write x r)
    let ?full = "index_of_queue q (rq_write_index q + 1) = index_of_queue q r"
    have stale: "rq_write_index q = rq_last_write_index q" "unat (rq_read_index q - r) \<le> unat (rq_write_index q - r)"
      "unat (rq_write_index q - r) < unat (rq_size q)" using pi unfolding Push_load_write prod_inv.simps by blast+
    show ?thesis
    proof (cases ?full)
      case True
      then show ?thesis using Push_load_write step pi sh ci ct hist by (auto simp: defs)
    next
      case False
      note lt = stale(3)
      then have "unat (rq_write_index q - r) + 1 < 2 ^ 32" using unat_u32_less [of "rq_size q"] by simp
      note n = unat_diff_Suc [OF this]
      have "unat (rq_write_index q - r) + 1 \<noteq> unat (rq_size q)"
        using False index_dist [of q "rq_write_index q + 1" r] n lt sh by (auto simp: shape_inv_def)
      then have "unat (rq_last_write_index q - rq_read_index q) + 1 < unat (rq_size q)"
        using stale_read_index [OF stale(2)] lt stale(1) by simp
      then show ?thesis using False Push_load_write step pi sh ci ct hist by (auto simp: defs)
    qed
  next
    case (Push_cas x w)
    show ?thesis
    proof (cases sp)
      case True
      then show ?thesis using Push_cas step pi sh ci ct hist by (auto simp: defs compare_exchange_weak_def)
    next
      case False
      then have q': "p' = Push_store x w" "q' = q\<lparr>rq_write_index := w + 1\<rparr>" "l = Claimed x"
        using Push_cas step pi by (simp_all add: compare_exchange_weak_def compare_exchange_def)
      have "cons_inv q' c" by (rule cons_inv_cong [OF ci]) (simp_all add: q')
      then show ?thesis using Push_cas pi sh ct hist by (simp add: defs q' shape_inv_def)
    qed
  next
    case (Push_store x w)
    then have q': "p' = Push_confirm x w" "l = Internal"
      "q' = q\<lparr>rq_queue := (rq_queue q)[unat (index_of_queue q (rq_last_write_index q)) := x]\<rparr>"
      using step pi index_bound [OF sh] by (auto simp: upd_opt_def bind_eq_Some_conv split: if_splits)
    have "cons_inv q' c" by (rule cons_inv_cong [OF ci]) (simp_all add: q' store_other_slot [OF sh])
    moreover have "rq_list q' = rq_list q" unfolding q' using sh by (intro rq_list_store) (simp_all add: shape_inv_def)
    moreover have "slot q' (rq_last_write_index q) = x" unfolding q' by (rule store_slot [OF sh])
    ultimately show ?thesis using Push_store pi sh ct hist by (simp add: defs q' shape_inv_def)
  next
    case (Push_confirm x w)
    show ?thesis
    proof (cases sp)
      case True
      then show ?thesis using Push_confirm step pi sh ci ct hist by (auto simp: defs compare_exchange_weak_def)
    next
      case False
      then have q': "p' = Push_count" "q' = q\<lparr>rq_last_write_index := rq_last_write_index q + 1\<rparr>" "l = Internal"
        using Push_confirm step pi by (simp_all add: compare_exchange_weak_def compare_exchange_def)
      have room: "unat (rq_last_write_index q - rq_read_index q) + 1 < unat (rq_size q)" using pi Push_confirm by simp
      then have "unat (rq_last_write_index q - rq_read_index q) + 1 < 2 ^ 32" using unat_u32_less [of "rq_size q"] by simp
      note n = unat_diff_Suc [OF this]
      then have "rq_last_write_index q + 1 \<noteq> rq_read_index q" by (metis Suc_eq_plus1 diff_self nat.distinct(1) unat_0)
      then have "cons_inv q' c" by (intro cons_inv_cong [OF ci]) (simp_all add: q')
      moreover have "rq_list q' = rq_list q @ [x]"
        unfolding q' using rq_list_confirm [OF _ room] sh pi Push_confirm by (simp add: shape_inv_def)
      ultimately show ?thesis using Push_confirm pi sh ct hist n room by (simp add: defs q' shape_inv_def)
    qed
  qed (use step pi sh ci ct hist in \<open>auto simp: defs shape_inv_def intro!: cons_inv_cong [OF ci]\<close>)
qed

text \<open>A step of the consumer: taking an element moves the read index under the producer's feet.\<close>

lemma prod_inv_take:
  assumes "prod_inv q p" "shape_inv q" "rq_last_write_index q \<noteq> rq_read_index q"
  shows "prod_inv (q\<lparr>rq_read_index := rq_read_index q + 1\<rparr>) p"
proof (cases p)
  case (Push_load_write x r)
  then have s: "rq_write_index q = rq_last_write_index q" "unat (rq_read_index q - r) \<le> unat (rq_write_index q - r)"
    "unat (rq_write_index q - r) < unat (rq_size q)" using assms(1) unfolding Push_load_write prod_inv.simps by blast+
  have "unat (rq_read_index q - r) \<noteq> unat (rq_write_index q - r)"
    using assms(3) s(1) by (simp add: word_unat_eq_iff [symmetric])
  then have "unat (rq_read_index q + 1 - r) \<le> unat (rq_write_index q - r)"
    using s(2,3) unat_diff_Suc [of "rq_read_index q" r] unat_u32_less [of "rq_size q"] by simp
  then show ?thesis using Push_load_write s by simp
qed (use assms in \<open>auto simp: unat_diff_less\<close>)

lemma prod_inv_length: "prod_inv (q\<lparr>rq_length := n\<rparr>) p = prod_inv q p"
  by (cases p) simp_all

lemma consumer_step:
  assumes inv: "pair_inv q p c claimed taken" and step: "thread_step sp q c = Some (c', q', l)"
  shows "pair_inv q' p c' claimed (taken @ (case l of Took d \<Rightarrow> [d] | _ \<Rightarrow> [])) \<and> (\<forall>x. l \<noteq> Claimed x)"
proof -
  have sh: "shape_inv q" and pi: "prod_inv q p" and ci: "cons_inv q c" and ct: "count_inv q p c"
    and hist: "claimed = taken @ inflight_pop c @ rq_list q @ inflight_push p" using inv by (simp_all add: pair_inv_def)
  note defs = pair_inv_def count_inv_def
  show ?thesis
  proof (cases c)
    case (Pop_cas r d)
    show ?thesis
    proof (cases sp)
      case True
      then show ?thesis using Pop_cas step sh pi ct hist by (auto simp: defs compare_exchange_weak_def)
    next
      case False
      have ne: "rq_last_write_index q \<noteq> rq_read_index q" and d: "d = slot q (rq_read_index q)" using ci Pop_cas by simp_all
      have q': "c' = Pop_count d" "q' = q\<lparr>rq_read_index := rq_read_index q + 1\<rparr>" "l = Internal"
        using False Pop_cas step ci by (simp_all add: compare_exchange_weak_def compare_exchange_def)
      have "rq_list q = d # rq_list q'" unfolding q' d by (rule rq_list_take [OF ne])
      moreover have "shape_inv q'" using sh by (auto simp: q' shape_inv_def unat_diff_less [OF ne])
      ultimately show ?thesis
        using Pop_cas ct hist prod_inv_take [OF pi sh ne] by (simp add: defs q')
    qed
  next
    case (Pop_load_last r)
    then show ?thesis using step ci sh pi ct hist by (auto simp: defs split: if_splits)
  next
    case (Pop_load_slot r)
    then have "c' = Pop_cas r (slot q r)" "q' = q" "l = Internal" using step by (auto simp: bind_eq_Some_conv slot_def)
    then show ?thesis using Pop_load_slot ci sh pi ct hist by (simp add: defs)
  next
    case (Pop_count d)
    then have q': "c' = Idle" "q' = q\<lparr>rq_length := rq_length q - 1\<rparr>" "l = Took d" using step by simp_all
    have "prod_inv q' p" using pi unfolding q'(2) prod_inv_length .
    then show ?thesis using Pop_count sh ct hist by (simp add: defs q' shape_inv_def)
  qed (use step sh pi ci ct hist in \<open>auto simp: defs\<close>)
qed

text \<open>The roles of the two threads, as the calls show them.\<close>

definition roles :: "nat \<Rightarrow> nat \<Rightarrow> (nat \<times> 'a label) list \<Rightarrow> bool" where
  "roles producer consumer evs \<longleftrightarrow> (\<forall>(t, l) \<in> set evs. (\<forall>x. l = Called_push x \<longrightarrow> t = producer) \<and> (l = Called_pop \<longrightarrow> t = consumer))"

lemma roles_snoc: "roles p c (evs @ [(t, l)]) \<longleftrightarrow> roles p c evs \<and> (\<forall>x. l = Called_push x \<longrightarrow> t = p) \<and> (l = Called_pop \<longrightarrow> t = c)"
  by (auto simp: roles_def)

lemma roles_alt [code]:
  "roles P C evs \<longleftrightarrow> list_all (\<lambda>(t, l). case l of Called_push x \<Rightarrow> t = P | Called_pop \<Rightarrow> t = C | _ \<Rightarrow> True) evs"
  by (auto simp: roles_def list_all_iff split: label.splits)

lemma thread_step_labels:
  "thread_step sp q pc = Some (pc', q', l) \<Longrightarrow> pc \<noteq> Idle \<and> (\<forall>x. l \<noteq> Called_push x) \<and> l \<noteq> Called_pop"
  by (cases pc) (auto simp: compare_exchange_weak_def compare_exchange_def bind_eq_Some_conv Let_def split: if_splits)

text \<open>\<open>c0\<close> are the elements at the beginning.\<close>

lemma spsc_run:
  assumes "conc_run q0 (\<lambda>_. Idle) evs q ts" "roles P C evs" "P \<noteq> C" "pair_inv q0 Idle Idle c0 []"
  shows "pair_inv q (ts P) (ts C) (c0 @ claims evs) (takes evs) \<and> (\<forall>t. t \<noteq> P \<and> t \<noteq> C \<longrightarrow> ts t = Idle)"
  using assms(1,2)
proof (induction rule: conc_run.induct)
  case run_nil
  then show ?case using assms(4) by simp
next
  case (run_snoc evs q ts ev q' ts')
  obtain t l where ev: "ev = (t, l)" by (cases ev)
  have r: "roles P C evs" "\<And>x. l = Called_push x \<Longrightarrow> t = P" "l = Called_pop \<Longrightarrow> t = C"
    using run_snoc.prems by (simp_all add: ev roles_snoc)
  note ih = run_snoc.IH [OF r(1)]
  from run_snoc.hyps(2) consider
      (push) x where "ts t = Idle" "l = Called_push x" "q' = q" "ts' = ts(t := Push_load_read x)"
    | (pop) "ts t = Idle" "l = Called_pop" "q' = q" "ts' = ts(t := Pop_load_read)"
    | (own) sp pc where "thread_step sp q (ts t) = Some (pc, q', l)" "ts' = ts(t := pc)"
    unfolding ev by (auto elim!: conc_step.cases)
  then show ?case
  proof cases
    case push
    then show ?thesis using ih r(2) assms(3) by (auto simp: pair_inv_def count_inv_def ev)
  next
    case pop
    then show ?thesis using ih r(3) assms(3) by (auto simp: pair_inv_def count_inv_def ev)
  next
    case (own sp pc)
    have "t = P \<or> t = C" using ih thread_step_labels [OF own(1)] by blast
    then show ?thesis
    proof
      assume t: "t = P"
      note s = own [unfolded t]
      from producer_step [of q "ts P" "ts C", OF _ s(1)] ih have p: "pair_inv q' pc (ts C)
          ((c0 @ claims evs) @ (case l of Claimed x \<Rightarrow> [x] | _ \<Rightarrow> [])) (takes evs)" "\<forall>d. l \<noteq> Took d" by blast+
      have "(case l of Took d \<Rightarrow> [d] | _ \<Rightarrow> []) = []" using p(2) by (cases l) auto
      then show ?thesis using p(1) ih s(2) assms(3) by (simp add: ev)
    next
      assume t: "t = C"
      note s = own [unfolded t]
      from consumer_step [of q "ts P" "ts C", OF _ s(1)] ih have p: "pair_inv q' (ts P) pc
          (c0 @ claims evs) (takes evs @ (case l of Took d \<Rightarrow> [d] | _ \<Rightarrow> []))" "\<forall>d. l \<noteq> Claimed d" by blast+
      have "(case l of Claimed d \<Rightarrow> [d] | _ \<Rightarrow> []) = []" using p(2) by (cases l) auto
      then show ?thesis using p(1) ih s(2) assms(3) by (simp add: ev)
    qed
  qed
qed

subsection \<open>Properties\<close>

text \<open>
  C5. One producer and one consumer, whatever the interleaving and however often the weak exchanges fail: the
  values that the pops return are, in order, an initial part of those whose pushes claimed an index; and
  when both threads are between two calls, the queue satisfies the invariant of the sequential model and
  holds exactly the values in between.
\<close>

theorem spsc_queue_is_fifo:
  assumes "rq_new z sz = Inr q0" "unat sz \<le> 2 ^ 31"
    and "conc_run q0 (\<lambda>_. Idle) evs q ts" "roles P C evs" "P \<noteq> C"
  shows "prefix (takes evs) (claims evs)
     \<and> (ts P = Idle \<and> ts C = Idle \<longrightarrow> rq_inv q \<and> claims evs = takes evs @ rq_list q)"
proof -
  have "sz \<noteq> 0" using assms(1) by (auto simp: rq_new_def)
  from rq_new_inv [OF this assms(2), of z] assms(1) have q0: "rq_inv q0" "rq_list q0 = []" by auto
  then have "pair_inv q0 Idle Idle [] []" by (simp add: pair_inv_def shape_inv_def count_inv_def rq_inv_def)
  from spsc_run [OF assms(3-5) this] have p: "pair_inv q (ts P) (ts C) (claims evs) (takes evs)" by simp
  then have "prefix (takes evs) (claims evs)" by (simp add: pair_inv_def)
  moreover have "rq_inv q \<and> claims evs = takes evs @ rq_list q" if "ts P = Idle" "ts C = Idle"
    using p that by (simp add: pair_inv_def shape_inv_def count_inv_def rq_inv_def)
  ultimately show ?thesis by blast
qed

text \<open>A push interleaved with two pops, the first of which finds the queue empty.\<close>

definition demo_queue :: "nat lfrq" where
  "demo_queue = \<lparr>rq_size = 4, rq_length = 0, rq_read_index = 0, rq_write_index = 0, rq_last_write_index = 0,
     rq_queue = replicate 4 0\<rparr>"

lemma demo_queue: "rq_new 0 4 = Inr demo_queue"
  by (simp add: rq_new_def demo_queue_def rq_round_size_def is_power_of_two_def word_le_nat_alt)

definition demo_moves :: "nat move list" where
  "demo_moves = [Do_push 0 7, Do_pop 1, Do_step 1 False, Do_step 0 False, Do_step 0 False, Do_step 1 False,
     Do_step 0 True, Do_step 0 False, Do_step 0 False, Do_step 0 False, Do_step 0 False, Do_step 0 True,
     Do_step 0 False, Do_step 0 False,
     Do_pop 1, Do_step 1 False, Do_step 1 False, Do_step 1 False, Do_step 1 False, Do_step 1 False]"

lemmas run_simps = compare_exchange_weak_def compare_exchange_def index_of_queue_def upd_opt_def nth_opt_def

lemma demo_moves_run:
  "\<exists>evs q ts. conc_exec demo_moves demo_queue (\<lambda>_. Idle) [] = Some (evs, q, ts) \<and> roles 0 1 evs
     \<and> claims evs = [7] \<and> takes evs = [7] \<and> (1, Found_empty) \<in> set evs \<and> ts 0 = Idle \<and> ts 1 = Idle"
  by (simp add: demo_moves_def demo_queue_def run_simps roles_def claims_def takes_def)

theorem spsc_queue_is_fifo_witness:
  "\<exists>evs q ts. conc_run demo_queue (\<lambda>_. Idle) evs q ts \<and> takes evs = [7] \<and> rq_inv q \<and> rq_list q = []"
proof -
  from demo_moves_run obtain evs q ts where r:
    "conc_exec demo_moves demo_queue (\<lambda>_. Idle) [] = Some (evs, q, ts)" "roles 0 1 evs"
    "claims evs = [7]" "takes evs = [7]" "ts 0 = Idle" "ts 1 = Idle" by blast
  have run: "conc_run demo_queue (\<lambda>_. Idle) evs q ts" using conc_exec_run [OF r(1) run_nil] .
  from spsc_queue_is_fifo [OF demo_queue _ run r(2)] r(3-6) have "rq_inv q" "rq_list q = []" by simp_all
  then show ?thesis using run r(4) by blast
qed

text \<open>
  With two producers the queue hands out values that nobody pushed: a run in which thread 0 pushes 1 and
  thread 1 pushes 2 into an empty queue of four slots, and a pop returns the initial content of a slot. The
  second push does not wait for the first one: the failed exchange has replaced its expected index by the
  current one, and it confirms the slot that the first push has claimed but not yet written.
\<close>

theorem two_producers_pop_unwritten_slot:
  "\<exists>evs q ts. conc_run demo_queue (\<lambda>_. Idle) evs q ts \<and> (0, Called_push 1) \<in> set evs \<and> (1, Called_push 2) \<in> set evs
     \<and> claims evs = [1, 2] \<and> takes evs = [0]"
proof -
  let ?moves = "[Do_push 0 1, Do_push 1 2, Do_step 0 False, Do_step 0 False, Do_step 0 False,
    Do_step 1 False, Do_step 1 False, Do_step 1 False, Do_step 1 False, Do_step 1 False, Do_step 1 False,
    Do_step 1 False, Do_pop 2, Do_step 2 False, Do_step 2 False, Do_step 2 False, Do_step 2 False, Do_step 2 False]"
  have "\<exists>evs q ts. conc_exec ?moves demo_queue (\<lambda>_. Idle) [] = Some (evs, q, ts)
     \<and> (0, Called_push 1) \<in> set evs \<and> (1, Called_push 2) \<in> set evs \<and> claims evs = [1, 2] \<and> takes evs = [0]"
    by (simp add: demo_queue_def run_simps claims_def takes_def)
  then show ?thesis using conc_exec_run [OF _ run_nil] by metis
qed

end
