(* ===== verification/WeakMemory.thy ===== *)
theory WeakMemory
  imports Prelude
begin

text \<open>
  The memory of C++ with its orders \<open>relaxed\<close>, \<open>acquire\<close> and \<open>release\<close>, as far as the queue uses it. An atomic
  object is the history of its modifications. A thread may read an old modification, but none older than
  it has seen. A releasing modification carries what its thread has seen and a vector clock; an acquiring
  load takes both over, which is the happens-before order of the language. A plain object has one value, and
  two accesses to it that are not ordered by the clocks are a data race.
\<close>

datatype memory_order = Relaxed | Acquire | Release

record 'x message =
  m_val :: u32
  m_seen :: "'x \<Rightarrow> nat"
  m_clock :: "nat \<Rightarrow> nat"

text \<open>
  Of each plain object: the thread and the time of the last write, and of the reads since; of each thread:
  the oldest modification of each atomic object that it may still read, and its vector clock.
\<close>

record ('x, 'a) memory =
  mem_hist :: "'x \<Rightarrow> 'x message list"
  mem_plain :: "'a list"
  mem_written :: "nat \<Rightarrow> (nat \<times> nat) option"
  mem_reads :: "nat \<Rightarrow> (nat \<times> nat) list"
  mem_seen :: "nat \<Rightarrow> 'x \<Rightarrow> nat"
  mem_clock :: "nat \<Rightarrow> nat \<Rightarrow> nat"

definition join :: "('k \<Rightarrow> nat) \<Rightarrow> ('k \<Rightarrow> nat) \<Rightarrow> 'k \<Rightarrow> nat" where
  "join f g = (\<lambda>k. max (f k) (g k))"

text \<open>A load that reads modification \<open>k\<close>.\<close>

definition atomic_load :: "memory_order \<Rightarrow> nat \<Rightarrow> 'x \<Rightarrow> nat \<Rightarrow> ('x, 'a) memory \<Rightarrow> (u32 \<times> ('x, 'a) memory) option" where
  "atomic_load ord t x k m = do {
     check (mem_seen m t x \<le> k);
     msg \<leftarrow> nth_opt (mem_hist m x) k;
     let seen = (mem_seen m t)(x := k);
     Some (m_val msg,
       if ord = Acquire
       then m\<lparr>mem_seen := (mem_seen m)(t := join seen (m_seen msg)),
              mem_clock := (mem_clock m)(t := join (mem_clock m t) (m_clock msg))\<rparr>
       else m\<lparr>mem_seen := (mem_seen m)(t := seen)\<rparr>)
   }"

text \<open>
  The modification by a read-modify-write operation, which follows the latest one and hands on what that one
  carries (it continues a release sequence).
\<close>

definition atomic_modify :: "memory_order \<Rightarrow> nat \<Rightarrow> 'x \<Rightarrow> u32 \<Rightarrow> ('x, 'a) memory \<Rightarrow> ('x, 'a) memory" where
  "atomic_modify ord t x v m =
     (let n = length (mem_hist m x);
          prev = last (mem_hist m x);
          seen = (mem_seen m t)(x := n);
          msg = (if ord = Release
                 then \<lparr>m_val = v, m_seen = join seen (m_seen prev), m_clock = join (mem_clock m t) (m_clock prev)\<rparr>
                 else \<lparr>m_val = v, m_seen = (m_seen prev)(x := n), m_clock = m_clock prev\<rparr>)
      in m\<lparr>mem_hist := (mem_hist m)(x := mem_hist m x @ [msg]), mem_seen := (mem_seen m)(t := seen)\<rparr>)"

text \<open>
  \<open>compare_exchange_weak\<close>: it succeeds only on the latest value; a failure is a load, which may read any visible
  modification, and also the expected value. The result is success and the new value of \<open>expected\<close>.
\<close>

definition atomic_cas_weak :: "memory_order \<Rightarrow> memory_order \<Rightarrow> nat \<Rightarrow> 'x \<Rightarrow> bool \<Rightarrow> nat \<Rightarrow> u32 \<Rightarrow> u32 \<Rightarrow> ('x, 'a) memory
    \<Rightarrow> (bool \<times> u32 \<times> ('x, 'a) memory) option" where
  "atomic_cas_weak success failure t x ok k expected desired m =
     (if ok
      then do {
        check (mem_hist m x \<noteq> [] \<and> m_val (last (mem_hist m x)) = expected);
        Some (True, expected, atomic_modify success t x desired m)
      }
      else do {
        (v, m1) \<leftarrow> atomic_load failure t x k m;
        Some (False, v, m1)
      })"

text \<open>Plain accesses.\<close>

datatype 'r access = Data_race | Done 'r

definition happened :: "(nat \<Rightarrow> nat) \<Rightarrow> nat \<times> nat \<Rightarrow> bool" where
  "happened clock e = (case e of (t, n) \<Rightarrow> n \<le> clock t)"

definition tick :: "nat \<Rightarrow> (nat \<Rightarrow> nat) \<Rightarrow> nat \<Rightarrow> nat" where
  "tick t clock = clock(t := clock t + 1)"

definition write_happened :: "nat \<Rightarrow> nat \<Rightarrow> ('x, 'a) memory \<Rightarrow> bool" where
  "write_happened t i m = (case mem_written m i of None \<Rightarrow> True | Some e \<Rightarrow> happened (mem_clock m t) e)"

definition plain_load :: "nat \<Rightarrow> nat \<Rightarrow> ('x, 'a) memory \<Rightarrow> ('a \<times> ('x, 'a) memory) access option" where
  "plain_load t i m = do {
     v \<leftarrow> nth_opt (mem_plain m) i;
     let c = tick t (mem_clock m t);
     Some (if write_happened t i m
       then Done (v, m\<lparr>mem_reads := (mem_reads m)(i := (t, c t) # mem_reads m i), mem_clock := (mem_clock m)(t := c)\<rparr>)
       else Data_race)
   }"

definition plain_store :: "nat \<Rightarrow> nat \<Rightarrow> 'a \<Rightarrow> ('x, 'a) memory \<Rightarrow> ('x, 'a) memory access option" where
  "plain_store t i v m = do {
     plain \<leftarrow> upd_opt (mem_plain m) i v;
     let c = tick t (mem_clock m t);
     Some (if write_happened t i m \<and> list_all (happened (mem_clock m t)) (mem_reads m i)
       then Done (m\<lparr>mem_plain := plain, mem_written := (mem_written m)(i := Some (t, c t)),
                    mem_reads := (mem_reads m)(i := []), mem_clock := (mem_clock m)(t := c)\<rparr>)
       else Data_race)
   }"

lemma le_join [simp]: "f k \<le> join f g k" "g k \<le> join f g k"
  by (simp_all add: join_def)

lemma join_le [simp]: "join f g k \<le> n \<longleftrightarrow> f k \<le> n \<and> g k \<le> n"
  by (simp add: join_def)

subsection \<open>What the memory keeps\<close>

text \<open>
  A step that only adds to what a thread has seen. All threads and messages have seen existing modifications, and
  in a memory in which every load acquires, whoever has seen a modification has its clock.
\<close>

definition view_grows :: "nat \<Rightarrow> ('x, 'a) memory \<Rightarrow> ('x, 'a) memory \<Rightarrow> bool" where
  "view_grows t m m' \<longleftrightarrow> mem_hist m' = mem_hist m \<and> mem_plain m' = mem_plain m
     \<and> mem_written m' = mem_written m \<and> mem_reads m' = mem_reads m
     \<and> (\<forall>s. s \<noteq> t \<longrightarrow> mem_seen m' s = mem_seen m s \<and> mem_clock m' s = mem_clock m s)
     \<and> (\<forall>x. mem_seen m t x \<le> mem_seen m' t x) \<and> (\<forall>s. mem_clock m t s \<le> mem_clock m' t s)"

definition view_ok :: "bool \<Rightarrow> ('x \<Rightarrow> 'x message list) \<Rightarrow> ('x \<Rightarrow> nat) \<Rightarrow> (nat \<Rightarrow> nat) \<Rightarrow> bool" where
  "view_ok sync h seen clock \<longleftrightarrow> (\<forall>x. seen x < length (h x)
     \<and> (sync \<longrightarrow> (\<forall>s. m_clock (h x ! seen x) s \<le> clock s)))"

definition mem_ok :: "bool \<Rightarrow> ('x, 'a) memory \<Rightarrow> bool" where
  "mem_ok sync m \<longleftrightarrow> (\<forall>t. view_ok sync (mem_hist m) (mem_seen m t) (mem_clock m t))
     \<and> (\<forall>x. \<forall>msg \<in> set (mem_hist m x). view_ok sync (mem_hist m) (m_seen msg) (m_clock msg))"

text \<open>No thread knows anything of another one.\<close>

definition unsynchronised :: "('x, 'a) memory \<Rightarrow> bool" where
  "unsynchronised m \<longleftrightarrow> (\<forall>t s. s \<noteq> t \<longrightarrow> mem_clock m t s = 0)"

lemma view_okD:
  assumes "view_ok sync h s c"
  shows "s x < length (h x)" "sync \<Longrightarrow> m_clock (h x ! s x) t \<le> c t"
  using assms by (simp_all add: view_ok_def)

lemma view_okI:
  "(\<And>x. s x < length (h x)) \<Longrightarrow> (\<And>x t. sync \<Longrightarrow> m_clock (h x ! s x) t \<le> c t) \<Longrightarrow> view_ok sync h s c"
  by (simp add: view_ok_def)

lemma view_ok_join:
  assumes "view_ok sync h s c" "view_ok sync h s' c'"
  shows "view_ok sync h (join s s') (join c c')"
proof (rule view_okI)
  fix x t
  show "join s s' x < length (h x)" using view_okD(1) [OF assms(1)] view_okD(1) [OF assms(2)] by (simp add: join_def)
  show "m_clock (h x ! join s s' x) t \<le> join c c' t" if sync
    using view_okD(2) [OF assms(1) that, of x t] view_okD(2) [OF assms(2) that, of x t] by (simp add: join_def max_def)
qed

lemma view_ok_clock: "view_ok sync h s c \<Longrightarrow> (\<And>t. c t \<le> c' t) \<Longrightarrow> view_ok sync h s c'"
  unfolding view_ok_def by (meson order_trans)

lemma view_ok_append:
  "view_ok sync h s c \<Longrightarrow> view_ok sync (h(x := h x @ [msg])) s c"
  unfolding view_ok_def by (auto simp: nth_append less_SucI)

lemma atomic_load_run:
  assumes "atomic_load ord t x k m = Some (v, m')" "mem_ok sync m"
    and "sync \<longrightarrow> ord = Acquire \<or> k = mem_seen m t x"
  shows "mem_seen m t x \<le> k" "k < length (mem_hist m x)" "v = m_val (mem_hist m x ! k)"
    "view_grows t m m'" "k \<le> mem_seen m' t x" "mem_ok sync m'" "ord \<noteq> Acquire \<Longrightarrow> unsynchronised m \<Longrightarrow> unsynchronised m'"
proof -
  let ?msg = "mem_hist m x ! k" and ?s = "(mem_seen m t)(x := k)"
  from assms(1) have k: "mem_seen m t x \<le> k" "k < length (mem_hist m x)" "v = m_val ?msg"
    and m': "m' = (if ord = Acquire
       then m\<lparr>mem_seen := (mem_seen m)(t := join ?s (m_seen ?msg)),
              mem_clock := (mem_clock m)(t := join (mem_clock m t) (m_clock ?msg))\<rparr>
       else m\<lparr>mem_seen := (mem_seen m)(t := ?s)\<rparr>)"
    by (auto simp: atomic_load_def nth_opt_def bind_eq_Some_conv Let_def split: if_splits)
  then show "mem_seen m t x \<le> k" "k < length (mem_hist m x)" "v = m_val ?msg" by blast+
  show "view_grows t m m'" "k \<le> mem_seen m' t x" using k(1)
    by (auto simp: m' view_grows_def join_def max_def)
  show "unsynchronised m'" if "ord \<noteq> Acquire" "unsynchronised m"
    using that by (simp add: m' unsynchronised_def)
  have msg: "?msg \<in> set (mem_hist m x)" using k(2) by simp
  then have ok: "view_ok sync (mem_hist m) (mem_seen m t) (mem_clock m t)"
    "view_ok sync (mem_hist m) (m_seen ?msg) (m_clock ?msg)" using assms(2) by (auto simp: mem_ok_def)
  have "view_ok sync (mem_hist m) ?s (join (mem_clock m t) (m_clock ?msg))"
  proof (rule view_okI)
    fix y s
    show "?s y < length (mem_hist m y)" using view_okD(1) [OF ok(1), of y] k(2) by simp
    show "m_clock (mem_hist m y ! ?s y) s \<le> join (mem_clock m t) (m_clock ?msg) s" if sync
      using view_okD(2) [OF ok(1) that, of y s] by (auto simp: join_def le_max_iff_disj)
  qed
  from view_ok_join [OF this ok(2)] have acq: "view_ok sync (mem_hist m) (join ?s (m_seen ?msg)) (join (mem_clock m t) (m_clock ?msg))"
    by (simp add: join_def max.assoc)
  have rlx: "view_ok sync (mem_hist m) ?s (mem_clock m t)" if "ord \<noteq> Acquire"
    using ok(1) k(2) assms(3) that by (auto simp: view_ok_def)
  show "mem_ok sync m'" using assms(2) acq rlx by (simp add: m' mem_ok_def)
qed

text \<open>A releasing modification by a thread that has seen the latest one.\<close>

lemma atomic_modify_run:
  assumes "mem_ok sync m" "mem_seen m t x = length (mem_hist m x) - 1"
    and m': "m' = atomic_modify Release t x v m"
  shows "\<exists>msg. mem_hist m' = (mem_hist m)(x := mem_hist m x @ [msg]) \<and> m_val msg = v
       \<and> (\<forall>s. mem_clock m t s \<le> m_clock msg s)"
    "mem_plain m' = mem_plain m" "mem_written m' = mem_written m" "mem_reads m' = mem_reads m" "mem_clock m' = mem_clock m"
    "mem_seen m' = (mem_seen m)(t := (mem_seen m t)(x := length (mem_hist m x)))" "mem_ok sync m'"
    "unsynchronised m \<Longrightarrow> unsynchronised m'"
proof -
  let ?h = "mem_hist m" let ?n = "length (?h x)" and ?prev = "last (?h x)"
  let ?seen = "(mem_seen m t)(x := ?n)"
  let ?msg = "\<lparr>m_val = v, m_seen = join ?seen (m_seen ?prev), m_clock = join (mem_clock m t) (m_clock ?prev)\<rparr>"
  let ?h' = "?h(x := ?h x @ [?msg])"
  have m': "m' = m\<lparr>mem_hist := ?h', mem_seen := (mem_seen m)(t := ?seen)\<rparr>"
    by (simp add: m' atomic_modify_def Let_def)
  show "\<exists>msg. mem_hist m' = ?h(x := ?h x @ [msg]) \<and> m_val msg = v \<and> (\<forall>s. mem_clock m t s \<le> m_clock msg s)"
    by (intro exI [of _ ?msg]) (simp add: m')
  show "mem_plain m' = mem_plain m" "mem_written m' = mem_written m" "mem_reads m' = mem_reads m" "mem_clock m' = mem_clock m"
    "mem_seen m' = (mem_seen m)(t := ?seen)" "unsynchronised m \<Longrightarrow> unsynchronised m'"
    by (simp_all add: m' unsynchronised_def)
  have ne: "?h x \<noteq> []" using assms(1) by (auto simp: mem_ok_def view_ok_def dest!: spec [of _ x])
  then have prev: "?prev \<in> set (?h x)" "?prev = ?h x ! mem_seen m t x" using assms(2) by (simp_all add: last_conv_nth)
  have ok: "view_ok sync ?h (mem_seen m t) (mem_clock m t)" "view_ok sync ?h (m_seen ?prev) (m_clock ?prev)"
    using assms(1) prev(1) by (auto simp: mem_ok_def)
  then have le: "sync \<longrightarrow> (\<forall>s. m_clock ?prev s \<le> mem_clock m t s)" using prev(2) by (simp add: view_ok_def)
  have t: "view_ok sync ?h' ?seen (mem_clock m t)"
  proof (rule view_okI)
    fix y s
    show "?seen y < length (?h' y)" using view_okD(1) [OF ok(1), of y] by simp
    show "m_clock (?h' y ! ?seen y) s \<le> mem_clock m t s" if sync
      using view_okD(2) [OF ok(1) that, of y s] le that by (simp add: join_def)
  qed
  have "view_ok sync ?h' (join ?seen (m_seen ?prev)) (join (mem_clock m t) (m_clock ?prev))"
    using view_ok_join [OF t view_ok_append [OF ok(2)]] .
  then show "mem_ok sync m'" using assms(1) t by (auto simp: m' mem_ok_def intro: view_ok_append)
qed

lemma mem_ok_tick:
  assumes "mem_ok sync m" "mem_hist m' = mem_hist m" "mem_seen m' = mem_seen m"
    and "mem_clock m' = (mem_clock m)(t := tick t (mem_clock m t))"
  shows "mem_ok sync m'" "unsynchronised m \<Longrightarrow> unsynchronised m'"
proof -
  have "view_ok sync (mem_hist m) (mem_seen m t) (tick t (mem_clock m t))"
    using assms(1) by (auto simp: mem_ok_def tick_def intro: view_ok_clock)
  then show "mem_ok sync m'" using assms by (simp add: mem_ok_def)
  show "unsynchronised m \<Longrightarrow> unsynchronised m'" by (simp add: assms(4) unsynchronised_def tick_def)
qed

end
