(* ===== verification/RingQueueWeak.thy ===== *)
theory RingQueueWeak
  imports RingQueueConc WeakMemory
begin

text \<open>
  The ring queue over the memory of the language, with the orders of the source: its loads are relaxed, its
  exchanges release when they succeed and are relaxed when they fail, and the slots are plain objects. The
  order of the loads is a parameter of the steps, because processors whose loads all acquire (x86) execute
  the same code with stronger loads.
\<close>

subsection \<open>Steps\<close>

datatype index = Read_index | Write_index | Last_write_index

record 'a wqueue =
  wq_size :: u32
  wq_length :: u32
  wq_mem :: "(index, 'a) memory"

definition source_order :: memory_order where "source_order = Relaxed"

text \<open>The queue after its construction, which happens before everything else.\<close>

definition weak_of :: "'a lfrq \<Rightarrow> 'a wqueue" where
  "weak_of q = \<lparr>wq_size = rq_size q, wq_length = rq_length q,
     wq_mem = \<lparr>mem_hist = (\<lambda>x. [\<lparr>m_val = (case x of Read_index \<Rightarrow> rq_read_index q | Write_index \<Rightarrow> rq_write_index q
                                           | Last_write_index \<Rightarrow> rq_last_write_index q),
                                m_seen = (\<lambda>_. 0), m_clock = (\<lambda>_. 0)\<rparr>]),
       mem_plain = rq_queue q, mem_written = (\<lambda>_. None), mem_reads = (\<lambda>_. []),
       mem_seen = (\<lambda>_ _. 0), mem_clock = (\<lambda>_ _. 0)\<rparr>\<rparr>"

text \<open>The latest value of every member.\<close>

definition latest :: "'a wqueue \<Rightarrow> 'a lfrq" where
  "latest q = \<lparr>rq_size = wq_size q, rq_length = wq_length q,
     rq_read_index = m_val (last (mem_hist (wq_mem q) Read_index)),
     rq_write_index = m_val (last (mem_hist (wq_mem q) Write_index)),
     rq_last_write_index = m_val (last (mem_hist (wq_mem q) Last_write_index)), rq_queue = mem_plain (wq_mem q)\<rparr>"

definition windex :: "'a wqueue \<Rightarrow> u32 \<Rightarrow> u32" where
  "windex q index = index AND (wq_size q - 1)"

text \<open>
  A step of thread \<open>t\<close>. The choices are those of the memory: which modification a load reads, and whether a weak
  exchange succeeds; \<open>None\<close> is a choice that the memory does not allow.
\<close>

fun weak_step :: "memory_order \<Rightarrow> nat \<Rightarrow> bool \<Rightarrow> nat \<Rightarrow> 'a wqueue \<Rightarrow> 'a pc \<Rightarrow> ('a pc \<times> 'a wqueue \<times> 'a label) access option" where
  "weak_step lo t ok k q Idle = None"
| "weak_step lo t ok k q (Push_load_read x) = do {
     (current_read_index, m) \<leftarrow> atomic_load lo t Read_index k (wq_mem q);
     Some (Done (Push_load_write x current_read_index, q\<lparr>wq_mem := m\<rparr>, Internal))
   }"
| "weak_step lo t ok k q (Push_load_write x current_read_index) = do {
     (current_write_index, m) \<leftarrow> atomic_load lo t Write_index k (wq_mem q);
     Some (Done (if windex q (current_write_index + 1) = windex q current_read_index
                 then (Idle, q\<lparr>wq_mem := m\<rparr>, Push_returned False)
                 else (Push_cas x current_write_index, q\<lparr>wq_mem := m\<rparr>, Internal)))
   }"
| "weak_step lo t ok k q (Push_cas x current_write_index) = do {
     (success, _, m) \<leftarrow> atomic_cas_weak Release Relaxed t Write_index ok k current_write_index (current_write_index + 1) (wq_mem q);
     Some (Done (if success then (Push_store x current_write_index, q\<lparr>wq_mem := m\<rparr>, Claimed x)
                 else (Push_load_read x, q\<lparr>wq_mem := m\<rparr>, Internal)))
   }"
| "weak_step lo t ok k q (Push_store x current_write_index) = do {
     r \<leftarrow> plain_store t (unat (windex q current_write_index)) x (wq_mem q);
     Some (case r of Data_race \<Rightarrow> Data_race
           | Done m \<Rightarrow> Done (Push_confirm x current_write_index, q\<lparr>wq_mem := m\<rparr>, Internal))
   }"
| "weak_step lo t ok k q (Push_confirm x current_write_index) = do {
     (success, expected, m) \<leftarrow> atomic_cas_weak Release Relaxed t Last_write_index ok k current_write_index (current_write_index + 1) (wq_mem q);
     Some (Done (if success then (Push_count, q\<lparr>wq_mem := m\<rparr>, Internal)
                 else (Push_confirm x expected, q\<lparr>wq_mem := m\<rparr>, Internal)))
   }"
| "weak_step lo t ok k q Push_count = Some (Done (Idle, q\<lparr>wq_length := wq_length q + 1\<rparr>, Push_returned True))"
| "weak_step lo t ok k q Pop_load_read = do {
     (current_read_index, m) \<leftarrow> atomic_load lo t Read_index k (wq_mem q);
     Some (Done (Pop_load_last current_read_index, q\<lparr>wq_mem := m\<rparr>, Internal))
   }"
| "weak_step lo t ok k q (Pop_load_last current_read_index) = do {
     (current_last_write_index, m) \<leftarrow> atomic_load lo t Last_write_index k (wq_mem q);
     Some (Done (if windex q current_last_write_index = windex q current_read_index
                 then (Idle, q\<lparr>wq_mem := m\<rparr>, Found_empty)
                 else (Pop_load_slot current_read_index, q\<lparr>wq_mem := m\<rparr>, Internal)))
   }"
| "weak_step lo t ok k q (Pop_load_slot current_read_index) = do {
     r \<leftarrow> plain_load t (unat (windex q current_read_index)) (wq_mem q);
     Some (case r of Data_race \<Rightarrow> Data_race
           | Done (d, m) \<Rightarrow> Done (Pop_cas current_read_index d, q\<lparr>wq_mem := m\<rparr>, Internal))
   }"
| "weak_step lo t ok k q (Pop_cas current_read_index d) = do {
     (success, _, m) \<leftarrow> atomic_cas_weak Release Relaxed t Read_index ok k current_read_index (current_read_index + 1) (wq_mem q);
     Some (Done (if success then (Pop_count d, q\<lparr>wq_mem := m\<rparr>, Internal)
                 else (Pop_load_read, q\<lparr>wq_mem := m\<rparr>, Internal)))
   }"
| "weak_step lo t ok k q (Pop_count d) = Some (Done (Idle, q\<lparr>wq_length := wq_length q - 1\<rparr>, Took d))"

inductive weak_conc_step :: "memory_order \<Rightarrow> 'a wqueue \<Rightarrow> 'a threads \<Rightarrow> nat \<times> 'a label \<Rightarrow> 'a wqueue \<Rightarrow> 'a threads \<Rightarrow> bool"
  for lo where
  weak_call_push: "ts t = Idle \<Longrightarrow> weak_conc_step lo q ts (t, Called_push x) q (ts(t := Push_load_read x))"
| weak_call_pop: "ts t = Idle \<Longrightarrow> weak_conc_step lo q ts (t, Called_pop) q (ts(t := Pop_load_read))"
| weak_own_step: "weak_step lo t ok k q (ts t) = Some (Done (pc, q', l)) \<Longrightarrow> weak_conc_step lo q ts (t, l) q' (ts(t := pc))"

inductive weak_run :: "memory_order \<Rightarrow> 'a wqueue \<Rightarrow> 'a threads \<Rightarrow> (nat \<times> 'a label) list \<Rightarrow> 'a wqueue \<Rightarrow> 'a threads \<Rightarrow> bool"
  for lo q0 ts0 where
  weak_nil: "weak_run lo q0 ts0 [] q0 ts0"
| weak_snoc: "weak_run lo q0 ts0 evs q ts \<Longrightarrow> weak_conc_step lo q ts ev q' ts' \<Longrightarrow> weak_run lo q0 ts0 (evs @ [ev]) q' ts'"

text \<open>The next step of a thread can be a data race.\<close>

definition racy :: "memory_order \<Rightarrow> 'a wqueue \<Rightarrow> 'a threads \<Rightarrow> nat \<Rightarrow> bool" where
  "racy lo q ts t \<longleftrightarrow> (\<exists>ok k. weak_step lo t ok k q (ts t) = Some Data_race)"

subsection \<open>One producer and one consumer\<close>

text \<open>
  Every index starts at 0 and its k-th modification has the value k (modulo \<open>2 ^ 32\<close>), so the position of the
  latest modification is the index itself without the wrap-around.
\<close>

definition newest :: "('x, 'a) memory \<Rightarrow> 'x \<Rightarrow> nat" where
  "newest m x = length (mem_hist m x) - 1"

definition indexed :: "nat \<Rightarrow> (index, 'a) memory \<Rightarrow> bool" where
  "indexed sz m \<longleftrightarrow> length (mem_plain m) = sz
     \<and> (\<forall>x. mem_hist m x \<noteq> [] \<and> (\<forall>k \<le> newest m x. m_val (mem_hist m x ! k) = of_nat k))
     \<and> newest m Read_index \<le> newest m Last_write_index"

text \<open>
  The producer \<open>P\<close> has seen the latest modification of its own two indices, the consumer \<open>C\<close> of the read index;
  what each has seen of the other's is enough to keep them one round apart. \<open>b\<close> is 1 while a push has
  claimed an index that it has not confirmed.
\<close>

definition prod_view :: "nat \<Rightarrow> nat \<Rightarrow> nat \<Rightarrow> (index, 'a) memory \<Rightarrow> bool" where
  "prod_view P sz b m \<longleftrightarrow> newest m Write_index = newest m Last_write_index + b
     \<and> mem_seen m P Write_index = newest m Write_index \<and> mem_seen m P Last_write_index = newest m Last_write_index
     \<and> newest m Write_index < mem_seen m P Read_index + sz"

definition cons_view :: "nat \<Rightarrow> (index, 'a) memory \<Rightarrow> bool" where
  "cons_view C m \<longleftrightarrow> mem_seen m C Read_index = newest m Read_index \<and> newest m Read_index \<le> mem_seen m C Last_write_index"

text \<open>
  The writes and reads of the slots: the producer wrote the \<open>N\<close> values, the last round of which is in the slots,
  and whoever sees an index confirmed beyond a value has the clock of its write; likewise for the reads
  and the read index.
\<close>

definition written_by :: "nat \<Rightarrow> nat \<Rightarrow> nat \<Rightarrow> (index, 'a) memory \<Rightarrow> bool" where
  "written_by P sz N m \<longleftrightarrow> (\<forall>i t c. mem_written m i = Some (t, c) \<longrightarrow> t = P \<and> c \<le> mem_clock m P P)
     \<and> (\<forall>j < N. N \<le> j + sz \<longrightarrow> (\<exists>c. mem_written m (j mod sz) = Some (P, c) \<and> 0 < c
          \<and> (\<forall>k. j < k \<and> k \<le> newest m Last_write_index \<longrightarrow> c \<le> m_clock (mem_hist m Last_write_index ! k) P)))"

definition read_by :: "nat \<Rightarrow> nat \<Rightarrow> (index, 'a) memory \<Rightarrow> bool" where
  "read_by C sz m \<longleftrightarrow> (\<forall>i t c. (t, c) \<in> set (mem_reads m i) \<longrightarrow> t = C \<and> c \<le> mem_clock m C C
     \<and> (\<exists>j. j mod sz = i \<and> j < newest m Last_write_index
          \<and> (\<forall>k. j < k \<and> k \<le> newest m Read_index \<longrightarrow> c \<le> m_clock (mem_hist m Read_index ! k) C)))"

lemma written_byI:
  assumes "\<And>i t c. mem_written m i = Some (t, c) \<Longrightarrow> t = P \<and> c \<le> mem_clock m P P"
    and "\<And>j. j < N \<Longrightarrow> N \<le> j + sz \<Longrightarrow> \<exists>c. mem_written m (j mod sz) = Some (P, c) \<and> 0 < c
          \<and> (\<forall>k. j < k \<and> k \<le> newest m Last_write_index \<longrightarrow> c \<le> m_clock (mem_hist m Last_write_index ! k) P)"
  shows "written_by P sz N m"
  using assms unfolding written_by_def by blast

lemma written_byD:
  assumes "written_by P sz N m"
  shows "mem_written m i = Some (t, c) \<Longrightarrow> t = P \<and> c \<le> mem_clock m P P"
    "j < N \<Longrightarrow> N \<le> j + sz \<Longrightarrow> \<exists>c. mem_written m (j mod sz) = Some (P, c) \<and> 0 < c
          \<and> (\<forall>k. j < k \<and> k \<le> newest m Last_write_index \<longrightarrow> c \<le> m_clock (mem_hist m Last_write_index ! k) P)"
  using assms unfolding written_by_def by blast+

lemma read_byI:
  assumes "\<And>i t c. (t, c) \<in> set (mem_reads m i) \<Longrightarrow> t = C \<and> c \<le> mem_clock m C C
     \<and> (\<exists>j. j mod sz = i \<and> j < newest m Last_write_index
          \<and> (\<forall>k. j < k \<and> k \<le> newest m Read_index \<longrightarrow> c \<le> m_clock (mem_hist m Read_index ! k) C))"
  shows "read_by C sz m"
  using assms unfolding read_by_def by blast

lemma read_byD:
  assumes "read_by C sz m" "(t, c) \<in> set (mem_reads m i)"
  shows "t = C" "c \<le> mem_clock m C C"
    "\<exists>j. j mod sz = i \<and> j < newest m Last_write_index
       \<and> (\<forall>k. j < k \<and> k \<le> newest m Read_index \<longrightarrow> c \<le> m_clock (mem_hist m Read_index ! k) C)"
  using assms unfolding read_by_def by blast+

definition order_inv :: "memory_order \<Rightarrow> ('x, 'a) memory \<Rightarrow> bool" where
  "order_inv lo m \<longleftrightarrow> mem_ok (lo = Acquire) m \<and> (lo \<noteq> Acquire \<longrightarrow> unsynchronised m)"

definition core :: "memory_order \<Rightarrow> nat \<Rightarrow> nat \<Rightarrow> nat \<Rightarrow> nat \<Rightarrow> nat \<Rightarrow> (index, 'a) memory \<Rightarrow> bool" where
  "core lo P C sz b s m \<longleftrightarrow> indexed sz m \<and> order_inv lo m \<and> prod_view P sz b m \<and> cons_view C m
     \<and> written_by P sz (newest m Last_write_index + s) m \<and> read_by C sz m"

lemma coreD:
  assumes "core lo P C sz b s m"
  shows "indexed sz m" "order_inv lo m" "prod_view P sz b m" "cons_view C m"
    "written_by P sz (newest m Last_write_index + s) m" "read_by C sz m"
  using assms by (simp_all add: core_def)

lemma coreI:
  "indexed sz m \<Longrightarrow> order_inv lo m \<Longrightarrow> prod_view P sz b m \<Longrightarrow> cons_view C m
     \<Longrightarrow> written_by P sz (newest m Last_write_index + s) m \<Longrightarrow> read_by C sz m \<Longrightarrow> core lo P C sz b s m"
  by (simp add: core_def)

lemma order_inv_seen: "order_inv lo m \<Longrightarrow> mem_seen m t x \<le> newest m x"
  using view_okD(1) [of "lo = Acquire" "mem_hist m" "mem_seen m t" "mem_clock m t" x]
  by (simp add: order_inv_def mem_ok_def newest_def)

lemma indexed_length: "indexed sz m \<Longrightarrow> length (mem_hist m x) = Suc (newest m x)"
  by (simp add: indexed_def newest_def)

lemma indexed_last: "indexed sz m \<Longrightarrow> m_val (last (mem_hist m x)) = of_nat (newest m x)"
  by (simp add: indexed_def last_conv_nth newest_def)

text \<open>The values in the slots between the two indices.\<close>

definition ring_values :: "nat \<Rightarrow> (index, 'a) memory \<Rightarrow> 'a list" where
  "ring_values sz m = map (\<lambda>j. mem_plain m ! (j mod sz)) [newest m Read_index ..< newest m Last_write_index]"

text \<open>Growing views keep everything.\<close>

lemma view_grows_same:
  assumes "view_grows t m m'"
  shows "newest m' x = newest m x" "mem_hist m' = mem_hist m" "mem_plain m' = mem_plain m"
    "mem_seen m s x \<le> mem_seen m' s x" "mem_clock m s u \<le> mem_clock m' s u" "ring_values sz m' = ring_values sz m"
    "indexed sz m' = indexed sz m" "mem_written m' = mem_written m" "mem_reads m' = mem_reads m"
proof -
  show "mem_seen m s x \<le> mem_seen m' s x" "mem_clock m s u \<le> mem_clock m' s u"
    using assms by (cases "s = t"; auto simp: view_grows_def)+
qed (use assms in \<open>simp_all add: view_grows_def newest_def ring_values_def indexed_def\<close>)

lemma core_grows:
  assumes "core lo P C sz b s m" "view_grows t m m'" "order_inv lo m'"
  shows "core lo P C sz b s m'"
proof (rule coreI)
  note d = coreD [OF assms(1)] and g = view_grows_same [OF assms(2)]
  have seen: "mem_seen m' u x \<le> newest m x" for u x using order_inv_seen [OF assms(3)] g(1) by simp
  show "indexed sz m'" using d(1) g(7) by simp
  show "prod_view P sz b m'"
    using d(3) seen [of P Write_index] seen [of P Last_write_index] g(4) [of P Write_index] g(4) [of P Last_write_index]
      g(4) [of P Read_index] by (auto simp: prod_view_def g(1))
  show "cons_view C m'"
    using d(4) seen [of C Read_index] g(4) [of C Read_index] g(4) [of C Last_write_index] by (auto simp: cons_view_def g(1))
  show "written_by P sz (newest m' Last_write_index + s) m'" using d(5) g(5) [of P P]
    unfolding written_by_def g(1,2,8) by (blast intro: order_trans)
  show "read_by C sz m'" using d(6) g(5) [of C C] unfolding read_by_def g(1,2,9) by (blast intro: order_trans)
qed (rule assms(3))

text \<open>The producer claims an index, and confirms it; the consumer takes one.\<close>

lemma hist_append:
  assumes "indexed sz m" "mem_hist m' = (mem_hist m)(x := mem_hist m x @ [msg])"
  shows "newest m' y = (if y = x then Suc (newest m x) else newest m y)"
    "k \<le> newest m y \<Longrightarrow> mem_hist m' y ! k = mem_hist m y ! k" "mem_hist m' x ! Suc (newest m x) = msg"
proof -
  have len: "length (mem_hist m z) = Suc (newest m z)" for z using assms(1) by (rule indexed_length)
  have "length (mem_hist m' y) = (if y = x then Suc (Suc (newest m x)) else Suc (newest m y))" by (simp add: assms(2) len)
  then show "newest m' y = (if y = x then Suc (newest m x) else newest m y)" unfolding newest_def [of m'] by simp
  show "mem_hist m' y ! k = mem_hist m y ! k" if "k \<le> newest m y"
    using that len by (cases "y = x") (simp_all add: assms(2) nth_append)
  show "mem_hist m' x ! Suc (newest m x) = msg" by (simp add: assms(2) nth_append len)
qed

lemma indexed_append:
  assumes "indexed sz m" "mem_hist m' = (mem_hist m)(x := mem_hist m x @ [msg])" "m_val msg = of_nat (Suc (newest m x))"
    and "mem_plain m' = mem_plain m" "newest m' Read_index \<le> newest m' Last_write_index"
  shows "indexed sz m'"
proof -
  note h = hist_append [OF assms(1,2)]
  have "m_val (mem_hist m' y ! k) = of_nat k" if "k \<le> newest m' y" for y k
  proof (cases "y = x \<and> k = Suc (newest m x)")
    case True
    then show ?thesis using h(3) assms(3) by simp
  next
    case False
    then have "k \<le> newest m y" using that h(1) by (auto split: if_splits)
    then show ?thesis using h(2) assms(1) by (simp add: indexed_def)
  qed
  then show ?thesis using assms by (auto simp: indexed_def)
qed

lemma modify_order:
  assumes "order_inv lo m" "indexed sz m" "mem_seen m t x = newest m x" "m' = atomic_modify Release t x v m"
  obtains msg where "order_inv lo m'" "mem_hist m' = (mem_hist m)(x := mem_hist m x @ [msg])"
    "m_val msg = v" "mem_plain m' = mem_plain m"
    "mem_written m' = mem_written m" "mem_reads m' = mem_reads m" "mem_clock m' = mem_clock m"
    "mem_seen m' = (mem_seen m)(t := (mem_seen m t)(x := Suc (newest m x)))" "\<forall>s. mem_clock m t s \<le> m_clock msg s"
proof -
  have ok: "mem_ok (lo = Acquire) m" using assms(1) by (simp add: order_inv_def)
  have "mem_seen m t x = length (mem_hist m x) - 1" using assms(3) by (simp add: newest_def)
  note run = atomic_modify_run [OF ok this assms(4)]
  have "order_inv lo m'" using run(7,8) assms(1) by (simp add: order_inv_def)
  moreover note run(1-5) run(6) [unfolded indexed_length [OF assms(2)]]
  ultimately show thesis using that by blast
qed

lemma core_claim:
  assumes c: "core lo P C sz 0 0 m" "P \<noteq> C" and room: "newest m Write_index + 1 < mem_seen m P Read_index + sz"
    and m': "m' = atomic_modify Release P Write_index (of_nat (Suc (newest m Write_index))) m"
  shows "core lo P C sz 1 0 m'" "newest m' Read_index = newest m Read_index" "newest m' Last_write_index = newest m Last_write_index"
    "newest m' Write_index = Suc (newest m Write_index)" "ring_values sz m' = ring_values sz m"
    "mem_seen m' C = mem_seen m C" "mem_plain m' = mem_plain m"
proof -
  note d = coreD [OF c(1)]
  have seen: "mem_seen m P Write_index = newest m Write_index" using d(3) by (simp add: prod_view_def)
  obtain msg where ord: "order_inv lo m'" and r: "mem_hist m' = (mem_hist m)(Write_index := mem_hist m Write_index @ [msg])"
      "m_val msg = of_nat (Suc (newest m Write_index))" "mem_plain m' = mem_plain m"
      "mem_written m' = mem_written m" "mem_reads m' = mem_reads m" "mem_clock m' = mem_clock m"
      "mem_seen m' = (mem_seen m)(P := (mem_seen m P)(Write_index := Suc (newest m Write_index)))"
      "\<forall>s. mem_clock m P s \<le> m_clock msg s"
    by (rule modify_order [OF d(2,1) seen m'])
  note h = hist_append [OF d(1) r(1)]
  show t: "newest m' Read_index = newest m Read_index" "newest m' Last_write_index = newest m Last_write_index"
    "newest m' Write_index = Suc (newest m Write_index)" "mem_plain m' = mem_plain m" using h(1) r(3) by simp_all
  show "ring_values sz m' = ring_values sz m" using t by (simp add: ring_values_def)
  show "mem_seen m' C = mem_seen m C" using r(7) c(2) by simp
  have same: "mem_hist m' Last_write_index = mem_hist m Last_write_index" "mem_hist m' Read_index = mem_hist m Read_index"
    using r(1) by simp_all
  show "core lo P C sz 1 0 m'"
  proof (rule coreI)
    show "indexed sz m'" using d(1) t by (intro indexed_append [OF d(1) r(1)]) (simp_all add: r(2) indexed_def)
    show "order_inv lo m'" by (rule ord)
    show "prod_view P sz 1 m'" using d(3) room by (simp add: prod_view_def t r(7))
    show "cons_view C m'" using d(4) c(2) by (simp add: cons_view_def t r(7))
    show "written_by P sz (newest m' Last_write_index + 0) m'" using d(5) unfolding written_by_def t r(4,6) same .
    show "read_by C sz m'" using d(6) unfolding read_by_def t r(5,6) same .
  qed
qed

lemma core_confirm:
  assumes c: "core lo P C sz 1 1 m" "P \<noteq> C"
    and m': "m' = atomic_modify Release P Last_write_index (of_nat (Suc (newest m Last_write_index))) m"
  shows "core lo P C sz 0 0 m'" "newest m' Read_index = newest m Read_index" "newest m' Last_write_index = Suc (newest m Last_write_index)"
    "ring_values sz m' = ring_values sz m @ [mem_plain m ! (newest m Last_write_index mod sz)]"
    "mem_seen m' C = mem_seen m C" "mem_plain m' = mem_plain m"
proof -
  note d = coreD [OF c(1)]
  have seen: "mem_seen m P Last_write_index = newest m Last_write_index" using d(3) by (simp add: prod_view_def)
  obtain msg where ord: "order_inv lo m'" and r: "mem_hist m' = (mem_hist m)(Last_write_index := mem_hist m Last_write_index @ [msg])"
      "m_val msg = of_nat (Suc (newest m Last_write_index))" "mem_plain m' = mem_plain m"
      "mem_written m' = mem_written m" "mem_reads m' = mem_reads m" "mem_clock m' = mem_clock m"
      "mem_seen m' = (mem_seen m)(P := (mem_seen m P)(Last_write_index := Suc (newest m Last_write_index)))"
      "\<forall>s. mem_clock m P s \<le> m_clock msg s"
    by (rule modify_order [OF d(2,1) seen m'])
  note h = hist_append [OF d(1) r(1)]
  show t: "newest m' Read_index = newest m Read_index" "newest m' Last_write_index = Suc (newest m Last_write_index)"
    "mem_plain m' = mem_plain m" using h(1) r(3) by simp_all
  have w: "newest m' Write_index = newest m Write_index" using h(1) by simp
  have "newest m Read_index \<le> newest m Last_write_index" using d(1) by (simp add: indexed_def)
  then show "ring_values sz m' = ring_values sz m @ [mem_plain m ! (newest m Last_write_index mod sz)]"
    by (simp add: ring_values_def t)
  show "mem_seen m' C = mem_seen m C" using r(7) c(2) by simp
  have same: "mem_hist m' Read_index = mem_hist m Read_index" using r(1) by simp
  show "core lo P C sz 0 0 m'"
  proof (rule coreI)
    show "indexed sz m'" using d(1) t by (intro indexed_append [OF d(1) r(1)]) (simp_all add: r(2) indexed_def)
    show "order_inv lo m'" by (rule ord)
    show "prod_view P sz 0 m'" using d(3) by (simp add: prod_view_def t w r(7))
    show "cons_view C m'" using d(4) c(2) by (simp add: cons_view_def t r(7))
    show "read_by C sz m'" using d(6) unfolding read_by_def t r(5,6) same by (metis less_SucI)
    have "c \<le> m_clock (mem_hist m' Last_write_index ! k) P"
      if "c \<le> mem_clock m P P" "k \<le> Suc (newest m Last_write_index)"
        "k \<le> newest m Last_write_index \<longrightarrow> c \<le> m_clock (mem_hist m Last_write_index ! k) P" for c k
      using that h(2) [of k Last_write_index] h(3) r(8) by (cases "k = Suc (newest m Last_write_index)") (auto intro: order_trans)
    note clk = this
    show "written_by P sz (newest m' Last_write_index + 0) m'"
    proof (rule written_byI, unfold t r(4,6))
      fix j assume "j < Suc (newest m Last_write_index) + 0" "Suc (newest m Last_write_index) + 0 \<le> j + sz"
      with written_byD(2) [OF d(5), of j] obtain c where j: "mem_written m (j mod sz) = Some (P, c)" "0 < c"
        "\<forall>k. j < k \<and> k \<le> newest m Last_write_index \<longrightarrow> c \<le> m_clock (mem_hist m Last_write_index ! k) P" by auto
      from written_byD(1) [OF d(5) j(1)] j clk show "\<exists>c. mem_written m (j mod sz) = Some (P, c) \<and> 0 < c
          \<and> (\<forall>k. j < k \<and> k \<le> Suc (newest m Last_write_index) \<longrightarrow> c \<le> m_clock (mem_hist m' Last_write_index ! k) P)" by blast
    qed (use written_byD(1) [OF d(5)] in blast)
  qed
qed

lemma core_take:
  assumes c: "core lo P C sz b s m" "P \<noteq> C" and some: "newest m Read_index < mem_seen m C Last_write_index"
    and m': "m' = atomic_modify Release C Read_index (of_nat (Suc (newest m Read_index))) m"
  shows "core lo P C sz b s m'" "newest m' Read_index = Suc (newest m Read_index)" "newest m' Last_write_index = newest m Last_write_index"
    "newest m' Write_index = newest m Write_index" "ring_values sz m = mem_plain m ! (newest m Read_index mod sz) # ring_values sz m'"
    "mem_seen m' P = mem_seen m P" "mem_plain m' = mem_plain m"
proof -
  note d = coreD [OF c(1)]
  have seen: "mem_seen m C Read_index = newest m Read_index" using d(4) by (simp add: cons_view_def)
  obtain msg where ord: "order_inv lo m'" and r: "mem_hist m' = (mem_hist m)(Read_index := mem_hist m Read_index @ [msg])"
      "m_val msg = of_nat (Suc (newest m Read_index))" "mem_plain m' = mem_plain m"
      "mem_written m' = mem_written m" "mem_reads m' = mem_reads m" "mem_clock m' = mem_clock m"
      "mem_seen m' = (mem_seen m)(C := (mem_seen m C)(Read_index := Suc (newest m Read_index)))"
      "\<forall>s. mem_clock m C s \<le> m_clock msg s"
    by (rule modify_order [OF d(2,1) seen m'])
  note h = hist_append [OF d(1) r(1)]
  show t: "newest m' Read_index = Suc (newest m Read_index)" "newest m' Last_write_index = newest m Last_write_index"
    "newest m' Write_index = newest m Write_index" "mem_plain m' = mem_plain m" using h(1) r(3) by simp_all
  have lt: "newest m Read_index < newest m Last_write_index"
    using some order_inv_seen [OF d(2), of C Last_write_index] by simp
  then show "ring_values sz m = mem_plain m ! (newest m Read_index mod sz) # ring_values sz m'"
    by (simp add: ring_values_def t upt_conv_Cons)
  show "mem_seen m' P = mem_seen m P" using r(7) c(2) by simp
  have same: "mem_hist m' Last_write_index = mem_hist m Last_write_index" using r(1) by simp
  show "core lo P C sz b s m'"
  proof (rule coreI)
    show "indexed sz m'" using lt t by (intro indexed_append [OF d(1) r(1)]) (simp_all add: r(2))
    show "order_inv lo m'" by (rule ord)
    show "prod_view P sz b m'" using d(3) c(2) by (simp add: prod_view_def t r(7))
    show "cons_view C m'" using some by (simp add: cons_view_def t r(7))
    show "written_by P sz (newest m' Last_write_index + s) m'" using d(5) unfolding written_by_def t r(4,6) same .
    have "c \<le> m_clock (mem_hist m' Read_index ! k) C"
      if "c \<le> mem_clock m C C" "k \<le> Suc (newest m Read_index)"
        "k \<le> newest m Read_index \<longrightarrow> c \<le> m_clock (mem_hist m Read_index ! k) C" for c k
      using that h(2) [of k Read_index] h(3) r(8) by (cases "k = Suc (newest m Read_index)") (auto intro: order_trans)
    then show "read_by C sz m'"
      using read_byD [OF d(6)] by (intro read_byI) (unfold t r(5,6), metis)
  qed
qed

text \<open>Two indices of one round lie in different slots.\<close>

lemma mod_distinct:
  fixes i j sz :: nat
  assumes "i mod sz = j mod sz" "i < j" shows "i + sz \<le> j"
proof -
  have "sz dvd j - i" using assms by (metis less_or_eq_imp_le mod_eq_dvd_iff_nat)
  then show ?thesis using assms(2) by (auto dest: dvd_imp_le)
qed

lemma plain_bounds:
  assumes "core lo P C sz b s m"
  shows "newest m Last_write_index + b < newest m Read_index + sz" "newest m Read_index \<le> newest m Last_write_index" "0 < sz"
    "mem_seen m C Last_write_index \<le> newest m Last_write_index" "mem_seen m P Read_index \<le> newest m Read_index"
proof -
  note d = coreD [OF assms]
  show "mem_seen m C Last_write_index \<le> newest m Last_write_index" "mem_seen m P Read_index \<le> newest m Read_index"
    using order_inv_seen [OF d(2)] by simp_all
  then show "newest m Last_write_index + b < newest m Read_index + sz" using d(3) by (simp add: prod_view_def)
  show "newest m Read_index \<le> newest m Last_write_index" using d(1) by (simp add: indexed_def)
  with \<open>newest m Last_write_index + b < newest m Read_index + sz\<close> show "0 < sz" by simp
qed

text \<open>The producer writes behind the values: when loads acquire, every read of the slot happened before.\<close>

lemma store_ordered:
  assumes "core Acquire P C sz 1 0 m"
  shows "write_happened P (newest m Last_write_index mod sz) m"
    "list_all (happened (mem_clock m P)) (mem_reads m (newest m Last_write_index mod sz))"
proof -
  let ?L = "newest m Last_write_index"
  note d = coreD [OF assms]
  show "write_happened P (?L mod sz) m"
    using written_byD(1) [OF d(5)] by (auto simp: write_happened_def happened_def split: option.split)
  have "c \<le> mem_clock m P t" if r: "(t, c) \<in> set (mem_reads m (?L mod sz))" for t c
  proof -
    from read_byD [OF d(6) r] obtain j where j: "t = C" "j mod sz = ?L mod sz" "j < ?L"
      "\<forall>k. j < k \<and> k \<le> newest m Read_index \<longrightarrow> c \<le> m_clock (mem_hist m Read_index ! k) C" by blast
    from mod_distinct [OF j(2,3)] have "j < mem_seen m P Read_index" using d(3) by (simp add: prod_view_def)
    then have "c \<le> m_clock (mem_hist m Read_index ! mem_seen m P Read_index) C" using j(4) plain_bounds(5) [OF assms] by simp
    also have "\<dots> \<le> mem_clock m P C" using d(2) by (simp add: order_inv_def mem_ok_def view_ok_def)
    finally show ?thesis by (simp add: j(1))
  qed
  then show "list_all (happened (mem_clock m P)) (mem_reads m (?L mod sz))" by (auto simp: list_all_iff happened_def)
qed

lemma core_store:
  assumes c: "core lo P C sz 1 0 m" "P \<noteq> C" and run: "plain_store P (newest m Last_write_index mod sz) x m = Some r"
  shows "lo = Acquire \<Longrightarrow> r \<noteq> Data_race"
    "r = Done m' \<Longrightarrow> core lo P C sz 1 1 m' \<and> mem_hist m' = mem_hist m \<and> mem_seen m' = mem_seen m
       \<and> mem_plain m' = (mem_plain m)[newest m Last_write_index mod sz := x] \<and> ring_values sz m' = ring_values sz m"
proof -
  let ?L = "newest m Last_write_index" let ?i = "?L mod sz"
  note d = coreD [OF c(1)] and b = plain_bounds [OF c(1)]
  show "r \<noteq> Data_race" if "lo = Acquire"
    using run store_ordered [of P C sz m] c(1) that by (auto simp: plain_store_def bind_eq_Some_conv Let_def)
  assume r: "r = Done m'"
  then have m': "m' = m\<lparr>mem_plain := (mem_plain m)[?i := x], mem_written := (mem_written m)(?i := Some (P, mem_clock m P P + 1)),
      mem_reads := (mem_reads m)(?i := []), mem_clock := (mem_clock m)(P := tick P (mem_clock m P))\<rparr>"
    using run by (auto simp: plain_store_def bind_eq_Some_conv Let_def upd_opt_def tick_def split: if_splits)
  then have e: "mem_hist m' = mem_hist m" "mem_seen m' = mem_seen m" "mem_plain m' = (mem_plain m)[?i := x]"
    "mem_written m' = (mem_written m)(?i := Some (P, mem_clock m P P + 1))" "mem_reads m' = (mem_reads m)(?i := [])"
    "mem_clock m' = (mem_clock m)(P := tick P (mem_clock m P))" by simp_all
  have t: "newest m' y = newest m y" for y by (simp add: newest_def e(1))
  have other: "j mod sz \<noteq> ?i" if "j < ?L" "?L < j + sz" for j using mod_distinct [of j sz ?L] that by auto
  have "?i \<noteq> j mod sz" if "newest m Read_index \<le> j" "j < ?L" for j
    using other [of j] b(1) that by (metis add_lessD1 add_less_cancel_right le_less_trans less_trans not_less)
  then have "ring_values sz m' = ring_values sz m" by (auto simp: ring_values_def t e(3))
  moreover have "core lo P C sz 1 1 m'"
  proof (rule coreI)
    show "indexed sz m'" using d(1) by (simp add: indexed_def t e(1,3))
    have "mem_ok (lo = Acquire) m" using d(2) by (simp add: order_inv_def)
    note ok = mem_ok_tick [OF this e(1,2,6)]
    show "order_inv lo m'" using ok d(2) by (simp add: order_inv_def)
    show "prod_view P sz 1 m'" using d(3) by (simp add: prod_view_def t e(2))
    show "cons_view C m'" using d(4) by (simp add: cons_view_def t e(2))
    show "read_by C sz m'"
    proof (rule read_byI, unfold t e(1))
      fix i t0 c0 assume "(t0, c0) \<in> set (mem_reads m' i)"
      then have "(t0, c0) \<in> set (mem_reads m i)" by (simp add: e(5) split: if_splits)
      moreover have "mem_clock m' C C = mem_clock m C C" using c(2) by (simp add: e(6))
      ultimately show "t0 = C \<and> c0 \<le> mem_clock m' C C \<and> (\<exists>j. j mod sz = i \<and> j < ?L
          \<and> (\<forall>k. j < k \<and> k \<le> newest m Read_index \<longrightarrow> c0 \<le> m_clock (mem_hist m Read_index ! k) C))"
        using read_byD [OF d(6)] by metis
    qed
    show "written_by P sz (newest m' Last_write_index + 1) m'"
    proof (rule written_byI, unfold t e(1))
      fix i t0 c0 assume "mem_written m' i = Some (t0, c0)"
      then show "t0 = P \<and> c0 \<le> mem_clock m' P P"
        using written_byD(1) [OF d(5), of i t0 c0] by (auto simp: e(4,6) tick_def split: if_splits)
    next
      fix j assume j: "j < ?L + 1" "?L + 1 \<le> j + sz"
      show "\<exists>c. mem_written m' (j mod sz) = Some (P, c) \<and> 0 < c
        \<and> (\<forall>k. j < k \<and> k \<le> ?L \<longrightarrow> c \<le> m_clock (mem_hist m Last_write_index ! k) P)"
      proof (cases "j = ?L")
        case False
        then have "j mod sz \<noteq> ?i" using other [of j] j by simp
        then show ?thesis using written_byD(2) [OF d(5), of j] j False by (simp add: e(4))
      qed (simp add: e(4))
    qed
  qed
  ultimately show "core lo P C sz 1 1 m' \<and> mem_hist m' = mem_hist m \<and> mem_seen m' = mem_seen m
     \<and> mem_plain m' = (mem_plain m)[?i := x] \<and> ring_values sz m' = ring_values sz m" using e by blast
qed

text \<open>
  The consumer reads the first value: when loads acquire, its write happened before; otherwise the consumer
  knows of no write, and the access is a data race.
\<close>

lemma load_ordered:
  assumes c: "core lo P C sz b s m" "P \<noteq> C" "s \<le> b" and some: "newest m Read_index < mem_seen m C Last_write_index"
  shows "write_happened C (newest m Read_index mod sz) m \<longleftrightarrow> lo = Acquire"
proof -
  let ?R = "newest m Read_index" and ?L = "newest m Last_write_index"
  note d = coreD [OF c(1)] and bd = plain_bounds [OF c(1)]
  from written_byD(2) [OF d(5), of ?R] bd(1,4) c(3) some obtain e where
    e: "mem_written m (?R mod sz) = Some (P, e)" "0 < e"
      "\<forall>k. ?R < k \<and> k \<le> ?L \<longrightarrow> e \<le> m_clock (mem_hist m Last_write_index ! k) P" by auto
  have "e \<le> mem_clock m C P" if "lo = Acquire"
  proof -
    have "e \<le> m_clock (mem_hist m Last_write_index ! mem_seen m C Last_write_index) P" using e(3) some bd(4) by simp
    also have "\<dots> \<le> mem_clock m C P" using d(2) that by (simp add: order_inv_def mem_ok_def view_ok_def)
    finally show ?thesis .
  qed
  moreover have "mem_clock m C P = 0" if "lo \<noteq> Acquire"
    using d(2) that c(2) by (simp add: order_inv_def unsynchronised_def)
  ultimately show ?thesis using e(1,2) by (cases "lo = Acquire") (simp_all add: write_happened_def happened_def)
qed

lemma core_load:
  assumes c: "core lo P C sz b s m" "P \<noteq> C" "s \<le> b" and some: "newest m Read_index < mem_seen m C Last_write_index"
    and run: "plain_load C (newest m Read_index mod sz) m = Some r"
  shows "r = Data_race \<longleftrightarrow> lo \<noteq> Acquire"
    "r = Done (v, m') \<Longrightarrow> v = mem_plain m ! (newest m Read_index mod sz) \<and> core lo P C sz b s m'
       \<and> mem_hist m' = mem_hist m \<and> mem_seen m' = mem_seen m \<and> mem_plain m' = mem_plain m \<and> ring_values sz m' = ring_values sz m"
proof -
  let ?R = "newest m Read_index" let ?i = "?R mod sz"
  note d = coreD [OF c(1)] and b = plain_bounds [OF c(1)]
  show "r = Data_race \<longleftrightarrow> lo \<noteq> Acquire"
    using run load_ordered [OF c some] by (auto simp: plain_load_def bind_eq_Some_conv Let_def)
  assume r: "r = Done (v, m')"
  then have "v = mem_plain m ! ?i" and m': "m' = m\<lparr>mem_reads := (mem_reads m)(?i := (C, mem_clock m C C + 1) # mem_reads m ?i),
      mem_clock := (mem_clock m)(C := tick C (mem_clock m C))\<rparr>"
    using run by (auto simp: plain_load_def bind_eq_Some_conv Let_def nth_opt_def tick_def split: if_splits)
  then have e: "mem_hist m' = mem_hist m" "mem_seen m' = mem_seen m" "mem_plain m' = mem_plain m" "mem_written m' = mem_written m"
    "mem_reads m' = (mem_reads m)(?i := (C, mem_clock m C C + 1) # mem_reads m ?i)"
    "mem_clock m' = (mem_clock m)(C := tick C (mem_clock m C))" by simp_all
  have t: "newest m' y = newest m y" for y by (simp add: newest_def e(1))
  have "core lo P C sz b s m'"
  proof (rule coreI)
    show "indexed sz m'" using d(1) by (simp add: indexed_def t e(1,3))
    have "mem_ok (lo = Acquire) m" using d(2) by (simp add: order_inv_def)
    note ok = mem_ok_tick [OF this e(1,2,6)]
    show "order_inv lo m'" using ok d(2) by (simp add: order_inv_def)
    show "prod_view P sz b m'" using d(3) by (simp add: prod_view_def t e(2))
    show "cons_view C m'" using d(4) by (simp add: cons_view_def t e(2))
    have "mem_clock m' P P = mem_clock m P P" using c(2) by (simp add: e(6))
    note clk = this
    show "written_by P sz (newest m' Last_write_index + s) m'" using d(5) unfolding written_by_def t e(1,4) clk .
    show "read_by C sz m'"
    proof (rule read_byI, unfold t e(1))
      fix i t0 c0 assume "(t0, c0) \<in> set (mem_reads m' i)"
      then consider "(t0, c0) \<in> set (mem_reads m i)" | "i = ?i" "t0 = C" "c0 = mem_clock m C C + 1"
        by (auto simp: e(5) split: if_splits)
      then show "t0 = C \<and> c0 \<le> mem_clock m' C C \<and> (\<exists>j. j mod sz = i \<and> j < newest m Last_write_index
          \<and> (\<forall>k. j < k \<and> k \<le> ?R \<longrightarrow> c0 \<le> m_clock (mem_hist m Read_index ! k) C))"
      proof cases
        case 1
        have "mem_clock m C C \<le> mem_clock m' C C" by (simp add: e(6) tick_def)
        with read_byD(1,2) [OF d(6) 1] have "t0 = C" "c0 \<le> mem_clock m' C C" by simp_all
        then show ?thesis using read_byD(3) [OF d(6) 1] by blast
      next
        case 2
        have "?R < newest m Last_write_index" using some b(4) by simp
        then show ?thesis using 2 by (intro conjI exI [of _ ?R]) (simp_all add: e(6) tick_def)
      qed
    qed
  qed
  then show "v = mem_plain m ! ?i \<and> core lo P C sz b s m' \<and> mem_hist m' = mem_hist m \<and> mem_seen m' = mem_seen m
     \<and> mem_plain m' = mem_plain m \<and> ring_values sz m' = ring_values sz m"
    using \<open>v = mem_plain m ! ?i\<close> e by (simp add: ring_values_def t)
qed

subsection \<open>What holds at each program counter\<close>

text \<open>Loads of the indices.\<close>

lemma core_atomic_load:
  assumes "core lo P C sz b s m" "atomic_load ord t x k m = Some (v, m')"
    and "ord = lo \<or> ord = Relaxed \<and> mem_seen m t x = newest m x"
  shows "core lo P C sz b s m'" "view_grows t m m'" "mem_seen m t x \<le> k" "k \<le> mem_seen m' t x" "k \<le> newest m x" "v = of_nat k"
proof -
  note d = coreD [OF assms(1)]
  have "k < length (mem_hist m x)" "mem_seen m t x \<le> k" using assms(2)
    by (auto simp: atomic_load_def nth_opt_def bind_eq_Some_conv Let_def split: if_splits)
  then have k: "k \<le> newest m x" "mem_seen m t x \<le> k" using indexed_length [OF d(1)] by simp_all
  have ok: "mem_ok (lo = Acquire) m" using d(2) by (simp add: order_inv_def)
  have "lo = Acquire \<longrightarrow> ord = Acquire \<or> k = mem_seen m t x" using assms(3) k by auto
  note r = atomic_load_run [OF assms(2) ok this]
  have "order_inv lo m'" using r(6,7) assms(3) d(2) by (auto simp: order_inv_def)
  then show "core lo P C sz b s m'" by (rule core_grows [OF assms(1) r(4)])
  show "view_grows t m m'" "mem_seen m t x \<le> k" "k \<le> mem_seen m' t x" "k \<le> newest m x" using r k by simp_all
  show "v = of_nat k" using r(3) k(1) d(1) by (simp add: indexed_def)
qed

text \<open>A failing exchange by the thread whose index it is reads the latest value.\<close>

lemma core_cas_weak:
  assumes "core lo P C sz b s m" "mem_seen m t x = newest m x"
    and "atomic_cas_weak Release Relaxed t x ok k expected desired m = Some (success, v, m')"
  obtains "success" "m' = atomic_modify Release t x desired m" "expected = of_nat (newest m x)"
  | "\<not> success" "core lo P C sz b s m'" "view_grows t m m'" "v = of_nat (newest m x)"
proof (cases ok)
  case True
  then show thesis using assms(3) indexed_last [OF coreD(1) [OF assms(1)]] that(1)
    by (auto simp: atomic_cas_weak_def bind_eq_Some_conv split: if_splits)
next
  case False
  then have *: "atomic_load Relaxed t x k m = Some (v, m')" "\<not> success"
    using assms(3) by (auto simp: atomic_cas_weak_def bind_eq_Some_conv)
  note l = core_atomic_load [OF assms(1) *(1)]
  have "k = newest m x" using l(3,5) assms(2) by simp
  then show thesis using l(1,2,6) *(2) assms(2) by (intro that(2)) auto
qed

fun weak_prod_at :: "nat \<Rightarrow> nat \<Rightarrow> (index, 'a) memory \<Rightarrow> 'a pc \<Rightarrow> bool" where
  "weak_prod_at P sz m (Push_load_write x r) \<longleftrightarrow>
     (\<exists>k. r = of_nat k \<and> k \<le> mem_seen m P Read_index \<and> newest m Write_index < k + sz)"
| "weak_prod_at P sz m (Push_cas x w) \<longleftrightarrow>
     w = of_nat (newest m Write_index) \<and> newest m Write_index + 1 < mem_seen m P Read_index + sz"
| "weak_prod_at P sz m (Push_store x w) \<longleftrightarrow> w = of_nat (newest m Last_write_index)"
| "weak_prod_at P sz m (Push_confirm x w) \<longleftrightarrow> w = of_nat (newest m Last_write_index)
     \<and> mem_plain m ! (newest m Last_write_index mod sz) = x"
| "weak_prod_at P sz m pc \<longleftrightarrow> pc \<in> {Idle, Push_count} \<or> (\<exists>x. pc = Push_load_read x)"

fun weak_cons_at :: "memory_order \<Rightarrow> nat \<Rightarrow> nat \<Rightarrow> (index, 'a) memory \<Rightarrow> 'a pc \<Rightarrow> bool" where
  "weak_cons_at lo C sz m (Pop_load_last r) \<longleftrightarrow> r = of_nat (newest m Read_index)"
| "weak_cons_at lo C sz m (Pop_load_slot r) \<longleftrightarrow>
     r = of_nat (newest m Read_index) \<and> newest m Read_index < mem_seen m C Last_write_index"
| "weak_cons_at lo C sz m (Pop_cas r d) \<longleftrightarrow> lo = Acquire
     \<and> r = of_nat (newest m Read_index) \<and> newest m Read_index < mem_seen m C Last_write_index
     \<and> d = mem_plain m ! (newest m Read_index mod sz)"
| "weak_cons_at lo C sz m (Pop_count d) \<longleftrightarrow> lo = Acquire"
| "weak_cons_at lo C sz m pc \<longleftrightarrow> pc \<in> {Idle, Pop_load_read}"

fun stored :: "'a pc \<Rightarrow> nat" where
  "stored (Push_confirm x w) = 1"
| "stored pc = 0"

definition weak_count :: "'a wqueue \<Rightarrow> 'a pc \<Rightarrow> 'a pc \<Rightarrow> bool" where
  "weak_count q p c \<longleftrightarrow> wq_length q
     = of_nat (newest (wq_mem q) Last_write_index) - of_nat (newest (wq_mem q) Read_index)
       + (if inflight_pop c = [] then 0 else 1) - (if p = Push_count then 1 else 0)"

definition weak_inv :: "memory_order \<Rightarrow> nat \<Rightarrow> nat \<Rightarrow> 'a wqueue \<Rightarrow> 'a pc \<Rightarrow> 'a pc \<Rightarrow> 'a list \<Rightarrow> 'a list \<Rightarrow> bool" where
  "weak_inv lo P C q p c claimed taken \<longleftrightarrow> is_power_of_two (wq_size q) \<and> 2 \<le> unat (wq_size q)
     \<and> core lo P C (unat (wq_size q)) (length (inflight_push p)) (stored p) (wq_mem q)
     \<and> weak_prod_at P (unat (wq_size q)) (wq_mem q) p \<and> weak_cons_at lo C (unat (wq_size q)) (wq_mem q) c
     \<and> weak_count q p c
     \<and> claimed = taken @ inflight_pop c @ ring_values (unat (wq_size q)) (wq_mem q) @ inflight_push p
     \<and> (taken \<noteq> [] \<longrightarrow> lo = Acquire)"

text \<open>One thread's facts do not change while the other one works.\<close>

lemma weak_prod_at_same:
  assumes "weak_prod_at P sz m p" "mem_seen m' P = mem_seen m P" "mem_plain m' = mem_plain m"
    "newest m' Write_index = newest m Write_index" "newest m' Last_write_index = newest m Last_write_index"
  shows "weak_prod_at P sz m' p"
  using assms by (cases p) auto

lemma weak_cons_at_same:
  assumes "weak_cons_at lo C sz m c" "mem_seen m' C = mem_seen m C" "newest m' Read_index = newest m Read_index"
    "newest m Read_index < mem_seen m C Last_write_index
       \<Longrightarrow> mem_plain m' ! (newest m Read_index mod sz) = mem_plain m ! (newest m Read_index mod sz)"
  shows "weak_cons_at lo C sz m' c"
  using assms by (cases c) auto

lemma ring_values_first:
  "newest m Read_index < newest m Last_write_index \<Longrightarrow> hd (ring_values sz m) = mem_plain m ! (newest m Read_index mod sz)"
  by (simp add: ring_values_def upt_conv_Cons)

lemma view_grows_other: "view_grows t m m' \<Longrightarrow> s \<noteq> t \<Longrightarrow> mem_seen m' s = mem_seen m s"
  by (auto simp: view_grows_def)

text \<open>Indices by their positions.\<close>

lemma unat_windex:
  assumes "is_power_of_two (wq_size q)"
  shows "unat (windex q (of_nat k)) = k mod unat (wq_size q)"
proof -
  obtain e where e: "e < 32" "unat (wq_size q) = 2 ^ e" using assms by (auto simp: is_power_of_two_iff)
  have "windex q i = index_of_queue (latest q) i" for i by (simp add: windex_def index_of_queue_def latest_def)
  then have "unat (windex q (of_nat k)) = unat (of_nat k :: u32) mod unat (wq_size q)"
    using unat_index_of_queue [of "latest q"] assms by (simp add: latest_def)
  also have "\<dots> = k mod unat (wq_size q)" using e mod_pow2_mod_u32 [of e k] by (simp add: unat_of_nat take_bit_eq_mod)
  finally show ?thesis .
qed

lemma windex_eq:
  "is_power_of_two (wq_size q) \<Longrightarrow> windex q (of_nat j) = windex q (of_nat k) \<longleftrightarrow> j mod unat (wq_size q) = k mod unat (wq_size q)"
  by (simp add: word_unat_eq_iff unat_windex)

lemma weak_full:
  assumes "is_power_of_two (wq_size q)" "w < k + unat (wq_size q)"
    and "windex q (of_nat w + 1) \<noteq> windex q (of_nat k)"
  shows "w + 1 < k + unat (wq_size q)"
proof -
  have "(of_nat w + 1 :: u32) = of_nat (w + 1)" by simp
  then have "(w + 1) mod unat (wq_size q) \<noteq> k mod unat (wq_size q)" using windex_eq [OF assms(1), of "w + 1" k] assms(3) by metis
  then have "w + 1 \<noteq> k + unat (wq_size q)" by (metis mod_add_self2)
  then show ?thesis using assms(2) by simp
qed

lemma weak_some:
  assumes "is_power_of_two (wq_size q)" "windex q (of_nat k) \<noteq> windex q (of_nat r)" "r \<le> k"
  shows "r < k"
  using assms windex_eq [OF assms(1), of k r] by (cases "r = k") auto

text \<open>The two plain accesses.\<close>

lemma weak_store_cases:
  assumes "weak_step lo t ok k q (Push_store x w) = Some r"
  obtains "plain_store t (unat (windex q w)) x (wq_mem q) = Some Data_race" "r = Data_race"
  | m where "plain_store t (unat (windex q w)) x (wq_mem q) = Some (Done m)"
      "r = Done (Push_confirm x w, q\<lparr>wq_mem := m\<rparr>, Internal)"
proof -
  from assms obtain a where a: "plain_store t (unat (windex q w)) x (wq_mem q) = Some a"
    "r = (case a of Data_race \<Rightarrow> Data_race | Done m \<Rightarrow> Done (Push_confirm x w, q\<lparr>wq_mem := m\<rparr>, Internal))"
    by (auto simp: bind_eq_Some_conv)
  then show thesis using that by (cases a) simp_all
qed

lemma weak_load_cases:
  assumes "weak_step lo t ok k q (Pop_load_slot i) = Some r"
  obtains "plain_load t (unat (windex q i)) (wq_mem q) = Some Data_race" "r = Data_race"
  | d m where "plain_load t (unat (windex q i)) (wq_mem q) = Some (Done (d, m))"
      "r = Done (Pop_cas i d, q\<lparr>wq_mem := m\<rparr>, Internal)"
proof -
  from assms obtain a where a: "plain_load t (unat (windex q i)) (wq_mem q) = Some a"
    "r = (case a of Data_race \<Rightarrow> Data_race | Done (d, m) \<Rightarrow> Done (Pop_cas i d, q\<lparr>wq_mem := m\<rparr>, Internal))"
    by (auto simp: bind_eq_Some_conv)
  then show thesis using that by (cases a) (auto split: prod.splits)
qed

lemma weak_invD:
  assumes "weak_inv lo P C q p c claimed taken"
  shows "is_power_of_two (wq_size q)" "2 \<le> unat (wq_size q)"
    "core lo P C (unat (wq_size q)) (length (inflight_push p)) (stored p) (wq_mem q)"
    "weak_prod_at P (unat (wq_size q)) (wq_mem q) p" "weak_cons_at lo C (unat (wq_size q)) (wq_mem q) c" "weak_count q p c"
    "claimed = taken @ inflight_pop c @ ring_values (unat (wq_size q)) (wq_mem q) @ inflight_push p"
    "taken \<noteq> [] \<longrightarrow> lo = Acquire"
  using assms by (simp_all add: weak_inv_def)

lemmas weak_defs = weak_inv_def weak_count_def

subsection \<open>The producer\<close>

text \<open>A step that only looks.\<close>

lemma weak_producer_looks:
  assumes inv: "weak_inv lo P C q p c claimed taken" "P \<noteq> C"
    and g: "view_grows P (wq_mem q) m" "core lo P C (unat (wq_size q)) (length (inflight_push p)) (stored p) m"
      "weak_prod_at P (unat (wq_size q)) m p'"
    and p': "inflight_push p' = inflight_push p" "stored p' = stored p" "(p' = Push_count) = (p = Push_count)"
  shows "weak_inv lo P C (q\<lparr>wq_mem := m\<rparr>) p' c claimed taken"
proof -
  note d = weak_invD [OF inv(1)]
  have "weak_cons_at lo C (unat (wq_size q)) m c"
    using view_grows_other [OF g(1)] view_grows_same [OF g(1)] inv(2) by (intro weak_cons_at_same [OF d(5)]) simp_all
  then show ?thesis using d g p' view_grows_same [OF g(1)] by (simp add: weak_defs)
qed

lemma weak_claim:
  assumes inv: "weak_inv lo P C q (Push_cas x w) c claimed taken" "P \<noteq> C"
  shows "weak_inv lo P C (q\<lparr>wq_mem := atomic_modify Release P Write_index (w + 1) (wq_mem q)\<rparr>) (Push_store x w) c (claimed @ [x]) taken"
proof -
  note d = weak_invD [OF inv(1)]
  let ?m = "atomic_modify Release P Write_index (w + 1) (wq_mem q)"
  have co: "core lo P C (unat (wq_size q)) 0 0 (wq_mem q)" using d(3) by simp
  have room: "newest (wq_mem q) Write_index + 1 < mem_seen (wq_mem q) P Read_index + unat (wq_size q)"
    and w: "w = of_nat (newest (wq_mem q) Write_index)" using d(4) by simp_all
  have m: "?m = atomic_modify Release P Write_index (of_nat (Suc (newest (wq_mem q) Write_index))) (wq_mem q)"
    by (simp add: w add.commute)
  note t = core_claim [OF co inv(2) room m]
  have "weak_cons_at lo C (unat (wq_size q)) ?m c" using t by (intro weak_cons_at_same [OF d(5)]) simp_all
  moreover have "newest (wq_mem q) Write_index = newest (wq_mem q) Last_write_index" using co by (simp add: core_def prod_view_def)
  ultimately show ?thesis using d t w by (simp add: weak_defs)
qed

lemma weak_store:
  assumes inv: "weak_inv lo P C q (Push_store x w) c claimed taken" "P \<noteq> C"
    and s: "plain_store P (unat (windex q w)) x (wq_mem q) = Some r"
  shows "lo = Acquire \<Longrightarrow> r \<noteq> Data_race"
    "r = Done m \<Longrightarrow> weak_inv lo P C (q\<lparr>wq_mem := m\<rparr>) (Push_confirm x w) c claimed taken"
proof -
  note d = weak_invD [OF inv(1)]
  let ?sz = "unat (wq_size q)" and ?m = "wq_mem q" let ?L = "newest ?m Last_write_index" and ?R = "newest ?m Read_index"
  have co: "core lo P C ?sz 1 0 ?m" using d(3) by simp
  have s: "plain_store P (?L mod ?sz) x ?m = Some r" using s d(4) unat_windex [OF d(1)] by simp
  show "r \<noteq> Data_race" if "lo = Acquire" by (rule core_store(1) [OF co inv(2) s that])
  assume "r = Done m"
  from core_store(2) [OF co inv(2) s this] have t: "core lo P C ?sz 1 1 m" "mem_hist m = mem_hist ?m" "mem_seen m = mem_seen ?m"
    "mem_plain m = (mem_plain ?m)[?L mod ?sz := x]" "ring_values ?sz m = ring_values ?sz ?m" by blast+
  have n: "newest m y = newest ?m y" for y by (simp add: newest_def t(2))
  have "weak_cons_at lo C ?sz m c"
  proof (rule weak_cons_at_same [OF d(5)])
    assume "?R < mem_seen ?m C Last_write_index"
    then have "?R < ?L" using plain_bounds(4) [OF co] by simp
    then show "mem_plain m ! (?R mod ?sz) = mem_plain ?m ! (?R mod ?sz)"
      using ring_values_first [of ?m ?sz] ring_values_first [of m ?sz] by (simp add: n t(5))
  qed (simp_all add: n t(3))
  moreover have "?L mod ?sz < length (mem_plain ?m)" using coreD(1) [OF co] d(2) by (simp add: indexed_def)
  ultimately show "weak_inv lo P C (q\<lparr>wq_mem := m\<rparr>) (Push_confirm x w) c claimed taken"
    using d t n by (simp add: weak_defs)
qed

lemma weak_confirm:
  assumes inv: "weak_inv lo P C q (Push_confirm x w) c claimed taken" "P \<noteq> C"
  shows "weak_inv lo P C (q\<lparr>wq_mem := atomic_modify Release P Last_write_index (w + 1) (wq_mem q)\<rparr>) Push_count c claimed taken"
proof -
  note d = weak_invD [OF inv(1)]
  let ?m = "atomic_modify Release P Last_write_index (w + 1) (wq_mem q)"
  have co: "core lo P C (unat (wq_size q)) 1 1 (wq_mem q)" using d(3) by simp
  have "?m = atomic_modify Release P Last_write_index (of_nat (Suc (newest (wq_mem q) Last_write_index))) (wq_mem q)"
    using d(4) by (simp add: add.commute)
  note t = core_confirm [OF co inv(2) this]
  have "weak_cons_at lo C (unat (wq_size q)) ?m c" using t by (intro weak_cons_at_same [OF d(5)]) simp_all
  then show ?thesis using d t by (simp add: weak_defs)
qed

lemma weak_producer:
  assumes inv: "weak_inv lo P C q p c claimed taken" and PC: "P \<noteq> C" and step: "weak_step lo P ok k q p = Some r"
  shows "lo = Acquire \<Longrightarrow> r \<noteq> Data_race"
    "r = Done (p', q', l) \<Longrightarrow> weak_inv lo P C q' p' c (claimed @ (case l of Claimed x \<Rightarrow> [x] | _ \<Rightarrow> [])) taken \<and> (\<forall>d. l \<noteq> Took d)"
proof -
  note d = weak_invD [OF inv] note co = d(3) note looks = weak_producer_looks [OF inv PC]
  let ?sz = "unat (wq_size q)" let ?m = "wq_mem q"
  have own: "mem_seen ?m P Write_index = newest ?m Write_index" "mem_seen ?m P Last_write_index = newest ?m Last_write_index"
    "newest ?m Write_index < mem_seen ?m P Read_index + ?sz" using coreD(3) [OF co] by (simp_all add: prod_view_def)
  show "r \<noteq> Data_race" if "lo = Acquire"
  proof (cases p)
    case (Push_store x w)
    note s = step [unfolded Push_store] inv [unfolded Push_store]
    from s(1) show ?thesis using weak_store(1) [OF s(2) PC _ that] by (cases rule: weak_store_cases) auto
  qed (use step d(4) in \<open>auto simp: bind_eq_Some_conv Let_def\<close>)
  assume r: "r = Done (p', q', l)"
  show "weak_inv lo P C q' p' c (claimed @ (case l of Claimed x \<Rightarrow> [x] | _ \<Rightarrow> [])) taken \<and> (\<forall>d. l \<noteq> Took d)"
  proof (cases p)
    case (Push_load_read x)
    then obtain v m1 where s: "atomic_load lo P Read_index k ?m = Some (v, m1)"
      and e: "p' = Push_load_write x v" "q' = q\<lparr>wq_mem := m1\<rparr>" "l = Internal"
      using step r by (auto simp: bind_eq_Some_conv)
    note a = core_atomic_load [OF co s disjI1 [OF refl]]
    have "weak_prod_at P ?sz m1 p'" using a own(3) view_grows_same(1) [OF a(2)] by (auto simp: e)
    then show ?thesis using looks [OF a(2,1)] Push_load_read by (simp add: e)
  next
    case (Push_load_write x i)
    then obtain v m1 where s: "atomic_load lo P Write_index k ?m = Some (v, m1)"
      and e: "q' = q\<lparr>wq_mem := m1\<rparr>" "l = Push_returned False \<or> l = Internal"
        "p' = (if windex q (v + 1) = windex q i then Idle else Push_cas x v)"
      using step r by (auto simp: bind_eq_Some_conv split: if_splits)
    note a = core_atomic_load [OF co s disjI1 [OF refl]] and g = view_grows_same [OF a(2)]
    have v: "v = of_nat (newest ?m Write_index)" using a(3,5,6) own(1) by simp
    obtain j where j: "i = of_nat j" "j \<le> mem_seen ?m P Read_index" "newest ?m Write_index < j + ?sz"
      using d(4) unfolding Push_load_write weak_prod_at.simps by blast
    have "weak_prod_at P ?sz m1 p'"
    proof (cases "windex q (v + 1) = windex q i")
      case False
      then have "newest ?m Write_index + 1 < j + ?sz" using weak_full [OF d(1) j(3)] v j(1) by simp
      then show ?thesis using False v j(2) g(4) [of P Read_index] g(1) by (simp add: e(3))
    qed (simp add: e(3))
    then show ?thesis using looks [OF a(2,1)] Push_load_write e by auto
  next
    case (Push_cas x w)
    then obtain success v m1 where s: "atomic_cas_weak Release Relaxed P Write_index ok k w (w + 1) ?m = Some (success, v, m1)"
      and e: "p' = (if success then Push_store x w else Push_load_read x)" "q' = q\<lparr>wq_mem := m1\<rparr>"
        "l = (if success then Claimed x else Internal)"
      using step r by (auto simp: bind_eq_Some_conv split: if_splits)
    from core_cas_weak [OF co own(1) s] show ?thesis
    proof cases
      case 1
      then show ?thesis using weak_claim [OF inv [unfolded Push_cas] PC] by (simp add: e)
    next
      case 2
      then show ?thesis using looks [OF 2(3,2)] Push_cas by (simp add: e)
    qed
  next
    case (Push_store x w)
    note s = step [unfolded Push_store] inv [unfolded Push_store]
    from s(1) show ?thesis using weak_store(2) [OF s(2) PC _ refl] r by (cases rule: weak_store_cases) auto
  next
    case (Push_confirm x w)
    then obtain success v m1 where s: "atomic_cas_weak Release Relaxed P Last_write_index ok k w (w + 1) ?m = Some (success, v, m1)"
      and e: "p' = (if success then Push_count else Push_confirm x v)" "q' = q\<lparr>wq_mem := m1\<rparr>" "l = Internal"
      using step r by (auto simp: bind_eq_Some_conv split: if_splits)
    from core_cas_weak [OF co own(2) s] show ?thesis
    proof cases
      case 1
      then show ?thesis using weak_confirm [OF inv [unfolded Push_confirm] PC] by (simp add: e)
    next
      case 2
      have "weak_prod_at P ?sz m1 p'" using 2 d(4) Push_confirm view_grows_same [OF 2(3)] by (simp add: e)
      then show ?thesis using 2 looks [OF 2(3,2)] Push_confirm by (simp add: e)
    qed
  next
    case Push_count
    then show ?thesis using step r d by (auto simp: weak_defs)
  qed (use step d(4) in auto)
qed

subsection \<open>The consumer\<close>

lemma inflight_stored: "stored p \<le> length (inflight_push p)"
  by (cases p) simp_all

lemma weak_consumer_looks:
  assumes inv: "weak_inv lo P C q p c claimed taken" "P \<noteq> C"
    and g: "view_grows C (wq_mem q) m" "core lo P C (unat (wq_size q)) (length (inflight_push p)) (stored p) m"
      "weak_cons_at lo C (unat (wq_size q)) m c'"
    and c': "inflight_pop c' = inflight_pop c"
  shows "weak_inv lo P C (q\<lparr>wq_mem := m\<rparr>) p c' claimed taken"
proof -
  note d = weak_invD [OF inv(1)]
  have "weak_prod_at P (unat (wq_size q)) m p"
    using view_grows_other [OF g(1)] view_grows_same [OF g(1)] inv(2) by (intro weak_prod_at_same [OF d(4)]) simp_all
  then show ?thesis using d g c' view_grows_same [OF g(1)] by (simp add: weak_defs)
qed

lemma weak_load:
  assumes inv: "weak_inv lo P C q p (Pop_load_slot i) claimed taken" "P \<noteq> C"
    and s: "plain_load C (unat (windex q i)) (wq_mem q) = Some r"
  shows "r = Data_race \<longleftrightarrow> lo \<noteq> Acquire"
    "r = Done (v, m) \<Longrightarrow> weak_inv lo P C (q\<lparr>wq_mem := m\<rparr>) p (Pop_cas i v) claimed taken"
proof -
  note d = weak_invD [OF inv(1)]
  let ?sz = "unat (wq_size q)" and ?m = "wq_mem q" let ?R = "newest ?m Read_index"
  have i: "i = of_nat ?R" and some: "?R < mem_seen ?m C Last_write_index" using d(5) by simp_all
  have s: "plain_load C (?R mod ?sz) ?m = Some r" using s i unat_windex [OF d(1)] by simp
  note l = core_load [OF d(3) inv(2) inflight_stored some s]
  show "r = Data_race \<longleftrightarrow> lo \<noteq> Acquire" by (rule l(1))
  assume r: "r = Done (v, m)"
  from l(2) [OF r] have t: "v = mem_plain ?m ! (?R mod ?sz)" "core lo P C ?sz (length (inflight_push p)) (stored p) m"
    "mem_hist m = mem_hist ?m" "mem_seen m = mem_seen ?m" "mem_plain m = mem_plain ?m" "ring_values ?sz m = ring_values ?sz ?m" by blast+
  have n: "newest m y = newest ?m y" for y by (simp add: newest_def t(3))
  have "weak_prod_at P ?sz m p" using t n by (intro weak_prod_at_same [OF d(4)]) simp_all
  then show "weak_inv lo P C (q\<lparr>wq_mem := m\<rparr>) p (Pop_cas i v) claimed taken" using d t n l(1) r some by (simp add: weak_defs)
qed

lemma weak_take:
  assumes inv: "weak_inv lo P C q p (Pop_cas i x) claimed taken" "P \<noteq> C"
  shows "weak_inv lo P C (q\<lparr>wq_mem := atomic_modify Release C Read_index (i + 1) (wq_mem q)\<rparr>) p (Pop_count x) claimed taken"
proof -
  note d = weak_invD [OF inv(1)]
  let ?m = "atomic_modify Release C Read_index (i + 1) (wq_mem q)"
  have i: "newest (wq_mem q) Read_index < mem_seen (wq_mem q) C Last_write_index" "i = of_nat (newest (wq_mem q) Read_index)"
    using d(5) by simp_all
  have "?m = atomic_modify Release C Read_index (of_nat (Suc (newest (wq_mem q) Read_index))) (wq_mem q)"
    using i(2) by (simp add: add.commute)
  note t = core_take [OF d(3) inv(2) i(1) this]
  have "weak_prod_at P (unat (wq_size q)) ?m p" using t by (intro weak_prod_at_same [OF d(4)]) simp_all
  then show ?thesis using d t by (simp add: weak_defs)
qed

lemma weak_consumer:
  assumes inv: "weak_inv lo P C q p c claimed taken" and PC: "P \<noteq> C" and step: "weak_step lo C ok k q c = Some r"
  shows "r = Data_race \<longleftrightarrow> lo \<noteq> Acquire \<and> (\<exists>i. c = Pop_load_slot i)"
    "r = Done (c', q', l) \<Longrightarrow> weak_inv lo P C q' p c' claimed (taken @ (case l of Took x \<Rightarrow> [x] | _ \<Rightarrow> [])) \<and> (\<forall>x. l \<noteq> Claimed x)"
proof -
  note d = weak_invD [OF inv] note co = d(3) note looks = weak_consumer_looks [OF inv PC]
  let ?sz = "unat (wq_size q)" let ?m = "wq_mem q"
  have own: "mem_seen ?m C Read_index = newest ?m Read_index" "newest ?m Read_index \<le> mem_seen ?m C Last_write_index"
    using coreD(4) [OF co] by (simp_all add: cons_view_def)
  show "r = Data_race \<longleftrightarrow> lo \<noteq> Acquire \<and> (\<exists>i. c = Pop_load_slot i)"
  proof (cases c)
    case (Pop_load_slot i)
    note s = step [unfolded Pop_load_slot] inv [unfolded Pop_load_slot]
    from s(1) show ?thesis using weak_load(1) [OF s(2) PC] Pop_load_slot by (cases rule: weak_load_cases) auto
  qed (use step d(5) in \<open>auto simp: bind_eq_Some_conv Let_def\<close>)
  assume r: "r = Done (c', q', l)"
  show "weak_inv lo P C q' p c' claimed (taken @ (case l of Took x \<Rightarrow> [x] | _ \<Rightarrow> [])) \<and> (\<forall>x. l \<noteq> Claimed x)"
  proof (cases c)
    case Pop_load_read
    then obtain v m1 where s: "atomic_load lo C Read_index k ?m = Some (v, m1)"
      and e: "c' = Pop_load_last v" "q' = q\<lparr>wq_mem := m1\<rparr>" "l = Internal"
      using step r by (auto simp: bind_eq_Some_conv)
    note a = core_atomic_load [OF co s disjI1 [OF refl]]
    have "k = newest ?m Read_index" using a(3,5) own(1) by simp
    then have "weak_cons_at lo C ?sz m1 c'" using a(6) view_grows_same(1) [OF a(2)] by (simp add: e)
    then show ?thesis using looks [OF a(2,1)] Pop_load_read by (simp add: e)
  next
    case (Pop_load_last i)
    then obtain v m1 where s: "atomic_load lo C Last_write_index k ?m = Some (v, m1)"
      and e: "q' = q\<lparr>wq_mem := m1\<rparr>" "l = Found_empty \<or> l = Internal"
        "c' = (if windex q v = windex q i then Idle else Pop_load_slot i)"
      using step r by (auto simp: bind_eq_Some_conv split: if_splits)
    note a = core_atomic_load [OF co s disjI1 [OF refl]] and g = view_grows_same [OF a(2)]
    have i: "i = of_nat (newest ?m Read_index)" using d(5) Pop_load_last by simp
    have "newest ?m Read_index \<le> k" using a(3) own(2) by simp
    with weak_some [OF d(1)] i a(6) have "windex q v \<noteq> windex q i \<Longrightarrow> newest ?m Read_index < k" by blast
    then have "weak_cons_at lo C ?sz m1 c'" using i a(4) g(1) by (auto simp: e(3))
    then show ?thesis using looks [OF a(2,1)] Pop_load_last e by auto
  next
    case (Pop_load_slot i)
    note s = step [unfolded Pop_load_slot] inv [unfolded Pop_load_slot]
    from s(1) show ?thesis using weak_load(2) [OF s(2) PC _ refl] r by (cases rule: weak_load_cases) auto
  next
    case (Pop_cas i x)
    then obtain success v m1 where s: "atomic_cas_weak Release Relaxed C Read_index ok k i (i + 1) ?m = Some (success, v, m1)"
      and e: "c' = (if success then Pop_count x else Pop_load_read)" "q' = q\<lparr>wq_mem := m1\<rparr>" "l = Internal"
      using step r by (auto simp: bind_eq_Some_conv split: if_splits)
    from core_cas_weak [OF co own(1) s] show ?thesis
    proof cases
      case 1
      then show ?thesis using weak_take [OF inv [unfolded Pop_cas] PC] by (simp add: e)
    next
      case 2
      then show ?thesis using looks [OF 2(3,2)] Pop_cas by (simp add: e)
    qed
  next
    case (Pop_count x)
    then show ?thesis using step r d by (auto simp: weak_defs)
  qed (use step d(5) in auto)
qed

subsection \<open>Runs\<close>

lemma weak_step_labels:
  assumes "weak_step lo t ok k q pc = Some (Done (pc', q', l))"
  shows "pc \<noteq> Idle \<and> (\<forall>x. l \<noteq> Called_push x) \<and> l \<noteq> Called_pop"
proof (cases pc)
  case (Push_store x w)
  from assms [unfolded Push_store] show ?thesis using Push_store by (cases rule: weak_store_cases) simp_all
next
  case (Pop_load_slot i)
  from assms [unfolded Pop_load_slot] show ?thesis using Pop_load_slot by (cases rule: weak_load_cases) simp_all
qed (use assms in \<open>auto simp: bind_eq_Some_conv split: if_splits\<close>)

lemma weak_spsc_run:
  assumes "weak_run lo q0 (\<lambda>_. Idle) evs q ts" "roles P C evs" "P \<noteq> C" "weak_inv lo P C q0 Idle Idle [] []"
  shows "weak_inv lo P C q (ts P) (ts C) (claims evs) (takes evs) \<and> (\<forall>t. t \<noteq> P \<and> t \<noteq> C \<longrightarrow> ts t = Idle)"
  using assms(1,2)
proof (induction rule: weak_run.induct)
  case weak_nil
  then show ?case using assms(4) by simp
next
  case (weak_snoc evs q ts ev q' ts')
  obtain t l where ev: "ev = (t, l)" by (cases ev)
  have r: "roles P C evs" "\<And>x. l = Called_push x \<Longrightarrow> t = P" "l = Called_pop \<Longrightarrow> t = C"
    using weak_snoc.prems by (simp_all add: ev roles_snoc)
  note ih = weak_snoc.IH [OF r(1)]
  from weak_snoc.hyps(2) consider
      (push) x where "ts t = Idle" "l = Called_push x" "q' = q" "ts' = ts(t := Push_load_read x)"
    | (pop) "ts t = Idle" "l = Called_pop" "q' = q" "ts' = ts(t := Pop_load_read)"
    | (own) ok k pc where "weak_step lo t ok k q (ts t) = Some (Done (pc, q', l))" "ts' = ts(t := pc)"
    unfolding ev by (auto elim!: weak_conc_step.cases)
  then show ?case
  proof cases
    case push
    then show ?thesis using ih r(2) assms(3) by (auto simp: weak_defs ev)
  next
    case pop
    then show ?thesis using ih r(3) assms(3) by (auto simp: weak_defs ev)
  next
    case (own ok k pc)
    have "t = P \<or> t = C" using ih weak_step_labels [OF own(1)] by blast
    then show ?thesis
    proof
      assume t: "t = P"
      note s = own [unfolded t]
      from weak_producer(2) [OF _ assms(3) s(1) refl] ih have p: "weak_inv lo P C q' pc (ts C)
          (claims evs @ (case l of Claimed x \<Rightarrow> [x] | _ \<Rightarrow> [])) (takes evs)" "\<forall>d. l \<noteq> Took d" by blast+
      have "(case l of Took d \<Rightarrow> [d] | _ \<Rightarrow> []) = []" using p(2) by (cases l) auto
      then show ?thesis using p(1) ih s(2) assms(3) by (simp add: ev)
    next
      assume t: "t = C"
      note s = own [unfolded t]
      from weak_consumer(2) [OF _ assms(3) s(1) refl] ih have p: "weak_inv lo P C q' (ts P) pc
          (claims evs) (takes evs @ (case l of Took d \<Rightarrow> [d] | _ \<Rightarrow> []))" "\<forall>d. l \<noteq> Claimed d" by blast+
      have "(case l of Claimed d \<Rightarrow> [d] | _ \<Rightarrow> []) = []" using p(2) by (cases l) auto
      then show ?thesis using p(1) ih s(2) assms(3) by (simp add: ev)
    qed
  qed
qed

text \<open>The new queue.\<close>

lemma weak_of_new:
  assumes "rq_new z sz = Inr q0" "unat sz \<le> 2 ^ 31"
  shows "weak_inv lo P C (weak_of q0) Idle Idle [] []"
proof -
  have "sz \<noteq> 0" using assms(1) by (auto simp: rq_new_def)
  from rq_new_inv [OF this assms(2), of z] assms(1) have q0: "rq_inv q0" by auto
  have i: "rq_length q0 = 0" "rq_read_index q0 = 0" "rq_write_index q0 = 0" "rq_last_write_index q0 = 0"
    using assms(1) by (auto simp: rq_new_def split: if_splits)
  let ?m = "wq_mem (weak_of q0)"
  have h: "length (mem_hist ?m x) = 1" "m_val (mem_hist ?m x ! 0) = 0" for x
    using i by (simp_all add: weak_of_def split: index.split)
  have n: "newest ?m x = 0" for x by (simp add: newest_def h)
  have "core lo P C (unat (rq_size q0)) 0 0 ?m"
  proof (rule coreI)
    have "mem_hist ?m x \<noteq> []" for x using h(1) [of x] by auto
    moreover have "length (mem_plain ?m) = unat (rq_size q0)" using q0 by (simp add: rq_inv_def weak_of_def)
    ultimately show "indexed (unat (rq_size q0)) ?m" by (simp add: indexed_def n h(2))
    show "order_inv lo ?m" by (simp add: order_inv_def mem_ok_def view_ok_def unsynchronised_def weak_of_def)
    show "prod_view P (unat (rq_size q0)) 0 ?m" using q0 by (simp add: prod_view_def n) (simp add: weak_of_def rq_inv_def)
    show "cons_view C ?m" by (simp add: cons_view_def n) (simp add: weak_of_def)
    show "written_by P (unat (rq_size q0)) (newest ?m Last_write_index + 0) ?m" by (simp add: written_by_def n) (simp add: weak_of_def)
    show "read_by C (unat (rq_size q0)) ?m" by (simp add: read_by_def weak_of_def)
  qed
  moreover have "wq_size (weak_of q0) = rq_size q0" "wq_length (weak_of q0) = 0" using i by (simp_all add: weak_of_def)
  ultimately show ?thesis using q0 by (simp add: weak_defs n ring_values_def rq_inv_def)
qed

text \<open>Between two calls the latest values are a queue of the sequential model.\<close>

lemma weak_latest:
  assumes "weak_inv lo P C q Idle Idle claimed taken"
  shows "rq_inv (latest q)" "claimed = taken @ rq_list (latest q)"
proof -
  note d = weak_invD [OF assms]
  let ?sz = "unat (wq_size q)" and ?m = "wq_mem q" let ?L = "newest ?m Last_write_index" and ?R = "newest ?m Read_index"
  have co: "core lo P C ?sz 0 0 ?m" using d(3) by simp
  note c = coreD [OF co] and b = plain_bounds [OF co]
  have ix: "rq_read_index (latest q) = of_nat ?R" "rq_last_write_index (latest q) = of_nat ?L"
    "rq_write_index (latest q) = of_nat ?L" "rq_size (latest q) = wq_size q" "rq_queue (latest q) = mem_plain ?m"
    using c(3) indexed_last [OF c(1)] by (simp_all add: latest_def prod_view_def)
  have "(of_nat ?L - of_nat ?R :: u32) = of_nat (?L - ?R)" using b(2) by simp
  moreover have "?L - ?R < ?sz" using b(1,2) by arith
  ultimately have n: "unat (of_nat ?L - of_nat ?R :: u32) = ?L - ?R" "?L - ?R < ?sz"
    using unat_u32_less [of "wq_size q"] by (simp_all add: unat_of_nat take_bit_eq_mod)
  show "rq_inv (latest q)" using d n c(1) ix
    by (simp add: rq_inv_def weak_count_def indexed_def) (simp add: latest_def)
  have "unat (index_of_queue (latest q) (of_nat ?R + of_nat j)) = (?R + j) mod ?sz" for j
    using unat_windex [OF d(1), of "?R + j"] by (simp add: index_of_queue_def windex_def ix)
  moreover have "[?R ..< ?L] = map (\<lambda>j. ?R + j) [0 ..< ?L - ?R]" using map_add_upt [of ?R "?L - ?R"] b(2) by (simp add: add.commute)
  ultimately have "rq_list (latest q) = ring_values ?sz ?m"
    by (simp add: rq_list_def ring_values_def ix n(1) comp_def)
  then show "claimed = taken @ rq_list (latest q)" using d(7) by simp
qed

text \<open>A schedule with the choices of the memory.\<close>

datatype 'a weak_move = Start_push nat 'a | Start_pop nat | Weak_step nat bool nat

fun weak_exec :: "memory_order \<Rightarrow> 'a weak_move list \<Rightarrow> 'a wqueue \<Rightarrow> 'a threads \<Rightarrow> (nat \<times> 'a label) list
    \<Rightarrow> ((nat \<times> 'a label) list \<times> 'a wqueue \<times> 'a threads) option" where
  "weak_exec lo [] q ts evs = Some (evs, q, ts)"
| "weak_exec lo (Start_push t x # ms) q ts evs =
     (case ts t of Idle \<Rightarrow> weak_exec lo ms q (ts(t := Push_load_read x)) (evs @ [(t, Called_push x)]) | _ \<Rightarrow> None)"
| "weak_exec lo (Start_pop t # ms) q ts evs =
     (case ts t of Idle \<Rightarrow> weak_exec lo ms q (ts(t := Pop_load_read)) (evs @ [(t, Called_pop)]) | _ \<Rightarrow> None)"
| "weak_exec lo (Weak_step t ok k # ms) q ts evs = (case weak_step lo t ok k q (ts t) of
     Some (Done (pc, q1, l)) \<Rightarrow> weak_exec lo ms q1 (ts(t := pc)) (evs @ [(t, l)]) | _ \<Rightarrow> None)"

lemma weak_exec_run:
  "weak_exec lo ms q ts evs = Some (evs', q', ts') \<Longrightarrow> weak_run lo q0 ts0 evs q ts \<Longrightarrow> weak_run lo q0 ts0 evs' q' ts'"
proof (induction ms arbitrary: q ts evs)
  case (Cons mv ms)
  show ?case
  proof (cases mv)
    case (Start_push t x)
    with Cons.prems(1) have s: "ts t = Idle"
      "weak_exec lo ms q (ts(t := Push_load_read x)) (evs @ [(t, Called_push x)]) = Some (evs', q', ts')"
      by (auto split: pc.splits)
    show ?thesis by (rule Cons.IH [OF s(2) weak_snoc [OF Cons.prems(2) weak_call_push [of ts t, OF s(1)]]])
  next
    case (Start_pop t)
    with Cons.prems(1) have s: "ts t = Idle"
      "weak_exec lo ms q (ts(t := Pop_load_read)) (evs @ [(t, Called_pop)]) = Some (evs', q', ts')"
      by (auto split: pc.splits)
    show ?thesis by (rule Cons.IH [OF s(2) weak_snoc [OF Cons.prems(2) weak_call_pop [of ts t, OF s(1)]]])
  next
    case (Weak_step t ok k)
    with Cons.prems(1) obtain pc q1 l where s: "weak_step lo t ok k q (ts t) = Some (Done (pc, q1, l))"
      "weak_exec lo ms q1 (ts(t := pc)) (evs @ [(t, l)]) = Some (evs', q', ts')"
      by (auto split: option.splits access.splits)
    have "weak_run lo q0 ts0 (evs @ [(t, l)]) q1 (ts(t := pc))"
      using Cons.prems(2) weak_own_step [of lo t ok k q ts, OF s(1)] by (rule weak_snoc)
    with Cons.IH [OF s(2)] show ?thesis .
  qed
qed simp

subsection \<open>The interleaving model\<close>

text \<open>
  A memory that always gives the latest value is one of the allowed ones: each step of the interleaving model is
  a step here, with the same effect on the latest values, unless it is a data race.
\<close>

lemma latest_load:
  assumes "order_inv lo' (wq_mem q)" "mem_hist (wq_mem q) x \<noteq> []"
  shows "\<exists>m. atomic_load ord t x (newest (wq_mem q) x) (wq_mem q) = Some (m_val (last (mem_hist (wq_mem q) x)), m)
     \<and> latest (q\<lparr>wq_mem := m\<rparr>) = latest q"
  using assms order_inv_seen [OF assms(1), of t x]
  by (simp add: atomic_load_def nth_opt_def newest_def latest_def last_conv_nth Let_def)

lemma latest_modify:
  "latest (q\<lparr>wq_mem := atomic_modify ord t Read_index v (wq_mem q)\<rparr>) = latest q\<lparr>rq_read_index := v\<rparr>"
  "latest (q\<lparr>wq_mem := atomic_modify ord t Write_index v (wq_mem q)\<rparr>) = latest q\<lparr>rq_write_index := v\<rparr>"
  "latest (q\<lparr>wq_mem := atomic_modify ord t Last_write_index v (wq_mem q)\<rparr>) = latest q\<lparr>rq_last_write_index := v\<rparr>"
  by (simp_all add: latest_def atomic_modify_def Let_def)

lemma latest_plain:
  "latest (q\<lparr>wq_mem := (wq_mem q)\<lparr>mem_plain := xs, mem_written := w, mem_reads := r, mem_clock := c\<rparr>\<rparr>) = latest q\<lparr>rq_queue := xs\<rparr>"
  "latest (q\<lparr>wq_mem := (wq_mem q)\<lparr>mem_reads := r, mem_clock := c\<rparr>\<rparr>) = latest q"
  "latest (q\<lparr>wq_length := n\<rparr>) = latest q\<lparr>rq_length := n\<rparr>"
  by (simp_all add: latest_def)

lemma windex_latest: "index_of_queue (latest q) i = windex q i"
  by (simp add: index_of_queue_def latest_def windex_def)

lemma latest_cas:
  assumes "order_inv lo' (wq_mem q)" "mem_hist (wq_mem q) x \<noteq> []"
    and "compare_exchange_weak sp (m_val (last (mem_hist (wq_mem q) x))) expected desired = (success, v, e)"
  shows "\<exists>ok m. atomic_cas_weak Release Relaxed t x ok (newest (wq_mem q) x) expected desired (wq_mem q) = Some (success, e, m)
     \<and> (if success then m = atomic_modify Release t x desired (wq_mem q) \<and> v = desired else latest (q\<lparr>wq_mem := m\<rparr>) = latest q)"
proof (cases success)
  case True
  then have "m_val (last (mem_hist (wq_mem q) x)) = expected" "v = desired" "e = expected"
    using assms(3) by (auto simp: compare_exchange_weak_def compare_exchange_def split: if_splits)
  then show ?thesis using True assms(2) by (intro exI [of _ True]) (simp add: atomic_cas_weak_def)
next
  case False
  then have "e = m_val (last (mem_hist (wq_mem q) x))"
    using assms(3) by (auto simp: compare_exchange_weak_def compare_exchange_def split: if_splits)
  then show ?thesis using False latest_load [OF assms(1,2), of Relaxed t]
    by (intro exI [of _ False]) (auto simp: atomic_cas_weak_def)
qed

lemma interleaved_step_is_weak:
  assumes ok: "order_inv lo' (wq_mem q)" "\<And>x. mem_hist (wq_mem q) x \<noteq> []"
    and step: "thread_step sp (latest q) pc = Some (pc', q1, l)"
  shows "\<exists>ok k. weak_step lo t ok k q pc = Some Data_race
     \<or> (\<exists>q'. weak_step lo t ok k q pc = Some (Done (pc', q', l)) \<and> latest q' = q1)"
proof -
  note load = latest_load [OF ok, of lo t] and cas = latest_cas [OF ok, of sp]
  have ix: "rq_read_index (latest q) = m_val (last (mem_hist (wq_mem q) Read_index))"
    "rq_write_index (latest q) = m_val (last (mem_hist (wq_mem q) Write_index))"
    "rq_last_write_index (latest q) = m_val (last (mem_hist (wq_mem q) Last_write_index))"
    "rq_queue (latest q) = mem_plain (wq_mem q)" "rq_length (latest q) = wq_length q" by (simp_all add: latest_def)
  show ?thesis
  proof (cases pc)
    case (Push_load_read x)
    then show ?thesis using step load [of Read_index] by (auto simp: ix intro!: exI [of _ "newest (wq_mem q) Read_index"])
  next
    case (Push_load_write x i)
    then show ?thesis using step load [of Write_index]
      by (auto simp: ix windex_latest Let_def split: if_splits intro!: exI [of _ "newest (wq_mem q) Write_index"])
  next
    case Pop_load_read
    then show ?thesis using step load [of Read_index] by (auto simp: ix intro!: exI [of _ "newest (wq_mem q) Read_index"])
  next
    case (Pop_load_last i)
    then show ?thesis using step load [of Last_write_index]
      by (auto simp: ix windex_latest split: if_splits intro!: exI [of _ "newest (wq_mem q) Last_write_index"])
  next
    case (Push_cas x w)
    obtain success v e where c: "compare_exchange_weak sp (rq_write_index (latest q)) w (w + 1) = (success, v, e)" by (metis prod_cases3)
    from cas [OF this [unfolded ix], of t] obtain ok m where
      "atomic_cas_weak Release Relaxed t Write_index ok (newest (wq_mem q) Write_index) w (w + 1) (wq_mem q) = Some (success, e, m)"
      "if success then m = atomic_modify Release t Write_index (w + 1) (wq_mem q) \<and> v = w + 1 else latest (q\<lparr>wq_mem := m\<rparr>) = latest q" by blast
    then show ?thesis using step Push_cas c
      by (intro exI [of _ ok] exI [of _ "newest (wq_mem q) Write_index"]) (auto simp: latest_modify split: if_splits)
  next
    case (Push_confirm x w)
    obtain success v e where c: "compare_exchange_weak sp (rq_last_write_index (latest q)) w (w + 1) = (success, v, e)" by (metis prod_cases3)
    from cas [OF this [unfolded ix], of t] obtain ok m where
      "atomic_cas_weak Release Relaxed t Last_write_index ok (newest (wq_mem q) Last_write_index) w (w + 1) (wq_mem q) = Some (success, e, m)"
      "if success then m = atomic_modify Release t Last_write_index (w + 1) (wq_mem q) \<and> v = w + 1 else latest (q\<lparr>wq_mem := m\<rparr>) = latest q" by blast
    then show ?thesis using step Push_confirm c
      by (intro exI [of _ ok] exI [of _ "newest (wq_mem q) Last_write_index"]) (auto simp: latest_modify split: if_splits)
  next
    case (Pop_cas i x)
    obtain success v e where c: "compare_exchange_weak sp (rq_read_index (latest q)) i (i + 1) = (success, v, e)" by (metis prod_cases3)
    from cas [OF this [unfolded ix], of t] obtain ok m where
      "atomic_cas_weak Release Relaxed t Read_index ok (newest (wq_mem q) Read_index) i (i + 1) (wq_mem q) = Some (success, e, m)"
      "if success then m = atomic_modify Release t Read_index (i + 1) (wq_mem q) \<and> v = i + 1 else latest (q\<lparr>wq_mem := m\<rparr>) = latest q" by blast
    then show ?thesis using step Pop_cas c
      by (intro exI [of _ ok] exI [of _ "newest (wq_mem q) Read_index"]) (auto simp: latest_modify split: if_splits)
  qed (use step in \<open>auto simp: bind_eq_Some_conv windex_latest ix plain_store_def plain_load_def upd_opt_def nth_opt_def Let_def latest_plain split: if_splits\<close>)
qed

subsection \<open>Properties\<close>

text \<open>
  C6. One producer and one consumer on a machine whose loads all acquire (the exchanges of the source release):
  although a load may return an old index and a weak exchange may fail, no access to a slot is a data
  race, the pops return an initial part of the values whose pushes claimed an index, in order, and between
  two calls the latest values form a queue of the sequential model with exactly the values in between.
\<close>

theorem acquire_queue_is_fifo:
  assumes "rq_new z sz = Inr q0" "unat sz \<le> 2 ^ 31"
    and "weak_run Acquire (weak_of q0) (\<lambda>_. Idle) evs q ts" "roles P C evs" "P \<noteq> C"
  shows "(\<forall>t. \<not> racy Acquire q ts t) \<and> prefix (takes evs) (claims evs)
     \<and> (ts P = Idle \<and> ts C = Idle \<longrightarrow> rq_inv (latest q) \<and> claims evs = takes evs @ rq_list (latest q))"
proof (intro conjI allI impI)
  from weak_spsc_run [OF assms(3-5) weak_of_new [OF assms(1,2)]]
  have inv: "weak_inv Acquire P C q (ts P) (ts C) (claims evs) (takes evs)" and idle: "\<And>t. t \<noteq> P \<and> t \<noteq> C \<Longrightarrow> ts t = Idle"
    by blast+
  show "prefix (takes evs) (claims evs)" using weak_invD(7) [OF inv] by simp
  show "\<not> racy Acquire q ts t" for t
  proof
    assume "racy Acquire q ts t"
    then obtain ok k where race: "weak_step Acquire t ok k q (ts t) = Some Data_race" by (auto simp: racy_def)
    consider "t = P" | "t = C" | "ts t = Idle" using idle by blast
    then show False
    proof cases
      case 1
      then show ?thesis using weak_producer(1) [OF inv assms(5), of ok k] race by blast
    next
      case 2
      then show ?thesis using weak_consumer(1) [OF inv assms(5), of ok k] race by blast
    qed (use race in simp)
  qed
  assume "ts P = Idle \<and> ts C = Idle"
  then have "weak_inv Acquire P C q Idle Idle (claims evs) (takes evs)" using inv by simp
  from weak_latest [OF this] show "rq_inv (latest q)" "claims evs = takes evs @ rq_list (latest q)" by blast+
qed

text \<open>
  A push is over, one pop still reads the old index and finds the queue empty, the next one takes the value.
\<close>

definition demo_weak_moves :: "nat weak_move list" where
  "demo_weak_moves = [Start_push 0 7, Weak_step 0 True 0, Weak_step 0 True 0, Weak_step 0 False 0,
     Weak_step 0 True 0, Weak_step 0 True 0, Weak_step 0 True 0, Weak_step 0 True 0, Weak_step 0 True 0, Weak_step 0 True 0,
     Start_pop 1, Weak_step 1 True 0, Weak_step 1 True 0,
     Start_pop 1, Weak_step 1 True 0, Weak_step 1 True 1, Weak_step 1 True 0, Weak_step 1 True 0, Weak_step 1 True 0]"

lemma demo_weak_moves_run:
  "case weak_exec Acquire demo_weak_moves (weak_of demo_queue) (\<lambda>_. Idle) [] of None \<Rightarrow> False
   | Some (evs, q, ts) \<Rightarrow> roles 0 1 evs \<and> takes evs = [7] \<and> (1, Found_empty) \<in> set evs \<and> ts 0 = Idle \<and> ts 1 = Idle"
  by code_simp

theorem acquire_queue_is_fifo_witness:
  "\<exists>evs q ts. weak_run Acquire (weak_of demo_queue) (\<lambda>_. Idle) evs q ts \<and> takes evs = [7] \<and> (1, Found_empty) \<in> set evs
     \<and> (\<forall>t. \<not> racy Acquire q ts t) \<and> claims evs = 7 # rq_list (latest q)"
proof -
  from demo_weak_moves_run obtain evs q ts where r:
    "weak_exec Acquire demo_weak_moves (weak_of demo_queue) (\<lambda>_. Idle) [] = Some (evs, q, ts)" "roles 0 1 evs"
    "takes evs = [7]" "(1, Found_empty) \<in> set evs" "ts 0 = Idle" "ts 1 = Idle" by (auto split: option.splits)
  have run: "weak_run Acquire (weak_of demo_queue) (\<lambda>_. Idle) evs q ts" using weak_exec_run [OF r(1) weak_nil] .
  from acquire_queue_is_fifo [OF demo_queue _ run r(2)] r(3-6) run show ?thesis by (intro exI [of _ evs] exI [of _ q] exI [of _ ts]) simp
qed

text \<open>
  C7. With the orders that the source writes, a queue between two threads synchronises nothing: let one thread be the only
  one that pushes and another one the only one that pops. The loads are relaxed, so the popping thread never
  learns that the write of a slot happened before: whenever its pop has found the queue not empty, its access
  to the slot is a data race, whatever the memory chooses, and no pop ever returns a value without one.
  (A thread that pops what it has pushed itself does not race, see \<open>one_thread_does_not_race\<close>.)
\<close>

theorem relaxed_queue_always_races:
  assumes "rq_new z sz = Inr q0" "unat sz \<le> 2 ^ 31"
    and "weak_run source_order (weak_of q0) (\<lambda>_. Idle) evs q ts" "roles P C evs" "P \<noteq> C"
  shows "takes evs = [] \<and> (\<forall>i ok k. ts C = Pop_load_slot i \<longrightarrow> weak_step source_order C ok k q (ts C) = Some Data_race)"
proof -
  from weak_spsc_run [OF assms(3-5) weak_of_new [OF assms(1,2)]]
  have inv: "weak_inv source_order P C q (ts P) (ts C) (claims evs) (takes evs)" by blast
  have lo: "source_order \<noteq> Acquire" by (simp add: source_order_def)
  then have "takes evs = []" using weak_invD(8) [OF inv] by blast
  moreover have "weak_step source_order C ok k q (ts C) = Some Data_race" if s: "ts C = Pop_load_slot i" for i ok k
  proof -
    note d = weak_invD [OF inv]
    have "i = of_nat (newest (wq_mem q) Read_index)" using d(5) s by simp
    then have "unat (windex q i) < length (mem_plain (wq_mem q))"
      using unat_windex [OF d(1)] d(2) coreD(1) [OF d(3)] by (simp add: indexed_def)
    then obtain r where r: "weak_step source_order C ok k q (ts C) = Some r" by (auto simp: s plain_load_def nth_opt_def Let_def)
    then show ?thesis using weak_consumer(1) [OF inv assms(5)] lo s by simp
  qed
  ultimately show ?thesis by blast
qed

lemma one_thread_does_not_race:
  "case weak_exec source_order
       (Start_push 0 7 # replicate 6 (Weak_step 0 True 0) @ Start_pop 0 # Weak_step 0 True 0 # Weak_step 0 True 1 # replicate 3 (Weak_step 0 True 0))
       (weak_of demo_queue) (\<lambda>_. Idle) [] of
     None \<Rightarrow> False | Some (evs, q, ts) \<Rightarrow> takes evs = [7] \<and> ts 0 = Idle"
  by code_simp

lemma demo_race_run:
  "case weak_exec source_order (take 15 demo_weak_moves @ [Weak_step 1 True 1]) (weak_of demo_queue) (\<lambda>_. Idle) [] of
     None \<Rightarrow> False
   | Some (evs, q, ts) \<Rightarrow> roles 0 1 evs \<and> (0, Push_returned True) \<in> set evs \<and> ts 1 = Pop_load_slot 0"
  by code_simp

theorem relaxed_queue_always_races_witness:
  "\<exists>evs q ts. weak_run source_order (weak_of demo_queue) (\<lambda>_. Idle) evs q ts \<and> (0, Push_returned True) \<in> set evs
     \<and> racy source_order q ts 1"
proof -
  from demo_race_run obtain evs q ts where r:
    "weak_exec source_order (take 15 demo_weak_moves @ [Weak_step 1 True 1]) (weak_of demo_queue) (\<lambda>_. Idle) [] = Some (evs, q, ts)"
    "roles 0 1 evs" "(0, Push_returned True) \<in> set evs" "ts 1 = Pop_load_slot 0" by (auto split: option.splits)
  have run: "weak_run source_order (weak_of demo_queue) (\<lambda>_. Idle) evs q ts" using weak_exec_run [OF r(1) weak_nil] .
  from relaxed_queue_always_races [OF demo_queue _ run r(2)] r(4) have "racy source_order q ts 1" by (auto simp: racy_def)
  then show ?thesis using run r(3) by blast
qed

end
