(* ===== verification/PoolConc.thy ===== *)
theory PoolConc
  imports RingQueueConc MemPool "HOL-Library.Multiset"
begin

text \<open>
  The memory pool between threads: \<open>MemBlock::alloc\<close> is a pop and \<open>MemBlock::free\<close> a push of the queue inside, so the threads
  of the program interleave in the accesses of RingQueueConc. A pool is correct when no block is handed out to
  a second user before the first one has given it back.
\<close>

text \<open>
  The blocks that are in use after the events: \<open>alloc\<close> hands one out, \<open>free\<close> gives one back that is in use; \<open>None\<close>
  when the users free a block that they do not have.
\<close>

fun in_use :: "(nat \<times> 'a label) list \<Rightarrow> 'a list \<Rightarrow> 'a list option" where
  "in_use [] bs = Some bs"
| "in_use ((t, Called_push x) # evs) bs = (if x \<in> set bs then in_use evs (remove1 x bs) else None)"
| "in_use ((t, Took x) # evs) bs = in_use evs (x # bs)"
| "in_use (_ # evs) bs = in_use evs bs"

lemma in_use_append: "in_use (evs @ evs') bs = do { bs1 \<leftarrow> in_use evs bs; in_use evs' bs1 }"
  by (induction evs bs rule: in_use.induct) simp_all

subsection \<open>One thread frees, one allocates\<close>

text \<open>The block that a push has not put in yet.\<close>

fun pushing :: "'a pc \<Rightarrow> 'a list" where
  "pushing (Push_load_read x) = [x]"
| "pushing (Push_load_write x r) = [x]"
| "pushing (Push_cas x w) = [x]"
| "pushing pc = []"

definition queued :: "'a lfrq \<Rightarrow> 'a pc \<Rightarrow> 'a pc \<Rightarrow> 'a list" where
  "queued q p c = inflight_pop c @ rq_list q @ inflight_push p"

lemma pushing_step:
  assumes "thread_step sp q p = Some (p', q', l)"
  shows "mset (pushing p') + mset (case l of Claimed x \<Rightarrow> [x] | _ \<Rightarrow> []) \<subseteq># mset (pushing p)"
  using assms by (cases p) (auto simp: compare_exchange_weak_def compare_exchange_def bind_eq_Some_conv Let_def split: if_splits)

lemma in_use_step:
  assumes "in_use [(t, l)] bs = Some bs'" "\<And>x. l \<noteq> Called_push x"
  shows "mset bs' = mset bs + mset (case l of Took x \<Rightarrow> [x] | _ \<Rightarrow> [])"
  using assms by (cases l) auto

lemma moved_blocks:
  fixes B0 :: "'a multiset"
  assumes "Pn + Cl \<subseteq># P0" "B = B0 + Tk" "Q0 + Cl = Tk + Qn"
  shows "B + Pn + Qn \<subseteq># B0 + P0 + Q0"
proof -
  have "B + Pn + Qn = B0 + Pn + (Tk + Qn)" by (simp add: assms(2) ac_simps)
  also have "\<dots> = B0 + (Pn + Cl) + Q0" unfolding assms(3) [symmetric] by (simp add: ac_simps)
  also have "\<dots> \<subseteq># B0 + P0 + Q0" using assms(1) by simp
  finally show ?thesis .
qed

lemma spsc_blocks:
  assumes "conc_run q0 (\<lambda>_. Idle) evs q ts" "roles P C evs" "P \<noteq> C" "pair_inv q0 Idle Idle (rq_list q0) []"
    and "in_use evs [] = Some bs"
  shows "mset bs + mset (pushing (ts P)) + mset (queued q (ts P) (ts C)) \<subseteq># mset (rq_list q0)"
  using assms(1,2,5)
proof (induction arbitrary: bs rule: conc_run.induct)
  case run_nil
  then show ?case by (simp add: queued_def)
next
  case (run_snoc evs q ts ev q' ts')
  obtain t l where ev: "ev = (t, l)" by (cases ev)
  have r: "roles P C evs" "\<And>x. l = Called_push x \<Longrightarrow> t = P" "l = Called_pop \<Longrightarrow> t = C"
    using run_snoc.prems(1) by (simp_all add: ev roles_snoc)
  obtain bs0 where bs: "in_use evs [] = Some bs0" "in_use [(t, l)] bs0 = Some bs"
    using run_snoc.prems(2) by (auto simp: ev in_use_append bind_eq_Some_conv)
  note ih = run_snoc.IH [OF r(1) bs(1)]
  note inv = spsc_run [OF run_snoc.hyps(1) r(1) assms(3,4)]
  have "conc_run q0 (\<lambda>_. Idle) (evs @ [(t, l)]) q' ts'" using conc_run.run_snoc [OF run_snoc.hyps] by (simp add: ev)
  from spsc_run [OF this run_snoc.prems(1) [unfolded ev] assms(3,4)] have
    "rq_list q0 @ claims evs @ (case l of Claimed x \<Rightarrow> [x] | _ \<Rightarrow> [])
       = takes evs @ (case l of Took x \<Rightarrow> [x] | _ \<Rightarrow> []) @ queued q' (ts' P) (ts' C)"
    by (simp add: pair_inv_def queued_def)
  moreover have "rq_list q0 @ claims evs = takes evs @ queued q (ts P) (ts C)"
    using inv by (simp add: pair_inv_def queued_def)
  ultimately have "queued q (ts P) (ts C) @ (case l of Claimed x \<Rightarrow> [x] | _ \<Rightarrow> [])
      = (case l of Took x \<Rightarrow> [x] | _ \<Rightarrow> []) @ queued q' (ts' P) (ts' C)" by (metis append.assoc same_append_eq)
  from arg_cong [OF this, of mset] have moved: "mset (queued q (ts P) (ts C)) + mset (case l of Claimed x \<Rightarrow> [x] | _ \<Rightarrow> [])
      = mset (case l of Took x \<Rightarrow> [x] | _ \<Rightarrow> []) + mset (queued q' (ts' P) (ts' C))" by simp
  from run_snoc.hyps(2) consider
      (push) x where "ts t = Idle" "l = Called_push x" "ts' = ts(t := Push_load_read x)"
    | (pop) "ts t = Idle" "l = Called_pop" "ts' = ts(t := Pop_load_read)"
    | (own) sp pc where "thread_step sp q (ts t) = Some (pc, q', l)" "ts' = ts(t := pc)"
    unfolding ev by (auto elim!: conc_step.cases)
  then show ?case
  proof cases
    case push
    then have "t = P" "x \<in> set bs0" "bs = remove1 x bs0" using r(2) bs(2) by (auto split: if_splits)
    then have "mset bs + mset (pushing (ts' P)) = mset bs0 + mset (pushing (ts P))" using push by simp
    then show ?thesis using ih moved push by simp
  next
    case pop
    then have "t = C" "bs = bs0" using r(3) bs(2) by auto
    then have "pushing (ts' P) = pushing (ts P)" using pop assms(3) by simp
    then show ?thesis using ih moved pop \<open>bs = bs0\<close> by simp
  next
    case (own sp pc)
    have labels: "\<And>x. l \<noteq> Called_push x" "ts t \<noteq> Idle" using thread_step_labels [OF own(1)] by blast+
    have t: "t = P \<or> t = C" using inv labels(2) by blast
    have "mset (pushing (ts' P)) + mset (case l of Claimed x \<Rightarrow> [x] | _ \<Rightarrow> []) \<subseteq># mset (pushing (ts P))"
    proof (cases "t = P")
      case True
      then show ?thesis using pushing_step [OF own(1)] own(2) by simp
    next
      case False
      then have "t = C" using t by blast
      note s = own(1) [unfolded this]
      have "l \<noteq> Claimed x" for x using consumer_step [OF _ s] inv by blast
      then have "(case l of Claimed x \<Rightarrow> [x] | _ \<Rightarrow> []) = []" by (cases l) auto
      then show ?thesis using own(2) False by simp
    qed
    from moved_blocks [OF this in_use_step [OF bs(2) labels(1)] moved] ih show ?thesis by (rule subset_mset.order_trans)
  qed
qed

subsection \<open>Properties\<close>

text \<open>
  C13. A pool whose blocks are allocated by one thread and freed by one other thread never hands a block out twice,
  whatever the interleaving: the blocks in use are distinct blocks of the pool, as long as the users free only
  blocks that are in use.
\<close>

theorem pool_between_two_threads:
  assumes "mb_new base block_size cap = Some (Inr mb)" "cap \<noteq> 0" "unat cap \<le> 2 ^ 30" "0 < block_size"
    and "conc_run (mb_queue mb) (\<lambda>_. Idle) evs q ts" "roles freeing allocating evs" "freeing \<noteq> allocating"
    and "in_use evs [] = Some bs"
  shows "distinct bs \<and> (\<forall>a \<in> set bs. \<exists>i < unat (rq_round_size cap) - 1. a = base + i * block_size)"
proof -
  from mb_new_ok [OF assms(2,3), of base block_size] assms(1) have
    mb: "mb_inv mb" "mb_free_list mb = map (\<lambda>i. base + i * block_size) [0 ..< unat (rq_round_size cap) - 1]" by auto
  let ?l = "rq_list (mb_queue mb)"
  have "rq_inv (mb_queue mb)" using mb(1) by (simp add: mb_inv_def)
  then have "pair_inv (mb_queue mb) Idle Idle ?l []" by (simp add: pair_inv_def shape_inv_def count_inv_def rq_inv_def)
  from spsc_blocks [OF assms(5-7) this assms(8)] have sub: "mset bs \<subseteq># mset ?l"
    by (metis add.assoc mset_subset_eq_add_left subset_mset.order_trans)
  have l: "?l = map (\<lambda>i. base + i * block_size) [0 ..< unat (rq_round_size cap) - 1]" using mb(2) by (simp add: mb_free_list_def)
  have "distinct ?l" unfolding l using assms(4) by (rule mb_free_list_distinct)
  then have "\<forall>a. count (mset bs) a \<le> 1"
    using mset_subset_eq_count [OF sub] by (metis distinct_count_atmost_1 le_trans nle_le zero_le)
  then have "distinct bs" by (simp add: distinct_count_atmost_1 count_mset_0_iff le_Suc_eq)
  moreover have "set bs \<subseteq> set ?l" using set_mset_mono [OF sub] by simp
  ultimately show ?thesis unfolding l by fastforce
qed

text \<open>A pool of four slots and three blocks, and whole calls as moves.\<close>

definition demo_blocks :: mem_block where
  "demo_blocks = \<lparr>mb_block_size = 8, mb_queue = \<lparr>rq_size = 4, rq_length = 3, rq_read_index = 0, rq_write_index = 3,
     rq_last_write_index = 3, rq_queue = [64, 72, 80, 0]\<rparr>\<rparr>"

lemma replicate_4: "replicate 4 x = [x, x, x, x]"
  by (simp add: numeral_eq_Suc)

lemma demo_blocks: "mb_new 64 8 4 = Some (Inr demo_blocks)"
  by (simp add: demo_blocks_def mb_new_def rq_new_def rq_round_size_def is_power_of_two_def word_le_nat_alt
      push_def index_of_queue_def upd_opt_def upt_rec replicate_4)

definition alloc_moves :: "nat \<Rightarrow> addr move list" where
  "alloc_moves t = Do_pop t # replicate 5 (Do_step t False)"

definition free_moves :: "nat \<Rightarrow> addr \<Rightarrow> addr move list" where
  "free_moves t a = Do_push t a # replicate 6 (Do_step t False)"

lemma demo_alloc_free:
  "case conc_exec (alloc_moves 1 @ alloc_moves 1 @ free_moves 0 64 @ alloc_moves 1) (mb_queue demo_blocks) (\<lambda>_. Idle) [] of
     None \<Rightarrow> False | Some (evs, q, ts) \<Rightarrow> in_use evs [] = Some [80, 72] \<and> takes evs = [64, 72, 80] \<and> length evs = 25"
  by code_simp

theorem pool_between_two_threads_witness:
  "\<exists>evs q ts. conc_run (mb_queue demo_blocks) (\<lambda>_. Idle) evs q ts \<and> in_use evs [] = Some [64, 80, 72] \<and> distinct [64, 80, 72 :: addr]"
proof -
  let ?moves = "alloc_moves 1 @ alloc_moves 1 @ free_moves 0 64 @ alloc_moves 1 @ alloc_moves 1"
  have "case conc_exec ?moves (mb_queue demo_blocks) (\<lambda>_. Idle) [] of None \<Rightarrow> False
      | Some (evs, q, ts) \<Rightarrow> in_use evs [] = Some [64, 80, 72] \<and> roles 0 1 evs" by code_simp
  then obtain evs q ts where r: "conc_exec ?moves (mb_queue demo_blocks) (\<lambda>_. Idle) [] = Some (evs, q, ts)"
    "in_use evs [] = Some [64, 80, 72]" "roles 0 1 evs"
    by (auto split: option.splits)
  have run: "conc_run (mb_queue demo_blocks) (\<lambda>_. Idle) evs q ts" using conc_exec_run [OF r(1) run_nil] .
  from pool_between_two_threads [OF demo_blocks _ _ _ run r(3) _ r(2)] have "distinct [64, 80, 72 :: addr]" by simp
  then show ?thesis using run r(2) by blast
qed

subsection \<open>Whole calls of one thread\<close>

lemma conc_run_append:
  "conc_run q1 ts1 evs' q2 ts2 \<Longrightarrow> conc_run q0 ts0 evs q1 ts1 \<Longrightarrow> conc_run q0 ts0 (evs @ evs') q2 ts2"
proof (induction rule: conc_run.induct)
  case (run_snoc evs' q ts ev q' ts')
  then show ?case using conc_run.run_snoc by fastforce
qed simp

lemmas exec_run = conc_exec_run [OF _ run_nil]

definition popped :: "'a lfrq \<Rightarrow> 'a lfrq" where
  "popped q = q\<lparr>rq_read_index := rq_read_index q + 1, rq_length := rq_length q - 1\<rparr>"

definition pushed :: "'a \<Rightarrow> 'a lfrq \<Rightarrow> 'a lfrq" where
  "pushed x q = q\<lparr>rq_write_index := rq_write_index q + 1, rq_last_write_index := rq_last_write_index q + 1,
     rq_queue := (rq_queue q)[unat (index_of_queue q (rq_write_index q)) := x], rq_length := rq_length q + 1\<rparr>"

lemma index_of_queue_other [simp]:
  "index_of_queue (q\<lparr>rq_write_index := w\<rparr>) i = index_of_queue q i"
  "index_of_queue (q\<lparr>rq_read_index := w\<rparr>) i = index_of_queue q i"
  "index_of_queue (q\<lparr>rq_length := n\<rparr>) i = index_of_queue q i"
  by (simp_all add: index_of_queue_def)

definition pop_trace :: "nat \<Rightarrow> 'a \<Rightarrow> (nat \<times> 'a label) list" where
  "pop_trace t d = (t, Called_pop) # replicate 4 (t, Internal) @ [(t, Took d)]"

lemma pop_alone:
  assumes "ts t = Idle" "index_of_queue q (rq_last_write_index q) \<noteq> index_of_queue q (rq_read_index q)"
    and "unat (index_of_queue q (rq_read_index q)) < length (rq_queue q)"
  shows "conc_run q ts (pop_trace t (slot q (rq_read_index q))) (popped q) ts"
proof -
  have "conc_exec (Do_pop t # replicate 5 (Do_step t False)) q ts []
      = Some (pop_trace t (slot q (rq_read_index q)), popped q, ts)"
    using assms by (simp add: numeral_eq_Suc nth_opt_def compare_exchange_weak_def compare_exchange_def slot_def popped_def
        pop_trace_def fun_upd_idem)
  then show ?thesis by (rule exec_run)
qed

text \<open>The push that has claimed its slot, and the whole push; it confirms whatever slot is to be confirmed next.\<close>

definition claim_trace :: "nat \<Rightarrow> 'a \<Rightarrow> (nat \<times> 'a label) list" where
  "claim_trace t x = [(t, Called_push x), (t, Internal), (t, Internal), (t, Claimed x)]"

definition push_trace :: "bool \<Rightarrow> nat \<Rightarrow> 'a \<Rightarrow> (nat \<times> 'a label) list" where
  "push_trace late t x = claim_trace t x @ replicate (if late then 3 else 2) (t, Internal) @ [(t, Push_returned True)]"

lemma claim_alone:
  assumes "ts t = Idle" "index_of_queue q (rq_write_index q + 1) \<noteq> index_of_queue q (rq_read_index q)"
  shows "conc_run q ts (claim_trace t x) (q\<lparr>rq_write_index := rq_write_index q + 1\<rparr>) (ts(t := Push_store x (rq_write_index q)))"
proof -
  have "conc_exec (Do_push t x # replicate 3 (Do_step t False)) q ts []
      = Some (claim_trace t x, q\<lparr>rq_write_index := rq_write_index q + 1\<rparr>, ts(t := Push_store x (rq_write_index q)))"
    using assms by (simp add: numeral_eq_Suc compare_exchange_weak_def compare_exchange_def claim_trace_def)
  then show ?thesis by (rule exec_run)
qed

lemma push_alone:
  assumes "ts t = Idle" "index_of_queue q (rq_write_index q + 1) \<noteq> index_of_queue q (rq_read_index q)"
    and "unat (index_of_queue q (rq_write_index q)) < length (rq_queue q)"
  shows "conc_run q ts (push_trace (rq_last_write_index q \<noteq> rq_write_index q) t x) (pushed x q) ts"
proof (cases "rq_last_write_index q = rq_write_index q")
  case True
  then have "conc_exec (Do_push t x # replicate 6 (Do_step t False)) q ts []
      = Some (push_trace (rq_last_write_index q \<noteq> rq_write_index q) t x, pushed x q, ts)"
    using assms by (simp add: numeral_eq_Suc compare_exchange_weak_def compare_exchange_def upd_opt_def
        claim_trace_def push_trace_def pushed_def fun_upd_idem)
  then show ?thesis by (rule exec_run)
next
  case False
  then have "conc_exec (Do_push t x # replicate 7 (Do_step t False)) q ts []
      = Some (push_trace (rq_last_write_index q \<noteq> rq_write_index q) t x, pushed x q, ts)"
    using assms by (simp add: numeral_eq_Suc compare_exchange_weak_def compare_exchange_def upd_opt_def
        claim_trace_def push_trace_def pushed_def fun_upd_idem)
  then show ?thesis by (rule exec_run)
qed

lemma in_use_traces [simp]:
  "in_use (pop_trace t d @ evs) bs = in_use evs (d # bs)"
  "in_use (claim_trace t x @ evs) bs = (if x \<in> set bs then in_use evs (remove1 x bs) else None)"
  "in_use (push_trace late t x @ evs) bs = (if x \<in> set bs then in_use evs (remove1 x bs) else None)"
  by (simp_all add: pop_trace_def claim_trace_def push_trace_def numeral_eq_Suc)


lemma pops_alone:
  assumes "shape_inv q" "ts t = Idle" "k \<le> unat (rq_last_write_index q - rq_read_index q)"
  shows "conc_run q ts (concat (map (\<lambda>j. pop_trace t (slot q (rq_read_index q + of_nat j))) [0 ..< k]))
     (q\<lparr>rq_read_index := rq_read_index q + of_nat k, rq_length := rq_length q - of_nat k\<rparr>) ts"
  using assms(3)
proof (induction k)
  case 0
  then show ?case using run_nil by simp
next
  case (Suc k)
  let ?q = "q\<lparr>rq_read_index := rq_read_index q + of_nat k, rq_length := rq_length q - of_nat k\<rparr>"
  let ?n = "unat (rq_last_write_index q - rq_read_index q)"
  have s: "is_power_of_two (rq_size q)" "?n < unat (rq_size q)" using assms(1) by (simp_all add: shape_inv_def)
  have l: "rq_last_write_index q = rq_read_index q + of_nat ?n" by simp
  have "index_of_queue q (rq_read_index q + of_nat ?n) \<noteq> index_of_queue q (rq_read_index q + of_nat k)"
    using Suc.prems s(2) unfolding index_eq_iff [OF s(1)] by (subst add_mod_eq_iff) auto
  then have "index_of_queue ?q (rq_last_write_index ?q) \<noteq> index_of_queue ?q (rq_read_index ?q)" unfolding l [symmetric] by simp
  moreover have "unat (index_of_queue ?q (rq_read_index ?q)) < length (rq_queue ?q)" using index_bound [OF assms(1)] by simp
  ultimately have "conc_run ?q ts (pop_trace t (slot ?q (rq_read_index ?q))) (popped ?q) ts" by (intro pop_alone assms(2))
  from conc_run_append [OF this] Suc show ?case by (simp add: popped_def algebra_simps)
qed

lemma in_use_pops: "in_use (concat (map (\<lambda>j. pop_trace t (f j)) js) @ evs) bs = in_use evs (rev (map f js) @ bs)"
  by (induction js arbitrary: bs) simp_all

subsection \<open>Two threads free\<close>

text \<open>
  A queue that is full of distinct blocks, in slots \<open>0\<close> to \<open>n - 2\<close> counted from the read index: thread \<open>D\<close> allocates
  all of them, gets the first one back from \<open>A\<close> through slot \<open>n - 1\<close>, and then \<open>A\<close> claims slot \<open>n\<close>, which is slot 0.
\<close>

definition double_trace :: "nat \<Rightarrow> nat \<Rightarrow> nat \<Rightarrow> 'a list \<Rightarrow> (nat \<times> 'a label) list" where
  "double_trace A B D bs = concat (map (pop_trace D) bs) @ push_trace False A (bs ! 0) @ pop_trace D (bs ! 0)
     @ claim_trace A (bs ! 1) @ push_trace True B (bs ! 2) @ pop_trace D (bs ! 0)"

lemma two_pushers_run:
  fixes q0 :: "'a lfrq"
  assumes inv: "rq_inv q0" and full: "length (rq_list q0) = unat (rq_size q0) - 1" and n: "4 \<le> unat (rq_size q0)"
    and t: "A \<noteq> B" "D \<noteq> A"
  obtains q w where
    "conc_run q0 (\<lambda>_. Idle) (double_trace A B D (rq_list q0)) q ((\<lambda>_. Idle)(A := Push_store (rq_list q0 ! 1) w))"
    "rq_last_write_index q = w + 1" "rq_read_index q = w + 1" "slot q w = rq_list q0 ! 0"
proof -
  let ?n = "unat (rq_size q0)" and ?l = "rq_list q0" and ?r = "rq_read_index q0"
  define p where "p i = ?r + of_nat i" for i :: nat
  define ix where "ix i = unat (index_of_queue q0 (p i))" for i
  have s: "is_power_of_two (rq_size q0)" "length (rq_queue q0) = ?n" "shape_inv q0" using inv by (simp_all add: rq_inv_def shape_inv_def)
  have ix: "ix i = (unat ?r + i) mod ?n" for i by (simp add: ix_def p_def unat_index_add [OF s(1)])
  have ne: "ix i \<noteq> ix j" if "i < j" "j - i < ?n" for i j using that add_mod_eq_iff [of i j ?n "unat ?r"] by (simp add: ix)
  have wrap: "ix ?n = ix 0" by (simp add: ix)
  have lt: "ix i < ?n" for i using n by (simp add: ix)
  have p1: "p i + 1 = p (i + 1)" for i by (simp add: p_def add.assoc)
  have len: "unat (rq_last_write_index q0 - ?r) = ?n - 1" using full by (simp add: rq_list_def)
  have "rq_last_write_index q0 = ?r + of_nat (unat (rq_last_write_index q0 - ?r))" by simp
  then have last: "rq_last_write_index q0 = p (?n - 1)" "rq_write_index q0 = p (?n - 1)"
    using inv unfolding len p_def by (simp_all add: rq_inv_def)
  note ne1 = ne [of "?n - 1" ?n] ne [of ?n "?n + 1"] ne [of "?n - 1" "?n + 1"] ne [of "?n + 1" "?n + 2"]
    ne [of ?n "?n + 2"] ne [of "?n - 1" "?n + 2"]
  have idx: "index_of_queue q0 (p i) = index_of_queue q0 (p j) \<longleftrightarrow> ix i = ix j" for i j by (simp add: ix_def word_unat_eq_iff)
  have sl: "slot q0 (p j) = ?l ! j" if "j < ?n - 1" for j using that by (simp add: rq_list_def len slot_def p_def)
  let ?q1 = "q0\<lparr>rq_read_index := p (?n - 1), rq_length := rq_length q0 - of_nat (?n - 1)\<rparr>"
  let ?I = "(\<lambda>_. Idle) :: 'a threads"
  have l: "?l = map (\<lambda>j. slot q0 (?r + of_nat j)) [0 ..< ?n - 1]" by (simp add: rq_list_def len slot_def)
  have c1: "conc_run q0 ?I (concat (map (pop_trace D) ?l)) ?q1 ?I"
    using pops_alone [OF s(3), of ?I D "?n - 1"] unfolding len l map_map by (simp add: p_def comp_def)
  let ?q2 = "pushed (?l ! 0) ?q1"
  have c2: "conc_run ?q1 ?I (push_trace False A (?l ! 0)) ?q2 ?I"
    using push_alone [of ?I A ?q1 "?l ! 0"] ne1(1) n lt [of "?n - 1"] s(2) by (simp add: last p1 idx ix_def)
  note qd = pushed_def popped_def last p1 idx
  have late: "p ?n \<noteq> p (?n + 1)" using ne1(2) n unfolding ix_def by auto
  have n2: "Suc (?n - Suc 0) = ?n" using n by simp
  have c3: "conc_run ?q2 ?I (pop_trace D (?l ! 0)) (popped ?q2) ?I"
    using pop_alone [of ?I D ?q2] ne1(1) n lt [of "?n - 1"] s(2) by (simp add: qd n2 slot_def ix_def)
  let ?q3 = "popped ?q2" and ?J = "?I(A := Push_store (?l ! 1) (p ?n))"
  let ?q4 = "?q3\<lparr>rq_write_index := p (?n + 1)\<rparr>"
  have c4: "conc_run ?q3 ?I (claim_trace A (?l ! 1)) ?q4 ?J"
    using claim_alone [of ?I A ?q3 "?l ! 1"] ne1(2) n by (simp add: qd n2)
  let ?q5 = "pushed (?l ! 2) ?q4"
  have c5: "conc_run ?q4 ?J (push_trace True B (?l ! 2)) ?q5 ?J"
    using push_alone [of ?J B ?q4 "?l ! 2"] t(1) ne1(2,5) n lt [of "?n + 1"] s(2) late by (simp add: qd n2 ix_def)
  have sl5: "slot ?q5 (p ?n) = ?l ! 0"
    using ne1(1,2) n sl [of 0] wrap by (simp add: qd n2 slot_def ix_def)
  have c6: "conc_run ?q5 ?J (pop_trace D (?l ! 0)) (popped ?q5) ?J"
    using pop_alone [of ?J D ?q5] sl5 t(2) ne1(2) n lt [of ?n] s(2) by (simp add: qd n2 ix_def)
  note run = conc_run_append [OF c6 conc_run_append [OF c5 conc_run_append [OF c4 conc_run_append [OF c3 conc_run_append [OF c2 c1]]]]]
  show thesis
    by (rule that [of "popped ?q5" "p ?n"]) (use run sl5 in \<open>simp_all add: double_trace_def, simp_all add: qd n2 slot_def\<close>)
qed

text \<open>The users free what they have, and one block is in use twice.\<close>

lemma in_use_double:
  assumes "distinct bs" "3 \<le> length bs"
  shows "in_use (double_trace A B D bs) [] = Some (bs ! 0 # remove1 (bs ! 2) (remove1 (bs ! 1) (bs ! 0 # remove1 (bs ! 0) (rev bs))))"
    and "bs ! 0 \<in> set (remove1 (bs ! 2) (remove1 (bs ! 1) (bs ! 0 # remove1 (bs ! 0) (rev bs))))"
proof -
  have lt: "0 < length bs" "1 < length bs" "2 < length bs" using assms(2) by linarith+
  note eq = nth_eq_iff_index_eq [OF assms(1)]
  have ne: "bs ! 0 \<noteq> bs ! 1" "bs ! 0 \<noteq> bs ! 2" "bs ! 1 \<noteq> bs ! 2"
    using eq [OF lt(1,2)] eq [OF lt(1,3)] eq [OF lt(2,3)] by simp_all
  have m: "bs ! 0 \<in> set bs" "bs ! 1 \<in> set bs" "bs ! 2 \<in> set bs" using lt by (simp_all del: length_greater_0_conv)
  have "in_use (concat (map (pop_trace D) bs) @ evs) [] = in_use evs (rev bs)" for evs
    using in_use_pops [of D "\<lambda>b. b" bs evs "[]"] by simp
  then show "in_use (double_trace A B D bs) [] = Some (bs ! 0 # remove1 (bs ! 2) (remove1 (bs ! 1) (bs ! 0 # remove1 (bs ! 0) (rev bs))))"
    using ne m in_use_traces(1) [of D "bs ! 0" "[]"] by (simp add: double_trace_def)
  show "bs ! 0 \<in> set (remove1 (bs ! 2) (remove1 (bs ! 1) (bs ! 0 # remove1 (bs ! 0) (rev bs))))"
    using ne by simp
qed

lemma double_trace_threads:
  assumes "(t, l) \<in> set (double_trace A B D bs)"
  shows "(\<forall>x. l = Called_push x \<longrightarrow> t = A \<or> t = B) \<and> (l = Called_pop \<longrightarrow> t = D)"
  using assms by (auto simp: double_trace_def pop_trace_def push_trace_def claim_trace_def split: if_splits)

lemma pow2_three: "is_power_of_two w \<Longrightarrow> 3 \<le> unat w \<Longrightarrow> 4 \<le> unat w"
proof -
  assume "is_power_of_two w" "3 \<le> unat w"
  then obtain k where k: "unat w = 2 ^ k" by (auto simp: is_power_of_two_iff)
  with \<open>3 \<le> unat w\<close> have "2 \<le> k" by (cases k; cases "k - 1") auto
  then show ?thesis using power_increasing [of 2 k "2 :: nat"] k by simp
qed

text \<open>
  C14. A pool of at least three blocks is not safe with two freeing threads: whatever its size and addresses, and whatever
  three threads, from its construction there is a run in which only \<open>A\<close> and \<open>B\<close> free, only \<open>D\<close> allocates, the
  users free only blocks that are in use, and a block ends up in use twice. In it \<open>A\<close> has claimed the slot at
  index \<open>w\<close> and not yet written to it, \<open>free\<close> of \<open>B\<close> has returned true and has thereby confirmed the slot of \<open>A\<close>
  instead of its own (the confirmed index is just behind \<open>w\<close>), and the last \<open>alloc\<close> has read that slot: the block
  that is in use twice is what the slot held before.
\<close>

theorem pool_hands_out_block_twice:
  assumes "mb_new base block_size cap = Some (Inr mb)" "3 \<le> unat cap" "unat cap \<le> 2 ^ 30" "0 < block_size" "A \<noteq> B" "D \<noteq> A"
  shows "\<exists>evs q ts a bs x w. conc_run (mb_queue mb) (\<lambda>_. Idle) evs q ts
     \<and> (\<forall>(t, l) \<in> set evs. (\<forall>y. l = Called_push y \<longrightarrow> t = A \<or> t = B) \<and> (l = Called_pop \<longrightarrow> t = D))
     \<and> in_use evs [] = Some (a # bs) \<and> a \<in> set bs
     \<and> ts A = Push_store x w \<and> ts B = Idle \<and> (B, Push_returned True) \<in> set evs
     \<and> rq_last_write_index q = w + 1 \<and> rq_read_index q = w + 1 \<and> slot q w = a"
proof -
  have "cap \<noteq> 0" using assms(2) by auto
  from mb_new_ok [OF this assms(3), of base block_size] assms(1) have
    mb: "mb_inv mb" "mb_free_list mb = map (\<lambda>i. base + i * block_size) [0 ..< unat (rq_round_size cap) - 1]"
    "mb_room mb = unat (rq_round_size cap) - 1" by auto
  let ?q = "mb_queue mb" and ?l = "rq_list (mb_queue mb)"
  have inv: "rq_inv ?q" using mb(1) by (simp add: mb_inv_def)
  have len: "length ?l = unat (rq_size ?q) - 1" using mb(2,3) by (simp add: mb_abs_defs rq_room_def)
  have "unat cap \<le> unat (rq_round_size cap)" using rq_round_size(3) [of cap] assms(3) by simp
  then have "3 \<le> unat (rq_size ?q)" using assms(2) mb(3) inv by (simp add: mb_abs_defs rq_room_def rq_inv_def)
  then have four: "4 \<le> unat (rq_size ?q)" using inv pow2_three by (simp add: rq_inv_def)
  then obtain q w where run:
    "conc_run ?q (\<lambda>_. Idle) (double_trace A B D ?l) q ((\<lambda>_. Idle)(A := Push_store (?l ! 1) w))"
    "rq_last_write_index q = w + 1" "rq_read_index q = w + 1" "slot q w = ?l ! 0"
    using two_pushers_run [OF inv len _ assms(5,6)] by blast
  have "distinct ?l" using mb_free_list_distinct [OF assms(4)] mb(2) by (simp add: mb_free_list_def)
  note twice = in_use_double [OF this]
  have "3 \<le> length ?l" using four len by simp
  note twice = twice [OF this]
  have "(B, Push_returned True) \<in> set (double_trace A B D ?l)" by (simp add: double_trace_def push_trace_def)
  moreover have "\<forall>(t, l) \<in> set (double_trace A B D ?l). (\<forall>y. l = Called_push y \<longrightarrow> t = A \<or> t = B) \<and> (l = Called_pop \<longrightarrow> t = D)"
    using double_trace_threads [of _ _ A B D ?l] by blast
  ultimately show ?thesis using run twice assms(5)
    by (intro exI [of _ "double_trace A B D ?l"] exI [of _ q] exI [of _ "(\<lambda>_. Idle)(A := Push_store (?l ! 1) w)"] exI [of _ "?l ! 0"]
        exI [of _ "remove1 (?l ! 2) (remove1 (?l ! 1) (?l ! 0 # remove1 (?l ! 0) (rev ?l)))"] exI [of _ "?l ! 1"] exI [of _ w]) simp
qed

theorem pool_hands_out_block_twice_witness:
  "\<exists>evs q ts a bs. conc_run (mb_queue demo_blocks) (\<lambda>_. Idle) evs q ts \<and> in_use evs [] = Some (a # bs) \<and> a \<in> set bs
     \<and> (1, Push_returned True) \<in> set evs"
proof -
  have c: "3 \<le> unat (4 :: u32)" "unat (4 :: u32) \<le> 2 ^ 30" "0 < (8 :: nat)" "(0 :: nat) \<noteq> 1" "(2 :: nat) \<noteq> 0" by simp_all
  from pool_hands_out_block_twice [OF demo_blocks c] show ?thesis by blast
qed

end
