(* ===== verification/Yaml.thy ===== *)
theory Yaml
  imports Prelude
begin

text \<open>
  yaml-cpp, which the sources call but do not contain, as a parameter of the models: a record of the operations
  they use on nodes, where a node is taken as its value, and what is expected of them (\<open>yaml_ok\<close>). A
  concrete node type with a text form of its own shows that the expectations can be met.
\<close>

subsection \<open>Nodes\<close>

text \<open>
  \<open>None\<close> is what \<open>Load\<close>, \<open>operator[]\<close> and \<open>as\<close> throw; an inner \<open>None\<close> is a node that is not defined.
\<close>

record 'n yaml =
  yaml_load :: "string \<Rightarrow> 'n option"
  yaml_emit :: "'n option \<Rightarrow> string"
  yaml_is_map :: "'n \<Rightarrow> bool"
  yaml_is_scalar :: "'n \<Rightarrow> bool"
  yaml_scalar :: "'n \<Rightarrow> string"
  yaml_as_string :: "'n \<Rightarrow> string option"
  yaml_get :: "'n \<Rightarrow> string \<Rightarrow> 'n option option"
  yaml_size :: "'n \<Rightarrow> nat"
  yaml_at :: "'n \<Rightarrow> nat \<Rightarrow> 'n option"
  yaml_entries :: "'n \<Rightarrow> (string \<times> 'n) list"
  yaml_null :: 'n
  yaml_str :: "string \<Rightarrow> 'n"
  yaml_set :: "'n \<Rightarrow> string \<Rightarrow> 'n \<Rightarrow> 'n"
  yaml_push :: "'n \<Rightarrow> 'n \<Rightarrow> 'n"

subsection \<open>What is expected of yaml-cpp\<close>

definition yaml_seq :: "'n yaml \<Rightarrow> 'n list \<Rightarrow> 'n" where
  "yaml_seq Y ns = foldl (yaml_push Y) (yaml_null Y) ns"

definition yaml_map :: "'n yaml \<Rightarrow> (string \<times> 'n) list \<Rightarrow> 'n" where
  "yaml_map Y kvs = foldl (\<lambda>n (k, v). yaml_set Y n k v) (yaml_null Y) kvs"

text \<open>
  Text that was written is read back; pushing onto a new node gives the sequence of the pushed nodes; assigning
  to the keys of a new node gives a map in the order of the assignments, where the last value of a key counts.
\<close>

definition yaml_ok :: "'n yaml \<Rightarrow> bool" where
  "yaml_ok Y \<longleftrightarrow> (\<forall>n. yaml_load Y (yaml_emit Y (Some n)) = Some n)
     \<and> (\<forall>ns. yaml_size Y (yaml_seq Y ns) = length ns)
     \<and> (\<forall>ns i. i < length ns \<longrightarrow> yaml_at Y (yaml_seq Y ns) i = Some (ns ! i))
     \<and> (\<forall>kvs k. yaml_get Y (yaml_map Y kvs) k = Some (map_of (rev kvs) k))
     \<and> (\<forall>kvs. distinct (map fst kvs) \<longrightarrow> yaml_entries Y (yaml_map Y kvs) = kvs)
     \<and> (\<forall>s. yaml_as_string Y (yaml_str Y s) = Some s)"

lemma yaml_okD:
  assumes "yaml_ok Y"
  shows "yaml_load Y (yaml_emit Y (Some n)) = Some n" "yaml_size Y (yaml_seq Y ns) = length ns"
    "i < length ns \<Longrightarrow> yaml_at Y (yaml_seq Y ns) i = Some (ns ! i)"
    "yaml_get Y (yaml_map Y kvs) k = Some (map_of (rev kvs) k)"
    "distinct (map fst kvs) \<Longrightarrow> yaml_entries Y (yaml_map Y kvs) = kvs"
    "yaml_as_string Y (yaml_str Y s) = Some s"
  using assms by (simp_all add: yaml_ok_def)

subsection \<open>An instance\<close>

text \<open>
  Nodes with a text form in which the items of a node are escaped: every character of an item is preceded by
  a slash, and a full stop ends it.
\<close>

datatype ynode = Null_node | Scalar_node string | Seq_node "ynode list" | Map_node "(string \<times> ynode) list"

definition esc :: "string \<Rightarrow> string" where
  "esc s = concat (map (\<lambda>c. [CHR ''/'', c]) s) @ ''.''"

fun items_from :: "string \<Rightarrow> string \<Rightarrow> string list" where
  "items_from acc (x # xs) =
     (if x = CHR ''/'' then (case xs of [] \<Rightarrow> [] | c # ys \<Rightarrow> items_from (acc @ [c]) ys)
      else acc # items_from [] xs)"
| "items_from acc [] = []"

fun ypairs :: "string list \<Rightarrow> (string \<times> string) list" where
  "ypairs (k # v # xs) = (k, v) # ypairs xs"
| "ypairs _ = []"

fun yenc :: "ynode \<Rightarrow> string" where
  "yenc Null_node = ''~''"
| "yenc (Scalar_node s) = ''s'' @ s"
| "yenc (Seq_node ns) = ''l'' @ concat (map (\<lambda>n. esc (yenc n)) ns)"
| "yenc (Map_node kvs) = ''m'' @ concat (map (\<lambda>(k, n). esc k @ esc (yenc n)) kvs)"

fun ydec :: "nat \<Rightarrow> string \<Rightarrow> ynode" where
  "ydec 0 s = Null_node"
| "ydec (Suc f) s =
     (case s of [] \<Rightarrow> Null_node
      | c # t \<Rightarrow> if c = CHR ''s'' then Scalar_node t
                 else if c = CHR ''l'' then Seq_node (map (ydec f) (items_from [] t))
                 else if c = CHR ''m'' then Map_node (map (\<lambda>(k, v). (k, ydec f v)) (ypairs (items_from [] t)))
                 else Null_node)"

lemma items_from_esc: "items_from acc (concat (map (\<lambda>c. [CHR ''/'', c]) s) @ CHR ''.'' # rest) = (acc @ s) # items_from [] rest"
  by (induction s arbitrary: acc) simp_all

lemma items_from_items: "items_from [] (concat (map esc xs)) = xs"
  by (induction xs) (simp_all add: esc_def items_from_esc)

lemma ypairs_concat: "ypairs (concat (map (\<lambda>(k, n). [k, f n]) kvs)) = map (\<lambda>(k, n). (k, f n)) kvs"
  by (induction kvs) auto

lemma concat_entries:
  "concat (map esc (concat (map (\<lambda>(k, n). [k, f n]) kvs))) = concat (map (\<lambda>(k, n). esc k @ esc (f n)) kvs)"
  by (induction kvs) auto

lemma length_esc: "length (esc s) = 2 * length s + 1"
  by (induction s) (simp_all add: esc_def)

lemma length_item: "x \<in> set xs \<Longrightarrow> length (f x :: string) < length (concat (map (\<lambda>y. esc (f y)) xs))"
  by (induction xs) (auto simp: length_esc)

lemma length_entry: "(k, n) \<in> set kvs \<Longrightarrow> length (f n :: string) < length (concat (map (\<lambda>(k, n). esc k @ esc (f n)) kvs))"
  by (induction kvs) (auto simp: length_esc)

lemma ydec_yenc: "length (yenc n) \<le> f \<Longrightarrow> ydec f (yenc n) = n"
proof (induction n arbitrary: f)
  case (Seq_node ns)
  then obtain g where g: "f = Suc g" "length (concat (map (\<lambda>n. esc (yenc n)) ns)) \<le> g" by (cases f) auto
  have "ydec g (yenc n) = n" if "n \<in> set ns" for n
    using Seq_node.IH [OF that, of g] length_item [OF that, of yenc] g(2) by simp
  then have "map (ydec g) (map yenc ns) = ns" by (simp add: map_idI)
  moreover have "items_from [] (concat (map (\<lambda>n. esc (yenc n)) ns)) = map yenc ns"
    using items_from_items [of "map yenc ns"] by (simp add: comp_def)
  ultimately show ?case using g(1) by simp
next
  case (Map_node kvs)
  then obtain g where g: "f = Suc g" "length (concat (map (\<lambda>(k, n). esc k @ esc (yenc n)) kvs)) \<le> g" by (cases f) auto
  have "items_from [] (concat (map (\<lambda>(k, n). esc k @ esc (yenc n)) kvs)) = concat (map (\<lambda>(k, n). [k, yenc n]) kvs)"
    using items_from_items [of "concat (map (\<lambda>(k, n). [k, yenc n]) kvs)"] by (simp only: concat_entries)
  moreover have "ydec g (yenc n) = n" if "(k, n) \<in> set kvs" for k n
    using Map_node.IH [OF that, of n g] length_entry [OF that, of yenc] g(2) by simp
  then have "map (\<lambda>(k, v). (k, ydec g v)) (map (\<lambda>(k, n). (k, yenc n)) kvs) = kvs"
    by (auto simp: comp_def intro!: map_idI)
  ultimately show ?case using g(1) by (simp add: ypairs_concat)
qed (auto simp: Suc_le_eq dest: less_imp_Suc_add)

definition demo_yaml :: "ynode yaml" where
  "demo_yaml = \<lparr>
     yaml_load = (\<lambda>s. Some (ydec (length s) s)),
     yaml_emit = (\<lambda>n. case n of None \<Rightarrow> [] | Some n \<Rightarrow> yenc n),
     yaml_is_map = (\<lambda>n. case n of Map_node _ \<Rightarrow> True | _ \<Rightarrow> False),
     yaml_is_scalar = (\<lambda>n. case n of Scalar_node _ \<Rightarrow> True | _ \<Rightarrow> False),
     yaml_scalar = (\<lambda>n. case n of Scalar_node s \<Rightarrow> s | _ \<Rightarrow> []),
     yaml_as_string = (\<lambda>n. case n of Scalar_node s \<Rightarrow> Some s | _ \<Rightarrow> None),
     yaml_get = (\<lambda>n k. case n of Map_node kvs \<Rightarrow> Some (map_of kvs k) | Scalar_node _ \<Rightarrow> None | _ \<Rightarrow> Some None),
     yaml_size = (\<lambda>n. case n of Seq_node ns \<Rightarrow> length ns | Map_node kvs \<Rightarrow> length kvs | _ \<Rightarrow> 0),
     yaml_at = (\<lambda>n i. case n of Seq_node ns \<Rightarrow> nth_opt ns i | _ \<Rightarrow> None),
     yaml_entries = (\<lambda>n. case n of Map_node kvs \<Rightarrow> kvs | _ \<Rightarrow> []),
     yaml_null = Null_node,
     yaml_str = Scalar_node,
     yaml_set = (\<lambda>n k v. case n of
        Map_node kvs \<Rightarrow> Map_node (if k \<in> fst ` set kvs then map (\<lambda>(k', v'). (k', if k' = k then v else v')) kvs else kvs @ [(k, v)])
      | _ \<Rightarrow> Map_node [(k, v)]),
     yaml_push = (\<lambda>n m. case n of Seq_node ns \<Rightarrow> Seq_node (ns @ [m]) | _ \<Rightarrow> Seq_node [m])\<rparr>"

lemma demo_yaml_seq: "yaml_seq demo_yaml ns = (if ns = [] then Null_node else Seq_node ns)"
  by (induction ns rule: rev_induct) (simp_all add: yaml_seq_def demo_yaml_def)

definition assign_all :: "(string \<times> ynode) list \<Rightarrow> (string \<times> ynode) list" where
  "assign_all kvs = foldl (\<lambda>acc (k, v). if k \<in> fst ` set acc then map (\<lambda>(k', v'). (k', if k' = k then v else v')) acc
     else acc @ [(k, v)]) [] kvs"

lemma demo_yaml_map: "yaml_map demo_yaml kvs = (if kvs = [] then Null_node else Map_node (assign_all kvs))"
  by (induction kvs rule: rev_induct) (auto simp: yaml_map_def assign_all_def demo_yaml_def)

lemma map_of_replace: "map_of (map (\<lambda>(k', v'). (k', if k' = k then v else v')) acc)
    = (if k \<in> fst ` set acc then (map_of acc)(k \<mapsto> v) else map_of acc)"
  by (induction acc) auto

lemma assign_all_map_of: "map_of (assign_all kvs) = map_of (rev kvs)"
proof (induction kvs rule: rev_induct)
  case (snoc p kvs)
  obtain k v where p: "p = (k, v)" by fastforce
  have "map_of (assign_all kvs @ [(k, v)]) = (map_of (assign_all kvs))(k \<mapsto> v)" if "k \<notin> fst ` set (assign_all kvs)"
  proof (rule ext)
    have "map_of (assign_all kvs) k = None" using that by (simp add: map_of_eq_None_iff)
    then show "map_of (assign_all kvs @ [(k, v)]) x = ((map_of (assign_all kvs))(k \<mapsto> v)) x" for x
      by (simp add: map_add_def split: option.split)
  qed
  then show ?case using snoc p by (auto simp: assign_all_def map_of_replace)
qed (simp add: assign_all_def)

lemma assign_all_distinct: "distinct (map fst kvs) \<Longrightarrow> assign_all kvs = kvs"
  by (induction kvs rule: rev_induct) (auto simp: assign_all_def)

lemma demo_yaml_ok: "yaml_ok demo_yaml"
proof -
  have "yaml_load demo_yaml (yaml_emit demo_yaml (Some n)) = Some n" for n
    by (simp add: demo_yaml_def ydec_yenc)
  moreover have "yaml_get demo_yaml (yaml_map demo_yaml kvs) k = Some (map_of (rev kvs) k)" for kvs k
    by (cases "kvs = []") (simp_all add: demo_yaml_map assign_all_map_of [symmetric], simp_all add: demo_yaml_def)
  moreover have "yaml_entries demo_yaml (yaml_map demo_yaml kvs) = kvs" if "distinct (map fst kvs)" for kvs
    using that by (cases "kvs = []") (simp_all add: demo_yaml_map assign_all_distinct, simp_all add: demo_yaml_def)
  moreover have "yaml_size demo_yaml (yaml_seq demo_yaml ns) = length ns" for ns
    by (cases "ns = []") (simp_all add: demo_yaml_seq, simp_all add: demo_yaml_def)
  moreover have "i < length ns \<Longrightarrow> yaml_at demo_yaml (yaml_seq demo_yaml ns) i = Some (ns ! i)" for ns i
    by (cases "ns = []") (simp_all add: demo_yaml_seq, simp_all add: demo_yaml_def)
  moreover have "yaml_as_string demo_yaml (yaml_str demo_yaml s) = Some s" for s
    by (simp add: demo_yaml_def)
  ultimately show ?thesis by (simp add: yaml_ok_def)
qed

end
