(* ===== verification/Casts.thy ===== *)
theory Casts
  imports Yaml StdSet "HOL-Library.Char_ord" "HOL-Library.List_Lexorder"
begin

text \<open>
  The casts between values and their YAML text (\<open>LexicalCast\<close> in \<open>src/config.h\<close>). yaml-cpp is the
  parameter \<open>Y\<close> (theory Yaml). A cast yields \<open>None\<close>
  when an exception leaves it. \<open>std::vector\<close> and \<open>std::list\<close> are lists, \<open>std::set\<close> and \<open>std::map\<close> lists in
  iteration order, the unordered containers sets and maps whose iteration order \<open>iter\<close> is a parameter.
\<close>

subsection \<open>Sequences\<close>

text \<open>The loop over \<open>node[i]\<close>; \<open>add\<close> puts an element into the container.\<close>

fun from_elems :: "'n yaml \<Rightarrow> (string \<Rightarrow> 'a option) \<Rightarrow> ('a \<Rightarrow> 'c \<Rightarrow> 'c option) \<Rightarrow> 'n \<Rightarrow> nat list \<Rightarrow> 'c \<Rightarrow> 'c option" where
  "from_elems Y cast add node [] vec = Some vec"
| "from_elems Y cast add node (i # is) vec = do {
     x \<leftarrow> cast (yaml_emit Y (yaml_at Y node i));
     vec' \<leftarrow> add x vec;
     from_elems Y cast add node is vec'
   }"

definition vector_of_string :: "'n yaml \<Rightarrow> (string \<Rightarrow> 'a option) \<Rightarrow> string \<Rightarrow> 'a list option" where
  "vector_of_string Y cast v = do {
     node \<leftarrow> yaml_load Y v;
     from_elems Y cast (\<lambda>x vec. Some (vec @ [x])) node [0..<yaml_size Y node] []
   }"

definition list_of_string :: "'n yaml \<Rightarrow> (string \<Rightarrow> 'a option) \<Rightarrow> string \<Rightarrow> 'a list option" where
  "list_of_string Y cast v = do {
     node \<leftarrow> yaml_load Y v;
     from_elems Y cast (\<lambda>x vec. Some (vec @ [x])) node [0..<yaml_size Y node] []
   }"

definition set_of_string :: "'n yaml \<Rightarrow> ('a \<Rightarrow> 'a \<Rightarrow> bool option) \<Rightarrow> (string \<Rightarrow> 'a option) \<Rightarrow> string \<Rightarrow> 'a list option" where
  "set_of_string Y cmp cast v = do {
     node \<leftarrow> yaml_load Y v;
     from_elems Y cast (set_insert cmp) node [0..<yaml_size Y node] []
   }"

definition unordered_set_of_string :: "'n yaml \<Rightarrow> (string \<Rightarrow> 'a option) \<Rightarrow> string \<Rightarrow> 'a set option" where
  "unordered_set_of_string Y cast v = do {
     node \<leftarrow> yaml_load Y v;
     from_elems Y cast (\<lambda>x vec. Some (insert x vec)) node [0..<yaml_size Y node] {}
   }"

text \<open>The loop that appends the elements to a node.\<close>

fun push_elems :: "'n yaml \<Rightarrow> ('a \<Rightarrow> string option) \<Rightarrow> 'a list \<Rightarrow> 'n \<Rightarrow> 'n option" where
  "push_elems Y cast [] node = Some node"
| "push_elems Y cast (x # xs) node = do {
     s \<leftarrow> cast x;
     n \<leftarrow> yaml_load Y s;
     push_elems Y cast xs (yaml_push Y node n)
   }"

definition string_of_vector :: "'n yaml \<Rightarrow> ('a \<Rightarrow> string option) \<Rightarrow> 'a list \<Rightarrow> string option" where
  "string_of_vector Y cast v = do { node \<leftarrow> push_elems Y cast v (yaml_null Y); Some (yaml_emit Y (Some node)) }"

definition string_of_list :: "'n yaml \<Rightarrow> ('a \<Rightarrow> string option) \<Rightarrow> 'a list \<Rightarrow> string option" where
  "string_of_list Y cast v = do { node \<leftarrow> push_elems Y cast v (yaml_null Y); Some (yaml_emit Y (Some node)) }"

definition string_of_set :: "'n yaml \<Rightarrow> ('a \<Rightarrow> string option) \<Rightarrow> 'a list \<Rightarrow> string option" where
  "string_of_set Y cast v = do { node \<leftarrow> push_elems Y cast v (yaml_null Y); Some (yaml_emit Y (Some node)) }"

definition string_of_unordered_set :: "'n yaml \<Rightarrow> ('a set \<Rightarrow> 'a list) \<Rightarrow> ('a \<Rightarrow> string option) \<Rightarrow> 'a set \<Rightarrow> string option" where
  "string_of_unordered_set Y iter cast v =
     do { node \<leftarrow> push_elems Y cast (iter v) (yaml_null Y); Some (yaml_emit Y (Some node)) }"

subsection \<open>Maps\<close>

definition key_less :: "string \<times> 'a \<Rightarrow> string \<times> 'a \<Rightarrow> bool option" where
  "key_less x y = Some (fst x < fst y)"

fun from_entries :: "'n yaml \<Rightarrow> (string \<Rightarrow> 'a option) \<Rightarrow> (string \<times> 'a \<Rightarrow> 'c \<Rightarrow> 'c option) \<Rightarrow> (string \<times> 'n) list \<Rightarrow> 'c \<Rightarrow> 'c option" where
  "from_entries Y cast add [] vec = Some vec"
| "from_entries Y cast add ((k, n) # es) vec = do {
     x \<leftarrow> cast (yaml_emit Y (Some n));
     vec' \<leftarrow> add (k, x) vec;
     from_entries Y cast add es vec'
   }"

text \<open>\<open>insert\<close> keeps the value of a key that is there.\<close>

definition map_of_string :: "'n yaml \<Rightarrow> (string \<Rightarrow> 'a option) \<Rightarrow> string \<Rightarrow> (string \<times> 'a) list option" where
  "map_of_string Y cast v = do {
     node \<leftarrow> yaml_load Y v;
     from_entries Y cast (set_insert key_less) (yaml_entries Y node) []
   }"

definition umap_insert :: "string \<times> 'a \<Rightarrow> (string \<rightharpoonup> 'a) \<Rightarrow> (string \<rightharpoonup> 'a) option" where
  "umap_insert p vec = Some (if vec (fst p) = None then vec(fst p \<mapsto> snd p) else vec)"

definition unordered_map_of_string :: "'n yaml \<Rightarrow> (string \<Rightarrow> 'a option) \<Rightarrow> string \<Rightarrow> (string \<rightharpoonup> 'a) option" where
  "unordered_map_of_string Y cast v = do {
     node \<leftarrow> yaml_load Y v;
     from_entries Y cast umap_insert (yaml_entries Y node) Map.empty
   }"

fun set_entries :: "'n yaml \<Rightarrow> ('a \<Rightarrow> string option) \<Rightarrow> (string \<times> 'a) list \<Rightarrow> 'n \<Rightarrow> 'n option" where
  "set_entries Y cast [] node = Some node"
| "set_entries Y cast ((k, x) # es) node = do {
     s \<leftarrow> cast x;
     n \<leftarrow> yaml_load Y s;
     set_entries Y cast es (yaml_set Y node k n)
   }"

definition string_of_map :: "'n yaml \<Rightarrow> ('a \<Rightarrow> string option) \<Rightarrow> (string \<times> 'a) list \<Rightarrow> string option" where
  "string_of_map Y cast v = do { node \<leftarrow> set_entries Y cast v (yaml_null Y); Some (yaml_emit Y (Some node)) }"

definition string_of_unordered_map :: "'n yaml \<Rightarrow> ((string \<rightharpoonup> 'a) \<Rightarrow> (string \<times> 'a) list) \<Rightarrow> ('a \<Rightarrow> string option)
    \<Rightarrow> (string \<rightharpoonup> 'a) \<Rightarrow> string option" where
  "string_of_unordered_map Y iter cast v =
     do { node \<leftarrow> set_entries Y cast (iter v) (yaml_null Y); Some (yaml_emit Y (Some node)) }"

subsection \<open>Reading what was written\<close>

text \<open>The value survives its own casts: its text is read as a node, and the node's text as the value.\<close>

definition elem_ok :: "'n yaml \<Rightarrow> ('a \<Rightarrow> string option) \<Rightarrow> (string \<Rightarrow> 'a option) \<Rightarrow> 'a \<Rightarrow> bool" where
  "elem_ok Y to_str from_str x \<longleftrightarrow>
     (\<exists>s n. to_str x = Some s \<and> yaml_load Y s = Some n \<and> from_str (yaml_emit Y (Some n)) = Some x)"

fun add_all :: "('a \<Rightarrow> 'c \<Rightarrow> 'c option) \<Rightarrow> 'a list \<Rightarrow> 'c \<Rightarrow> 'c option" where
  "add_all add [] vec = Some vec"
| "add_all add (x # xs) vec = do { vec' \<leftarrow> add x vec; add_all add xs vec' }"

lemma from_elems_add_all:
  "(\<And>i. i \<in> set is \<Longrightarrow> cast (yaml_emit Y (yaml_at Y node i)) = Some (f i)) \<Longrightarrow>
     from_elems Y cast add node is vec = add_all add (map f is) vec"
proof (induction "is" arbitrary: vec)
  case (Cons i "is")
  then show ?case by (cases "add (f i) vec") simp_all
qed simp

lemma from_entries_add_all:
  "(\<And>k n. (k, n) \<in> set es \<Longrightarrow> cast (yaml_emit Y (Some n)) = Some (f k n)) \<Longrightarrow>
     from_entries Y cast add es vec = add_all add (map (\<lambda>(k, n). (k, f k n)) es) vec"
proof (induction es arbitrary: vec)
  case (Cons e es)
  obtain k n where e: "e = (k, n)" by fastforce
  have "cast (yaml_emit Y (Some n)) = Some (f k n)" using Cons.prems e by simp
  moreover have "from_entries Y cast add es v = add_all add (map (\<lambda>(k, n). (k, f k n)) es) v" for v
    using Cons by simp
  ultimately show ?case using e by (cases "add (k, f k n) vec") simp_all
qed simp

text \<open>The node of an element.\<close>

definition elem_node :: "'n yaml \<Rightarrow> ('a \<Rightarrow> string option) \<Rightarrow> 'a \<Rightarrow> 'n" where
  "elem_node Y to_str x = the (yaml_load Y (the (to_str x)))"

lemma elem_nodeD:
  assumes "elem_ok Y to_str from_str x"
  shows "\<exists>s. to_str x = Some s \<and> yaml_load Y s = Some (elem_node Y to_str x)"
    and "from_str (yaml_emit Y (Some (elem_node Y to_str x))) = Some x"
  using assms by (auto simp: elem_ok_def elem_node_def)

lemma push_elems_run:
  "\<forall>x \<in> set xs. elem_ok Y to_str from_str x \<Longrightarrow>
     push_elems Y to_str xs node = Some (foldl (yaml_push Y) node (map (elem_node Y to_str) xs))"
  by (induction xs arbitrary: node) (auto dest!: elem_nodeD(1))

lemma set_entries_run:
  "\<forall>e \<in> set es. elem_ok Y to_str from_str (snd e) \<Longrightarrow>
     set_entries Y to_str es node = Some (foldl (\<lambda>n (k, v). yaml_set Y n k v) node (map (\<lambda>(k, x). (k, elem_node Y to_str x)) es))"
  by (induction es arbitrary: node) (auto dest!: elem_nodeD(1))

text \<open>A container that was written is read element by element into any other.\<close>

lemma seq_read_back:
  assumes "yaml_ok Y" "\<forall>x \<in> set xs. elem_ok Y to_str from_str x"
  defines "node \<equiv> yaml_seq Y (map (elem_node Y to_str) xs)"
  shows "push_elems Y to_str xs (yaml_null Y) = Some node" "yaml_load Y (yaml_emit Y (Some node)) = Some node"
    "from_elems Y from_str add node [0..<yaml_size Y node] vec = add_all add xs vec"
proof -
  let ?ns = "map (elem_node Y to_str) xs"
  show "push_elems Y to_str xs (yaml_null Y) = Some node"
    using push_elems_run [OF assms(2)] by (simp add: node_def yaml_seq_def)
  show "yaml_load Y (yaml_emit Y (Some node)) = Some node"
    by (rule yaml_okD(1) [OF assms(1)])
  have "from_str (yaml_emit Y (yaml_at Y (yaml_seq Y ?ns) i)) = Some (xs ! i)" if "i \<in> set [0..<length xs]" for i
    using that elem_nodeD(2) [of Y to_str from_str "xs ! i"] assms(2) yaml_okD(3) [OF assms(1), of i ?ns] by simp
  then have "from_elems Y from_str add (yaml_seq Y ?ns) [0..<length xs] vec = add_all add (map (\<lambda>i. xs ! i) [0..<length xs]) vec"
    by (rule from_elems_add_all)
  then show "from_elems Y from_str add node [0..<yaml_size Y node] vec = add_all add xs vec"
    by (simp add: node_def yaml_okD(2) [OF assms(1)] map_nth)
qed

lemma map_read_back:
  assumes "yaml_ok Y" "\<forall>e \<in> set es. elem_ok Y to_str from_str (snd e)" "distinct (map fst es)"
  defines "node \<equiv> yaml_map Y (map (\<lambda>(k, x). (k, elem_node Y to_str x)) es)"
  shows "set_entries Y to_str es (yaml_null Y) = Some node" "yaml_load Y (yaml_emit Y (Some node)) = Some node"
    "from_entries Y from_str add (yaml_entries Y node) vec = add_all add es vec"
proof -
  let ?kvs = "map (\<lambda>(k, x). (k, elem_node Y to_str x)) es"
  show "set_entries Y to_str es (yaml_null Y) = Some node"
    using set_entries_run [OF assms(2)] by (simp add: node_def yaml_map_def)
  show "yaml_load Y (yaml_emit Y (Some node)) = Some node"
    by (rule yaml_okD(1) [OF assms(1)])
  have keys: "map fst ?kvs = map fst es" by (simp add: comp_def case_prod_unfold)
  have "from_str (yaml_emit Y (Some n)) = Some (the (map_of es k))" if mem: "(k, n) \<in> set ?kvs" for k n
  proof -
    obtain x where "(k, x) \<in> set es" "n = elem_node Y to_str x" using mem by auto
    then show ?thesis using elem_nodeD(2) [of Y to_str from_str x] assms(2) map_of_is_SomeI [OF assms(3)] by force
  qed
  then have "from_entries Y from_str add ?kvs vec = add_all add (map (\<lambda>(k, n). (k, the (map_of es k))) ?kvs) vec"
    by (rule from_entries_add_all)
  moreover have "map (\<lambda>(k, n). (k, the (map_of es k))) ?kvs = es"
    using assms(3) by (intro map_idI [of es, THEN trans [rotated]]) (auto simp: map_of_is_SomeI)
  ultimately show "from_entries Y from_str add (yaml_entries Y node) vec = add_all add es vec"
    using yaml_okD(5) [OF assms(1), of ?kvs] assms(3) unfolding node_def keys by simp
qed

lemma add_all_append: "add_all (\<lambda>x vec. Some (vec @ [x])) xs vec = Some (vec @ xs)"
  by (induction xs arbitrary: vec) simp_all

lemma add_all_insert: "add_all (\<lambda>x vec. Some (insert x vec)) xs S = Some (set xs \<union> S)"
  by (induction xs arbitrary: S) simp_all

lemma set_insert_at_end: "\<forall>y \<in> set ys. cmp y x = Some True \<Longrightarrow> set_insert cmp x ys = Some (ys @ [x])"
  by (induction ys) simp_all

lemma add_all_set_insert:
  "sorted_wrt (\<lambda>a b. cmp a b = Some True) (ys @ xs) \<Longrightarrow> add_all (set_insert cmp) xs ys = Some (ys @ xs)"
proof (induction xs arbitrary: ys)
  case (Cons x xs)
  then show ?case using Cons.IH [of "ys @ [x]"] by (simp add: set_insert_at_end sorted_wrt_append)
qed simp

lemma add_all_umap_insert:
  "distinct (map fst es) \<Longrightarrow> fst ` set es \<inter> dom m = {} \<Longrightarrow> add_all umap_insert es m = Some (m ++ map_of es)"
proof (induction es arbitrary: m)
  case (Cons e es)
  have "m (fst e) = None" using Cons.prems by auto
  then have "add_all umap_insert (e # es) m = add_all umap_insert es (m(fst e \<mapsto> snd e))"
    by (simp add: umap_insert_def)
  also have "\<dots> = Some (m(fst e \<mapsto> snd e) ++ map_of es)" using Cons by auto
  also have "m(fst e \<mapsto> snd e) ++ map_of es = m ++ map_of (e # es)"
    using Cons.prems by (cases e) (simp add: map_add_upd_left dom_map_of_conv_image_fst)
  finally show ?case .
qed simp

subsection \<open>Properties\<close>

text \<open>
  C31. A container whose elements survive their own casts survives its casts: its text is read back as the same
  vector, list, ordered set, unordered set, map or unordered map, whatever order the unordered ones are
  iterated in.
\<close>

theorem container_casts_roundtrip:
  assumes "yaml_ok Y" "\<forall>x \<in> set xs \<union> snd ` set es. elem_ok Y to_str from_str x"
    and "sorted_wrt (\<lambda>a b. cmp a b = Some True) xs" "sorted_wrt (\<lambda>a b. fst a < fst b) es"
    and "set (iter (set xs)) = set xs" "map_of (miter (map_of es)) = map_of es" "distinct (map fst (miter (map_of es)))"
  shows "string_of_vector Y to_str xs \<bind> vector_of_string Y from_str = Some xs
     \<and> string_of_list Y to_str xs \<bind> list_of_string Y from_str = Some xs
     \<and> string_of_set Y to_str xs \<bind> set_of_string Y cmp from_str = Some xs
     \<and> string_of_unordered_set Y iter to_str (set xs) \<bind> unordered_set_of_string Y from_str = Some (set xs)
     \<and> string_of_map Y to_str es \<bind> map_of_string Y from_str = Some es
     \<and> string_of_unordered_map Y miter to_str (map_of es) \<bind> unordered_map_of_string Y from_str = Some (map_of es)"
proof -
  have xs: "\<forall>x \<in> set xs. elem_ok Y to_str from_str x" and es: "\<forall>e \<in> set es. elem_ok Y to_str from_str (snd e)"
    using assms(2) by auto
  have ixs: "\<forall>x \<in> set (iter (set xs)). elem_ok Y to_str from_str x" using xs assms(5) by simp
  have "set (miter (map_of es)) \<subseteq> set es"
    using map_of_is_SomeI [OF assms(7)] assms(6) by (auto dest: map_of_SomeD)
  then have ies: "\<forall>e \<in> set (miter (map_of es)). elem_ok Y to_str from_str (snd e)" using es by auto
  have keys: "distinct (map fst es)"
    using assms(4) by (simp add: sorted_wrt_map [symmetric] strict_sorted_iff)
  have sorted: "sorted_wrt (\<lambda>a b. key_less a b = Some True) es" using assms(4) by (simp add: key_less_def)
  show ?thesis
    by (simp add: string_of_vector_def vector_of_string_def string_of_list_def list_of_string_def string_of_set_def
        set_of_string_def string_of_unordered_set_def unordered_set_of_string_def string_of_map_def map_of_string_def
        string_of_unordered_map_def unordered_map_of_string_def seq_read_back [OF assms(1) xs]
        seq_read_back [OF assms(1) ixs] map_read_back [OF assms(1) es keys] map_read_back [OF assms(1) ies assms(7)]
        add_all_append add_all_insert add_all_set_insert [where ys = "[]", simplified] assms(3,5,6) sorted
        add_all_umap_insert [OF assms(7)])
qed

text \<open>Numbers in unary, with iteration orders that reverse the containers.\<close>

theorem container_casts_roundtrip_witness:
  "\<exists>to_str from_str. string_of_set demo_yaml to_str [2, 5::nat] \<bind> set_of_string demo_yaml (\<lambda>a b. Some (a < b)) from_str = Some [2, 5::nat]
     \<and> string_of_unordered_map demo_yaml (\<lambda>_. [(''b'', 5), (''a'', 2)]) to_str [''a'' \<mapsto> 2::nat, ''b'' \<mapsto> 5]
          \<bind> unordered_map_of_string demo_yaml from_str = Some [''a'' \<mapsto> 2, ''b'' \<mapsto> 5]"
proof -
  let ?to = "\<lambda>x. Some (''s'' @ replicate x (CHR ''1''))" and ?from = "\<lambda>s. Some (length s - 1)"
    and ?es = "[(''a'', 2::nat), (''b'', 5)]"
  have "elem_ok demo_yaml ?to ?from x" for x
    by (simp add: elem_ok_def demo_yaml_def)
  then have "string_of_set demo_yaml ?to [2, 5] \<bind> set_of_string demo_yaml (\<lambda>a b. Some (a < b)) ?from = Some [2, 5]
     \<and> string_of_unordered_map demo_yaml (\<lambda>_. [(''b'', 5), (''a'', 2)]) ?to (map_of ?es)
          \<bind> unordered_map_of_string demo_yaml ?from = Some (map_of ?es)"
    using container_casts_roundtrip [OF demo_yaml_ok, of "[2, 5]" ?es ?to ?from "\<lambda>a b. Some (a < b)" "\<lambda>_. [5, 2]"
        "\<lambda>_. [(''b'', 5), (''a'', 2)]"]
    by (simp add: insert_commute fun_upd_twist)
  moreover have "map_of ?es = [''a'' \<mapsto> 2, ''b'' \<mapsto> 5]" by (simp add: fun_upd_twist)
  ultimately show ?thesis by - (rule exI [of _ ?to], rule exI [of _ ?from], simp)
qed

end
