(* ===== verification/ConfigVars.thy ===== *)
theory ConfigVars
  imports Casts
begin

text \<open>
  Configuration variables and their registry (\<open>src/config.h\<close>, \<open>src/config.cc\<close>). The values of all types are one
  type \<open>'v\<close>, and a type is known by its name; \<open>of_str\<close> and \<open>to_str\<close> are the casts \<open>FromStr\<close> and \<open>ToStr\<close> of a type,
  \<open>None\<close> when they throw. A shared pointer to a variable is its name, since the registry never drops one.
  \<open>call\<close> runs a listener on the rest of the program \<open>'w\<close> and tells whether it returned or threw; listeners
  do not come back to the registry. The locks make each call atomic; diagnostics are left out.
\<close>

subsection \<open>Variables\<close>

record ('v, 'f) config_var =
  cv_name :: string
  cv_description :: string
  cv_type :: string
  cv_val :: 'v
  cv_cbs :: "(u64 \<times> 'f) list"

definition config_var_new :: "string \<Rightarrow> string \<Rightarrow> 'v \<Rightarrow> string \<Rightarrow> ('v, 'f) config_var" where
  "config_var_new ty name default_value description =
     \<lparr>cv_name = name, cv_description = description, cv_type = ty, cv_val = default_value, cv_cbs = []\<rparr>"

definition cv_to_string :: "(string \<Rightarrow> 'v \<Rightarrow> string option) \<Rightarrow> ('v, 'f) config_var \<Rightarrow> string" where
  "cv_to_string to_str var = (case to_str (cv_type var) (cv_val var) of Some s \<Rightarrow> s | None \<Rightarrow> [])"

fun notify :: "('f \<Rightarrow> 'v \<Rightarrow> 'v \<Rightarrow> 'w \<Rightarrow> (bool \<times> 'w) option) \<Rightarrow> (u64 \<times> 'f) list \<Rightarrow> 'v \<Rightarrow> 'v \<Rightarrow> 'w \<Rightarrow> (bool \<times> 'w) option" where
  "notify call [] old new w = Some (True, w)"
| "notify call ((_, cb) # cbs) old new w = do {
     (returned, w1) \<leftarrow> call cb old new w;
     (if returned then notify call cbs old new w1 else Some (False, w1))
   }"

definition set_value :: "('f \<Rightarrow> 'v \<Rightarrow> 'v \<Rightarrow> 'w \<Rightarrow> (bool \<times> 'w) option) \<Rightarrow> 'v \<Rightarrow> ('v, 'f) config_var \<Rightarrow> 'w
    \<Rightarrow> (bool \<times> ('v, 'f) config_var \<times> 'w) option" where
  "set_value call v var w =
     (if cv_val var = v then Some (True, var, w)
      else do {
        (returned, w1) \<leftarrow> notify call (cv_cbs var) (cv_val var) v w;
        Some (if returned then (True, var\<lparr>cv_val := v\<rparr>, w1) else (False, var, w1))
      })"

text \<open>An exception of the cast or of a listener makes \<open>from_string\<close> return false.\<close>

definition cv_from_string :: "(string \<Rightarrow> string \<Rightarrow> 'v option) \<Rightarrow> ('f \<Rightarrow> 'v \<Rightarrow> 'v \<Rightarrow> 'w \<Rightarrow> (bool \<times> 'w) option) \<Rightarrow> string
    \<Rightarrow> ('v, 'f) config_var \<Rightarrow> 'w \<Rightarrow> (bool \<times> ('v, 'f) config_var \<times> 'w) option" where
  "cv_from_string of_str call val var w =
     (case of_str (cv_type var) val of
        None \<Rightarrow> Some (False, var, w)
      | Some v \<Rightarrow> set_value call v var w)"

text \<open>\<open>s_func_id\<close> counts the listeners of all variables of a type.\<close>

definition add_listener :: "'f \<Rightarrow> ('v, 'f) config_var \<times> u64 \<Rightarrow> u64 \<times> ('v, 'f) config_var \<times> u64" where
  "add_listener cb = (\<lambda>(var, s_func_id).
     (s_func_id + 1, var\<lparr>cv_cbs := map_put (s_func_id + 1) cb (cv_cbs var)\<rparr>, s_func_id + 1))"

definition del_listener :: "u64 \<Rightarrow> ('v, 'f) config_var \<Rightarrow> ('v, 'f) config_var" where
  "del_listener key var = var\<lparr>cv_cbs := map_erase key (cv_cbs var)\<rparr>"

definition get_listener :: "u64 \<Rightarrow> ('v, 'f) config_var \<Rightarrow> 'f option" where
  "get_listener key var = map_of (cv_cbs var) key"

definition clear_listener :: "('v, 'f) config_var \<Rightarrow> ('v, 'f) config_var" where
  "clear_listener var = var\<lparr>cv_cbs := []\<rparr>"

subsection \<open>The registry\<close>

type_synonym ('v, 'f) config = "(string \<times> ('v, 'f) config_var) list"

definition name_chars :: string where
  "name_chars = ''abcdefghijklmnopqrstuvwxyzABCDEFGHIJKLMNOPQRSTUVWXYZ._0123456789''"

definition invalid_name :: "string \<Rightarrow> bool" where
  "invalid_name name \<longleftrightarrow> list_ex (\<lambda>c. c \<notin> set name_chars) name"

text \<open>\<open>Inl\<close> is the exception \<open>std::invalid_argument\<close>, \<open>Inr None\<close> the null pointer.\<close>

definition look_up :: "string \<Rightarrow> string \<Rightarrow> 'v \<Rightarrow> string \<Rightarrow> ('v, 'f) config \<Rightarrow> (string + string option) \<times> ('v, 'f) config" where
  "look_up ty name default_value description datas =
     (case map_of datas name of
        Some var \<Rightarrow> (Inr (if cv_type var = ty then Some name else None), datas)
      | None \<Rightarrow>
          if invalid_name name then (Inl name, datas)
          else (Inr (Some name), map_put name (config_var_new ty name default_value description) datas))"

definition look_up_existing :: "string \<Rightarrow> string \<Rightarrow> ('v, 'f) config \<Rightarrow> string option" where
  "look_up_existing ty name datas =
     (case map_of datas name of
        None \<Rightarrow> None
      | Some var \<Rightarrow> if cv_type var = ty then Some name else None)"

definition look_up_base :: "string \<Rightarrow> ('v, 'f) config \<Rightarrow> string option" where
  "look_up_base name datas = (case map_of datas name of None \<Rightarrow> None | Some _ \<Rightarrow> Some name)"

fun visit :: "(('v, 'f) config_var \<Rightarrow> 'w \<Rightarrow> 'w option) \<Rightarrow> ('v, 'f) config \<Rightarrow> 'w \<Rightarrow> 'w option" where
  "visit cb [] w = Some w"
| "visit cb ((_, var) # es) w = do { w1 \<leftarrow> cb var w; visit cb es w1 }"

subsection \<open>Loading\<close>

definition join_key :: "string \<Rightarrow> string \<Rightarrow> string" where
  "join_key prefix k = (if prefix = [] then k else prefix @ ''.'' @ k)"

text \<open>
  \<open>list_all_member\<close>: a pair of a name and a node for every node below the root; \<open>list_entries\<close> is its loop with
  the recursive calls.
\<close>

partial_function (option) list_entries :: "'n yaml \<Rightarrow> string \<Rightarrow> (string \<times> 'n) list \<Rightarrow> (string \<times> 'n) list
    \<Rightarrow> (string \<times> 'n) list option" where
  "list_entries Y prefix es output =
     (case es of
        [] \<Rightarrow> Some output
      | (k, node) # es' \<Rightarrow> do {
          let key = join_key prefix k;
          let output1 = output @ [(key, node)];
          output2 \<leftarrow> (if yaml_is_map Y node then list_entries Y key (yaml_entries Y node) output1 else Some output1);
          list_entries Y prefix es' output2
        })"

definition list_all_member :: "'n yaml \<Rightarrow> string \<Rightarrow> 'n \<Rightarrow> (string \<times> 'n) list \<Rightarrow> (string \<times> 'n) list option" where
  "list_all_member Y prefix node output =
     (if yaml_is_map Y node then list_entries Y prefix (yaml_entries Y node) (output @ [(prefix, node)])
      else Some (output @ [(prefix, node)]))"

definition node_text :: "'n yaml \<Rightarrow> 'n \<Rightarrow> string" where
  "node_text Y node = (if yaml_is_scalar Y node then yaml_scalar Y node else yaml_emit Y (Some node))"

fun load_nodes :: "'n yaml \<Rightarrow> (string \<Rightarrow> string \<Rightarrow> 'v option) \<Rightarrow> ('f \<Rightarrow> 'v \<Rightarrow> 'v \<Rightarrow> 'w \<Rightarrow> (bool \<times> 'w) option)
    \<Rightarrow> (string \<times> 'n) list \<Rightarrow> ('v, 'f) config \<Rightarrow> 'w \<Rightarrow> (('v, 'f) config \<times> 'w) option" where
  "load_nodes Y of_str call [] datas w = Some (datas, w)"
| "load_nodes Y of_str call ((key, node) # nodes) datas w =
     (if key = [] then load_nodes Y of_str call nodes datas w
      else case map_of datas key of
        None \<Rightarrow> load_nodes Y of_str call nodes datas w
      | Some var \<Rightarrow> do {
          (_, var', w1) \<leftarrow> cv_from_string of_str call (node_text Y node) var w;
          load_nodes Y of_str call nodes (map_put key var' datas) w1
        })"

definition load_from_yaml :: "'n yaml \<Rightarrow> (string \<Rightarrow> string \<Rightarrow> 'v option) \<Rightarrow> ('f \<Rightarrow> 'v \<Rightarrow> 'v \<Rightarrow> 'w \<Rightarrow> (bool \<times> 'w) option)
    \<Rightarrow> 'n \<Rightarrow> ('v, 'f) config \<Rightarrow> 'w \<Rightarrow> (('v, 'f) config \<times> 'w) option" where
  "load_from_yaml Y of_str call root datas w = do {
     all_nodes \<leftarrow> list_all_member Y [] root [];
     load_nodes Y of_str call all_nodes datas w
   }"

subsection \<open>The names of a tree\<close>

text \<open>\<open>below Y p n q m\<close>: under the name \<open>p\<close> of the node \<open>n\<close>, the node \<open>m\<close> has the name \<open>q\<close>.\<close>

inductive below :: "'n yaml \<Rightarrow> string \<Rightarrow> 'n \<Rightarrow> string \<Rightarrow> 'n \<Rightarrow> bool" for Y where
  here: "below Y p n p n"
| child: "yaml_is_map Y n \<Longrightarrow> (k, m) \<in> set (yaml_entries Y n) \<Longrightarrow> below Y (join_key p k) m q r \<Longrightarrow> below Y p n q r"

inductive_simps below_unfold: "below Y p n q r"

text \<open>Following the entries of maps comes to an end (a node that is its own descendant through an alias is excluded).\<close>

definition tree_depth :: "'n yaml \<Rightarrow> ('n \<Rightarrow> nat) \<Rightarrow> bool" where
  "tree_depth Y depth \<longleftrightarrow>
     (\<forall>n k m. yaml_is_map Y n \<longrightarrow> (k, m) \<in> set (yaml_entries Y n) \<longrightarrow> depth m < depth n)"

lemma list_entries_run:
  assumes "tree_depth Y depth"
    and "\<forall>(k, m) \<in> set es. depth m < d"
  shows "\<exists>out. list_entries Y p es acc = Some (acc @ out)
     \<and> (\<forall>q r. (q, r) \<in> set out \<longleftrightarrow> (\<exists>(k, m) \<in> set es. below Y (join_key p k) m q r))"
  using assms(2)
proof (induction d arbitrary: p es acc rule: less_induct)
  case (less d)
  show ?case using less.prems
  proof (induction es arbitrary: acc)
    case (Cons e es)
    obtain k n where e: "e = (k, n)" by fastforce
    let ?key = "join_key p k" and ?acc = "acc @ [(join_key p k, n)]"
    have "\<exists>out1. (if yaml_is_map Y n then list_entries Y ?key (yaml_entries Y n) ?acc else Some ?acc) = Some (acc @ out1)
       \<and> (\<forall>q r. (q, r) \<in> set out1 \<longleftrightarrow> below Y ?key n q r)"
    proof (cases "yaml_is_map Y n")
      case True
      have "depth n < d" "\<forall>(k, m) \<in> set (yaml_entries Y n). depth m < depth n"
        using Cons.prems e assms(1) True by (auto simp: tree_depth_def)
      from less.IH [OF this, of ?key ?acc] obtain out2 where
        "list_entries Y ?key (yaml_entries Y n) ?acc = Some (?acc @ out2)"
        "\<forall>q r. (q, r) \<in> set out2 \<longleftrightarrow> (\<exists>(k, m) \<in> set (yaml_entries Y n). below Y (join_key ?key k) m q r)" by blast
      then show ?thesis using True below_unfold [of Y ?key n]
        by (intro exI [of _ "(?key, n) # out2"]) auto
    next
      case False
      then show ?thesis using below_unfold [of Y ?key n] by (intro exI [of _ "[(?key, n)]"]) auto
    qed
    then obtain out1 where out1:
      "(if yaml_is_map Y n then list_entries Y ?key (yaml_entries Y n) ?acc else Some ?acc) = Some (acc @ out1)"
      "\<forall>q r. (q, r) \<in> set out1 \<longleftrightarrow> below Y ?key n q r" by blast
    obtain out3 where out3: "list_entries Y p es (acc @ out1) = Some ((acc @ out1) @ out3)"
      "\<forall>q r. (q, r) \<in> set out3 \<longleftrightarrow> (\<exists>(k, m) \<in> set es. below Y (join_key p k) m q r)"
      using Cons.IH [of "acc @ out1"] Cons.prems by auto
    have "list_entries Y p (e # es) acc = Some (acc @ out1 @ out3)"
      using out1(1) out3(1) e by (subst list_entries.simps) (simp add: Let_def)
    then show ?case using out1(2) out3(2) e by (intro exI [of _ "out1 @ out3"]) auto
  qed (subst list_entries.simps, simp)
qed

lemma list_all_member_run:
  assumes "tree_depth Y depth"
  shows "\<exists>out. list_all_member Y p n [] = Some out \<and> (\<forall>q r. (q, r) \<in> set out \<longleftrightarrow> below Y p n q r)"
proof (cases "yaml_is_map Y n")
  case True
  then have "\<forall>(k, m) \<in> set (yaml_entries Y n). depth m < depth n" using assms by (auto simp: tree_depth_def)
  from list_entries_run [OF assms this, of p "[(p, n)]"] obtain out where
    "list_entries Y p (yaml_entries Y n) [(p, n)] = Some ([(p, n)] @ out)"
    "\<forall>q r. (q, r) \<in> set out \<longleftrightarrow> (\<exists>(k, m) \<in> set (yaml_entries Y n). below Y (join_key p k) m q r)" by blast
  then show ?thesis using True below_unfold [of Y p n]
    by (intro exI [of _ "(p, n) # out"]) (auto simp: list_all_member_def)
next
  case False
  then show ?thesis using below_unfold [of Y p n] by (intro exI [of _ "[(p, n)]"]) (auto simp: list_all_member_def)
qed

subsection \<open>The values after loading\<close>

text \<open>The nodes of a name in the order in which they are met; the last one that can be cast counts.\<close>

definition nodes_of :: "string \<Rightarrow> (string \<times> 'n) list \<Rightarrow> 'n list" where
  "nodes_of name nodes = map snd (filter (\<lambda>e. fst e = name) nodes)"

definition loaded_value :: "'n yaml \<Rightarrow> (string \<Rightarrow> 'v option) \<Rightarrow> 'v \<Rightarrow> 'n list \<Rightarrow> 'v" where
  "loaded_value Y cast v ns =
     foldl (\<lambda>v n. case cast (node_text Y n) of None \<Rightarrow> v | Some v' \<Rightarrow> v') v ns"

text \<open>Listeners that always return, and listeners that come back, although perhaps by an exception.\<close>

definition listeners_return :: "('f \<Rightarrow> 'v \<Rightarrow> 'v \<Rightarrow> 'w \<Rightarrow> (bool \<times> 'w) option) \<Rightarrow> (u64 \<times> 'f) list \<Rightarrow> bool" where
  "listeners_return call cbs \<longleftrightarrow> (\<forall>(k, cb) \<in> set cbs. \<forall>old new w. \<exists>w'. call cb old new w = Some (True, w'))"

definition listeners_come_back :: "('f \<Rightarrow> 'v \<Rightarrow> 'v \<Rightarrow> 'w \<Rightarrow> (bool \<times> 'w) option) \<Rightarrow> (u64 \<times> 'f) list \<Rightarrow> bool" where
  "listeners_come_back call cbs \<longleftrightarrow> (\<forall>(k, cb) \<in> set cbs. \<forall>old new w. call cb old new w \<noteq> None)"

lemma notify_returns:
  assumes "listeners_return call cbs"
  shows "\<exists>w'. notify call cbs old new w = Some (True, w')"
  using assms
proof (induction cbs arbitrary: w)
  case (Cons c cbs)
  obtain k cb where c: "c = (k, cb)" by fastforce
  obtain w1 where "call cb old new w = Some (True, w1)" using Cons.prems unfolding listeners_return_def c by fastforce
  moreover have "listeners_return call cbs" using Cons.prems by (simp add: listeners_return_def)
  ultimately show ?case using Cons.IH [of w1] c by simp
qed simp

lemma notify_comes_back:
  assumes "listeners_come_back call cbs"
  shows "notify call cbs old new w \<noteq> None"
  using assms
proof (induction cbs arbitrary: w)
  case (Cons c cbs)
  obtain k cb where c: "c = (k, cb)" by fastforce
  obtain b w1 where "call cb old new w = Some (b, w1)" using Cons.prems unfolding listeners_come_back_def c by fastforce
  moreover have "listeners_come_back call cbs" using Cons.prems by (simp add: listeners_come_back_def)
  ultimately show ?case using Cons.IH [of w1] c by (cases b) simp_all
qed simp

lemma cv_from_string_outcome:
  assumes "cv_from_string of_str call s var w = Some (b, var', w')"
  shows "var' = var\<lparr>cv_val := cv_val var'\<rparr> \<and> (cv_val var' = cv_val var \<or> of_str (cv_type var) s = Some (cv_val var'))
     \<and> (listeners_return call (cv_cbs var) \<longrightarrow> cv_val var' = (case of_str (cv_type var) s of None \<Rightarrow> cv_val var | Some v' \<Rightarrow> v'))"
proof (cases "of_str (cv_type var) s")
  case (Some v)
  then show ?thesis using assms notify_returns [of call "cv_cbs var" "cv_val var" v w]
    by (auto simp: cv_from_string_def set_value_def bind_eq_Some_conv split: if_splits)
qed (use assms in \<open>auto simp: cv_from_string_def\<close>)

lemma cv_from_string_ends:
  assumes "listeners_come_back call (cv_cbs var)"
  shows "cv_from_string of_str call s var w \<noteq> None"
proof (cases "of_str (cv_type var) s")
  case (Some v)
  then show ?thesis using notify_comes_back [OF assms, of "cv_val var" v w]
    by (cases "notify call (cv_cbs var) (cv_val var) v w") (auto simp: cv_from_string_def set_value_def)
qed (simp add: cv_from_string_def)

definition load_var :: "'n yaml \<Rightarrow> (string \<Rightarrow> string \<Rightarrow> 'v option) \<Rightarrow> (string \<times> 'n) list \<Rightarrow> string \<Rightarrow> ('v, 'f) config_var \<Rightarrow> ('v, 'f) config_var" where
  "load_var Y of_str nodes name var =
     (if name = [] then var else var\<lparr>cv_val := loaded_value Y (of_str (cv_type var)) (cv_val var) (nodes_of name nodes)\<rparr>)"

text \<open>A value that a variable may have afterwards: its own, or one that a node of its name was cast to.\<close>

definition possible_value :: "'n yaml \<Rightarrow> (string \<Rightarrow> string \<Rightarrow> 'v option) \<Rightarrow> (string \<times> 'n) list \<Rightarrow> string \<Rightarrow> ('v, 'f) config_var \<Rightarrow> 'v \<Rightarrow> bool" where
  "possible_value Y of_str nodes name var v \<longleftrightarrow>
     v = cv_val var \<or> (\<exists>n \<in> set (nodes_of name nodes). of_str (cv_type var) (node_text Y n) = Some v)"

text \<open>How a variable may come out of loading.\<close>

definition loaded :: "'n yaml \<Rightarrow> (string \<Rightarrow> string \<Rightarrow> 'v option) \<Rightarrow> ('f \<Rightarrow> 'v \<Rightarrow> 'v \<Rightarrow> 'w \<Rightarrow> (bool \<times> 'w) option) \<Rightarrow> (string \<times> 'n) list
    \<Rightarrow> string \<Rightarrow> ('v, 'f) config_var \<Rightarrow> ('v, 'f) config_var \<Rightarrow> bool" where
  "loaded Y of_str call nodes name var var' \<longleftrightarrow>
     var' = var\<lparr>cv_val := cv_val var'\<rparr> \<and> possible_value Y of_str nodes name var (cv_val var')
     \<and> (listeners_return call (cv_cbs var) \<longrightarrow> var' = load_var Y of_str nodes name var)"

lemma nodes_of_Cons: "nodes_of name ((key, n) # nodes) = (if key = name then n # nodes_of name nodes else nodes_of name nodes)"
  by (simp add: nodes_of_def)

lemma loaded_Nil: "loaded Y of_str call [] name var var"
  by (auto simp: loaded_def possible_value_def load_var_def loaded_value_def nodes_of_def)

lemma loaded_skip:
  assumes "loaded Y of_str call nodes name var var'" "key \<noteq> name \<or> key = []"
  shows "loaded Y of_str call ((key, n) # nodes) name var var'"
  using assms by (auto simp: loaded_def possible_value_def load_var_def nodes_of_Cons)

lemma loaded_node:
  assumes "cv_from_string of_str call (node_text Y n) var w = Some (b, var1, w1)" "loaded Y of_str call nodes name var1 var'"
    and "name \<noteq> []"
  shows "loaded Y of_str call ((name, n) # nodes) name var var'"
proof -
  obtain v where v: "var1 = var\<lparr>cv_val := v\<rparr>" "v = cv_val var \<or> of_str (cv_type var) (node_text Y n) = Some v"
    "listeners_return call (cv_cbs var) \<longrightarrow> v = (case of_str (cv_type var) (node_text Y n) of None \<Rightarrow> cv_val var | Some v' \<Rightarrow> v')"
    by (rule that [of "cv_val var1"]) (use cv_from_string_outcome [OF assms(1)] in blast)+
  have l: "var' = var\<lparr>cv_val := cv_val var'\<rparr>" "possible_value Y of_str nodes name (var\<lparr>cv_val := v\<rparr>) (cv_val var')"
    "listeners_return call (cv_cbs var) \<longrightarrow> var' = load_var Y of_str nodes name (var\<lparr>cv_val := v\<rparr>)"
    using assms(2) by (simp_all add: loaded_def v(1))
  have "possible_value Y of_str ((name, n) # nodes) name var (cv_val var')"
    using l(2) v(2) by (auto simp: possible_value_def nodes_of_Cons)
  moreover have "var' = load_var Y of_str ((name, n) # nodes) name var" if "listeners_return call (cv_cbs var)"
    using l(3) v(3) that assms(3) by (simp add: load_var_def loaded_value_def nodes_of_Cons)
  ultimately show ?thesis using l(1) by (simp add: loaded_def)
qed

lemma map_put_existing:
  assumes "sorted_map datas" "map_of datas key = Some var"
  shows "map fst (map_put key var' datas) = map fst datas"
  using map_put_keys [OF assms(1), of key] image_eqI [OF _ map_of_SomeD [OF assms(2)], of key fst] by simp

lemma load_nodes_outcome:
  assumes "sorted_map datas" "load_nodes Y of_str call nodes datas w = Some (datas', w')"
  shows "map fst datas' = map fst datas
     \<and> (\<forall>name var. map_of datas name = Some var \<longrightarrow> (\<exists>var'. map_of datas' name = Some var' \<and> loaded Y of_str call nodes name var var'))"
  using assms
proof (induction nodes arbitrary: datas w)
  case (Cons e nodes)
  obtain key n where e: "e = (key, n)" by fastforce
  show ?case
  proof (cases "key = [] \<or> map_of datas key = None")
    case True
    then have "load_nodes Y of_str call nodes datas w = Some (datas', w')" using Cons.prems(2) by (auto simp: e split: option.splits)
    from Cons.IH [OF Cons.prems(1) this] True show ?thesis unfolding e by (metis loaded_skip option.distinct(1))
  next
    case False
    then obtain var b var1 w1 where run: "map_of datas key = Some var"
      "cv_from_string of_str call (node_text Y n) var w = Some (b, var1, w1)"
      "load_nodes Y of_str call nodes (map_put key var1 datas) w1 = Some (datas', w')" "key \<noteq> []"
      using Cons.prems(2) by (auto simp: e bind_eq_Some_conv split: if_splits)
    note ih = Cons.IH [OF sorted_map_put [OF Cons.prems(1)] run(3)] and keys = map_put_existing [OF Cons.prems(1) run(1), of var1]
    have "\<exists>var'. map_of datas' name = Some var' \<and> loaded Y of_str call ((key, n) # nodes) name v var'"
      if "map_of datas name = Some v" for name v
    proof (cases "name = key")
      case True
      then have "map_of (map_put key var1 datas) name = Some var1" "v = var" using that run(1) by simp_all
      with ih loaded_node [OF run(2) _ run(4)] True show ?thesis by blast
    next
      case False
      then have "map_of (map_put key var1 datas) name = Some v" using that by simp
      with ih loaded_skip [of Y of_str call nodes name v _ key n] False show ?thesis by blast
    qed
    then show ?thesis using ih keys by (simp add: e)
  qed
qed (use loaded_Nil in auto)

lemma load_nodes_ends:
  assumes "sorted_map datas" "\<And>name var. map_of datas name = Some var \<Longrightarrow> listeners_come_back call (cv_cbs var)"
  shows "load_nodes Y of_str call nodes datas w \<noteq> None"
  using assms
proof (induction nodes arbitrary: datas w)
  case (Cons e nodes)
  obtain key n where e: "e = (key, n)" by fastforce
  show ?case
  proof (cases "key = [] \<or> map_of datas key = None")
    case True
    then show ?thesis using Cons.IH [OF Cons.prems] by (auto simp: e split: option.split)
  next
    case False
    then obtain var where var: "map_of datas key = Some var" "key \<noteq> []" by auto
    obtain b var1 w1 where run: "cv_from_string of_str call (node_text Y n) var w = Some (b, var1, w1)"
      using cv_from_string_ends [OF Cons.prems(2) [OF var(1)]] by (metis not_None_eq prod_cases3)
    have "var1 = var\<lparr>cv_val := cv_val var1\<rparr>" using cv_from_string_outcome [OF run] by blast
    then have "cv_cbs var1 = cv_cbs var" by (metis config_var.select_convs(5) config_var.surjective config_var.update_convs(4))
    then have "load_nodes Y of_str call nodes (map_put key var1 datas) w1 \<noteq> None"
      using Cons.prems(2) [OF var(1)] Cons.prems(2)
      by (intro Cons.IH sorted_map_put [OF Cons.prems(1)]) (auto split: if_splits)
    then show ?thesis using var run by (simp add: e)
  qed
qed simp

lemma list_entries_simps [simp]:
  "list_entries Y prefix [] output = Some output"
  "list_entries Y prefix ((k, node) # es) output = do {
     output2 \<leftarrow> (if yaml_is_map Y node then list_entries Y (join_key prefix k) (yaml_entries Y node) (output @ [(join_key prefix k, node)])
                 else Some (output @ [(join_key prefix k, node)]));
     list_entries Y prefix es output2
   }"
  by (subst list_entries.simps, simp add: Let_def)+

lemma demo_yaml_depth: "tree_depth demo_yaml (\<lambda>n. length (yenc n))"
  unfolding tree_depth_def
proof (intro allI impI)
  fix n k m assume "yaml_is_map demo_yaml n" "(k, m) \<in> set (yaml_entries demo_yaml n)"
  then obtain kvs where "n = Map_node kvs" "(k, m) \<in> set kvs" by (cases n) (auto simp: demo_yaml_def)
  then show "length (yenc m) < length (yenc n)" using length_entry [of k m kvs yenc] by simp
qed

subsection \<open>Listeners\<close>

text \<open>
  Calls that concern the listeners of a variable; \<open>Elsewhere\<close> is a listener of another variable of the same
  type. The abstract registration is a list to which new listeners are appended.
\<close>

datatype 'f listener_op = Add 'f | Del u64 | Clear | Elsewhere

fun listener_step :: "'f listener_op \<Rightarrow> ('v, 'f) config_var \<times> u64 \<Rightarrow> ('v, 'f) config_var \<times> u64" where
  "listener_step (Add cb) (var, c) = snd (add_listener cb (var, c))"
| "listener_step (Del key) (var, c) = (del_listener key var, c)"
| "listener_step Clear (var, c) = (clear_listener var, c)"
| "listener_step Elsewhere (var, c) = (var, c + 1)"

fun reg_step :: "'f listener_op \<Rightarrow> (nat \<times> 'f) list \<times> nat \<Rightarrow> (nat \<times> 'f) list \<times> nat" where
  "reg_step (Add cb) (es, n) = (es @ [(n + 1, cb)], n + 1)"
| "reg_step (Del key) (es, n) = (filter (\<lambda>e. fst e \<noteq> unat key) es, n)"
| "reg_step Clear (es, n) = ([], n)"
| "reg_step Elsewhere (es, n) = (es, n + 1)"

definition reg_rel :: "('v, 'f) config_var \<times> u64 \<Rightarrow> (nat \<times> 'f) list \<times> nat \<Rightarrow> bool" where
  "reg_rel = (\<lambda>(var, c) (es, n). unat c = n \<and> (\<forall>e \<in> set es. fst e \<le> n) \<and> cv_cbs var = map (\<lambda>(k, cb). (of_nat k, cb)) es)"

lemma reg_step_rel:
  assumes "reg_rel (var, c) (es, n)" "n + 1 < 2 ^ 64"
  shows "reg_rel (listener_step op (var, c)) (reg_step op (es, n))"
proof -
  have n: "unat (c + 1) = n + 1" "c = of_nat n"
    using assms by (auto simp: reg_rel_def unat_word_ariths word_unat_eq_iff unat_of_nat)
  have less: "\<forall>e \<in> set (map (\<lambda>(k, cb). (of_nat k :: u64, cb)) es). fst e < c + 1"
    using assms n by (auto simp: reg_rel_def word_less_nat_alt unat_of_nat)
  have "map_erase key (map (\<lambda>(k, cb). (of_nat k, cb)) es)
      = map (\<lambda>(k, cb). (of_nat k, cb)) (filter (\<lambda>e. fst e \<noteq> unat key) es)" for key :: u64
    using assms
    by (auto simp: map_erase_def filter_map comp_def case_prod_unfold reg_rel_def word_unat_eq_iff unat_of_nat
        intro!: arg_cong [where f = "map _"] filter_cong)
  then show ?thesis using assms n map_put_last [OF less]
    by (cases op) (auto simp: reg_rel_def add_listener_def del_listener_def clear_listener_def)
qed

lemma reg_steps_rel:
  assumes "reg_rel (var, c) (es, n)" "n + length ops < 2 ^ 64"
  shows "reg_rel (fold listener_step ops (var, c)) (fold reg_step ops (es, n))"
  using assms
proof (induction ops arbitrary: var c es n)
  case (Cons op ops)
  obtain var' c' es' n' where s: "listener_step op (var, c) = (var', c')" "reg_step op (es, n) = (es', n')" by fastforce
  have "n' \<le> n + 1" using s(2) by (cases op) auto
  then show ?case using Cons.IH [of var' c' es' n'] reg_step_rel [OF Cons.prems(1), of op] Cons.prems(2) s by simp
qed simp

lemma listener_step_val: "cv_val (fst (listener_step op vc)) = cv_val (fst vc)"
  by (cases vc; cases op) (simp_all add: add_listener_def del_listener_def clear_listener_def)

lemma listener_steps_val: "cv_val (fst (fold listener_step ops vc)) = cv_val (fst vc)"
  by (induction ops arbitrary: vc) (simp_all add: listener_step_val)

text \<open>Listeners that record their calls.\<close>

definition record_call :: "'f \<Rightarrow> 'v \<Rightarrow> 'v \<Rightarrow> ('f \<times> 'v \<times> 'v) list \<Rightarrow> (bool \<times> ('f \<times> 'v \<times> 'v) list) option" where
  "record_call cb old new w = Some (True, w @ [(cb, old, new)])"

lemma notify_record: "notify record_call cbs old new w = Some (True, w @ map (\<lambda>(_, cb). (cb, old, new)) cbs)"
  by (induction cbs arbitrary: w) (auto simp: record_call_def)

subsection \<open>Properties\<close>

text \<open>
  C32. Loading a document in which no node lies below itself meets exactly the nodes below its root, each under its dotted
  name. It returns if every listener of a registered variable comes back, by returning or by an exception. Whenever
  it returns, the same variables are registered and only their values may differ. A variable (with a name that is
  not empty) whose listeners all return has the value of the last of its nodes (those whose dotted name is its name) whose text
  can be cast to its type, or its old value if there is none. A variable with a listener that throws has
  its old value or one that some of its nodes is cast to.
\<close>

theorem load_from_yaml_sets_variables:
  assumes "tree_depth Y depth" "sorted_map datas"
  shows "\<exists>nodes. list_all_member Y [] root [] = Some nodes
     \<and> (\<forall>q r. (q, r) \<in> set nodes \<longleftrightarrow> below Y [] root q r)
     \<and> ((\<forall>name var. map_of datas name = Some var \<longrightarrow> listeners_come_back call (cv_cbs var))
          \<longrightarrow> load_from_yaml Y of_str call root datas w \<noteq> None)
     \<and> (\<forall>datas' w'. load_from_yaml Y of_str call root datas w = Some (datas', w') \<longrightarrow> map fst datas' = map fst datas
          \<and> (\<forall>name var. map_of datas name = Some var \<longrightarrow> (\<exists>v. map_of datas' name = Some (var\<lparr>cv_val := v\<rparr>)
               \<and> (v = cv_val var \<or> (\<exists>n \<in> set (nodes_of name nodes). of_str (cv_type var) (node_text Y n) = Some v))
               \<and> (listeners_return call (cv_cbs var) \<and> name \<noteq> []
                    \<longrightarrow> v = loaded_value Y (of_str (cv_type var)) (cv_val var) (nodes_of name nodes)))))"
proof -
  obtain nodes where nodes: "list_all_member Y [] root [] = Some nodes" "\<forall>q r. (q, r) \<in> set nodes \<longleftrightarrow> below Y [] root q r"
    using list_all_member_run [OF assms(1)] by blast
  have load: "load_from_yaml Y of_str call root datas w = load_nodes Y of_str call nodes datas w"
    by (simp add: load_from_yaml_def nodes(1))
  have var: "\<exists>v. map_of datas' name = Some (var\<lparr>cv_val := v\<rparr>)
       \<and> (v = cv_val var \<or> (\<exists>n \<in> set (nodes_of name nodes). of_str (cv_type var) (node_text Y n) = Some v))
       \<and> (listeners_return call (cv_cbs var) \<and> name \<noteq> []
            \<longrightarrow> v = loaded_value Y (of_str (cv_type var)) (cv_val var) (nodes_of name nodes))"
    if "load_nodes Y of_str call nodes datas w = Some (datas', w')" "map_of datas name = Some var" for datas' w' name var
  proof -
    from load_nodes_outcome [OF assms(2) that(1)] that(2) obtain var' where
      v: "map_of datas' name = Some var'" "loaded Y of_str call nodes name var var'" by blast
    from v(2) have "var' = var\<lparr>cv_val := cv_val var'\<rparr>" by (simp add: loaded_def)
    with v(1) have "map_of datas' name = Some (var\<lparr>cv_val := cv_val var'\<rparr>)" by simp
    moreover have "listeners_return call (cv_cbs var) \<and> name \<noteq> []
        \<Longrightarrow> cv_val var' = loaded_value Y (of_str (cv_type var)) (cv_val var) (nodes_of name nodes)"
      using v(2) by (simp add: loaded_def load_var_def)
    ultimately show ?thesis using v(2) unfolding loaded_def possible_value_def by blast
  qed
  have "(\<forall>name var. map_of datas name = Some var \<longrightarrow> listeners_come_back call (cv_cbs var))
      \<Longrightarrow> load_from_yaml Y of_str call root datas w \<noteq> None"
    unfolding load by (rule load_nodes_ends [OF assms(2)]) blast
  moreover have "map fst datas' = map fst datas" if "load_nodes Y of_str call nodes datas w = Some (datas', w')" for datas' w'
    using load_nodes_outcome [OF assms(2) that] by blast
  ultimately show ?thesis using nodes var unfolding load by (intro exI [of _ nodes]) blast
qed

text \<open>A number in unary, set twice; the second text is no number.\<close>

definition unary :: "string \<Rightarrow> string \<Rightarrow> nat option" where
  "unary ty s = (if set s \<subseteq> {CHR ''1''} then Some (length s) else None)"

definition demo_root :: ynode where
  "demo_root = Map_node [(''tcp'', Map_node [(''ttl'', Scalar_node ''111'')]), (''tcp.ttl'', Scalar_node ''x'')]"

theorem load_from_yaml_sets_variables_witness:
  "\<exists>datas datas' w'. look_up ''int'' ''tcp.ttl'' (1::nat) ''time to live'' [] = (Inr (Some ''tcp.ttl''), datas)
     \<and> load_from_yaml demo_yaml unary (record_call :: unit \<Rightarrow> _) demo_root datas [] = Some (datas', w')
     \<and> map_option cv_val (map_of datas' ''tcp.ttl'') = Some 3"
proof -
  let ?call = "record_call :: unit \<Rightarrow> nat \<Rightarrow> nat \<Rightarrow> _"
    and ?var = "config_var_new ''int'' ''tcp.ttl'' 1 ''time to live'' :: (nat, unit) config_var"
  let ?load = "load_from_yaml demo_yaml unary ?call demo_root [(''tcp.ttl'', ?var)] []"
  have lu: "look_up ''int'' ''tcp.ttl'' (1::nat) ''time to live'' [] = (Inr (Some ''tcp.ttl''), [(''tcp.ttl'', ?var)])"
    by (simp add: look_up_def invalid_name_def name_chars_def)
  have ret: "listeners_come_back ?call (cv_cbs ?var)" "listeners_return ?call (cv_cbs ?var)"
    by (simp_all add: listeners_come_back_def listeners_return_def config_var_new_def)
  have nodes: "nodes_of ''tcp.ttl'' nodes = [Scalar_node ''111'', Scalar_node ''x'']"
    if "list_all_member demo_yaml [] demo_root [] = Some nodes" for nodes
    using that by (auto simp: demo_root_def list_all_member_def demo_yaml_def join_key_def nodes_of_def)
  have "sorted_map [(''tcp.ttl'', ?var)]" by (simp add: sorted_map_def)
  from load_from_yaml_sets_variables [OF demo_yaml_depth this, of demo_root ?call unary "[]"] obtain ns where
    ns: "list_all_member demo_yaml [] demo_root [] = Some ns"
    and ends: "(\<forall>name var. map_of [(''tcp.ttl'', ?var)] name = Some var \<longrightarrow> listeners_come_back ?call (cv_cbs var)) \<longrightarrow> ?load \<noteq> None"
    and vals: "\<forall>datas' w'. ?load = Some (datas', w') \<longrightarrow> map fst datas' = map fst [(''tcp.ttl'', ?var)]
          \<and> (\<forall>name var. map_of [(''tcp.ttl'', ?var)] name = Some var \<longrightarrow> (\<exists>v. map_of datas' name = Some (var\<lparr>cv_val := v\<rparr>)
               \<and> (v = cv_val var \<or> (\<exists>n \<in> set (nodes_of name ns). unary (cv_type var) (node_text demo_yaml n) = Some v))
               \<and> (listeners_return ?call (cv_cbs var) \<and> name \<noteq> []
                    \<longrightarrow> v = loaded_value demo_yaml (unary (cv_type var)) (cv_val var) (nodes_of name ns))))" by blast
  have "map_of [(''tcp.ttl'', ?var)] name = Some var \<Longrightarrow> var = ?var" for name var by (simp split: if_splits)
  with ends ret(1) have "?load \<noteq> None" by blast
  then obtain datas' w' where load: "?load = Some (datas', w')" by force
  moreover have "map_of [(''tcp.ttl'', ?var)] ''tcp.ttl'' = Some ?var" by simp
  ultimately obtain v where r: "map_of datas' ''tcp.ttl'' = Some (?var\<lparr>cv_val := v\<rparr>)"
    "v = loaded_value demo_yaml (unary (cv_type ?var)) (cv_val ?var) [Scalar_node ''111'', Scalar_node ''x'']"
    using vals [rule_format, THEN conjunct2, rule_format, of datas' w' "''tcp.ttl''" ?var] ret(2) nodes [OF ns] by auto
  have "v = 3" using r(2) by (simp add: unary_def loaded_value_def node_text_def demo_yaml_def config_var_new_def)
  then show ?thesis using lu load r(1) by auto
qed

text \<open>
  The listeners of a variable are those that were added and not deleted, under fresh keys and in the order of
  their registration, as long as the counter of the type does not wrap around. A new value is announced to
  each of them once in this order, with the old value, before it is stored; the same value to none.
\<close>

theorem listeners_run_in_order:
  assumes "unat c + length ops < 2 ^ 64"
    and "fold listener_step ops (config_var_new ty name v0 descr, c) = (var, c')"
    and "fold reg_step ops ([], unat c) = (es, n')"
  shows "unat c' = n' \<and> cv_cbs var = map (\<lambda>(k, cb). (of_nat k, cb)) es
     \<and> fst (add_listener cb (var, c')) = c' + 1
     \<and> set_value record_call v var w =
         Some (True, var\<lparr>cv_val := v\<rparr>, if v = v0 then w else w @ map (\<lambda>(_, cb). (cb, v0, v)) es)"
proof -
  have "reg_rel (config_var_new ty name v0 descr, c) ([], unat c)" by (simp add: reg_rel_def config_var_new_def)
  from reg_steps_rel [OF this assms(1)] assms(2,3)
  have r: "unat c' = n'" "cv_cbs var = map (\<lambda>(k, cb). (of_nat k, cb)) es" by (auto simp: reg_rel_def)
  have "cv_val var = v0" using listener_steps_val [of ops "(config_var_new ty name v0 descr, c)"] assms(2)
    by (simp add: config_var_new_def)
  then show ?thesis using r
    by (auto simp: set_value_def notify_record add_listener_def case_prod_unfold comp_def)
qed

theorem listeners_run_in_order_witness:
  "\<exists>var c'. fold listener_step [Add ''a'', Elsewhere, Add ''b'', Add ''c'', Del 3] (config_var_new ''int'' ''x'' (1::nat) [], 0) = (var, c')
     \<and> set_value record_call 2 var [] = Some (True, var\<lparr>cv_val := 2\<rparr>, [(''a'', 1, 2), (''c'', 1, 2)])"
proof -
  let ?ops = "[Add ''a'', Elsewhere, Add ''b'', Add ''c'', Del 3] :: string listener_op list"
  obtain var c' where f: "fold listener_step ?ops (config_var_new ''int'' ''x'' (1::nat) [], 0) = (var, c')" by fastforce
  have "fold reg_step ?ops ([], unat (0 :: u64)) = ([(1, ''a''), (4, ''c'')], 4)" by simp
  from listeners_run_in_order [OF _ f this, where v = 2 and w = "[]"] f show ?thesis by auto
qed

end
