(* ===== verification/LogFormat.thy ===== *)
theory LogFormat
  imports IpAddr
begin

text \<open>
  Log levels, events and the pattern of a formatter (\<open>src/log.h\<close>, \<open>src/log.cc\<close>): the parser of the
  pattern as the loops of \<open>LogFormatter::init\<close>, and the formatting of an event by the parsed items.
  \<open>strftime\<close> depends on the time zone and the locale and is a parameter: what it leaves in the buffer.
\<close>

subsection \<open>Levels\<close>

datatype log_level = UNKNOW | DEBUG | INFO | WARN | ERROR | FATAL | NEVER

fun level_code :: "log_level \<Rightarrow> nat" where
  "level_code UNKNOW = 0"
| "level_code DEBUG = 1"
| "level_code INFO = 2"
| "level_code WARN = 3"
| "level_code ERROR = 4"
| "level_code FATAL = 5"
| "level_code NEVER = 100"

lemma level_code_inj: "level_code x = level_code y \<longleftrightarrow> x = y"
  by (cases x; cases y) simp_all

instantiation log_level :: linorder
begin

definition "x \<le> y \<longleftrightarrow> level_code x \<le> level_code y"

definition "x < y \<longleftrightarrow> level_code x < level_code y"

instance
  by standard (auto simp: less_eq_log_level_def less_log_level_def level_code_inj)

end

lemmas level_order_defs = less_eq_log_level_def less_log_level_def

fun level_to_string :: "log_level \<Rightarrow> string" where
  "level_to_string DEBUG = ''DEBUG''"
| "level_to_string INFO = ''INFO''"
| "level_to_string WARN = ''WARN''"
| "level_to_string ERROR = ''ERROR''"
| "level_to_string FATAL = ''FATAL''"
| "level_to_string UNKNOW = ''UNKNOW''"
| "level_to_string NEVER = ''UNKNOW''"

definition level_from_string :: "string \<Rightarrow> log_level" where
  "level_from_string s =
     (if s = ''DEBUG'' then DEBUG else if s = ''INFO'' then INFO else if s = ''WARN'' then WARN
      else if s = ''ERROR'' then ERROR else if s = ''FATAL'' then FATAL else UNKNOW)"

subsection \<open>Events and items\<close>

record log_event =
  ev_file :: string
  ev_line :: u32
  ev_elapse :: u32
  ev_thread_id :: u32
  ev_thread_name :: string
  ev_time :: u64
  ev_content :: string
  ev_logger :: addr
  ev_level :: log_level

datatype format_item =
    Message_item | Level_item | Elapse_item | Name_item | Thread_id_item | Thread_name_item
  | Date_time_item string | Filename_item | Line_item | New_line_item | String_item string | Tab_item

definition date_time_item :: "string \<Rightarrow> format_item" where
  "date_time_item fmt = Date_time_item (if fmt = [] then ''%Y-%m-%d %H:%M:%S'' else fmt)"

text \<open>
  \<open>strf\<close> is \<open>strftime\<close>, \<open>lname\<close> gives the name of a logger object. The name item dereferences the logger of the event,
  which may be null.
\<close>

fun item_format :: "(string \<Rightarrow> u64 \<Rightarrow> string) \<Rightarrow> (addr \<Rightarrow> string option) \<Rightarrow> log_level \<Rightarrow> log_event \<Rightarrow> format_item
    \<Rightarrow> string option" where
  "item_format strf lname level event Message_item = Some (ev_content event)"
| "item_format strf lname level event Level_item = Some (level_to_string level)"
| "item_format strf lname level event Elapse_item = Some (dec (unat (ev_elapse event)))"
| "item_format strf lname level event Name_item = lname (ev_logger event)"
| "item_format strf lname level event Thread_id_item = Some (dec (unat (ev_thread_id event)))"
| "item_format strf lname level event Thread_name_item = Some (ev_thread_name event)"
| "item_format strf lname level event (Date_time_item fmt) = Some (strf fmt (ev_time event))"
| "item_format strf lname level event Filename_item = Some (ev_file event)"
| "item_format strf lname level event Line_item = Some (dec (unat (ev_line event)))"
| "item_format strf lname level event New_line_item = Some [CHR 0x0A]"
| "item_format strf lname level event (String_item s) = Some s"
| "item_format strf lname level event Tab_item = Some [CHR 0x09]"

subsection \<open>The pattern\<close>

definition isalpha :: "char \<Rightarrow> bool" where
  "isalpha c \<longleftrightarrow> (let n = of_char c :: nat in (65 \<le> n \<and> n \<le> 90) \<or> (97 \<le> n \<and> n \<le> 122))"

definition substr :: "string \<Rightarrow> nat \<Rightarrow> nat \<Rightarrow> string" where
  "substr s pos n = take n (drop pos s)"

text \<open>
  The inner loop from position \<open>n\<close> of the directive at \<open>i\<close>; the result is \<open>str\<close>, \<open>fmt\<close>, \<open>fmt_status\<close> and
  \<open>n\<close> behind the loop.
\<close>

function scan_fmt :: "string \<Rightarrow> nat \<Rightarrow> nat \<Rightarrow> nat \<Rightarrow> nat \<Rightarrow> string \<Rightarrow> string \<Rightarrow> string \<times> string \<times> nat \<times> nat" where
  "scan_fmt pat i n fmt_status fmt_begine str fmt =
     (if n < length pat
      then if fmt_status = 0 \<and> \<not> isalpha (pat ! n) \<and> pat ! n \<noteq> CHR ''{'' \<and> pat ! n \<noteq> CHR ''}''
        then (substr pat (i + 1) (n - i - 1), fmt, fmt_status, n)
        else if fmt_status = 0 \<and> pat ! n = CHR ''{''
        then scan_fmt pat i (n + 1) 1 n (substr pat (i + 1) (n - i - 1)) fmt
        else if fmt_status = 1 \<and> pat ! n = CHR ''}''
        then (str, substr pat (fmt_begine + 1) (n - fmt_begine - 1), 0, n + 1)
        else scan_fmt pat i (n + 1) fmt_status fmt_begine
               (if n + 1 = length pat \<and> str = [] then substr pat (i + 1) (length pat) else str) fmt
      else (str, fmt, fmt_status, n))"
  by auto
termination by (relation "measure (\<lambda>(pat, _, n, _). length pat - n)") auto

declare scan_fmt.simps [simp del]

lemma scan_fmt_advances:
  "scan_fmt pat i n status b str fmt = (str', fmt', status', n') \<Longrightarrow> n \<le> n'"
proof (induction pat i n status b str fmt rule: scan_fmt.induct)
  case (1 pat i n status b str fmt)
  then show ?case
    by (subst (asm) (3) scan_fmt.simps) (auto split: if_splits dest!: Suc_leD)
qed

text \<open>The outer loop; the entries of \<open>vec\<close> are text, format and kind.\<close>

function parse_loop :: "string \<Rightarrow> nat \<Rightarrow> string \<Rightarrow> (string \<times> string \<times> nat) list \<Rightarrow> bool
    \<Rightarrow> (string \<times> string \<times> nat) list \<times> string \<times> bool" where
  "parse_loop pat i nstr vec err =
     (if i < length pat
      then if pat ! i \<noteq> CHR ''%'' then parse_loop pat (i + 1) (nstr @ [pat ! i]) vec err
        else if i + 1 < length pat \<and> pat ! (i + 1) = CHR ''%'' then parse_loop pat (i + 1) (nstr @ ''%'') vec err
        else case scan_fmt pat i (i + 1) 0 0 [] [] of (str, fmt, fmt_status, n) \<Rightarrow>
          if fmt_status = 0
          then parse_loop pat n [] ((if nstr = [] then vec else vec @ [(nstr, [], 0)]) @ [(str, fmt, 1)]) err
          else parse_loop pat (i + 1) nstr (vec @ [(''<<pattern-error>>'', fmt, 0)]) True
      else (vec, nstr, err))"
  by auto
termination
  by (relation "measure (\<lambda>(pat, i, _). length pat - i)") (auto dest!: scan_fmt_advances [OF sym])

declare parse_loop.simps [simp del]

text \<open>The table of items and the last loop of \<open>init\<close>.\<close>

definition format_item_of :: "string \<Rightarrow> string \<Rightarrow> format_item option" where
  "format_item_of str fmt =
     (if str = ''m'' then Some Message_item
      else if str = ''p'' then Some Level_item
      else if str = ''r'' then Some Elapse_item
      else if str = ''c'' then Some Name_item
      else if str = ''t'' then Some Thread_id_item
      else if str = ''n'' then Some New_line_item
      else if str = ''d'' then Some (date_time_item fmt)
      else if str = ''f'' then Some Filename_item
      else if str = ''l'' then Some Line_item
      else if str = ''T'' then Some Tab_item
      else if str = ''N'' then Some Thread_name_item
      else None)"

fun build_items :: "(string \<times> string \<times> nat) list \<Rightarrow> bool \<Rightarrow> format_item list \<times> bool" where
  "build_items [] err = ([], err)"
| "build_items ((str, fmt, kind) # vec) err =
     (if kind = 0
      then (let (items, err') = build_items vec err in (String_item str # items, err'))
      else case format_item_of str fmt of
             None \<Rightarrow> (let (items, err') = build_items vec True
                      in (String_item (''<<error_format %'' @ str @ ''>>'') # items, err'))
           | Some item \<Rightarrow> (let (items, err') = build_items vec err in (item # items, err')))"

record log_formatter =
  fm_pattern :: string
  fm_items :: "format_item list"
  fm_error :: bool

definition formatter_new :: "string \<Rightarrow> log_formatter" where
  "formatter_new pattern =
     (let (vec, nstr, err) = parse_loop pattern 0 [] [] False;
          vec' = (if nstr = [] then vec else vec @ [(nstr, [], 0)]);
          (items, err') = build_items vec' err
      in \<lparr>fm_pattern = pattern, fm_items = items, fm_error = err'\<rparr>)"

text \<open>\<open>format\<close>: the items one after the other; what the earlier ones gave is lost when one has undefined behaviour.\<close>

fun format_items :: "(string \<Rightarrow> u64 \<Rightarrow> string) \<Rightarrow> (addr \<Rightarrow> string option) \<Rightarrow> log_level \<Rightarrow> log_event \<Rightarrow> format_item list
    \<Rightarrow> string \<Rightarrow> string option" where
  "format_items strf lname level event [] ss = Some ss"
| "format_items strf lname level event (i # items) ss = do {
     text \<leftarrow> item_format strf lname level event i;
     format_items strf lname level event items (ss @ text)
   }"

definition formatter_format :: "(string \<Rightarrow> u64 \<Rightarrow> string) \<Rightarrow> (addr \<Rightarrow> string option) \<Rightarrow> log_formatter \<Rightarrow> log_level
    \<Rightarrow> log_event \<Rightarrow> string option" where
  "formatter_format strf lname fm level event = format_items strf lname level event (fm_items fm) []"

text \<open>What an item writes when the logger of the event exists.\<close>

definition item_text :: "(string \<Rightarrow> u64 \<Rightarrow> string) \<Rightarrow> (addr \<Rightarrow> string option) \<Rightarrow> log_level \<Rightarrow> log_event \<Rightarrow> format_item \<Rightarrow> string" where
  "item_text strf lname level event i = the (item_format strf lname level event i)"

lemma item_format_None: "item_format strf lname level event i = None \<longleftrightarrow> i = Name_item \<and> lname (ev_logger event) = None"
  by (cases i) simp_all

lemma format_items_run:
  "format_items strf lname level event items ss =
     (if Name_item \<in> set items \<and> lname (ev_logger event) = None then None
      else Some (ss @ concat (map (item_text strf lname level event) items)))"
proof (induction items arbitrary: ss)
  case (Cons i items)
  then show ?case using item_format_None [of strf lname level event i]
      item_text_def [of strf lname level event i]
    by (cases "item_format strf lname level event i") auto
qed simp

lemma formatter_format_run:
  "formatter_format strf lname fm level event =
     (if Name_item \<in> set (fm_items fm) \<and> lname (ev_logger event) = None then None
      else Some (concat (map (item_text strf lname level event) (fm_items fm))))"
  by (simp add: formatter_format_def format_items_run)

subsection \<open>Parsing what was rendered\<close>

text \<open>
  Abstract patterns: literal text, and directives by their name with or without a format. \<open>entry\<close> is
  what the parser makes of a segment.
\<close>

datatype seg = Lit string | Dir string | Dir_fmt string string

fun render_seg :: "seg \<Rightarrow> string" where
  "render_seg (Lit s) = s"
| "render_seg (Dir c) = ''%'' @ c"
| "render_seg (Dir_fmt c fmt) = ''%'' @ c @ ''{'' @ fmt @ ''}''"

fun entry :: "seg \<Rightarrow> string \<times> string \<times> nat" where
  "entry (Lit s) = (s, [], 0)"
| "entry (Dir c) = (c, [], 1)"
| "entry (Dir_fmt c fmt) = (c, fmt, 1)"

definition render :: "seg list \<Rightarrow> string" where
  "render segs = concat (map render_seg segs)"

text \<open>A character that continues the name of a directive.\<close>

definition name_char :: "char \<Rightarrow> bool" where
  "name_char c \<longleftrightarrow> isalpha c \<or> c = CHR ''{'' \<or> c = CHR ''}''"

fun wf_seg :: "seg \<Rightarrow> bool" where
  "wf_seg (Lit s) \<longleftrightarrow> s \<noteq> [] \<and> CHR ''%'' \<notin> set s"
| "wf_seg (Dir c) \<longleftrightarrow> c \<noteq> [] \<and> list_all isalpha c"
| "wf_seg (Dir_fmt c fmt) \<longleftrightarrow> c \<noteq> [] \<and> list_all isalpha c \<and> CHR ''}'' \<notin> set fmt"

text \<open>Two literals do not meet, and a name ends where a character follows that cannot be part of it.\<close>

fun wf_segs :: "seg list \<Rightarrow> bool" where
  "wf_segs [] \<longleftrightarrow> True"
| "wf_segs [x] \<longleftrightarrow> wf_seg x"
| "wf_segs (Lit s # y # ys) \<longleftrightarrow> wf_seg (Lit s) \<and> (\<forall>t. y \<noteq> Lit t) \<and> wf_segs (y # ys)"
| "wf_segs (Dir c # Lit t # ys) \<longleftrightarrow> wf_seg (Dir c) \<and> \<not> name_char (hd t) \<and> wf_segs (Lit t # ys)"
| "wf_segs (x # y # ys) \<longleftrightarrow> wf_seg x \<and> wf_segs (y # ys)"

lemma isalpha_not [simp]: "isalpha c \<Longrightarrow> c \<noteq> CHR ''%''" "isalpha c \<Longrightarrow> c \<noteq> CHR ''{''" "isalpha c \<Longrightarrow> c \<noteq> CHR ''}''"
  by (auto simp: isalpha_def)

text \<open>The inner loop runs over a name, and over a format.\<close>

lemma scan_name:
  assumes "list_all isalpha c"
  shows "scan_fmt (pre @ c @ r # rest) i (length pre) 0 b str fmt
     = scan_fmt (pre @ c @ r # rest) i (length pre + length c) 0 b str fmt"
  using assms
proof (induction c arbitrary: pre)
  case (Cons x c)
  have "scan_fmt (pre @ (x # c) @ r # rest) i (length pre) 0 b str fmt
      = scan_fmt ((pre @ [x]) @ c @ r # rest) i (length (pre @ [x])) 0 b str fmt"
    using Cons.prems by (subst scan_fmt.simps) (simp add: nth_append)
  then show ?case using Cons.IH [of "pre @ [x]"] Cons.prems by simp
qed simp

lemma scan_name_end:
  assumes "list_all isalpha c" "c \<noteq> []"
  shows "scan_fmt (pre @ c) i (length pre) 0 b [] fmt
     = (substr (pre @ c) (i + 1) (length (pre @ c)), fmt, 0, length (pre @ c))"
  using assms
proof (induction c arbitrary: pre)
  case (Cons x c)
  show ?case
  proof (cases "c = []")
    case True
    then show ?thesis using Cons.prems
      by (subst scan_fmt.simps) (simp add: nth_append, subst scan_fmt.simps, simp)
  next
    case False
    then have "scan_fmt (pre @ x # c) i (length pre) 0 b [] fmt
        = scan_fmt ((pre @ [x]) @ c) i (length (pre @ [x])) 0 b [] fmt"
      using Cons.prems by (subst scan_fmt.simps) (auto simp: nth_append)
    then show ?thesis using Cons.IH [of "pre @ [x]"] Cons.prems False by simp
  qed
qed simp

lemma scan_in_fmt:
  assumes "CHR ''}'' \<notin> set f"
  shows "scan_fmt (pre @ f @ CHR ''}'' # rest) i (length pre) 1 b str fmt
     = scan_fmt (pre @ f @ CHR ''}'' # rest) i (length pre + length f) 1 b str fmt"
  using assms
proof (induction f arbitrary: pre)
  case (Cons x f)
  have "scan_fmt (pre @ (x # f) @ CHR ''}'' # rest) i (length pre) 1 b str fmt
      = scan_fmt ((pre @ [x]) @ f @ CHR ''}'' # rest) i (length (pre @ [x])) 1 b str fmt"
    using Cons.prems by (subst scan_fmt.simps) (auto simp: nth_append)
  then show ?case using Cons.IH [of "pre @ [x]"] Cons.prems by simp
qed simp

text \<open>The three ways a directive ends.\<close>

lemma scan_dir_end:
  assumes "list_all isalpha c" "c \<noteq> []"
  shows "scan_fmt (pre @ CHR ''%'' # c) (length pre) (length pre + 1) 0 0 [] [] = (c, [], 0, length pre + 1 + length c)"
  using scan_name_end [OF assms, of "pre @ ''%''" "length pre" 0 "[]"] by (simp add: substr_def)

lemma scan_dir_stop:
  assumes "list_all isalpha c" "\<not> name_char r"
  shows "scan_fmt (pre @ CHR ''%'' # c @ r # rest) (length pre) (length pre + 1) 0 0 [] []
     = (c, [], 0, length pre + 1 + length c)"
proof -
  have "scan_fmt (pre @ CHR ''%'' # c @ r # rest) (length pre) (length pre + 1) 0 0 [] []
      = scan_fmt (pre @ CHR ''%'' # c @ r # rest) (length pre) (length pre + 1 + length c) 0 0 [] []"
    using scan_name [OF assms(1), of "pre @ ''%''" r rest "length pre" 0 "[]" "[]"] by simp
  also have "\<dots> = (c, [], 0, length pre + 1 + length c)"
    using assms(2) by (subst scan_fmt.simps) (simp add: nth_append name_char_def substr_def)
  finally show ?thesis .
qed

lemma scan_dir_fmt:
  assumes "list_all isalpha c" "CHR ''}'' \<notin> set f"
  shows "scan_fmt (pre @ CHR ''%'' # c @ CHR ''{'' # f @ CHR ''}'' # rest) (length pre) (length pre + 1) 0 0 [] []
     = (c, f, 0, length pre + 3 + length c + length f)"
proof -
  let ?pat = "pre @ CHR ''%'' # c @ CHR ''{'' # f @ CHR ''}'' # rest" and ?n = "length pre + 1 + length c"
  have "scan_fmt ?pat (length pre) (length pre + 1) 0 0 [] [] = scan_fmt ?pat (length pre) ?n 0 0 [] []"
    using scan_name [OF assms(1), of "pre @ ''%''" "CHR ''{''" "f @ CHR ''}'' # rest" "length pre" 0 "[]" "[]"] by simp
  also have "\<dots> = scan_fmt ?pat (length pre) (?n + 1) 1 ?n c []"
    by (subst scan_fmt.simps) (simp add: nth_append isalpha_def substr_def)
  also have "\<dots> = scan_fmt ?pat (length pre) (?n + 1 + length f) 1 ?n c []"
    using scan_in_fmt [OF assms(2), of "pre @ ''%'' @ c @ ''{''" rest "length pre" ?n c "[]"] by simp
  also have "\<dots> = (c, f, 0, ?n + 1 + length f + 1)"
    by (subst scan_fmt.simps) (simp add: nth_append substr_def)
  finally show ?thesis by simp
qed

lemma parse_lit:
  assumes "CHR ''%'' \<notin> set s"
  shows "parse_loop (pre @ s @ rest) (length pre) nstr vec err
     = parse_loop (pre @ s @ rest) (length pre + length s) (nstr @ s) vec err"
  using assms
proof (induction s arbitrary: pre nstr)
  case (Cons x s)
  have "parse_loop (pre @ (x # s) @ rest) (length pre) nstr vec err
      = parse_loop ((pre @ [x]) @ s @ rest) (length (pre @ [x])) (nstr @ [x]) vec err"
    using Cons.prems by (subst parse_loop.simps) (auto simp: nth_append)
  then show ?case using Cons.IH [of "pre @ [x]" "nstr @ [x]"] Cons.prems by simp
qed simp

definition pending :: "string \<Rightarrow> (string \<times> string \<times> nat) list" where
  "pending nstr = (if nstr = [] then [] else [(nstr, [], 0)])"

text \<open>One directive in the outer loop.\<close>

lemma parse_dir:
  assumes "scan_fmt (pre @ CHR ''%'' # x # rest) (length pre) (length pre + 1) 0 0 [] [] = (str, fmt, 0, n)"
    and "x \<noteq> CHR ''%''"
  shows "parse_loop (pre @ CHR ''%'' # x # rest) (length pre) nstr vec err
     = parse_loop (pre @ CHR ''%'' # x # rest) n [] (vec @ pending nstr @ [(str, fmt, 1)]) err"
  using assms by (subst parse_loop.simps) (simp add: nth_append pending_def)

definition starts_lit :: "seg list \<Rightarrow> bool" where
  "starts_lit segs \<longleftrightarrow> (\<exists>t ss. segs = Lit t # ss)"

lemma render_Cons: "render (x # xs) = render_seg x @ render xs"
  by (simp add: render_def)

lemma wf_segs_Cons: "wf_segs (x # xs) \<Longrightarrow> wf_seg x \<and> wf_segs xs"
  by (cases "x # xs" rule: wf_segs.cases) simp_all

text \<open>After a directive without a format the rest of the text starts with no name character.\<close>

lemma render_after_dir:
  assumes "wf_segs (Dir c # xs)" "xs \<noteq> []"
  obtains r rest where "render xs = r # rest" "\<not> name_char r"
proof (cases xs)
  case (Cons y ys)
  show thesis
  proof (cases y)
    case (Lit t)
    then obtain r rest where "t = r # rest" using assms Cons wf_segs_Cons [OF assms(1)] by (cases t) (auto dest: wf_segs_Cons)
    then show thesis using that assms Cons Lit by (simp add: render_Cons)
  qed (use that Cons in \<open>auto simp: render_Cons name_char_def isalpha_def\<close>)
qed (use assms in simp)

lemma parse_render:
  assumes "wf_segs segs" "nstr \<noteq> [] \<Longrightarrow> \<not> starts_lit segs"
  shows "\<exists>vec' nstr'. parse_loop (pre @ render segs) (length pre) nstr vec err = (vec', nstr', err)
     \<and> vec' @ pending nstr' = vec @ pending nstr @ map entry segs"
  using assms
proof (induction segs arbitrary: pre nstr vec)
  case Nil
  then show ?case by (subst parse_loop.simps) (simp add: render_def)
next
  case (Cons x segs)
  note wf = wf_segs_Cons [OF Cons.prems(1)]
  show ?case
  proof (cases x)
    case (Lit s)
    have n: "nstr = []" using Cons.prems(2) Lit by (auto simp: starts_lit_def)
    have "\<not> starts_lit segs" using Cons.prems(1) Lit by (cases segs) (auto simp: starts_lit_def)
    with Cons.IH [of s "pre @ s" vec] wf parse_lit [of s pre "render segs" "[]" vec err] Lit n
    show ?thesis by (simp add: render_Cons pending_def)
  next
    case (Dir c)
    then obtain y c' where c: "c = y # c'" "isalpha y" "list_all isalpha c" using wf by (cases c) auto
    have scan: "scan_fmt (pre @ CHR ''%'' # c @ render segs) (length pre) (length pre + 1) 0 0 [] []
        = (c, [], 0, length pre + 1 + length c)"
    proof (cases "segs = []")
      case True
      then show ?thesis using scan_dir_end [OF c(3)] c(1) by (simp add: render_def)
    next
      case False
      from Cons.prems(1) Dir have "wf_segs (Dir c # segs)" by simp
      then obtain r rest where "render segs = r # rest" "\<not> name_char r" using False by (rule render_after_dir)
      then show ?thesis using scan_dir_stop [OF c(3)] by simp
    qed
    have "parse_loop (pre @ render (x # segs)) (length pre) nstr vec err
        = parse_loop ((pre @ CHR ''%'' # c) @ render segs) (length (pre @ CHR ''%'' # c)) []
            (vec @ pending nstr @ [(c, [], 1)]) err"
      using parse_dir [of pre y "c' @ render segs" c "[]" "length pre + 1 + length c" nstr vec err] scan c Dir
      by (simp add: render_Cons)
    with Cons.IH [of "[]" "pre @ CHR ''%'' # c" "vec @ pending nstr @ [(c, [], 1)]"] wf Dir show ?thesis
      by (simp add: pending_def)
  next
    case (Dir_fmt c fmt)
    then obtain y c' where c: "c = y # c'" "isalpha y" "list_all isalpha c" "CHR ''}'' \<notin> set fmt" using wf by (cases c) auto
    let ?pre = "pre @ CHR ''%'' # c @ CHR ''{'' # fmt @ ''}''"
    have "parse_loop (pre @ render (x # segs)) (length pre) nstr vec err
        = parse_loop (?pre @ render segs) (length ?pre) [] (vec @ pending nstr @ [(c, fmt, 1)]) err"
      using parse_dir [of pre y "c' @ CHR ''{'' # fmt @ CHR ''}'' # render segs" c fmt
          "length pre + 3 + length c + length fmt" nstr vec err] scan_dir_fmt [OF c(3,4), of pre "render segs"] c Dir_fmt
      by (simp add: render_Cons numeral_eq_Suc add.assoc)
    with Cons.IH [of "[]" ?pre "vec @ pending nstr @ [(c, fmt, 1)]"] wf Dir_fmt show ?thesis
      by (simp add: pending_def)
  qed
qed

lemma formatter_new_render:
  assumes "wf_segs segs"
  shows "fm_items (formatter_new (render segs)) = fst (build_items (map entry segs) False)
     \<and> fm_error (formatter_new (render segs)) = snd (build_items (map entry segs) False)"
proof -
  obtain vec nstr where "parse_loop (render segs) 0 [] [] False = (vec, nstr, False)" "vec @ pending nstr = map entry segs"
    using parse_render [OF assms, of "[]" "[]" "[]" False] by (auto simp: pending_def)
  then show ?thesis
    by (simp add: formatter_new_def pending_def Let_def split: prod.split if_splits)
qed

fun seg_item :: "seg \<Rightarrow> format_item option" where
  "seg_item (Lit s) = Some (String_item s)"
| "seg_item (Dir c) = format_item_of c []"
| "seg_item (Dir_fmt c fmt) = format_item_of c fmt"

lemma build_items_entries:
  "(\<forall>x \<in> set segs. seg_item x \<noteq> None) \<Longrightarrow> build_items (map entry segs) err = (map (\<lambda>x. the (seg_item x)) segs, err)"
proof (induction segs)
  case (Cons x segs)
  then show ?case by (cases x) auto
qed simp

lemma build_items_error:
  "snd (build_items (map entry segs) err) \<longleftrightarrow> err \<or> (\<exists>x \<in> set segs. seg_item x = None)"
proof (induction segs arbitrary: err)
  case (Cons x segs)
  show ?case by (cases x) (auto simp: case_prod_unfold Let_def Cons.IH split: option.split)
qed simp

lemma formatter_percent_end:
  assumes "CHR ''%'' \<notin> set s" shows "fm_error (formatter_new (s @ ''%%''))"
proof -
  have "scan_fmt (s @ ''%%'') (Suc (length s)) (Suc (Suc (length s))) 0 0 [] [] = ([], [], 0, Suc (Suc (length s)))"
    by (subst scan_fmt.simps) simp
  then have "parse_loop (s @ ''%%'') 0 [] [] False = ([(s @ ''%'', [], 0), ([], [], 1)], [], False)"
    using parse_lit [OF assms, of "[]" "''%%''" "[]" "[]" False]
    by (simp, subst parse_loop.simps, simp add: nth_append, subst parse_loop.simps, simp add: nth_append,
        subst parse_loop.simps, simp)
  then show ?thesis by (simp add: formatter_new_def format_item_of_def)
qed

subsection \<open>Properties\<close>

text \<open>
  C29. The pattern of a formatter is parsed as it is written: the text of any well-formed sequence of literals
  and directives, with or without formats, is read back as the items of exactly these segments, without an
  error; a well-formed sequence with an unknown directive is always reported as an error. An escaped percent
  sign is not consumed as a whole: at the end of a pattern it is an error.
\<close>

theorem formatter_parses_rendering:
  assumes "wf_segs segs"
  shows "(fm_error (formatter_new (render segs)) \<longleftrightarrow> (\<exists>x \<in> set segs. seg_item x = None))
     \<and> ((\<forall>x \<in> set segs. seg_item x \<noteq> None) \<longrightarrow>
          fm_items (formatter_new (render segs)) = map (\<lambda>x. the (seg_item x)) segs)
     \<and> (\<forall>s. CHR ''%'' \<notin> set s \<longrightarrow> fm_error (formatter_new (s @ ''%%'')))"
  using formatter_new_render [OF assms] build_items_error [of segs False] build_items_entries [of segs False]
    formatter_percent_end by auto

text \<open>The pattern that every logger starts with.\<close>

theorem formatter_parses_rendering_witness:
  "fm_items (formatter_new ''%d{%H:%M}%T[%t %N] %m'')
     = [Date_time_item ''%H:%M'', Tab_item, String_item ''['', Thread_id_item, String_item '' '', Thread_name_item,
        String_item ''] '', Message_item]
   \<and> \<not> fm_error (formatter_new ''%d{%H:%M}%T[%t %N] %m'')"
proof -
  let ?segs = "[Dir_fmt ''d'' ''%H:%M'', Dir ''T'', Lit ''['', Dir ''t'', Lit '' '', Dir ''N'', Lit ''] '', Dir ''m'']"
  have "wf_segs ?segs" by (simp add: name_char_def isalpha_def)
  from formatter_parses_rendering [OF this]
  show ?thesis by (simp add: render_def format_item_of_def date_time_item_def)
qed

end
