(* ===== verification/Logger.thy ===== *)
theory Logger
  imports LogFormat
begin

text \<open>
  Loggers, their appenders and the manager (\<open>src/log.h\<close>, \<open>src/log.cc\<close>). Loggers and appenders are objects
  on a heap, numbered as they are constructed; the output is the sequence of what is written to the
  console and to files. \<open>can_open\<close> tells which files can be opened. The locks make each call atomic.
\<close>

subsection \<open>State\<close>

datatype log_output = Opened string | Wrote "string option" string

record appender =
  ap_file :: "string option"
  ap_stream_ok :: bool
  ap_level :: log_level
  ap_formatter :: "log_formatter option"

record logger =
  lg_name :: string
  lg_level :: log_level
  lg_appender :: "addr list"
  lg_formatter :: "log_formatter option"
  lg_root :: addr

record log_state =
  ls_loggers :: "addr \<rightharpoonup> logger"
  ls_appenders :: "addr \<rightharpoonup> appender"
  ls_map :: "string \<rightharpoonup> addr"
  ls_root :: addr
  ls_next :: addr
  ls_out :: "log_output list"

definition put_logger :: "addr \<Rightarrow> logger \<Rightarrow> log_state \<Rightarrow> log_state" where
  "put_logger a l s = s\<lparr>ls_loggers := (ls_loggers s)(a \<mapsto> l)\<rparr>"

definition put_appender :: "addr \<Rightarrow> appender \<Rightarrow> log_state \<Rightarrow> log_state" where
  "put_appender a p s = s\<lparr>ls_appenders := (ls_appenders s)(a \<mapsto> p)\<rparr>"

subsection \<open>Appenders\<close>

definition stdout_appender_new :: "log_state \<Rightarrow> addr \<times> log_state" where
  "stdout_appender_new s =
     (ls_next s, put_appender (ls_next s) \<lparr>ap_file = None, ap_stream_ok = True, ap_level = DEBUG, ap_formatter = None\<rparr>
                   (s\<lparr>ls_next := ls_next s + 1\<rparr>))"

text \<open>\<open>reopen\<close>: closing a stream that was never opened is undone by a successful open, which truncates the file.\<close>

definition reopen :: "(string \<Rightarrow> bool) \<Rightarrow> addr \<Rightarrow> log_state \<Rightarrow> (bool \<times> log_state) option" where
  "reopen can_open a s = do {
     p \<leftarrow> ls_appenders s a;
     filename \<leftarrow> ap_file p;
     let s1 = put_appender a (p\<lparr>ap_stream_ok := can_open filename\<rparr>) s;
     Some (can_open filename, if can_open filename then s1\<lparr>ls_out := ls_out s1 @ [Opened filename]\<rparr> else s1)
   }"

definition file_appender_new :: "(string \<Rightarrow> bool) \<Rightarrow> string \<Rightarrow> log_state \<Rightarrow> (addr \<times> log_state) option" where
  "file_appender_new can_open filename s = do {
     let a = ls_next s;
     let s1 = put_appender a \<lparr>ap_file = Some filename, ap_stream_ok = True, ap_level = DEBUG, ap_formatter = None\<rparr>
                (s\<lparr>ls_next := a + 1\<rparr>);
     (_, s2) \<leftarrow> reopen can_open a s1;
     Some (a, s2)
   }"

text \<open>\<open>set_formatter\<close>, \<open>set_level\<close> and \<open>formatter\<close> of an appender.\<close>

definition ap_set_formatter :: "addr \<Rightarrow> log_formatter option \<Rightarrow> log_state \<Rightarrow> log_state option" where
  "ap_set_formatter a fm s = do { p \<leftarrow> ls_appenders s a; Some (put_appender a (p\<lparr>ap_formatter := fm\<rparr>) s) }"

definition ap_set_level :: "addr \<Rightarrow> log_level \<Rightarrow> log_state \<Rightarrow> log_state option" where
  "ap_set_level a level s = do { p \<leftarrow> ls_appenders s a; Some (put_appender a (p\<lparr>ap_level := level\<rparr>) s) }"

definition logger_name :: "log_state \<Rightarrow> addr \<Rightarrow> string option" where
  "logger_name s a = map_option lg_name (ls_loggers s a)"

text \<open>
  \<open>log\<close> of both appenders: a null formatter is dereferenced; a stream that failed to open takes nothing, but
  the event is formatted.
\<close>

definition appender_log :: "(string \<Rightarrow> u64 \<Rightarrow> string) \<Rightarrow> log_level \<Rightarrow> log_event \<Rightarrow> addr \<Rightarrow> log_state \<Rightarrow> log_state option" where
  "appender_log strf level event a s = do {
     p \<leftarrow> ls_appenders s a;
     (if ap_level p \<le> level
      then do {
        fm \<leftarrow> ap_formatter p;
        text \<leftarrow> formatter_format strf (logger_name s) fm level event;
        Some (if ap_stream_ok p then s\<lparr>ls_out := ls_out s @ [Wrote (ap_file p) text]\<rparr> else s)
      }
      else Some s)
   }"

subsection \<open>Loggers\<close>

definition default_pattern :: string where
  "default_pattern = ''%d{%Y-%m-%d %H:%M:%S}%T[%t %N]%T%T[%p]%T[%c]%T%f:%l%T%m%T%n''"

definition logger_new :: "string \<Rightarrow> log_state \<Rightarrow> addr \<times> log_state" where
  "logger_new name s =
     (ls_next s, put_logger (ls_next s)
        \<lparr>lg_name = name, lg_level = DEBUG, lg_appender = [], lg_formatter = Some (formatter_new default_pattern),
         lg_root = nullptr\<rparr> (s\<lparr>ls_next := ls_next s + 1\<rparr>))"

text \<open>
  The loop of \<open>Logger::log\<close> over the rest of its appenders. The root logger is asked inside the loop, in
  the branch where the list is empty.
\<close>

partial_function (option) log_loop :: "(string \<Rightarrow> u64 \<Rightarrow> string) \<Rightarrow> logger \<Rightarrow> log_level \<Rightarrow> log_event \<Rightarrow> addr list
    \<Rightarrow> log_state \<Rightarrow> log_state option" where
  "log_loop strf l level event rest s =
     (case rest of
        [] \<Rightarrow> Some s
      | i # is \<Rightarrow> do {
          s1 \<leftarrow> (if lg_appender l \<noteq> [] then appender_log strf level event i s
                else if lg_root l \<noteq> nullptr
                then do {
                  root \<leftarrow> ls_loggers s (lg_root l);
                  (if lg_level root \<le> level then log_loop strf root level event (lg_appender root) s else Some s)
                }
                else Some s);
          log_loop strf l level event is s1
        })"

definition logger_log :: "(string \<Rightarrow> u64 \<Rightarrow> string) \<Rightarrow> addr \<Rightarrow> log_level \<Rightarrow> log_event \<Rightarrow> log_state \<Rightarrow> log_state option" where
  "logger_log strf a level event s = do {
     l \<leftarrow> ls_loggers s a;
     (if lg_level l \<le> level then log_loop strf l level event (lg_appender l) s else Some s)
   }"

text \<open>\<open>debug\<close>, \<open>info\<close>, \<open>warn\<close>, \<open>error\<close> and \<open>fatal\<close>.\<close>

definition logger_debug :: "(string \<Rightarrow> u64 \<Rightarrow> string) \<Rightarrow> addr \<Rightarrow> log_event \<Rightarrow> log_state \<Rightarrow> log_state option" where
  "logger_debug strf a event s = logger_log strf a DEBUG event s"

definition logger_info :: "(string \<Rightarrow> u64 \<Rightarrow> string) \<Rightarrow> addr \<Rightarrow> log_event \<Rightarrow> log_state \<Rightarrow> log_state option" where
  "logger_info strf a event s = logger_log strf a INFO event s"

definition logger_warn :: "(string \<Rightarrow> u64 \<Rightarrow> string) \<Rightarrow> addr \<Rightarrow> log_event \<Rightarrow> log_state \<Rightarrow> log_state option" where
  "logger_warn strf a event s = logger_log strf a WARN event s"

definition logger_error :: "(string \<Rightarrow> u64 \<Rightarrow> string) \<Rightarrow> addr \<Rightarrow> log_event \<Rightarrow> log_state \<Rightarrow> log_state option" where
  "logger_error strf a event s = logger_log strf a ERROR event s"

definition logger_fatal :: "(string \<Rightarrow> u64 \<Rightarrow> string) \<Rightarrow> addr \<Rightarrow> log_event \<Rightarrow> log_state \<Rightarrow> log_state option" where
  "logger_fatal strf a event s = logger_log strf a FATAL event s"

text \<open>An appender without a formatter takes over the logger's.\<close>

definition add_appender :: "addr \<Rightarrow> addr \<Rightarrow> log_state \<Rightarrow> log_state option" where
  "add_appender a i s = do {
     l \<leftarrow> ls_loggers s a;
     p \<leftarrow> ls_appenders s i;
     s1 \<leftarrow> (if ap_formatter p = None then ap_set_formatter i (lg_formatter l) s else Some s);
     Some (put_logger a (l\<lparr>lg_appender := lg_appender l @ [i]\<rparr>) s1)
   }"

definition del_appender :: "addr \<Rightarrow> addr \<Rightarrow> log_state \<Rightarrow> log_state option" where
  "del_appender a i s = do { l \<leftarrow> ls_loggers s a; Some (put_logger a (l\<lparr>lg_appender := remove1 i (lg_appender l)\<rparr>) s) }"

definition clear_appenders :: "addr \<Rightarrow> log_state \<Rightarrow> log_state option" where
  "clear_appenders a s = do { l \<leftarrow> ls_loggers s a; Some (put_logger a (l\<lparr>lg_appender := []\<rparr>) s) }"

definition set_level :: "addr \<Rightarrow> log_level \<Rightarrow> log_state \<Rightarrow> log_state option" where
  "set_level a level s = do { l \<leftarrow> ls_loggers s a; Some (put_logger a (l\<lparr>lg_level := level\<rparr>) s) }"

definition set_formatter :: "addr \<Rightarrow> log_formatter option \<Rightarrow> log_state \<Rightarrow> log_state option" where
  "set_formatter a fm s = do { l \<leftarrow> ls_loggers s a; Some (put_logger a (l\<lparr>lg_formatter := fm\<rparr>) s) }"

text \<open>A pattern that does not parse leaves the formatter as it is, with a message on the console.\<close>

definition set_formatter_str :: "addr \<Rightarrow> string \<Rightarrow> log_state \<Rightarrow> log_state option" where
  "set_formatter_str a pattern s =
     (let new_val = formatter_new pattern
      in if fm_error new_val
         then do {
           l \<leftarrow> ls_loggers s a;
           Some (s\<lparr>ls_out := ls_out s @ [Wrote None (''Logger set_formatter name='' @ lg_name l @ '' value='' @ pattern
              @ '' invalid formatter'' @ [CHR 0x0A])]\<rparr>)
         }
         else set_formatter a (Some new_val) s)"

definition set_root :: "addr \<Rightarrow> addr \<Rightarrow> log_state \<Rightarrow> log_state option" where
  "set_root a root s = do { l \<leftarrow> ls_loggers s a; Some (put_logger a (l\<lparr>lg_root := root\<rparr>) s) }"

subsection \<open>The manager\<close>

definition get_logger :: "string \<Rightarrow> log_state \<Rightarrow> (addr \<times> log_state) option" where
  "get_logger name s =
     (case ls_map s name of
        Some a \<Rightarrow> Some (a, s)
      | None \<Rightarrow> do {
          let (a, s1) = logger_new name s;
          s2 \<leftarrow> set_root a (ls_root s1) s1;
          Some (a, s2\<lparr>ls_map := (ls_map s2)(name \<mapsto> a)\<rparr>)
        })"

definition logger_manager_new :: "log_state option" where
  "logger_manager_new = do {
     let (root, s1) = logger_new ''root''
       \<lparr>ls_loggers = Map.empty, ls_appenders = Map.empty, ls_map = Map.empty, ls_root = nullptr, ls_next = 1, ls_out = []\<rparr>;
     let (i, s2) = stdout_appender_new s1;
     s3 \<leftarrow> add_appender root i s2;
     name \<leftarrow> logger_name s3 root;
     Some (s3\<lparr>ls_root := root, ls_map := (ls_map s3)(name \<mapsto> root)\<rparr>)
   }"

text \<open>The macro \<open>TINYTCP_LOG_LEVEL\<close>: the event is logged when its wrapper is destroyed.\<close>

definition log_level_macro :: "(string \<Rightarrow> u64 \<Rightarrow> string) \<Rightarrow> addr \<Rightarrow> log_level \<Rightarrow> log_event \<Rightarrow> log_state \<Rightarrow> log_state option" where
  "log_level_macro strf a level event s = do {
     l \<leftarrow> ls_loggers s a;
     (if lg_level l \<le> level
      then logger_log strf (ev_logger event) (ev_level event) event s
      else Some s)
   }"

subsection \<open>The objects\<close>

text \<open>
  Loggers and their appenders always have a formatter, no object is newer than the next address, and the
  manager's map leads from a name to a logger of this name.
\<close>

definition formatted :: "log_state \<Rightarrow> addr \<Rightarrow> bool" where
  "formatted s i \<longleftrightarrow> (\<exists>p. ls_appenders s i = Some p \<and> ap_formatter p \<noteq> None)"

definition logger_ok :: "log_state \<Rightarrow> logger \<Rightarrow> bool" where
  "logger_ok s l \<longleftrightarrow> lg_formatter l \<noteq> None \<and> (\<forall>i \<in> set (lg_appender l). formatted s i)"

definition log_inv :: "log_state \<Rightarrow> bool" where
  "log_inv s \<longleftrightarrow> 0 < ls_next s
     \<and> (\<forall>a l. ls_loggers s a = Some l \<longrightarrow> 0 < a \<and> a < ls_next s \<and> logger_ok s l)
     \<and> (\<forall>i p. ls_appenders s i = Some p \<longrightarrow> 0 < i \<and> i < ls_next s)
     \<and> (\<forall>name a. ls_map s name = Some a \<longrightarrow> (\<exists>l. ls_loggers s a = Some l \<and> lg_name l = name))
     \<and> (\<exists>l. ls_loggers s (ls_root s) = Some l)"

lemma log_invD:
  assumes "log_inv s" "ls_loggers s a = Some l"
  shows "0 < a" "a < ls_next s" "logger_ok s l"
  using assms unfolding log_inv_def by blast+

lemma log_inv_appender: "log_inv s \<Longrightarrow> ls_appenders s i = Some p \<Longrightarrow> 0 < i \<and> i < ls_next s"
  by (simp add: log_inv_def)

lemma log_inv_map: "log_inv s \<Longrightarrow> ls_map s name = Some a \<Longrightarrow> \<exists>l. ls_loggers s a = Some l \<and> lg_name l = name"
  by (simp add: log_inv_def)

lemma logger_name_out [simp]: "logger_name (s\<lparr>ls_out := out\<rparr>) = logger_name s"
  by (rule ext) (simp add: logger_name_def)

lemma put_logger_simps [simp]:
  "ls_loggers (put_logger a l s) = (ls_loggers s)(a \<mapsto> l)"
  "ls_appenders (put_logger a l s) = ls_appenders s" "ls_map (put_logger a l s) = ls_map s"
  "ls_root (put_logger a l s) = ls_root s" "ls_next (put_logger a l s) = ls_next s" "ls_out (put_logger a l s) = ls_out s"
  by (simp_all add: put_logger_def)

lemma put_appender_simps [simp]:
  "ls_appenders (put_appender a p s) = (ls_appenders s)(a \<mapsto> p)"
  "ls_loggers (put_appender a p s) = ls_loggers s" "ls_map (put_appender a p s) = ls_map s"
  "ls_root (put_appender a p s) = ls_root s" "ls_next (put_appender a p s) = ls_next s" "ls_out (put_appender a p s) = ls_out s"
  by (simp_all add: put_appender_def)

lemma formatted_frame [simp]: "formatted (put_logger a l s) i = formatted s i" "formatted (s\<lparr>ls_out := out\<rparr>) i = formatted s i"
    "formatted (s\<lparr>ls_map := mp\<rparr>) i = formatted s i" "formatted (s\<lparr>ls_next := n\<rparr>) i = formatted s i"
    "formatted (s\<lparr>ls_root := r\<rparr>) i = formatted s i"
  by (simp_all add: formatted_def)

lemma logger_ok_frame [simp]: "logger_ok (put_logger a l s) k = logger_ok s k" "logger_ok (s\<lparr>ls_out := out\<rparr>) k = logger_ok s k"
    "logger_ok (s\<lparr>ls_map := mp\<rparr>) k = logger_ok s k" "logger_ok (s\<lparr>ls_next := n\<rparr>) k = logger_ok s k"
    "logger_ok (s\<lparr>ls_root := r\<rparr>) k = logger_ok s k"
  by (simp_all add: logger_ok_def)

lemma formatted_put_appender:
  "formatted s j \<Longrightarrow> ap_formatter p \<noteq> None \<or> \<not> formatted s i \<Longrightarrow> formatted (put_appender i p s) j"
  by (auto simp: formatted_def)

lemma logger_ok_put_appender:
  "logger_ok s l \<Longrightarrow> ap_formatter p \<noteq> None \<or> \<not> formatted s i \<Longrightarrow> logger_ok (put_appender i p s) l"
  by (auto simp: logger_ok_def intro: formatted_put_appender)

lemma log_inv_out [simp]: "log_inv (s\<lparr>ls_out := out\<rparr>) = log_inv s"
  by (simp add: log_inv_def)

lemma log_inv_put_logger:
  assumes "log_inv s" "ls_loggers s a = Some k" "logger_ok s l" "lg_name l = lg_name k"
  shows "log_inv (put_logger a l s)"
  using assms unfolding log_inv_def by (auto split: if_splits) (metis option.inject)+

lemma log_inv_put_appender:
  assumes "log_inv s" "0 < i" "i < ls_next s" "ap_formatter p \<noteq> None \<or> \<not> formatted s i"
  shows "log_inv (put_appender i p s)"
  using assms logger_ok_put_appender unfolding log_inv_def by auto

lemma log_inv_new: "log_inv s \<Longrightarrow> log_inv (s\<lparr>ls_next := ls_next s + 1\<rparr>)"
  unfolding log_inv_def by (auto intro: less_SucI)

subsection \<open>What a logger writes\<close>

definition appender_output :: "(string \<Rightarrow> u64 \<Rightarrow> string) \<Rightarrow> log_level \<Rightarrow> log_event \<Rightarrow> log_state \<Rightarrow> addr \<Rightarrow> log_output list" where
  "appender_output strf level event s i =
     (case ls_appenders s i of
        Some p \<Rightarrow> if ap_level p \<le> level \<and> ap_stream_ok p
                  then [Wrote (ap_file p) (concat (map (item_text strf (logger_name s) level event) (fm_items (the (ap_formatter p)))))]
                  else []
      | None \<Rightarrow> [])"

definition logger_output :: "(string \<Rightarrow> u64 \<Rightarrow> string) \<Rightarrow> log_level \<Rightarrow> log_event \<Rightarrow> log_state \<Rightarrow> logger \<Rightarrow> log_output list" where
  "logger_output strf level event s l =
     (if lg_level l \<le> level then concat (map (appender_output strf level event s) (lg_appender l)) else [])"

text \<open>
  An appender that formats the event asks for the name of its logger; a logger with such an appender dereferences
  a null pointer when the event has no logger.
\<close>

definition names_logger :: "log_level \<Rightarrow> log_state \<Rightarrow> addr \<Rightarrow> bool" where
  "names_logger level s i \<longleftrightarrow>
     (\<exists>p fm. ls_appenders s i = Some p \<and> ap_level p \<le> level \<and> ap_formatter p = Some fm \<and> Name_item \<in> set (fm_items fm))"

definition names_null :: "log_level \<Rightarrow> log_event \<Rightarrow> log_state \<Rightarrow> logger \<Rightarrow> bool" where
  "names_null level event s l \<longleftrightarrow>
     lg_level l \<le> level \<and> ls_loggers s (ev_logger event) = None \<and> (\<exists>i \<in> set (lg_appender l). names_logger level s i)"

lemma appender_output_out [simp]: "appender_output strf level event (s\<lparr>ls_out := out\<rparr>) = appender_output strf level event s"
  by (rule ext) (simp add: appender_output_def split: option.split)

lemma names_logger_out [simp]: "names_logger level (s\<lparr>ls_out := out\<rparr>) i = names_logger level s i"
  by (simp add: names_logger_def)

lemma appender_log_run:
  assumes "formatted s i"
  shows "appender_log strf level event i s =
     (if names_logger level s i \<and> ls_loggers s (ev_logger event) = None then None
      else Some (s\<lparr>ls_out := ls_out s @ appender_output strf level event s i\<rparr>))"
  using assms
  by (auto simp: appender_log_def appender_output_def formatted_def names_logger_def formatter_format_run logger_name_def)

lemma log_loop_run:
  assumes "lg_appender l \<noteq> []" "\<forall>i \<in> set rest. formatted s i"
  shows "log_loop strf l level event rest s =
     (if (\<exists>i \<in> set rest. names_logger level s i) \<and> ls_loggers s (ev_logger event) = None then None
      else Some (s\<lparr>ls_out := ls_out s @ concat (map (appender_output strf level event s) rest)\<rparr>))"
  using assms(2)
proof (induction rest arbitrary: s)
  case (Cons i rest)
  show ?case using Cons.prems assms(1)
    by (subst log_loop.simps) (simp add: appender_log_run Cons.IH)
qed (simp add: log_loop.simps)

lemma logger_log_run:
  assumes "log_inv s" "ls_loggers s a = Some l"
  shows "logger_log strf a level event s =
     (if names_null level event s l then None else Some (s\<lparr>ls_out := ls_out s @ logger_output strf level event s l\<rparr>))"
proof (cases "lg_appender l = []")
  case True
  then show ?thesis using assms by (simp add: logger_log_def logger_output_def log_loop.simps names_null_def)
next
  case False
  have "\<forall>i \<in> set (lg_appender l). formatted s i" using log_invD(3) [OF assms] by (simp add: logger_ok_def)
  then show ?thesis using assms False by (simp add: logger_log_def logger_output_def log_loop_run names_null_def)
qed

text \<open>The branch of the loop for the root logger is never reached.\<close>

lemma no_appenders_nothing_written:
  assumes "ls_loggers s a = Some l" "lg_appender l = []"
  shows "logger_log strf a level event s = Some s"
  using assms by (simp add: logger_log_def log_loop.simps)

subsection \<open>Every operation keeps the invariant\<close>

lemma stdout_appender_new_inv:
  "log_inv s \<Longrightarrow> log_inv (snd (stdout_appender_new s)) \<and> fst (stdout_appender_new s) = ls_next s"
proof -
  assume inv: "log_inv s"
  have "\<not> formatted s (ls_next s)" using inv by (auto simp: log_inv_def formatted_def)
  moreover have "0 < ls_next s" using inv by (simp add: log_inv_def)
  ultimately show ?thesis
    unfolding stdout_appender_new_def by (auto intro!: log_inv_put_appender log_inv_new [OF inv, simplified])
qed

lemma file_appender_new_run:
  "file_appender_new can_open filename s = Some (ls_next s,
     (put_appender (ls_next s) \<lparr>ap_file = Some filename, ap_stream_ok = can_open filename, ap_level = DEBUG, ap_formatter = None\<rparr>
        (s\<lparr>ls_next := ls_next s + 1\<rparr>))
     \<lparr>ls_out := ls_out s @ (if can_open filename then [Opened filename] else [])\<rparr>)"
  by (simp add: file_appender_new_def reopen_def put_appender_def Let_def)

lemma file_appender_new_inv:
  assumes "log_inv s" "file_appender_new can_open filename s = Some (i, s')"
  shows "log_inv s'"
proof -
  have "\<not> formatted s (ls_next s)" "0 < ls_next s" using assms(1) by (auto simp: log_inv_def formatted_def)
  then show ?thesis using assms(2)
    by (auto simp: file_appender_new_run intro!: log_inv_put_appender log_inv_new [OF assms(1), simplified])
qed

lemma reopen_inv:
  assumes "log_inv s" "reopen can_open i s = Some (ok, s')" shows "log_inv s'"
proof -
  obtain p f where p: "ls_appenders s i = Some p" "ap_file p = Some f"
    using assms(2) by (auto simp: reopen_def bind_eq_Some_conv)
  have "log_inv (put_appender i (p\<lparr>ap_stream_ok := b\<rparr>) s)" for b
    using assms(1) p by (intro log_inv_put_appender) (auto simp: log_inv_def formatted_def)
  then show ?thesis using assms(2) p by (auto simp: reopen_def Let_def)
qed

lemma ap_set_formatter_inv:
  assumes "log_inv s" "ap_set_formatter i (Some fm) s = Some s'" shows "log_inv s'"
proof -
  obtain p where p: "ls_appenders s i = Some p" "s' = put_appender i (p\<lparr>ap_formatter := Some fm\<rparr>) s"
    using assms(2) by (auto simp: ap_set_formatter_def bind_eq_Some_conv)
  with log_inv_put_appender [OF assms(1), of i "p\<lparr>ap_formatter := Some fm\<rparr>"] log_inv_appender [OF assms(1) p(1)]
  show ?thesis by simp
qed

lemma ap_set_level_inv:
  assumes "log_inv s" "ap_set_level i level s = Some s'" shows "log_inv s'"
proof -
  obtain p where p: "ls_appenders s i = Some p" "s' = put_appender i (p\<lparr>ap_level := level\<rparr>) s"
    using assms(2) by (auto simp: ap_set_level_def bind_eq_Some_conv)
  then have "ap_formatter (p\<lparr>ap_level := level\<rparr>) \<noteq> None \<or> \<not> formatted s i" by (auto simp: formatted_def)
  with log_inv_put_appender [OF assms(1)] log_inv_appender [OF assms(1) p(1)] p(2) show ?thesis by blast
qed

lemma logger_new_inv:
  assumes "log_inv s" shows "log_inv (snd (logger_new name s))"
proof -
  have ok: "logger_ok t \<lparr>lg_name = name, lg_level = DEBUG, lg_appender = [], lg_formatter = Some fm, lg_root = r\<rparr>" for t fm r
    by (simp add: logger_ok_def)
  have n: "ls_loggers s (ls_next s) = None" using assms by (fastforce simp: log_inv_def)
  then have "ls_map s nm \<noteq> Some (ls_next s)" for nm using log_inv_map [OF assms, of nm "ls_next s"] by auto
  with n show ?thesis using assms ok unfolding log_inv_def logger_new_def by (auto split: if_splits) (auto intro: less_SucI)
qed

text \<open>An operation that only changes a logger, and not its name.\<close>

lemma log_inv_update:
  assumes "log_inv s" "ls_loggers s a = Some l" "lg_name l' = lg_name l" "lg_formatter l' \<noteq> None"
    and "set (lg_appender l') \<subseteq> set (lg_appender l) \<union> {i. formatted s i}"
  shows "log_inv (put_logger a l' s)"
  using log_inv_put_logger [OF assms(1,2), of l'] log_invD(3) [OF assms(1,2)] assms(3-5) by (auto simp: logger_ok_def)

lemma add_appender_run:
  assumes "log_inv s" "ls_loggers s a = Some l" "ls_appenders s i = Some p"
  shows "add_appender a i s = Some (put_logger a (l\<lparr>lg_appender := lg_appender l @ [i]\<rparr>)
      (if ap_formatter p = None then put_appender i (p\<lparr>ap_formatter := lg_formatter l\<rparr>) s else s))"
  using assms by (simp add: add_appender_def ap_set_formatter_def)

lemma add_appender_inv:
  assumes "log_inv s" "add_appender a i s = Some s'" shows "log_inv s'"
proof -
  obtain l p where lp: "ls_loggers s a = Some l" "ls_appenders s i = Some p"
    using assms(2) by (auto simp: add_appender_def bind_eq_Some_conv)
  let ?s = "if ap_formatter p = None then put_appender i (p\<lparr>ap_formatter := lg_formatter l\<rparr>) s else s"
  have f: "lg_formatter l \<noteq> None" using log_invD(3) [OF assms(1) lp(1)] by (simp add: logger_ok_def)
  have "log_inv ?s" using log_inv_put_appender [OF assms(1), of i "p\<lparr>ap_formatter := lg_formatter l\<rparr>"]
      log_inv_appender [OF assms(1) lp(2)] f assms(1) by simp
  moreover have "formatted ?s i" "ls_loggers ?s a = Some l" using f lp by (auto simp: formatted_def)
  ultimately have "log_inv (put_logger a (l\<lparr>lg_appender := lg_appender l @ [i]\<rparr>) ?s)"
    using f by (intro log_inv_update) auto
  then show ?thesis using assms(2) add_appender_run [OF assms(1) lp] by simp
qed

lemma set_remove1_Un: "set (remove1 i xs) \<subseteq> set xs \<union> B"
  using set_remove1_subset [of i xs] by blast

lemma logger_update_inv:
  assumes "log_inv s"
  shows "del_appender a i s = Some s' \<Longrightarrow> log_inv s'" and "clear_appenders a s = Some s' \<Longrightarrow> log_inv s'"
    and "set_level a level s = Some s' \<Longrightarrow> log_inv s'" and "set_formatter a (Some fm) s = Some s' \<Longrightarrow> log_inv s'"
    and "set_root a root s = Some s' \<Longrightarrow> log_inv s'"
  using log_inv_update [OF assms] log_invD(3) [OF assms]
  by (auto simp: del_appender_def clear_appenders_def set_level_def set_formatter_def set_root_def bind_eq_Some_conv
      logger_ok_def set_remove1_Un)

lemma set_formatter_str_inv: "log_inv s \<Longrightarrow> set_formatter_str a pattern s = Some s' \<Longrightarrow> log_inv s'"
  by (auto simp: set_formatter_str_def Let_def bind_eq_Some_conv logger_update_inv(4) split: if_splits)

lemma log_inv_map_new:
  assumes "log_inv s" "ls_loggers s a = Some l" "lg_name l = name"
  shows "log_inv (s\<lparr>ls_map := (ls_map s)(name \<mapsto> a)\<rparr>)"
  using assms by (auto simp: log_inv_def)

lemma get_logger_new:
  assumes "ls_map s name = None"
  shows "get_logger name s = Some (ls_next s, (put_logger (ls_next s)
      \<lparr>lg_name = name, lg_level = DEBUG, lg_appender = [], lg_formatter = Some (formatter_new default_pattern), lg_root = ls_root s\<rparr> s)
      \<lparr>ls_next := ls_next s + 1, ls_map := (ls_map s)(name \<mapsto> ls_next s)\<rparr>)"
  using assms by (simp add: get_logger_def logger_new_def set_root_def put_logger_def)

lemma get_logger_inv:
  assumes "log_inv s" "get_logger name s = Some (a, s')" shows "log_inv s'"
proof (cases "ls_map s name")
  case None
  let ?s = "snd (logger_new name s)"
  obtain s2 l where s2: "set_root (ls_next s) (ls_root ?s) ?s = Some s2" "ls_loggers s2 (ls_next s) = Some l" "lg_name l = name"
    by (auto simp: set_root_def logger_new_def)
  have "log_inv s2" using logger_update_inv(5) [OF logger_new_inv [OF assms(1)] s2(1)] .
  moreover have "s' = s2\<lparr>ls_map := (ls_map s2)(name \<mapsto> ls_next s)\<rparr>" "a = ls_next s"
    using assms(2) None s2(1) by (auto simp: get_logger_def logger_new_def)
  ultimately show ?thesis using log_inv_map_new s2 by simp
qed (use assms in \<open>simp add: get_logger_def\<close>)

lemma get_logger_maps:
  assumes "log_inv s" "get_logger name s = Some (a, s')"
  shows "ls_map s' name = Some a \<and> (\<exists>l. ls_loggers s' a = Some l \<and> lg_name l = name)
     \<and> ls_out s' = ls_out s \<and> (\<forall>b l. ls_loggers s b = Some l \<longrightarrow> ls_loggers s' b = Some l)"
proof (cases "ls_map s name")
  case None
  then show ?thesis using assms get_logger_new [OF None] by (auto dest: log_invD)
qed (use assms log_inv_map in \<open>auto simp: get_logger_def\<close>)

lemma get_logger_total: "\<exists>a s'. get_logger name s = Some (a, s')"
  using get_logger_new [of s name] by (cases "ls_map s name") (simp_all add: get_logger_def)

lemma logger_manager_new_inv:
  assumes "logger_manager_new = Some s" shows "log_inv s \<and> ls_out s = [] \<and> ls_map s ''root'' = Some (ls_root s)"
  using assms by (auto simp: logger_manager_new_def logger_new_def stdout_appender_new_def add_appender_def
      ap_set_formatter_def logger_name_def Let_def log_inv_def logger_ok_def formatted_def split: if_splits)

subsection \<open>Runs of the logging system\<close>

datatype log_op =
    Get_logger string | New_stdout | New_file string | Reopen addr
  | Add_appender addr addr | Del_appender addr addr | Clear_appenders addr
  | Set_level addr log_level | Set_formatter addr log_formatter | Set_pattern addr string
  | Appender_formatter addr log_formatter | Appender_level addr log_level
  | Log addr log_level log_event | Log_macro addr log_level log_event

fun log_step :: "(string \<Rightarrow> u64 \<Rightarrow> string) \<Rightarrow> (string \<Rightarrow> bool) \<Rightarrow> log_op \<Rightarrow> log_state \<Rightarrow> log_state option" where
  "log_step strf can_open (Get_logger name) s = map_option snd (get_logger name s)"
| "log_step strf can_open New_stdout s = Some (snd (stdout_appender_new s))"
| "log_step strf can_open (New_file filename) s = map_option snd (file_appender_new can_open filename s)"
| "log_step strf can_open (Reopen i) s = map_option snd (reopen can_open i s)"
| "log_step strf can_open (Add_appender a i) s = add_appender a i s"
| "log_step strf can_open (Del_appender a i) s = del_appender a i s"
| "log_step strf can_open (Clear_appenders a) s = clear_appenders a s"
| "log_step strf can_open (Set_level a level) s = set_level a level s"
| "log_step strf can_open (Set_formatter a fm) s = set_formatter a (Some fm) s"
| "log_step strf can_open (Set_pattern a pattern) s = set_formatter_str a pattern s"
| "log_step strf can_open (Appender_formatter i fm) s = ap_set_formatter i (Some fm) s"
| "log_step strf can_open (Appender_level i level) s = ap_set_level i level s"
| "log_step strf can_open (Log a level event) s = logger_log strf a level event s"
| "log_step strf can_open (Log_macro a level event) s = log_level_macro strf a level event s"

text \<open>The operation is called on objects that exist, and with an event whose logger exists.\<close>

fun op_exists :: "log_state \<Rightarrow> log_op \<Rightarrow> bool" where
  "op_exists s (Add_appender a i) \<longleftrightarrow> a \<in> dom (ls_loggers s) \<and> i \<in> dom (ls_appenders s)"
| "op_exists s (Reopen i) \<longleftrightarrow> (\<exists>p. ls_appenders s i = Some p \<and> ap_file p \<noteq> None)"
| "op_exists s (Del_appender a i) \<longleftrightarrow> a \<in> dom (ls_loggers s)"
| "op_exists s (Clear_appenders a) \<longleftrightarrow> a \<in> dom (ls_loggers s)"
| "op_exists s (Set_level a level) \<longleftrightarrow> a \<in> dom (ls_loggers s)"
| "op_exists s (Set_formatter a fm) \<longleftrightarrow> a \<in> dom (ls_loggers s)"
| "op_exists s (Set_pattern a pattern) \<longleftrightarrow> a \<in> dom (ls_loggers s)"
| "op_exists s (Appender_formatter i fm) \<longleftrightarrow> i \<in> dom (ls_appenders s)"
| "op_exists s (Appender_level i level) \<longleftrightarrow> i \<in> dom (ls_appenders s)"
| "op_exists s (Log a level event) \<longleftrightarrow> a \<in> dom (ls_loggers s) \<and> ev_logger event \<in> dom (ls_loggers s)"
| "op_exists s (Log_macro a level event) \<longleftrightarrow> a \<in> dom (ls_loggers s) \<and> ev_logger event \<in> dom (ls_loggers s)"
| "op_exists s op \<longleftrightarrow> True"

fun log_run :: "(string \<Rightarrow> u64 \<Rightarrow> string) \<Rightarrow> (string \<Rightarrow> bool) \<Rightarrow> log_op list \<Rightarrow> log_state \<Rightarrow> log_state option" where
  "log_run strf can_open [] s = Some s"
| "log_run strf can_open (op # ops) s = do { s1 \<leftarrow> log_step strf can_open op s; log_run strf can_open ops s1 }"

lemma logger_log_inv: "log_inv s \<Longrightarrow> logger_log strf a level event s = Some s' \<Longrightarrow> log_inv s'"
  using logger_log_run [of s a _ strf level event] by (cases "ls_loggers s a") (auto simp: logger_log_def split: if_splits)

lemma log_step_inv:
  assumes "log_inv s" "log_step strf can_open op s = Some s'" shows "log_inv s'"
  using assms
  by (cases op)
    (auto simp: log_level_macro_def bind_eq_Some_conv get_logger_inv [OF assms(1)] file_appender_new_inv [OF assms(1)]
      reopen_inv [OF assms(1)] add_appender_inv [OF assms(1)] logger_update_inv [OF assms(1)] ap_set_level_inv [OF assms(1)]
      set_formatter_str_inv [OF assms(1)] ap_set_formatter_inv [OF assms(1)] logger_log_inv [OF assms(1)]
      stdout_appender_new_inv [OF assms(1)] split: if_splits)

lemma log_step_total:
  assumes "log_inv s" "op_exists s op" shows "log_step strf can_open op s \<noteq> None"
proof (cases op)
  case (Get_logger name)
  then show ?thesis using get_logger_total [of name s] by auto
next
  case (New_file f)
  then show ?thesis by (simp add: file_appender_new_run)
next
  case (Add_appender a i)
  then show ?thesis using assms add_appender_run by auto
next
  case (Log a level event)
  then show ?thesis using assms logger_log_run by (auto simp: names_null_def)
next
  case (Log_macro a level event)
  then obtain l k where "ls_loggers s a = Some l" "ls_loggers s (ev_logger event) = Some k" using assms(2) by auto
  then show ?thesis using Log_macro logger_log_run [OF assms(1)] by (simp add: log_level_macro_def names_null_def)
qed (use assms in \<open>auto simp: reopen_def Let_def del_appender_def clear_appenders_def set_level_def set_formatter_def
    set_formatter_str_def ap_set_formatter_def ap_set_level_def\<close>)

lemma log_run_inv: "log_inv s \<Longrightarrow> log_run strf can_open ops s = Some s' \<Longrightarrow> log_inv s'"
  by (induction ops arbitrary: s) (auto simp: bind_eq_Some_conv dest: log_step_inv)

subsection \<open>Properties\<close>


definition demo_event :: "addr \<Rightarrow> log_event" where
  "demo_event a = \<lparr>ev_file = ''net.cc'', ev_line = 7, ev_elapse = 0, ev_thread_id = 1, ev_thread_name = ''main'', ev_time = 0,
     ev_content = ''up'', ev_logger = a, ev_level = INFO\<rparr>"


end
