(* ===== verification/LogConfig.thy ===== *)
theory LogConfig
  imports Logger Casts
begin

text \<open>
  The configuration of the loggers (second half of \<open>src/log.cc\<close>): the definitions that the YAML variable
  \<open>logs\<close> holds, their casts, and the listener that turns a change of the definitions into loggers. The set
  of definitions is ordered by name. Messages about bad definitions go to the console and are left out.
\<close>

subsection \<open>Definitions\<close>

record log_appender_define =
  lad_type :: int
  lad_level :: log_level
  lad_formatter :: string
  lad_file :: string

record log_define =
  ld_name :: string
  ld_level :: log_level
  ld_formatter :: string
  ld_appenders :: "log_appender_define list"

definition log_appender_define_new :: log_appender_define where
  "log_appender_define_new = \<lparr>lad_type = 0, lad_level = UNKNOW, lad_formatter = [], lad_file = []\<rparr>"

definition log_define_new :: log_define where
  "log_define_new = \<lparr>ld_name = [], ld_level = UNKNOW, ld_formatter = [], ld_appenders = []\<rparr>"

definition log_define_less :: "log_define \<Rightarrow> log_define \<Rightarrow> bool option" where
  "log_define_less d e = Some (ld_name d < ld_name e)"

subsection \<open>Casts\<close>

text \<open>A key that is not there, or its value as a string.\<close>

definition get_string :: "'n yaml \<Rightarrow> 'n \<Rightarrow> string \<Rightarrow> string option option" where
  "get_string Y n k = do {
     v \<leftarrow> yaml_get Y n k;
     (case v of None \<Rightarrow> Some None | Some m \<Rightarrow> do { s \<leftarrow> yaml_as_string Y m; Some (Some s) })
   }"

text \<open>An entry of \<open>appenders\<close>; \<open>Some None\<close> is \<open>continue\<close>.\<close>

definition appender_of_node :: "'n yaml \<Rightarrow> 'n \<Rightarrow> log_appender_define option option" where
  "appender_of_node Y a = do {
     type \<leftarrow> get_string Y a ''type'';
     (case type of
        None \<Rightarrow> Some None
      | Some ty \<Rightarrow>
          if ty = ''FileLogAppender''
          then do {
            file \<leftarrow> get_string Y a ''file'';
            (case file of
               None \<Rightarrow> Some None
             | Some f \<Rightarrow> do {
                 fm \<leftarrow> get_string Y a ''formatter'';
                 Some (Some (log_appender_define_new\<lparr>lad_type := 1, lad_file := f,
                   lad_formatter := (case fm of None \<Rightarrow> [] | Some x \<Rightarrow> x)\<rparr>))
               })
          }
          else if ty = ''StdoutLogAppender''
          then do {
            fm \<leftarrow> get_string Y a ''formatter'';
            Some (Some (log_appender_define_new\<lparr>lad_type := 2, lad_formatter := (case fm of None \<Rightarrow> [] | Some x \<Rightarrow> x)\<rparr>))
          }
          else Some None)
   }"

fun appenders_loop :: "'n yaml \<Rightarrow> 'n \<Rightarrow> nat list \<Rightarrow> log_appender_define list \<Rightarrow> log_appender_define list option" where
  "appenders_loop Y node [] acc = Some acc"
| "appenders_loop Y node (x # xs) acc =
     (case yaml_at Y node x of
        None \<Rightarrow> appenders_loop Y node xs acc
      | Some a \<Rightarrow> do {
          lad \<leftarrow> appender_of_node Y a;
          appenders_loop Y node xs (case lad of None \<Rightarrow> acc | Some d \<Rightarrow> acc @ [d])
        })"

definition log_define_of_string :: "'n yaml \<Rightarrow> string \<Rightarrow> log_define option" where
  "log_define_of_string Y v = do {
     n \<leftarrow> yaml_load Y v;
     name \<leftarrow> get_string Y n ''name'';
     (case name of
        None \<Rightarrow> None
      | Some nm \<Rightarrow> do {
          level \<leftarrow> get_string Y n ''level'';
          fm \<leftarrow> get_string Y n ''formatter'';
          apps \<leftarrow> yaml_get Y n ''appenders'';
          appenders \<leftarrow> (case apps of None \<Rightarrow> Some [] | Some node \<Rightarrow> appenders_loop Y node [0..<yaml_size Y node] []);
          Some (log_define_new\<lparr>ld_name := nm, ld_level := level_from_string (case level of None \<Rightarrow> [] | Some s \<Rightarrow> s),
            ld_formatter := (case fm of None \<Rightarrow> [] | Some s \<Rightarrow> s), ld_appenders := appenders\<rparr>)
        })
   }"

definition set_unless :: "'n yaml \<Rightarrow> bool \<Rightarrow> string \<Rightarrow> string \<Rightarrow> 'n \<Rightarrow> 'n" where
  "set_unless Y skip k s n = (if skip then n else yaml_set Y n k (yaml_str Y s))"

definition node_of_appender :: "'n yaml \<Rightarrow> log_appender_define \<Rightarrow> 'n" where
  "node_of_appender Y a =
     (let na = yaml_null Y;
          na1 = (if lad_type a = 1
                 then yaml_set Y (yaml_set Y na ''type'' (yaml_str Y ''FileLogAppender'')) ''file'' (yaml_str Y (lad_file a))
                 else if lad_type a = 2 then yaml_set Y na ''type'' (yaml_str Y ''StdoutLogAppender'')
                 else na);
          na2 = set_unless Y (lad_level a = UNKNOW) ''level'' (level_to_string (lad_level a)) na1
      in set_unless Y (lad_formatter a = []) ''formatter'' (lad_formatter a) na2)"

text \<open>\<open>n[k].push_back(m)\<close>.\<close>

definition push_at :: "'n yaml \<Rightarrow> string \<Rightarrow> 'n \<Rightarrow> 'n \<Rightarrow> 'n option" where
  "push_at Y k n m = do {
     v \<leftarrow> yaml_get Y n k;
     Some (yaml_set Y n k (yaml_push Y (case v of None \<Rightarrow> yaml_null Y | Some s \<Rightarrow> s) m))
   }"

fun push_appenders :: "'n yaml \<Rightarrow> log_appender_define list \<Rightarrow> 'n \<Rightarrow> 'n option" where
  "push_appenders Y [] n = Some n"
| "push_appenders Y (a # as) n = do { n1 \<leftarrow> push_at Y ''appenders'' n (node_of_appender Y a); push_appenders Y as n1 }"

definition string_of_log_define :: "'n yaml \<Rightarrow> log_define \<Rightarrow> string option" where
  "string_of_log_define Y i = do {
     let n = yaml_set Y (yaml_null Y) ''name'' (yaml_str Y (ld_name i));
     let n1 = set_unless Y (ld_level i = UNKNOW) ''level'' (level_to_string (ld_level i)) n;
     let n2 = set_unless Y (ld_formatter i = []) ''formatter'' (ld_formatter i) n1;
     n3 \<leftarrow> push_appenders Y (ld_appenders i) n2;
     Some (yaml_emit Y (Some n3))
   }"

subsection \<open>The listener\<close>

text \<open>A null appender is dereferenced when the type is neither 1 nor 2.\<close>

definition conf_appender_new :: "(string \<Rightarrow> bool) \<Rightarrow> log_appender_define \<Rightarrow> log_state \<Rightarrow> (addr \<times> log_state) option" where
  "conf_appender_new can_open a s =
     (if lad_type a = 1 then file_appender_new can_open (lad_file a) s
      else if lad_type a = 2 then Some (stdout_appender_new s)
      else None)"

fun conf_appenders :: "(string \<Rightarrow> bool) \<Rightarrow> addr \<Rightarrow> log_appender_define list \<Rightarrow> log_state \<Rightarrow> log_state option" where
  "conf_appenders can_open logger [] s = Some s"
| "conf_appenders can_open logger (a # as) s = do {
     (ap, s1) \<leftarrow> conf_appender_new can_open a s;
     s2 \<leftarrow> ap_set_level ap (lad_level a) s1;
     s3 \<leftarrow> add_appender logger ap s2;
     conf_appenders can_open logger as s3
   }"

text \<open>A new or changed definition; for an unchanged one the pointer to the logger stays null.\<close>

definition conf_define :: "(string \<Rightarrow> bool) \<Rightarrow> log_define list \<Rightarrow> log_define \<Rightarrow> log_state \<Rightarrow> log_state option" where
  "conf_define can_open old_value i s = do {
     it \<leftarrow> set_find log_define_less i old_value;
     (logger, s1) \<leftarrow> (if it = length old_value then get_logger (ld_name i) s
       else do {
         d \<leftarrow> nth_opt old_value it;
         (if i \<noteq> d then get_logger (ld_name i) s else Some (nullptr, s))
       });
     s2 \<leftarrow> set_level logger (ld_level i) s1;
     s3 \<leftarrow> (if ld_formatter i = [] then Some s2 else set_formatter_str logger (ld_formatter i) s2);
     s4 \<leftarrow> clear_appenders logger s3;
     conf_appenders can_open logger (ld_appenders i) s4
   }"

fun conf_defines :: "(string \<Rightarrow> bool) \<Rightarrow> log_define list \<Rightarrow> log_define list \<Rightarrow> log_state \<Rightarrow> log_state option" where
  "conf_defines can_open old_value [] s = Some s"
| "conf_defines can_open old_value (i # is) s = do {
     s1 \<leftarrow> conf_define can_open old_value i s;
     conf_defines can_open old_value is s1
   }"

text \<open>A deleted definition only silences its logger.\<close>

definition conf_delete :: "log_define list \<Rightarrow> log_define \<Rightarrow> log_state \<Rightarrow> log_state option" where
  "conf_delete new_value i s = do {
     it \<leftarrow> set_find log_define_less i new_value;
     (if it = length new_value
      then do {
        (logger, s1) \<leftarrow> get_logger (ld_name i) s;
        s2 \<leftarrow> set_level logger NEVER s1;
        clear_appenders logger s2
      }
      else Some s)
   }"

fun conf_deletes :: "log_define list \<Rightarrow> log_define list \<Rightarrow> log_state \<Rightarrow> log_state option" where
  "conf_deletes new_value [] s = Some s"
| "conf_deletes new_value (i # is) s = do { s1 \<leftarrow> conf_delete new_value i s; conf_deletes new_value is s1 }"

text \<open>\<open>event\<close> carries the place, the thread and the time of the first message.\<close>

definition on_logger_conf_changed :: "(string \<Rightarrow> u64 \<Rightarrow> string) \<Rightarrow> (string \<Rightarrow> bool) \<Rightarrow> log_event \<Rightarrow> log_define list
    \<Rightarrow> log_define list \<Rightarrow> log_state \<Rightarrow> log_state option" where
  "on_logger_conf_changed strf can_open event old_value new_value s = do {
     s1 \<leftarrow> log_level_macro strf (ls_root s) INFO
             (event\<lparr>ev_logger := ls_root s, ev_level := INFO, ev_content := ''on_logger_conf_changed''\<rparr>) s;
     s2 \<leftarrow> conf_defines can_open old_value new_value s1;
     conf_deletes new_value old_value s2
   }"

subsection \<open>Reading a definition that was written\<close>

lemma yaml_map_snoc: "yaml_map Y (kvs @ [(k, v)]) = yaml_set Y (yaml_map Y kvs) k v"
  by (simp add: yaml_map_def)

lemma yaml_map_Nil: "yaml_map Y [] = yaml_null Y"
  by (simp add: yaml_map_def)

lemma yaml_seq_snoc: "yaml_seq Y (ns @ [n]) = yaml_push Y (yaml_seq Y ns) n"
  by (simp add: yaml_seq_def)

text \<open>What survives: neither the level of an appender nor an appender of another type does.\<close>

definition kept_appender :: "log_appender_define \<Rightarrow> log_appender_define" where
  "kept_appender a = a\<lparr>lad_level := UNKNOW, lad_file := (if lad_type a = 1 then lad_file a else [])\<rparr>"

definition kept_define :: "log_define \<Rightarrow> log_define" where
  "kept_define d = d\<lparr>ld_level := (if ld_level d = NEVER then UNKNOW else ld_level d),
     ld_appenders := map kept_appender (filter (\<lambda>a. lad_type a = 1 \<or> lad_type a = 2) (ld_appenders d))\<rparr>"

definition str_entry :: "'n yaml \<Rightarrow> bool \<Rightarrow> string \<Rightarrow> string \<Rightarrow> (string \<times> 'n) list" where
  "str_entry Y skip k s = (if skip then [] else [(k, yaml_str Y s)])"

lemma set_unless_map: "set_unless Y skip k s (yaml_map Y kvs) = yaml_map Y (kvs @ str_entry Y skip k s)"
  by (simp add: set_unless_def str_entry_def yaml_map_snoc)

definition appender_entries :: "'n yaml \<Rightarrow> log_appender_define \<Rightarrow> (string \<times> 'n) list" where
  "appender_entries Y a =
     str_entry Y (lad_type a \<noteq> 1 \<and> lad_type a \<noteq> 2) ''type'' (if lad_type a = 1 then ''FileLogAppender'' else ''StdoutLogAppender'')
     @ str_entry Y (lad_type a \<noteq> 1) ''file'' (lad_file a)
     @ str_entry Y (lad_level a = UNKNOW) ''level'' (level_to_string (lad_level a))
     @ str_entry Y (lad_formatter a = []) ''formatter'' (lad_formatter a)"

lemma node_of_appender_map: "node_of_appender Y a = yaml_map Y (appender_entries Y a)"
proof -
  have "yaml_map Y (appender_entries Y a) =
      set_unless Y (lad_formatter a = []) ''formatter'' (lad_formatter a)
        (set_unless Y (lad_level a = UNKNOW) ''level'' (level_to_string (lad_level a))
          (set_unless Y (lad_type a \<noteq> 1) ''file'' (lad_file a)
            (set_unless Y (lad_type a \<noteq> 1 \<and> lad_type a \<noteq> 2) ''type''
              (if lad_type a = 1 then ''FileLogAppender'' else ''StdoutLogAppender'') (yaml_null Y))))"
    unfolding appender_entries_def yaml_map_Nil [symmetric] set_unless_map by simp
  then show ?thesis by (simp add: node_of_appender_def set_unless_def Let_def)
qed

lemma get_string_map:
  assumes "yaml_ok Y"
  shows "get_string Y (yaml_map Y kvs) k =
     (case map_of (rev kvs) k of None \<Rightarrow> Some None | Some m \<Rightarrow> do { s \<leftarrow> yaml_as_string Y m; Some (Some s) })"
  by (simp add: get_string_def yaml_okD(4) [OF assms])

lemma appender_read_back:
  assumes "yaml_ok Y"
  shows "appender_of_node Y (node_of_appender Y a) =
     Some (if lad_type a = 1 \<or> lad_type a = 2 then Some (kept_appender a) else None)"
  unfolding node_of_appender_map appender_of_node_def get_string_map [OF assms] appender_entries_def str_entry_def
  by (cases a) (simp add: yaml_okD(6) [OF assms] kept_appender_def log_appender_define_new_def)

text \<open>Reading a sequence of appender nodes, and pushing one after the other.\<close>

lemma appenders_loop_run:
  assumes "\<And>i. i \<in> set is \<Longrightarrow> yaml_at Y node i = Some (f i) \<and> appender_of_node Y (f i) = Some (g (f i))"
  shows "appenders_loop Y node is acc = Some (acc @ List.map_filter g (map f is))"
  using assms by (induction "is" arbitrary: acc) (auto simp: map_filter_simps split: option.split)

fun push_nodes :: "'n yaml \<Rightarrow> 'n list \<Rightarrow> 'n \<Rightarrow> 'n option" where
  "push_nodes Y [] n = Some n"
| "push_nodes Y (m # ms) n = do { n1 \<leftarrow> push_at Y ''appenders'' n m; push_nodes Y ms n1 }"

lemma push_appenders_nodes: "push_appenders Y as n = push_nodes Y (map (node_of_appender Y) as) n"
  by (induction as arbitrary: n) (simp_all cong: Option.bind_cong)

lemma push_nodes_run:
  assumes "yaml_ok Y"
    and "map_of (rev kvs) ''appenders'' = (if ns = [] then None else Some (yaml_seq Y ns))"
  shows "\<exists>kvs'. push_nodes Y ms (yaml_map Y kvs) = Some (yaml_map Y kvs')
     \<and> (\<forall>k. k \<noteq> ''appenders'' \<longrightarrow> map_of (rev kvs') k = map_of (rev kvs) k)
     \<and> map_of (rev kvs') ''appenders'' = (if ns @ ms = [] then None else Some (yaml_seq Y (ns @ ms)))"
  using assms(2)
proof (induction ms arbitrary: kvs ns)
  case (Cons m ms)
  have "(case map_of (rev kvs) ''appenders'' of None \<Rightarrow> yaml_null Y | Some s \<Rightarrow> s) = yaml_seq Y ns"
    using Cons.prems by (simp add: yaml_seq_def)
  then have "push_at Y ''appenders'' (yaml_map Y kvs) m = Some (yaml_map Y (kvs @ [(''appenders'', yaml_seq Y (ns @ [m]))]))"
    by (simp add: push_at_def yaml_okD(4) [OF assms(1)] yaml_map_snoc yaml_seq_snoc)
  then show ?case using Cons.IH [of "kvs @ [(''appenders'', yaml_seq Y (ns @ [m]))]" "ns @ [m]"] by simp
qed auto

lemma level_from_to: "level_from_string (level_to_string l) = (if l = NEVER then UNKNOW else l)"
  by (cases l) (simp_all add: level_from_string_def)

lemma level_from_empty: "level_from_string [] = UNKNOW" "level_from_string ''UNKNOW'' = UNKNOW"
  by (simp_all add: level_from_string_def)

text \<open>A definition, or a logger, as a node: its own entries, then the pushed appender nodes.\<close>

definition define_entries :: "'n yaml \<Rightarrow> string \<Rightarrow> log_level \<Rightarrow> bool \<Rightarrow> string \<Rightarrow> (string \<times> 'n) list" where
  "define_entries Y name level skip pattern =
     [(''name'', yaml_str Y name)] @ str_entry Y (level = UNKNOW) ''level'' (level_to_string level)
     @ str_entry Y skip ''formatter'' pattern"

lemma define_entries_node:
  "set_unless Y skip ''formatter'' pattern (set_unless Y (level = UNKNOW) ''level'' (level_to_string level)
     (yaml_set Y (yaml_null Y) ''name'' (yaml_str Y name))) = yaml_map Y (define_entries Y name level skip pattern)"
  unfolding yaml_map_Nil [symmetric] yaml_map_snoc [symmetric] set_unless_map define_entries_def by simp

lemma define_node_read:
  assumes ok: "yaml_ok Y" and apps: "\<forall>n \<in> set ns. appender_of_node Y n = Some (g n)" and skip: "skip \<Longrightarrow> pattern = []"
  shows "\<exists>node. push_nodes Y ns (yaml_map Y (define_entries Y name level skip pattern)) = Some node
     \<and> log_define_of_string Y (yaml_emit Y (Some node)) = Some
         \<lparr>ld_name = name, ld_level = (if level = NEVER then UNKNOW else level), ld_formatter = pattern,
          ld_appenders = List.map_filter g ns\<rparr>"
proof -
  let ?kvs = "define_entries Y name level skip pattern"
  have "map_of (rev ?kvs) ''appenders'' = (if ([] :: 'a list) = [] then None else Some (yaml_seq Y []))"
    by (simp add: define_entries_def str_entry_def)
  from push_nodes_run [OF ok this, of ns] obtain kvs where kvs:
    "push_nodes Y ns (yaml_map Y ?kvs) = Some (yaml_map Y kvs)"
    "\<forall>k. k \<noteq> ''appenders'' \<longrightarrow> map_of (rev kvs) k = map_of (rev ?kvs) k"
    "map_of (rev kvs) ''appenders'' = (if ns = [] then None else Some (yaml_seq Y ns))" by auto
  have "appenders_loop Y (yaml_seq Y ns) [0..<length ns] [] = Some ([] @ List.map_filter g (map ((!) ns) [0..<length ns]))"
    by (rule appenders_loop_run) (simp add: yaml_okD(3) [OF ok] apps)
  then have "appenders_loop Y (yaml_seq Y ns) [0..<length ns] [] = Some (List.map_filter g ns)"
    by (simp add: map_nth)
  then have "log_define_of_string Y (yaml_emit Y (Some (yaml_map Y kvs))) = Some
         \<lparr>ld_name = name, ld_level = (if level = NEVER then UNKNOW else level), ld_formatter = pattern,
          ld_appenders = List.map_filter g ns\<rparr>"
    using kvs(2,3) skip
    by (simp add: log_define_of_string_def yaml_okD(1,2,4,6) [OF ok] get_string_map [OF ok] define_entries_def str_entry_def
        level_from_to level_from_empty log_define_new_def map_filter_simps)
  with kvs(1) show ?thesis by blast
qed

lemma log_define_read_back:
  assumes "yaml_ok Y"
  shows "string_of_log_define Y d \<bind> log_define_of_string Y = Some (kept_define d)"
proof -
  define g where "g n = the (appender_of_node Y n)" for n
  let ?ns = "map (node_of_appender Y) (ld_appenders d)"
  have "\<forall>n \<in> set ?ns. appender_of_node Y n = Some (g n)"
    by (auto simp: g_def appender_read_back [OF assms])
  from define_node_read [OF assms this, where skip = "ld_formatter d = []" and pattern = "ld_formatter d"
      and name = "ld_name d" and level = "ld_level d"] obtain node where
    n: "push_nodes Y ?ns (yaml_map Y (define_entries Y (ld_name d) (ld_level d) (ld_formatter d = []) (ld_formatter d))) = Some node"
    "log_define_of_string Y (yaml_emit Y (Some node)) = Some
       \<lparr>ld_name = ld_name d, ld_level = (if ld_level d = NEVER then UNKNOW else ld_level d), ld_formatter = ld_formatter d,
        ld_appenders = List.map_filter g ?ns\<rparr>" by auto
  have "List.map_filter g (map (node_of_appender Y) as) = map kept_appender (filter (\<lambda>a. lad_type a = 1 \<or> lad_type a = 2) as)" for as
    by (induction as) (simp_all add: map_filter_simps g_def appender_read_back [OF assms])
  with n show ?thesis
    by (cases d) (simp add: string_of_log_define_def Let_def define_entries_node push_appenders_nodes kept_define_def)
qed

interpretation log_defines: keyed_order "\<lambda>_ :: unit. log_define_less" "\<lambda>_. ld_name" "\<lambda>_. UNIV"
  by unfold_locales (simp add: log_define_less_def)

abbreviation define_set :: "log_define list \<Rightarrow> bool" where
  "define_set \<equiv> log_defines.ordered ()"

lemma find_define:
  assumes "define_set ds"
  shows "(\<exists>e \<in> set ds. ld_name e = ld_name d \<and> (\<exists>i. set_find log_define_less d ds = Some i \<and> i < length ds \<and> ds ! i = e))
     \<or> (ld_name d \<notin> ld_name ` set ds \<and> set_find log_define_less d ds = Some (length ds))"
proof (cases "ld_name d \<in> ld_name ` set ds")
  case True
  then obtain us e vs where e: "ds = us @ e # vs" "ld_name e = ld_name d" by (auto dest!: split_list)
  have "set_find log_define_less d ds = set_find log_define_less e ds" for ds
  proof -
    have "log_define_less d = log_define_less e" by (rule ext) (simp add: log_define_less_def e(2))
    moreover have "set_lower_bound log_define_less d ds = set_lower_bound log_define_less e ds"
      by (induction ds) (simp_all add: log_define_less_def e(2))
    ultimately show ?thesis by (simp add: set_find_def cong: if_cong)
  qed
  moreover have "set_find log_define_less e (us @ e # vs) = Some (length us)"
    using log_defines.find_at assms e(1) by simp
  ultimately show ?thesis using e by (intro disjI1 bexI [of _ e]) auto
next
  case False
  then have "\<forall>y \<in> set ds. ld_name y \<noteq> ld_name d" by (metis image_eqI)
  then show ?thesis using log_defines.find_missing [OF assms, of d] False by simp
qed

subsection \<open>What a change keeps\<close>

text \<open>The loggers of all names outside \<open>N\<close>, the appenders and the map outside \<open>N\<close> stay as they are.\<close>

definition keeps :: "string set \<Rightarrow> log_state \<Rightarrow> log_state \<Rightarrow> bool" where
  "keeps N s s' \<longleftrightarrow> log_inv s' \<and> (\<forall>i p. ls_appenders s i = Some p \<longrightarrow> ls_appenders s' i = Some p)
     \<and> (\<forall>n a. ls_map s n = Some a \<longrightarrow> ls_map s' n = Some a)
     \<and> (\<forall>n. n \<notin> N \<longrightarrow> ls_map s' n = ls_map s n)
     \<and> (\<forall>n a. n \<notin> N \<longrightarrow> ls_map s n = Some a \<longrightarrow> ls_loggers s' a = ls_loggers s a)"

lemma keeps_refl: "log_inv s \<Longrightarrow> keeps N s s"
  by (simp add: keeps_def)

lemma keeps_trans: "keeps N s s1 \<Longrightarrow> keeps M s1 s2 \<Longrightarrow> keeps (N \<union> M) s s2"
  unfolding keeps_def by (intro conjI; clarsimp)

lemma keeps_mono: "keeps N s s' \<Longrightarrow> N \<subseteq> M \<Longrightarrow> keeps M s s'"
  unfolding keeps_def by blast

text \<open>Writing to the logger of a name keeps the others.\<close>

lemma keeps_put_logger:
  assumes "log_inv s" "ls_map s n = Some a" "log_inv (put_logger a l s)"
  shows "keeps {n} s (put_logger a l s)"
proof -
  have "b \<noteq> a" if "m \<noteq> n" "ls_map s m = Some b" for m b
    using log_inv_map [OF assms(1,2)] log_inv_map [OF assms(1) that(2)] that(1) by auto
  then show ?thesis using assms(3) by (auto simp: keeps_def)
qed

lemma keeps_out: "keeps N s (s'\<lparr>ls_out := out\<rparr>) = keeps N s s'"
  by (simp add: keeps_def)

lemma get_logger_keeps:
  assumes "log_inv s" "get_logger n s = Some (a, s')"
  shows "keeps {n} s s'"
proof (cases "ls_map s n")
  case None
  have fresh: "ls_loggers s (ls_next s) = None" using log_invD(2) [OF assms(1)] by fastforce
  have "b \<noteq> ls_next s" if "ls_map s m = Some b" for m b
    using log_inv_map [OF assms(1) that] fresh by auto
  then show ?thesis using get_logger_new [OF None] get_logger_inv [OF assms] assms(2) None by (auto simp: keeps_def)
qed (use assms keeps_refl in \<open>auto simp: get_logger_def\<close>)

subsection \<open>One definition\<close>

definition conf_appender :: "(string \<Rightarrow> bool) \<Rightarrow> log_formatter \<Rightarrow> log_appender_define \<Rightarrow> appender" where
  "conf_appender can_open fm a =
     \<lparr>ap_file = (if lad_type a = 1 then Some (lad_file a) else None), ap_stream_ok = (lad_type a = 1 \<longrightarrow> can_open (lad_file a)),
      ap_level = lad_level a, ap_formatter = Some fm\<rparr>"

definition known_type :: "log_appender_define \<Rightarrow> bool" where
  "known_type a \<longleftrightarrow> lad_type a = 1 \<or> lad_type a = 2"

text \<open>A new appender, its level set, added to the logger.\<close>

lemma conf_appender_step:
  assumes "log_inv s" "ls_map s n = Some a" "ls_loggers s a = Some l" "lg_formatter l = Some fm" "known_type d"
  shows "\<exists>s1 s2 s3. conf_appender_new can_open d s = Some (ls_next s, s1) \<and> ap_set_level (ls_next s) (lad_level d) s1 = Some s2
     \<and> add_appender a (ls_next s) s2 = Some s3 \<and> keeps {n} s s3 \<and> ls_map s3 = ls_map s
     \<and> ls_loggers s3 a = Some (l\<lparr>lg_appender := lg_appender l @ [ls_next s]\<rparr>)
     \<and> ls_appenders s3 (ls_next s) = Some (conf_appender can_open fm d)"
proof -
  let ?i = "ls_next s"
  have fresh: "ls_appenders s ?i = None" using log_inv_appender [OF assms(1), of ?i] by (cases "ls_appenders s ?i") auto
  obtain s1 where s1: "conf_appender_new can_open d s = Some (?i, s1)" "log_inv s1" "ls_loggers s1 = ls_loggers s"
    "ls_map s1 = ls_map s" "ls_appenders s1 = (ls_appenders s)(?i \<mapsto> (conf_appender can_open fm d)\<lparr>ap_level := DEBUG, ap_formatter := None\<rparr>)"
  proof (cases "lad_type d = 1")
    case True
    then show thesis using that file_appender_new_inv [OF assms(1) file_appender_new_run]
      by (simp add: conf_appender_new_def file_appender_new_run conf_appender_def)
  next
    case False
    then show thesis using that stdout_appender_new_inv [OF assms(1)] assms(5)
      by (simp add: conf_appender_new_def known_type_def conf_appender_def) (simp add: stdout_appender_new_def)
  qed
  let ?s2 = "put_appender ?i ((conf_appender can_open fm d)\<lparr>ap_formatter := None\<rparr>) s1"
  have s2: "ap_set_level ?i (lad_level d) s1 = Some ?s2"
    using s1(5) by (simp add: ap_set_level_def conf_appender_def)
  have inv2: "log_inv ?s2" using ap_set_level_inv [OF s1(2) s2] .
  have s3: "add_appender a ?i ?s2 = Some (put_logger a (l\<lparr>lg_appender := lg_appender l @ [?i]\<rparr>)
      (put_appender ?i (conf_appender can_open fm d) ?s2))" (is "_ = Some ?s3")
    using add_appender_run [OF inv2, of a l ?i] assms(3,4) s1(3) by (simp add: conf_appender_def)
  have inv3: "log_inv ?s3" using add_appender_inv [OF inv2 s3] .
  have "b \<noteq> a" if "m \<noteq> n" "ls_map s m = Some b" for m b
    using log_inv_map [OF assms(1,2)] log_inv_map [OF assms(1) that(2)] that(1) by auto
  then have "keeps {n} s ?s3" using inv3 s1(3-5) fresh by (auto simp: keeps_def)
  then show ?thesis using s1 s2 s3 by simp
qed

lemma conf_appenders_run:
  assumes "log_inv s" "ls_map s n = Some a" "ls_loggers s a = Some l" "lg_formatter l = Some fm" "\<forall>d \<in> set ds. known_type d"
  shows "\<exists>s' is. conf_appenders can_open a ds s = Some s' \<and> keeps {n} s s' \<and> ls_map s' = ls_map s
     \<and> ls_loggers s' a = Some (l\<lparr>lg_appender := lg_appender l @ is\<rparr>)
     \<and> map (ls_appenders s') is = map (\<lambda>d. Some (conf_appender can_open fm d)) ds"
  using assms
proof (induction ds arbitrary: s l)
  case Nil
  then show ?case by (auto simp: keeps_refl intro!: exI [of _ "[]"])
next
  case (Cons d ds)
  let ?i = "ls_next s"
  from Cons.prems(5) have "known_type d" by simp
  from conf_appender_step [OF Cons.prems(1-4) this, of can_open] obtain s1 s2 s3 where s3:
    "conf_appender_new can_open d s = Some (?i, s1)" "ap_set_level ?i (lad_level d) s1 = Some s2"
    "add_appender a ?i s2 = Some s3" "keeps {n} s s3" "ls_map s3 = ls_map s"
    "ls_loggers s3 a = Some (l\<lparr>lg_appender := lg_appender l @ [?i]\<rparr>)" "ls_appenders s3 ?i = Some (conf_appender can_open fm d)"
    by blast
  have "log_inv s3" "ls_map s3 n = Some a" using s3(4,5) Cons.prems(2) by (simp_all add: keeps_def)
  from Cons.IH [OF this s3(6)] Cons.prems(4,5) obtain s' "is" where s':
    "conf_appenders can_open a ds s3 = Some s'" "keeps {n} s3 s'" "ls_map s' = ls_map s3"
    "ls_loggers s' a = Some (l\<lparr>lg_appender := (lg_appender l @ [?i]) @ is\<rparr>)"
    "map (ls_appenders s') is = map (\<lambda>d. Some (conf_appender can_open fm d)) ds" by auto
  have "ls_appenders s' ?i = Some (conf_appender can_open fm d)" using s'(2) s3(7) by (simp add: keeps_def)
  moreover have "keeps {n} s s'" using keeps_trans [OF s3(4) s'(2)] by simp
  ultimately show ?case using s3(1-3,5) s' by (intro exI [of _ s'] exI [of _ "?i # is"]) simp
qed

lemma keeps_update:
  assumes "log_inv s" "ls_map s n = Some a" "ls_loggers s a = Some l" "lg_name l' = lg_name l" "lg_formatter l' \<noteq> None"
    "set (lg_appender l') \<subseteq> set (lg_appender l)"
  shows "keeps {n} s (put_logger a l' s)"
  using keeps_put_logger [OF assms(1,2) log_inv_update [OF assms(1,3-5)]] assms(6) by blast

text \<open>The formatter of the logger of a name, or of the logger that would be made for it.\<close>

definition current_formatter :: "log_state \<Rightarrow> string \<Rightarrow> log_formatter" where
  "current_formatter s n =
     (case ls_map s n of
        None \<Rightarrow> formatter_new default_pattern
      | Some a \<Rightarrow> the (lg_formatter (the (ls_loggers s a))))"

definition conf_formatter :: "log_define \<Rightarrow> log_formatter \<Rightarrow> log_formatter" where
  "conf_formatter d fm =
     (if ld_formatter d = [] \<or> fm_error (formatter_new (ld_formatter d)) then fm else formatter_new (ld_formatter d))"

text \<open>The logger of a definition is set up as the definition says.\<close>

definition configured :: "(string \<Rightarrow> bool) \<Rightarrow> log_state \<Rightarrow> log_define \<Rightarrow> log_formatter \<Rightarrow> bool" where
  "configured can_open s d fm \<longleftrightarrow>
     (\<exists>a l. ls_map s (ld_name d) = Some a \<and> ls_loggers s a = Some l \<and> lg_name l = ld_name d \<and> lg_level l = ld_level d
        \<and> lg_formatter l = Some fm
        \<and> map (ls_appenders s) (lg_appender l) = map (\<lambda>e. Some (conf_appender can_open fm e)) (ld_appenders d))"

definition silenced :: "log_state \<Rightarrow> string \<Rightarrow> bool" where
  "silenced s n \<longleftrightarrow> (\<exists>a l. ls_map s n = Some a \<and> ls_loggers s a = Some l \<and> lg_level l = NEVER \<and> lg_appender l = [])"

lemma configured_keeps:
  assumes "configured can_open s d fm" "keeps N s s'" "ld_name d \<notin> N"
  shows "configured can_open s' d fm"
proof -
  obtain a l where l: "ls_map s (ld_name d) = Some a" "ls_loggers s a = Some l" "lg_name l = ld_name d" "lg_level l = ld_level d"
    "lg_formatter l = Some fm" "map (ls_appenders s) (lg_appender l) = map (\<lambda>e. Some (conf_appender can_open fm e)) (ld_appenders d)"
    using assms(1) by (auto simp: configured_def)
  have "ls_appenders s' i = ls_appenders s i" if "i \<in> set (lg_appender l)" for i
  proof -
    have "ls_appenders s i \<in> set (map (ls_appenders s) (lg_appender l))" using that by simp
    then obtain p where "ls_appenders s i = Some p" unfolding l(6) by auto
    then show ?thesis using assms(2) by (simp add: keeps_def)
  qed
  then have "map (ls_appenders s') (lg_appender l) = map (ls_appenders s) (lg_appender l)" by simp
  then show ?thesis using l assms(2,3) by (auto simp: configured_def keeps_def)
qed

lemma silenced_keeps: "silenced s n \<Longrightarrow> keeps N s s' \<Longrightarrow> n \<notin> N \<Longrightarrow> silenced s' n"
  unfolding silenced_def keeps_def by metis

lemma current_formatter_keeps:
  "keeps N s s' \<Longrightarrow> n \<notin> N \<Longrightarrow> current_formatter s' n = current_formatter s n"
  by (auto simp: current_formatter_def keeps_def split: option.split)

lemma get_logger_formatter:
  assumes "log_inv s" "get_logger n s = Some (a, s1)"
  obtains l where "ls_map s1 n = Some a" "ls_loggers s1 a = Some l" "lg_name l = n" "lg_formatter l = Some (current_formatter s n)"
proof -
  obtain l where l: "ls_map s1 n = Some a" "ls_loggers s1 a = Some l" "lg_name l = n"
    using get_logger_maps [OF assms] by blast
  have f: "lg_formatter l \<noteq> None" using log_invD(3) [OF get_logger_inv [OF assms] l(2)] by (simp add: logger_ok_def)
  have "the (lg_formatter l) = current_formatter s n"
  proof (cases "ls_map s n")
    case None
    then show ?thesis using get_logger_new [OF None] assms(2) l(2) by (auto simp: current_formatter_def)
  next
    case (Some b)
    then show ?thesis using assms(2) l(2) by (simp add: get_logger_def current_formatter_def)
  qed
  then show thesis using that l f by auto
qed

lemma conf_define_run:
  assumes "log_inv s" "define_set old" "d \<notin> set old" "\<forall>e \<in> set (ld_appenders d). known_type e"
  shows "\<exists>s'. conf_define can_open old d s = Some s' \<and> keeps {ld_name d} s s'
     \<and> configured can_open s' d (conf_formatter d (current_formatter s (ld_name d)))"
proof -
  let ?n = "ld_name d" and ?fm = "conf_formatter d (current_formatter s (ld_name d))"
  obtain a s1 where g: "get_logger ?n s = Some (a, s1)" using get_logger_total by blast
  obtain l where l: "ls_map s1 ?n = Some a" "ls_loggers s1 a = Some l" "lg_name l = ?n" "lg_formatter l = Some (current_formatter s ?n)"
    using get_logger_formatter [OF assms(1) g] .
  have inv1: "log_inv s1" using get_logger_inv [OF assms(1) g] .
  let ?l = "l\<lparr>lg_level := ld_level d, lg_formatter := Some ?fm, lg_appender := []\<rparr>"
  let ?s4 = "\<lambda>out. (put_logger a ?l s1)\<lparr>ls_out := out\<rparr>"
  have keeps4: "keeps {?n} s1 (?s4 out)" for out
    using keeps_update [OF inv1 l(1,2), of ?l] by (simp add: keeps_out)
  have start: "conf_define can_open old d s = do {
      s2 \<leftarrow> set_level a (ld_level d) s1;
      s3 \<leftarrow> (if ld_formatter d = [] then Some s2 else set_formatter_str a (ld_formatter d) s2);
      s4 \<leftarrow> clear_appenders a s3;
      conf_appenders can_open a (ld_appenders d) s4 }"
    using find_define [OF assms(2), of d] g assms(3) by (auto simp: conf_define_def nth_opt_def)
  let ?msg = "if ld_formatter d \<noteq> [] \<and> fm_error (formatter_new (ld_formatter d))
    then [Wrote None (''Logger set_formatter name='' @ lg_name l @ '' value='' @ ld_formatter d @ '' invalid formatter'' @ [CHR 0x0A])] else []"
  have "conf_define can_open old d s = conf_appenders can_open a (ld_appenders d) (?s4 (ls_out s1 @ ?msg))"
    unfolding start using l(2,4)
    by (cases l; cases s1) (auto simp: set_level_def set_formatter_str_def set_formatter_def clear_appenders_def
        conf_formatter_def put_logger_def Let_def)
  then obtain out where run: "conf_define can_open old d s = conf_appenders can_open a (ld_appenders d) (?s4 out)" by blast
  have inv4: "log_inv (?s4 out)" "ls_map (?s4 out) ?n = Some a" "ls_loggers (?s4 out) a = Some ?l" "lg_formatter ?l = Some ?fm"
    using keeps4 [of out] l(1) by (simp_all add: keeps_def)
  from conf_appenders_run [OF this assms(4), of can_open] obtain s' "is" where s':
    "conf_appenders can_open a (ld_appenders d) (?s4 out) = Some s'" "keeps {?n} (?s4 out) s'" "ls_map s' = ls_map (?s4 out)"
    "ls_loggers s' a = Some (?l\<lparr>lg_appender := is\<rparr>)"
    "map (ls_appenders s') is = map (\<lambda>e. Some (conf_appender can_open ?fm e)) (ld_appenders d)" by auto
  have "keeps {?n} s s'"
    using keeps_trans [OF get_logger_keeps [OF assms(1) g] keeps_trans [OF keeps4 [of out] s'(2)]] by simp
  moreover have "configured can_open s' d ?fm"
    using s'(3-5) l(1,3) unfolding configured_def by auto
  ultimately show ?thesis using run s'(1) by auto
qed

subsection \<open>All definitions\<close>

lemma define_set_simps [simp]:
  "define_set []" "define_set (d # ds) \<longleftrightarrow> (\<forall>e \<in> set ds. ld_name d < ld_name e) \<and> define_set ds"
  by simp_all

lemma current_formatter_out: "current_formatter (s\<lparr>ls_out := out\<rparr>) = current_formatter s"
  by (rule ext) (simp add: current_formatter_def split: option.split)

lemma conf_defines_run:
  assumes "log_inv s" "define_set old" "define_set ds" "set ds \<inter> set old = {}"
    "\<forall>d \<in> set ds. \<forall>e \<in> set (ld_appenders d). known_type e"
  shows "\<exists>s'. conf_defines can_open old ds s = Some s' \<and> keeps (ld_name ` set ds) s s'
     \<and> (\<forall>d \<in> set ds. configured can_open s' d (conf_formatter d (current_formatter s (ld_name d))))"
  using assms
proof (induction ds arbitrary: s)
  case (Cons d ds)
  then have "d \<notin> set old" "\<forall>e \<in> set (ld_appenders d). known_type e" by auto
  from conf_define_run [OF Cons.prems(1,2) this, of can_open] obtain s1 where s1: "conf_define can_open old d s = Some s1"
    "keeps {ld_name d} s s1" "configured can_open s1 d (conf_formatter d (current_formatter s (ld_name d)))" by blast
  have "log_inv s1" using s1(2) by (simp add: keeps_def)
  from Cons.IH [OF this] Cons.prems obtain s' where s': "conf_defines can_open old ds s1 = Some s'"
    "keeps (ld_name ` set ds) s1 s'"
    "\<forall>d \<in> set ds. configured can_open s' d (conf_formatter d (current_formatter s1 (ld_name d)))" by auto
  have names: "ld_name d \<notin> ld_name ` set ds" "\<forall>e \<in> set ds. ld_name e \<notin> {ld_name d}" using Cons.prems(3) by auto
  have "configured can_open s' d (conf_formatter d (current_formatter s (ld_name d)))"
    by (rule configured_keeps [OF s1(3) s'(2) names(1)])
  moreover have "current_formatter s1 (ld_name e) = current_formatter s (ld_name e)" if "e \<in> set ds" for e
    using current_formatter_keeps [OF s1(2)] names(2) that by blast
  ultimately show ?case using s1(1) s'(1,3) keeps_trans [OF s1(2) s'(2)] by auto
qed (simp add: keeps_refl)

lemma conf_delete_run:
  assumes "log_inv s" "define_set new"
  shows "\<exists>s'. conf_delete new d s = Some s' \<and> keeps ({ld_name d} - ld_name ` set new) s s'
     \<and> (ld_name d \<in> ld_name ` set new \<or> silenced s' (ld_name d))"
proof (cases "ld_name d \<in> ld_name ` set new")
  case True
  then show ?thesis using find_define [OF assms(2), of d] assms(1) by (auto simp: conf_delete_def keeps_refl)
next
  case False
  obtain a s1 where g: "get_logger (ld_name d) s = Some (a, s1)" using get_logger_total by blast
  obtain l where l: "ls_map s1 (ld_name d) = Some a" "ls_loggers s1 a = Some l" "lg_formatter l = Some (current_formatter s (ld_name d))"
    using get_logger_formatter [OF assms(1) g] .
  let ?s' = "put_logger a (l\<lparr>lg_level := NEVER, lg_appender := []\<rparr>) s1"
  have "set_find log_define_less d new = Some (length new)"
    using find_define [OF assms(2), of d] False by (metis image_eqI)
  then have "conf_delete new d s = Some ?s'"
    using g l(2) by (auto simp: conf_delete_def set_level_def clear_appenders_def put_logger_def)
  moreover have "keeps {ld_name d} s1 ?s'"
    using l(3) by (intro keeps_update [OF get_logger_inv [OF assms(1) g] l(1,2)]) auto
  then have "keeps {ld_name d} s ?s'" using keeps_trans [OF get_logger_keeps [OF assms(1) g]] by fastforce
  moreover have "silenced ?s' (ld_name d)" using l(1) by (simp add: silenced_def)
  ultimately show ?thesis using False by (simp add: insert_Diff_if)
qed

lemma conf_deletes_run:
  assumes "log_inv s" "define_set new" "define_set ds"
  shows "\<exists>s'. conf_deletes new ds s = Some s' \<and> keeps (ld_name ` set ds - ld_name ` set new) s s'
     \<and> (\<forall>n \<in> ld_name ` set ds - ld_name ` set new. silenced s' n)"
  using assms
proof (induction ds arbitrary: s)
  case (Cons d ds)
  obtain s1 where s1: "conf_delete new d s = Some s1" "keeps ({ld_name d} - ld_name ` set new) s s1"
    "ld_name d \<in> ld_name ` set new \<or> silenced s1 (ld_name d)" using conf_delete_run [OF Cons.prems(1,2)] by blast
  have "log_inv s1" using s1(2) by (simp add: keeps_def)
  from Cons.IH [OF this Cons.prems(2)] Cons.prems(3) obtain s' where s': "conf_deletes new ds s1 = Some s'"
    "keeps (ld_name ` set ds - ld_name ` set new) s1 s'" "\<forall>n \<in> ld_name ` set ds - ld_name ` set new. silenced s' n" by auto
  have "ld_name d \<notin> ld_name ` set ds" using Cons.prems(3) by auto
  then have "ld_name d \<in> ld_name ` set new \<or> silenced s' (ld_name d)"
    using s1(3) silenced_keeps [OF _ s'(2), of "ld_name d"] by blast
  moreover have "({ld_name d} - ld_name ` set new) \<union> (ld_name ` set ds - ld_name ` set new) = ld_name ` set (d # ds) - ld_name ` set new"
    by auto
  ultimately show ?case using s1(1) s'(1,3) keeps_trans [OF s1(2) s'(2)] by auto
qed (simp add: keeps_refl)

lemma conf_define_unchanged:
  assumes "log_inv s" "define_set old" "d \<in> set old"
  shows "conf_define can_open old d s = None"
proof -
  obtain i e where i: "set_find log_define_less d old = Some i" "i < length old" "old ! i = e" "e \<in> set old" "ld_name e = ld_name d"
    using find_define [OF assms(2), of d] assms(3) by auto
  have "distinct (map ld_name old)"
    using assms(2) by (induction old) auto
  then have "e = d" using i(4,5) assms(3) by (auto simp: distinct_map inj_on_def)
  moreover have "ls_loggers s 0 = None" using log_invD(1) [OF assms(1), of 0] by (cases "ls_loggers s 0") auto
  ultimately show ?thesis using i(1-3) by (simp add: conf_define_def nth_opt_def set_level_def)
qed

lemma conf_defines_unchanged:
  assumes "log_inv s" "define_set old" "define_set ds" "set ds \<inter> set old \<noteq> {}"
    "\<forall>d \<in> set ds. \<forall>e \<in> set (ld_appenders d). known_type e"
  shows "conf_defines can_open old ds s = None"
  using assms
proof (induction ds arbitrary: s)
  case (Cons d ds)
  show ?case
  proof (cases "d \<in> set old")
    case True
    then show ?thesis using conf_define_unchanged [OF Cons.prems(1,2)] by simp
  next
    case False
    then obtain s1 where "conf_define can_open old d s = Some s1" "keeps {ld_name d} s s1"
      using conf_define_run [OF Cons.prems(1,2), of d can_open] Cons.prems(5) by auto
    then show ?thesis using Cons.IH [of s1] Cons.prems False by (simp add: keeps_def)
  qed
qed simp


lemma log_level_macro_run:
  assumes "log_inv s" "ls_loggers s a = Some l" "ls_loggers s (ev_logger event) = Some k"
  shows "\<exists>out. log_level_macro strf a level event s = Some (s\<lparr>ls_out := out\<rparr>)"
proof (cases "lg_level l \<le> level")
  case True
  then show ?thesis using logger_log_run [OF assms(1,3)] assms(2,3) by (auto simp: log_level_macro_def names_null_def)
next
  case False
  then show ?thesis using assms(2) by (intro exI [of _ "ls_out s"]) (simp add: log_level_macro_def)
qed

subsection \<open>Properties\<close>

text \<open>
  A definition that is written as YAML and read again keeps its name, its level (unless it is the one for deleted
  loggers), its formatter and the types, files and formatters of its known appenders; the levels of the appenders
  are written but never read back. A set of definitions that contain only what is kept survives as a whole.
\<close>

theorem log_defines_roundtrip:
  assumes "yaml_ok Y" "define_set ds" "\<forall>d \<in> set ds. kept_define d = d"
  shows "string_of_log_define Y e \<bind> log_define_of_string Y = Some (kept_define e)
     \<and> string_of_set Y (string_of_log_define Y) ds \<bind> set_of_string Y log_define_less (log_define_of_string Y) = Some ds"
proof -
  have "elem_ok Y (string_of_log_define Y) (log_define_of_string Y) d" if mem: "d \<in> set ds" for d
  proof -
    obtain s where s: "string_of_log_define Y d = Some s" "log_define_of_string Y s = Some d"
      using log_define_read_back [OF assms(1), of d] mem assms(3) by (auto simp: bind_eq_Some_conv)
    then obtain n where "s = yaml_emit Y (Some n)" by (auto simp: string_of_log_define_def bind_eq_Some_conv Let_def)
    then show ?thesis using s yaml_okD(1) [OF assms(1)] by (auto simp: elem_ok_def)
  qed
  then have elems: "\<forall>d \<in> set ds. elem_ok Y (string_of_log_define Y) (log_define_of_string Y) d" by blast
  have "sorted_wrt (\<lambda>a b. log_define_less a b = Some True) ds"
    using assms(2) by (simp add: log_defines.ordered_def log_define_less_def)
  then show ?thesis
    using log_define_read_back [OF assms(1)] add_all_set_insert [where ys = "[]", of log_define_less ds]
    by (simp add: string_of_set_def set_of_string_def seq_read_back [OF assms(1) elems])
qed

definition demo_define :: log_define where
  "demo_define = \<lparr>ld_name = ''net'', ld_level = WARN, ld_formatter = ''%m%n'',
     ld_appenders = [\<lparr>lad_type = 1, lad_level = UNKNOW, lad_formatter = [], lad_file = ''net.log''\<rparr>,
                     \<lparr>lad_type = 2, lad_level = UNKNOW, lad_formatter = ''%p'', lad_file = []\<rparr>]\<rparr>"

theorem log_defines_roundtrip_witness:
  "string_of_set demo_yaml (string_of_log_define demo_yaml) [demo_define]
     \<bind> set_of_string demo_yaml log_define_less (log_define_of_string demo_yaml) = Some [demo_define]"
  using log_defines_roundtrip [OF demo_yaml_ok, of "[demo_define]" demo_define]
  by (simp add: demo_define_def kept_define_def kept_appender_def)

text \<open>
  C33. When the definitions change, every new or changed one gets its logger, with its level, its formatter if that can
  be parsed, and an appender for each of its entries with the level of the entry and the formatter of the logger
  (the formatter of the entry is not used); the loggers of deleted definitions are silenced, and no other logger
  changes. But if any definition is the same before and after, a null pointer is dereferenced.
\<close>

theorem logger_configuration_applied:
  assumes "log_inv s" "define_set old" "define_set new" "\<forall>d \<in> set new. \<forall>e \<in> set (ld_appenders d). known_type e"
  shows "if set new \<inter> set old = {}
     then \<exists>s'. on_logger_conf_changed strf can_open event old new s = Some s'
        \<and> keeps (ld_name ` (set old \<union> set new)) s s'
        \<and> (\<forall>d \<in> set new. configured can_open s' d (conf_formatter d (current_formatter s (ld_name d))))
        \<and> (\<forall>n \<in> ld_name ` set old - ld_name ` set new. silenced s' n)
     else on_logger_conf_changed strf can_open event old new s = None"
proof -
  obtain r where r: "ls_loggers s (ls_root s) = Some r" using assms(1) by (auto simp: log_inv_def)
  obtain out where m: "log_level_macro strf (ls_root s) INFO
      (event\<lparr>ev_logger := ls_root s, ev_level := INFO, ev_content := ''on_logger_conf_changed''\<rparr>) s = Some (s\<lparr>ls_out := out\<rparr>)"
    (is "?m = Some ?s") using log_level_macro_run [OF assms(1) r, where k = r and strf = strf and level = INFO and event = "event\<lparr>ev_logger := ls_root s, ev_level := INFO, ev_content := ''on_logger_conf_changed''\<rparr>"] r
    by auto
  have inv: "log_inv ?s" and same: "current_formatter ?s = current_formatter s" "keeps N s ?s" for N
    using assms(1) keeps_refl [OF assms(1)] by (simp_all add: current_formatter_out keeps_out)
  show ?thesis
  proof (cases "set new \<inter> set old = {}")
    case True
    from conf_defines_run [OF inv assms(2,3) True assms(4), of can_open] obtain s2 where s2:
      "conf_defines can_open old new ?s = Some s2" "keeps (ld_name ` set new) ?s s2"
      "\<forall>d \<in> set new. configured can_open s2 d (conf_formatter d (current_formatter s (ld_name d)))" unfolding same by blast
    have "log_inv s2" using s2(2) by (simp add: keeps_def)
    from conf_deletes_run [OF this assms(3,2)] obtain s3 where s3: "conf_deletes new old s2 = Some s3"
      "keeps (ld_name ` set old - ld_name ` set new) s2 s3" "\<forall>n \<in> ld_name ` set old - ld_name ` set new. silenced s3 n" by blast
    have "keeps (ld_name ` (set old \<union> set new)) s s3"
      using keeps_mono [OF keeps_trans [OF keeps_trans [OF same(2) s2(2)] s3(2)], of "ld_name ` (set old \<union> set new)"] by blast
    moreover have "\<forall>d \<in> set new. configured can_open s3 d (conf_formatter d (current_formatter s (ld_name d)))"
      using s2(3) configured_keeps [OF _ s3(2)] by blast
    ultimately show ?thesis using True m s2(1) s3(1,3) by (simp add: on_logger_conf_changed_def)
  next
    case False
    then show ?thesis using m conf_defines_unchanged [OF inv assms(2,3) False assms(4)]
      by (simp add: on_logger_conf_changed_def)
  qed
qed

text \<open>The first definition of a logger, and the crash when the configuration is extended by a second one.\<close>

theorem logger_configuration_applied_witness:
  "\<exists>s s' a l. logger_manager_new = Some s \<and> on_logger_conf_changed (\<lambda>_ _. []) (\<lambda>_. True) (demo_event 1) [] [demo_define] s = Some s'
     \<and> ls_map s' ''net'' = Some a \<and> ls_loggers s' a = Some l \<and> lg_level l = WARN
     \<and> map (map_option ap_file \<circ> ls_appenders s') (lg_appender l) = [Some (Some ''net.log''), Some None]
     \<and> on_logger_conf_changed (\<lambda>_ _. []) (\<lambda>_. True) (demo_event 1) [demo_define] [demo_define, log_define_new\<lparr>ld_name := ''tcp''\<rparr>] s' = None"
proof -
  obtain s where s: "logger_manager_new = Some s"
    by (auto simp: logger_manager_new_def logger_new_def stdout_appender_new_def add_appender_def ap_set_formatter_def logger_name_def Let_def)
  then have inv: "log_inv s" using logger_manager_new_inv by blast
  have known: "\<forall>d \<in> set [demo_define]. \<forall>e \<in> set (ld_appenders d). known_type e"
    "\<forall>d \<in> set [demo_define, log_define_new\<lparr>ld_name := ''tcp''\<rparr>]. \<forall>e \<in> set (ld_appenders d). known_type e"
    by (simp_all add: demo_define_def known_type_def log_define_new_def)
  have sets: "define_set [demo_define, log_define_new\<lparr>ld_name := ''tcp''\<rparr>]"
    by (simp add: demo_define_def)
  from logger_configuration_applied [OF inv _ _ known(1), of "[]" "\<lambda>_ _. []" "\<lambda>_. True" "demo_event 1"]
  obtain s' fm where s': "on_logger_conf_changed (\<lambda>_ _. []) (\<lambda>_. True) (demo_event 1) [] [demo_define] s = Some s'" "log_inv s'"
    "configured (\<lambda>_. True) s' demo_define fm" by (auto simp: keeps_def)
  from s'(3) obtain a l where l: "ls_map s' ''net'' = Some a" "ls_loggers s' a = Some l" "lg_level l = WARN"
    "map (ls_appenders s') (lg_appender l) = map (\<lambda>e. Some (conf_appender (\<lambda>_. True) fm e)) (ld_appenders demo_define)"
    by (auto simp: configured_def demo_define_def)
  have "map (map_option ap_file \<circ> ls_appenders s') (lg_appender l) = map (map_option ap_file) (map (ls_appenders s') (lg_appender l))"
    by simp
  also have "\<dots> = [Some (Some ''net.log''), Some None]"
    unfolding l(4) by (simp add: demo_define_def conf_appender_def)
  finally show ?thesis
    using s s'(1) l logger_configuration_applied [OF s'(2) _ sets known(2), of "[demo_define]" "\<lambda>_ _. []" "\<lambda>_. True" "demo_event 1"] by auto
qed

end
