(* ===== verification/LogYaml.thy ===== *)
theory LogYaml
  imports LogConfig
begin

text \<open>
  The loggers as YAML text (\<open>to_yaml_string\<close> of the appenders, of \<open>Logger\<close> and of \<open>LoggerManager\<close> in
  \<open>src/log.cc\<close>), and what becomes of that text when it is read as the configuration of the loggers.
\<close>

text \<open>The two appenders differ in their first entries.\<close>

definition appender_to_yaml_string :: "'n yaml \<Rightarrow> appender \<Rightarrow> string" where
  "appender_to_yaml_string Y p =
     (let node = yaml_null Y;
          node1 = (case ap_file p of
              None \<Rightarrow> yaml_set Y node ''type'' (yaml_str Y ''StdoutLogAppender'')
            | Some filename \<Rightarrow> yaml_set Y (yaml_set Y node ''type'' (yaml_str Y ''FileLogAppender'')) ''file'' (yaml_str Y filename));
          node2 = (if ap_level p \<noteq> UNKNOW then yaml_set Y node1 ''level'' (yaml_str Y (level_to_string (ap_level p))) else node1);
          node3 = (case ap_formatter p of
              None \<Rightarrow> node2
            | Some fm \<Rightarrow> yaml_set Y node2 ''formatter'' (yaml_str Y (fm_pattern fm)))
      in yaml_emit Y (Some node3))"

fun push_appender_texts :: "'n yaml \<Rightarrow> log_state \<Rightarrow> addr list \<Rightarrow> 'n \<Rightarrow> 'n option" where
  "push_appender_texts Y s [] node = Some node"
| "push_appender_texts Y s (i # is) node = do {
     p \<leftarrow> ls_appenders s i;
     n \<leftarrow> yaml_load Y (appender_to_yaml_string Y p);
     node1 \<leftarrow> push_at Y ''appenders'' node n;
     push_appender_texts Y s is node1
   }"

definition logger_to_yaml_string :: "'n yaml \<Rightarrow> log_state \<Rightarrow> addr \<Rightarrow> string option" where
  "logger_to_yaml_string Y s a = do {
     l \<leftarrow> ls_loggers s a;
     let node = yaml_set Y (yaml_null Y) ''name'' (yaml_str Y (lg_name l));
     let node1 = (if lg_level l \<noteq> UNKNOW then yaml_set Y node ''level'' (yaml_str Y (level_to_string (lg_level l))) else node);
     let node2 = (case lg_formatter l of
         None \<Rightarrow> node1
       | Some fm \<Rightarrow> yaml_set Y node1 ''formatter'' (yaml_str Y (fm_pattern fm)));
     node3 \<leftarrow> push_appender_texts Y s (lg_appender l) node2;
     Some (yaml_emit Y (Some node3))
   }"

text \<open>\<open>m_loggers\<close> is iterated in the order of the names; \<open>entries\<close> are its entries in this order.\<close>

definition manager_to_yaml_string :: "'n yaml \<Rightarrow> log_state \<Rightarrow> (string \<times> addr) list \<Rightarrow> string option" where
  "manager_to_yaml_string Y s entries = do {
     node \<leftarrow> push_elems Y (\<lambda>i. logger_to_yaml_string Y s (snd i)) entries (yaml_null Y);
     Some (yaml_emit Y (Some node))
   }"

subsection \<open>Loggers as definitions\<close>

text \<open>The definition that describes a logger; levels of appenders are not read, and \<open>NEVER\<close> has no text.\<close>

definition pattern_of :: "log_formatter option \<Rightarrow> string" where
  "pattern_of fm = (case fm of None \<Rightarrow> [] | Some f \<Rightarrow> fm_pattern f)"

definition appender_define :: "appender \<Rightarrow> log_appender_define" where
  "appender_define p = \<lparr>lad_type = (case ap_file p of None \<Rightarrow> 2 | Some _ \<Rightarrow> 1), lad_level = UNKNOW,
     lad_formatter = pattern_of (ap_formatter p), lad_file = (case ap_file p of None \<Rightarrow> [] | Some f \<Rightarrow> f)\<rparr>"

definition logger_define :: "log_state \<Rightarrow> logger \<Rightarrow> log_define" where
  "logger_define s l = \<lparr>ld_name = lg_name l, ld_level = (if lg_level l = NEVER then UNKNOW else lg_level l),
     ld_formatter = pattern_of (lg_formatter l), ld_appenders = map (\<lambda>i. appender_define (the (ls_appenders s i))) (lg_appender l)\<rparr>"

definition appender_node :: "'n yaml \<Rightarrow> appender \<Rightarrow> 'n" where
  "appender_node Y p = yaml_map Y
     ([(''type'', yaml_str Y (if ap_file p = None then ''StdoutLogAppender'' else ''FileLogAppender''))]
      @ str_entry Y (ap_file p = None) ''file'' (case ap_file p of None \<Rightarrow> [] | Some f \<Rightarrow> f)
      @ str_entry Y (ap_level p = UNKNOW) ''level'' (level_to_string (ap_level p))
      @ str_entry Y (ap_formatter p = None) ''formatter'' (pattern_of (ap_formatter p)))"

lemma appender_text: "appender_to_yaml_string Y p = yaml_emit Y (Some (appender_node Y p))"
proof -
  have "appender_node Y p = set_unless Y (ap_formatter p = None) ''formatter'' (pattern_of (ap_formatter p))
      (set_unless Y (ap_level p = UNKNOW) ''level'' (level_to_string (ap_level p))
        (set_unless Y (ap_file p = None) ''file'' (case ap_file p of None \<Rightarrow> [] | Some f \<Rightarrow> f)
          (yaml_set Y (yaml_null Y) ''type'' (yaml_str Y (if ap_file p = None then ''StdoutLogAppender'' else ''FileLogAppender'')))))"
    unfolding appender_node_def yaml_map_Nil [symmetric] yaml_map_snoc [symmetric] set_unless_map by simp
  then show ?thesis
    by (auto simp: appender_to_yaml_string_def set_unless_def pattern_of_def Let_def split: option.split)
qed

lemma appender_node_read:
  assumes "yaml_ok Y"
  shows "appender_of_node Y (appender_node Y p) = Some (Some (appender_define p))"
  unfolding appender_node_def appender_of_node_def get_string_map [OF assms] str_entry_def
  by (cases "ap_file p"; cases "ap_formatter p")
    (simp_all add: yaml_okD(6) [OF assms] appender_define_def pattern_of_def log_appender_define_new_def)

lemma push_appender_texts_run:
  assumes "yaml_ok Y" "\<forall>i \<in> set is. ls_appenders s i \<noteq> None"
  shows "push_appender_texts Y s is node = push_nodes Y (map (\<lambda>i. appender_node Y (the (ls_appenders s i))) is) node"
  using assms(2)
proof (induction "is" arbitrary: node)
  case (Cons i "is")
  then obtain p where "ls_appenders s i = Some p" by auto
  with Cons show ?case by (simp add: appender_text yaml_okD(1) [OF assms(1)] cong: Option.bind_cong)
qed simp

lemma logger_read_back:
  assumes "yaml_ok Y" "ls_loggers s a = Some l" "\<forall>i \<in> set (lg_appender l). ls_appenders s i \<noteq> None"
  shows "\<exists>node. logger_to_yaml_string Y s a = Some (yaml_emit Y (Some node))
     \<and> log_define_of_string Y (yaml_emit Y (Some node)) = Some (logger_define s l)"
proof -
  define g where "g n = the (appender_of_node Y n)" for n
  let ?ns = "map (\<lambda>i. appender_node Y (the (ls_appenders s i))) (lg_appender l)"
  have g: "\<forall>n \<in> set ?ns. appender_of_node Y n = Some (g n)" by (auto simp: g_def appender_node_read [OF assms(1)])
  have skip: "pattern_of (lg_formatter l) = []" if "lg_formatter l = None" using that by (simp add: pattern_of_def)
  from define_node_read [OF assms(1) g skip, where name = "lg_name l" and level = "lg_level l"] obtain node where
    n: "push_nodes Y ?ns (yaml_map Y (define_entries Y (lg_name l) (lg_level l) (lg_formatter l = None) (pattern_of (lg_formatter l)))) = Some node"
    "log_define_of_string Y (yaml_emit Y (Some node)) = Some
       \<lparr>ld_name = lg_name l, ld_level = (if lg_level l = NEVER then UNKNOW else lg_level l), ld_formatter = pattern_of (lg_formatter l),
        ld_appenders = List.map_filter g ?ns\<rparr>" by auto
  have "List.map_filter g (map (\<lambda>i. appender_node Y (the (ls_appenders s i))) is) = map (\<lambda>i. appender_define (the (ls_appenders s i))) is" for "is"
    by (induction "is") (simp_all add: map_filter_simps g_def appender_node_read [OF assms(1)])
  with n(2) have "log_define_of_string Y (yaml_emit Y (Some node)) = Some (logger_define s l)" by (simp add: logger_define_def)
  moreover have "logger_to_yaml_string Y s a = Some (yaml_emit Y (Some node))"
    using n(1) assms(2) push_appender_texts_run [OF assms(1,3)]
    by (cases "lg_formatter l"; cases "lg_level l = UNKNOW") (simp_all add: logger_to_yaml_string_def Let_def pattern_of_def set_unless_def flip: define_entries_node)
  ultimately show ?thesis by blast
qed

text \<open>Elements whose text is that of a node.\<close>

lemma push_elems_nodes:
  assumes "yaml_ok Y" "\<forall>x \<in> set xs. cast x = Some (yaml_emit Y (Some (f x)))"
  shows "push_elems Y cast xs node = Some (foldl (yaml_push Y) node (map f xs))"
  using assms(2) by (induction xs arbitrary: node) (simp_all add: yaml_okD(1) [OF assms(1)])

text \<open>
  C40. The text of the logger manager, read as the value of the configuration variable \<open>logs\<close>, is the set of the
  definitions that describe its loggers: their names, levels, patterns, and appenders with file and
  pattern. What is lost are the levels of the appenders, and the level of a silenced logger.
\<close>

theorem loggers_yaml_roundtrip:
  assumes "yaml_ok Y" "log_inv s" "sorted_map entries" "map_of entries = ls_map s"
  shows "manager_to_yaml_string Y s entries \<bind> set_of_string Y log_define_less (log_define_of_string Y)
    = Some (map (\<lambda>(name, a). logger_define s (the (ls_loggers s a))) entries)"
proof -
  let ?def = "\<lambda>(name, a). logger_define s (the (ls_loggers s a))"
  have logger: "\<exists>l. ls_loggers s a = Some l \<and> lg_name l = name" if mem: "(name, a) \<in> set entries" for name a
  proof -
    have "map_of entries name = Some a" using mem assms(3) by (simp add: sorted_map_def strict_sorted_iff)
    with assms(2,4) show ?thesis by (simp add: log_inv_def)
  qed
  have "\<exists>node. logger_to_yaml_string Y s (snd e) = Some (yaml_emit Y (Some node))
      \<and> log_define_of_string Y (yaml_emit Y (Some node)) = Some (?def e)" if mem: "e \<in> set entries" for e
  proof -
    from mem logger [of "fst e" "snd e"] obtain l where l: "ls_loggers s (snd e) = Some l" by auto
    have "\<forall>i \<in> set (lg_appender l). ls_appenders s i \<noteq> None"
      using log_invD(3) [OF assms(2) l] by (auto simp: logger_ok_def formatted_def)
    from logger_read_back [OF assms(1) l this] l show ?thesis by (simp add: case_prod_beta)
  qed
  then obtain f where f: "\<forall>e \<in> set entries. logger_to_yaml_string Y s (snd e) = Some (yaml_emit Y (Some (f e)))"
    "\<forall>e \<in> set entries. log_define_of_string Y (yaml_emit Y (Some (f e))) = Some (?def e)" by metis
  have w: "manager_to_yaml_string Y s entries = Some (yaml_emit Y (Some (yaml_seq Y (map f entries))))"
    using push_elems_nodes [OF assms(1) f(1)] by (simp add: manager_to_yaml_string_def yaml_seq_def)
  have "from_elems Y (log_define_of_string Y) (set_insert log_define_less) (yaml_seq Y (map f entries)) [0..<length entries] []
      = add_all (set_insert log_define_less) (map (\<lambda>i. ?def (entries ! i)) [0..<length entries]) []"
    by (rule from_elems_add_all) (use f(2) yaml_okD(3) [OF assms(1), of _ "map f entries"] in auto)
  moreover have "map (\<lambda>i. ?def (entries ! i)) [0..<length entries] = map ?def entries"
    by (metis (no_types, lifting) map_nth map_map comp_apply map_cong)
  moreover have "sorted_wrt (\<lambda>a b. log_define_less a b = Some True) (map ?def entries)"
  proof -
    have "ld_name (?def e) = fst e" if "e \<in> set entries" for e
      using logger [of "fst e" "snd e"] that by (auto simp: logger_define_def case_prod_beta)
    moreover have "sorted_wrt (\<lambda>a b. fst a < fst b) entries" using assms(3) by (simp add: sorted_map_def sorted_wrt_map)
    ultimately show ?thesis by (auto simp: sorted_wrt_map log_define_less_def elim!: sorted_wrt_mono_rel [rotated])
  qed
  ultimately show ?thesis
    using w add_all_set_insert [where ys = "[]", of log_define_less "map ?def entries"]
    by (simp add: set_of_string_def yaml_okD(1,2) [OF assms(1)])
qed

theorem loggers_yaml_roundtrip_witness:
  "\<exists>s. logger_manager_new = Some s
    \<and> manager_to_yaml_string demo_yaml s [(''root'', 1)] \<bind> set_of_string demo_yaml log_define_less (log_define_of_string demo_yaml)
      = Some [\<lparr>ld_name = ''root'', ld_level = DEBUG, ld_formatter = default_pattern,
          ld_appenders = [\<lparr>lad_type = 2, lad_level = UNKNOW, lad_formatter = default_pattern, lad_file = []\<rparr>]\<rparr>]"
proof -
  obtain s where s: "logger_manager_new = Some s" "ls_map s = [''root'' \<mapsto> 1]" "ls_loggers s 1 = Some \<lparr>lg_name = ''root'',
      lg_level = DEBUG, lg_appender = [2], lg_formatter = Some (formatter_new default_pattern), lg_root = nullptr\<rparr>"
    "ls_appenders s 2 = Some \<lparr>ap_file = None, ap_stream_ok = True, ap_level = DEBUG, ap_formatter = Some (formatter_new default_pattern)\<rparr>"
    by (simp add: logger_manager_new_def logger_new_def stdout_appender_new_def add_appender_def ap_set_formatter_def
        put_logger_def put_appender_def logger_name_def Let_def)
  have fm: "fm_pattern (formatter_new p) = p" for p by (simp add: formatter_new_def case_prod_beta Let_def)
  have "log_inv s" using logger_manager_new_inv [OF s(1)] by blast
  from loggers_yaml_roundtrip [OF demo_yaml_ok this, of "[(''root'', 1)]"] s show ?thesis
    by (intro exI [of _ s]) (simp add: sorted_map_def logger_define_def appender_define_def pattern_of_def fm)
qed

end
