(* ===== verification/SysSem.thy ===== *)
theory SysSem
  imports Prelude
begin

text \<open>
  The semaphore of the platform layer on Linux (\<open>sys_sem_t\<close> in \<open>plat/sys_plat.h\<close> and
  \<open>plat/sys_plat.cc\<close>): a counter under a mutex with a condition variable. The steps of the threads are
  interleaved; the mutex and the condition variable behave as POSIX documents them, so a signal wakes at
  least one of the sleeping threads, a sleeping thread may wake for no reason, and a woken thread competes
  for the mutex with all others.
\<close>

record sys_sem =
  sem_count :: int
  sem_cond :: "nat set"
  sem_locker :: "nat option"

text \<open>The values of the type \<open>int\<close>; overflow is undefined behaviour.\<close>

definition c_int :: "int \<Rightarrow> int option" where
  "c_int n = (if - (2 ^ 31) \<le> n \<and> n < 2 ^ 31 then Some n else None)"

lemma c_int_Some [simp]: "c_int n = Some m \<longleftrightarrow> - (2 ^ 31) \<le> n \<and> n < 2 ^ 31 \<and> m = n"
  by (auto simp: c_int_def)

text \<open>\<open>None\<close> is the null pointer that the function returns when a call it makes fails.\<close>

definition sys_sem_create :: "bool \<Rightarrow> int \<Rightarrow> int \<Rightarrow> int \<Rightarrow> sys_sem option" where
  "sys_sem_create malloc_succeeds cond_err locker_err init_count =
     (if \<not> malloc_succeeds then None
      else if cond_err \<noteq> 0 then None
      else if locker_err \<noteq> 0 then None
      else Some \<lparr>sem_count = init_count, sem_cond = {}, sem_locker = None\<rparr>)"

text \<open>Destroying a mutex that is held or a condition variable with sleeping threads is undefined.\<close>

definition sys_sem_free :: "sys_sem \<Rightarrow> unit option" where
  "sys_sem_free sem = check (sem_cond sem = {} \<and> sem_locker sem = None)"

text \<open>
  The deadline of a timed wait, in seconds and nanoseconds. The clock is in nanoseconds; \<open>time(NULL)\<close> is
  its whole seconds.
\<close>

definition deadline :: "nat \<Rightarrow> u32 \<Rightarrow> nat \<times> nat" where
  "deadline now tmo_ms =
     (let tv_nsec = (unat tmo_ms mod 1000) * 1000000;
          tv_sec = now div 10 ^ 9 + unat tmo_ms div 1000
      in (tv_sec, tv_nsec))"

definition nanoseconds :: "nat \<times> nat \<Rightarrow> nat" where
  "nanoseconds ts = fst ts * 10 ^ 9 + snd ts"

definition ETIMEDOUT :: int where "ETIMEDOUT = 110"

subsection \<open>Threads\<close>

datatype sem_pc =
    Sem_idle
  | Wait_lock u32
  | Wait_test u32
  | Wait_asleep u32 "nat \<times> nat"
  | Wait_relock u32 int
  | Wait_woken u32 int
  | Wait_take
  | Wait_unlock int
  | Notify_lock
  | Notify_add
  | Notify_signal
  | Notify_unlock

datatype sem_label =
    Sem_internal
  | Wait_called u32
  | Notify_called
  | Added
  | Taken
  | Woken_for_nothing
  | Wait_returned int
  | Notify_returned

text \<open>What the scheduler decides: which threads a signal wakes, whether a sleeping thread wakes by itself.\<close>

datatype sem_choice = Proceed | Wake_for_nothing | Time_out | Signal "nat set"

definition pthread_mutex_lock :: "nat \<Rightarrow> sys_sem \<Rightarrow> sys_sem option" where
  "pthread_mutex_lock t sem = (if sem_locker sem = None then Some (sem\<lparr>sem_locker := Some t\<rparr>) else None)"

definition pthread_cond_signal :: "nat set \<Rightarrow> sys_sem \<Rightarrow> sys_sem option" where
  "pthread_cond_signal woken sem =
     (if woken \<subseteq> sem_cond sem \<and> (sem_cond sem = {} \<or> woken \<noteq> {})
      then Some (sem\<lparr>sem_cond := sem_cond sem - woken\<rparr>) else None)"

text \<open>One step of thread \<open>t\<close> at time \<open>now\<close>; \<open>None\<close> means that it cannot move.\<close>

fun sem_thread_step :: "sem_choice \<Rightarrow> nat \<Rightarrow> nat \<Rightarrow> sys_sem \<Rightarrow> sem_pc \<Rightarrow> (sem_pc \<times> sys_sem \<times> sem_label) option" where
  "sem_thread_step ch now t sem Sem_idle = None"
| "sem_thread_step ch now t sem (Wait_lock tmo_ms) = do {
     sem \<leftarrow> pthread_mutex_lock t sem;
     Some (Wait_test tmo_ms, sem, Sem_internal)
   }"
| "sem_thread_step ch now t sem (Wait_test tmo_ms) =
     (if sem_count sem \<le> 0
      then Some (Wait_asleep tmo_ms (deadline now tmo_ms), sem\<lparr>sem_cond := insert t (sem_cond sem), sem_locker := None\<rparr>, Sem_internal)
      else Some (Wait_take, sem, Sem_internal))"
| "sem_thread_step ch now t sem (Wait_asleep tmo_ms ts) =
     (case ch of
        Proceed \<Rightarrow> if t \<notin> sem_cond sem then Some (Wait_relock tmo_ms 0, sem, Sem_internal) else None
      | Wake_for_nothing \<Rightarrow>
          if t \<in> sem_cond sem
          then Some (Wait_relock tmo_ms 0, sem\<lparr>sem_cond := sem_cond sem - {t}\<rparr>, Woken_for_nothing) else None
      | Time_out \<Rightarrow>
          if tmo_ms > 0 \<and> nanoseconds ts \<le> now \<and> t \<in> sem_cond sem
          then Some (Wait_relock tmo_ms ETIMEDOUT, sem\<lparr>sem_cond := sem_cond sem - {t}\<rparr>, Sem_internal) else None
      | Signal _ \<Rightarrow> None)"
| "sem_thread_step ch now t sem (Wait_relock tmo_ms ret) = do {
     sem \<leftarrow> pthread_mutex_lock t sem;
     Some (Wait_woken tmo_ms ret, sem, Sem_internal)
   }"
| "sem_thread_step ch now t sem (Wait_woken tmo_ms ret) =
     (if tmo_ms > 0 then
        (if ret = ETIMEDOUT then Some (Wait_unlock (-1), sem, Sem_internal) else Some (Wait_take, sem, Sem_internal))
      else
        (if ret < 0 then Some (Wait_unlock (-1), sem, Sem_internal) else Some (Wait_take, sem, Sem_internal)))"
| "sem_thread_step ch now t sem Wait_take = do {
     n \<leftarrow> c_int (sem_count sem - 1);
     Some (Wait_unlock 0, sem\<lparr>sem_count := n\<rparr>, Taken)
   }"
| "sem_thread_step ch now t sem (Wait_unlock ret) = Some (Sem_idle, sem\<lparr>sem_locker := None\<rparr>, Wait_returned ret)"
| "sem_thread_step ch now t sem Notify_lock = do {
     sem \<leftarrow> pthread_mutex_lock t sem;
     Some (Notify_add, sem, Sem_internal)
   }"
| "sem_thread_step ch now t sem Notify_add = do {
     n \<leftarrow> c_int (sem_count sem + 1);
     Some (Notify_signal, sem\<lparr>sem_count := n\<rparr>, Added)
   }"
| "sem_thread_step ch now t sem Notify_signal =
     (case ch of
        Signal woken \<Rightarrow> do {
          sem \<leftarrow> pthread_cond_signal woken sem;
          Some (Notify_unlock, sem, Sem_internal)
        }
      | _ \<Rightarrow> None)"
| "sem_thread_step ch now t sem Notify_unlock = Some (Sem_idle, sem\<lparr>sem_locker := None\<rparr>, Notify_returned)"

text \<open>Runs of any number of threads, each between its calls of \<open>sys_sem_wait\<close> and \<open>sys_sem_notify\<close>.\<close>

type_synonym sem_threads = "nat \<Rightarrow> sem_pc"

inductive sem_step :: "sys_sem \<Rightarrow> sem_threads \<Rightarrow> nat \<times> sem_label \<Rightarrow> sys_sem \<Rightarrow> sem_threads \<Rightarrow> bool" where
  sys_sem_wait: "ts t = Sem_idle \<Longrightarrow> sem_step sem ts (t, Wait_called tmo) sem (ts(t := Wait_lock tmo))"
| sys_sem_notify: "ts t = Sem_idle \<Longrightarrow> sem_step sem ts (t, Notify_called) sem (ts(t := Notify_lock))"
| sem_own_step: "sem_thread_step ch now t sem (ts t) = Some (pc, sem', l) \<Longrightarrow> sem_step sem ts (t, l) sem' (ts(t := pc))"

inductive sem_run :: "sys_sem \<Rightarrow> (nat \<times> sem_label) list \<Rightarrow> sys_sem \<Rightarrow> sem_threads \<Rightarrow> bool" for sem0 where
  sem_run_nil: "sem_run sem0 [] sem0 (\<lambda>_. Sem_idle)"
| sem_run_snoc: "sem_run sem0 evs sem ts \<Longrightarrow> sem_step sem ts ev sem' ts' \<Longrightarrow> sem_run sem0 (evs @ [ev]) sem' ts'"

definition occurrences :: "sem_label \<Rightarrow> (nat \<times> sem_label) list \<Rightarrow> int" where
  "occurrences l evs = int (length (filter (\<lambda>ev. snd ev = l) evs))"

lemma occurrences_simps [simp]:
  "occurrences l [] = 0" "occurrences l (evs @ [(t, l')]) = occurrences l evs + (if l' = l then 1 else 0)"
  by (simp_all add: occurrences_def)

text \<open>A schedule as a list of moves, to run examples.\<close>

datatype sem_move = Do_wait nat u32 | Do_notify nat | Do_own nat nat sem_choice

fun sem_exec :: "sem_move list \<Rightarrow> (nat \<times> sem_label) list \<times> sys_sem \<times> sem_threads
    \<Rightarrow> ((nat \<times> sem_label) list \<times> sys_sem \<times> sem_threads) option" where
  "sem_exec [] c = Some c"
| "sem_exec (Do_wait t tmo # ms) (evs, sem, ts) = do {
     check (ts t = Sem_idle);
     sem_exec ms (evs @ [(t, Wait_called tmo)], sem, ts(t := Wait_lock tmo))
   }"
| "sem_exec (Do_notify t # ms) (evs, sem, ts) = do {
     check (ts t = Sem_idle);
     sem_exec ms (evs @ [(t, Notify_called)], sem, ts(t := Notify_lock))
   }"
| "sem_exec (Do_own t now ch # ms) (evs, sem, ts) = do {
     (pc, sem', l) \<leftarrow> sem_thread_step ch now t sem (ts t);
     sem_exec ms (evs @ [(t, l)], sem', ts(t := pc))
   }"

lemma sem_exec_run:
  "sem_exec ms c = Some (evs', sem', ts') \<Longrightarrow> sem_run sem0 (fst c) (fst (snd c)) (snd (snd c)) \<Longrightarrow> sem_run sem0 evs' sem' ts'"
proof (induction ms c rule: sem_exec.induct)
  case (4 t now ch ms evs sem ts)
  from "4.prems"(1) obtain pc s1 l where s: "sem_thread_step ch now t sem (ts t) = Some (pc, s1, l)"
    "sem_exec ms (evs @ [(t, l)], s1, ts(t := pc)) = Some (evs', sem', ts')" by (auto simp: bind_eq_Some_conv)
  have "sem_run sem0 (evs @ [(t, l)]) s1 (ts(t := pc))"
    using "4.prems"(2) sem_own_step [of ch now t sem ts, OF s(1)] by (auto intro: sem_run_snoc)
  with "4.IH" [OF s(1) refl refl s(2)] show ?case by (simp only: fst_conv snd_conv)
qed (auto split: if_splits intro: sem_run_snoc sys_sem_wait sys_sem_notify simp del: fun_upd_apply)

subsection \<open>Mutual exclusion and the count\<close>

text \<open>The program counters between the return of \<open>pthread_mutex_lock\<close> and the next release.\<close>

fun holds_locker :: "sem_pc \<Rightarrow> bool" where
  "holds_locker (Wait_test _) = True"
| "holds_locker (Wait_woken _ _) = True"
| "holds_locker Wait_take = True"
| "holds_locker (Wait_unlock _) = True"
| "holds_locker Notify_add = True"
| "holds_locker Notify_signal = True"
| "holds_locker Notify_unlock = True"
| "holds_locker _ = False"

definition sem_inv :: "sys_sem \<Rightarrow> sem_threads \<Rightarrow> bool" where
  "sem_inv sem ts \<longleftrightarrow> (\<forall>t. holds_locker (ts t) \<longleftrightarrow> sem_locker sem = Some t)
     \<and> (\<forall>t \<in> sem_cond sem. \<exists>tmo dl. ts t = Wait_asleep tmo dl)"

text \<open>Every step keeps, takes or gives back the mutex.\<close>

lemma sem_inv_update:
  assumes "sem_inv sem ts" "sem_cond sem' \<subseteq> insert t (sem_cond sem)"
    "t \<in> sem_cond sem' \<Longrightarrow> \<exists>tmo dl. pc = Wait_asleep tmo dl"
    "sem_locker sem' = (if holds_locker pc then Some t else if holds_locker (ts t) then None else sem_locker sem)"
    "holds_locker pc \<Longrightarrow> holds_locker (ts t) \<or> sem_locker sem = None"
  shows "sem_inv sem' (ts(t := pc))"
  using assms unfolding sem_inv_def by auto

lemma sem_inv_cond: "sem_inv sem ts \<Longrightarrow> t \<in> sem_cond sem \<Longrightarrow> \<exists>tmo dl. ts t = Wait_asleep tmo dl"
  by (simp add: sem_inv_def)

lemma sem_inv_locker: "sem_inv sem ts \<Longrightarrow> holds_locker (ts t) \<longleftrightarrow> sem_locker sem = Some t"
  by (simp add: sem_inv_def)

lemma sem_thread_step_inv:
  assumes i: "sem_inv sem ts" and st: "sem_thread_step ch now t sem (ts t) = Some (pc, sem', l)"
  shows "sem_inv sem' (ts(t := pc))"
proof (rule sem_inv_update [OF i])
  note facts = sem_inv_cond [OF i, of t] sem_inv_locker [OF i, of t] st
  note defs = pthread_mutex_lock_def pthread_cond_signal_def bind_eq_Some_conv
  show "sem_cond sem' \<subseteq> insert t (sem_cond sem)"
    using st by (cases "ts t") (auto simp: defs split: if_splits sem_choice.splits)
  show "\<exists>tmo dl. pc = Wait_asleep tmo dl" if "t \<in> sem_cond sem'"
    using facts that by (cases "ts t") (auto simp: defs split: if_splits sem_choice.splits)
  show "sem_locker sem' = (if holds_locker pc then Some t else if holds_locker (ts t) then None else sem_locker sem)"
    using facts by (cases "ts t") (auto simp: defs split: if_splits sem_choice.splits)
  show "holds_locker (ts t) \<or> sem_locker sem = None" if "holds_locker pc"
    using facts that by (cases "ts t") (auto simp: defs split: if_splits sem_choice.splits)
qed

text \<open>Threads that are past a successful \<open>sys_sem_wait\<close> and still hold the mutex: at most one.\<close>

definition leaving :: "sem_threads \<Rightarrow> int" where
  "leaving ts = (if \<exists>t. ts t = Wait_unlock 0 then 1 else 0)"

definition sem_count_inv :: "sys_sem \<Rightarrow> (nat \<times> sem_label) list \<Rightarrow> sys_sem \<Rightarrow> sem_threads \<Rightarrow> bool" where
  "sem_count_inv sem0 evs sem ts \<longleftrightarrow> sem_inv sem ts
     \<and> sem_count sem = sem_count sem0 + occurrences Added evs - occurrences Taken evs
     \<and> occurrences Taken evs = occurrences (Wait_returned 0) evs + leaving ts"

lemma leaving_update:
  assumes "sem_inv sem ts" "sem_locker sem = Some t \<or> pc \<noteq> Wait_unlock 0 \<and> ts t \<noteq> Wait_unlock 0"
  shows "leaving (ts(t := pc)) =
    (if pc = Wait_unlock 0 then 1 else if ts t = Wait_unlock 0 then 0 else leaving ts)"
proof -
  have other: "ts u \<noteq> Wait_unlock 0" if "sem_locker sem = Some t" "u \<noteq> t" for u
    using that sem_inv_locker [OF assms(1), of u] by auto
  show ?thesis using assms(2) other by (auto simp: leaving_def)
qed

lemma sem_thread_step_count:
  "sem_thread_step ch now t sem pc = Some (pc', sem', l) \<Longrightarrow>
    sem_count sem' = sem_count sem + (if l = Added then 1 else 0) - (if l = Taken then 1 else 0)"
  by (cases pc) (auto simp: pthread_mutex_lock_def pthread_cond_signal_def bind_eq_Some_conv split: if_splits sem_choice.splits)

lemma sem_thread_step_leaving:
  assumes i: "sem_inv sem ts" and st: "sem_thread_step ch now t sem (ts t) = Some (pc, sem', l)"
  shows "leaving (ts(t := pc)) = leaving ts + (if l = Taken then 1 else 0) - (if l = Wait_returned 0 then 1 else 0)"
proof -
  have other: "leaving ts = 0" if "holds_locker (ts t)" "ts t \<noteq> Wait_unlock 0"
  proof -
    have "ts u \<noteq> Wait_unlock 0" for u
      using that sem_inv_locker [OF i, of t] sem_inv_locker [OF i, of u] by (cases "u = t") auto
    then show ?thesis by (simp add: leaving_def)
  qed
  have own: "leaving ts = 1" if "ts t = Wait_unlock 0" using that by (auto simp: leaving_def)
  have lock: "sem_locker sem = Some t \<or> pc \<noteq> Wait_unlock 0 \<and> ts t \<noteq> Wait_unlock 0"
    using st sem_inv_locker [OF i, of t]
    by (cases "ts t") (auto simp: pthread_mutex_lock_def bind_eq_Some_conv split: if_splits sem_choice.splits)
  have rest: "l \<noteq> Taken \<and> l \<noteq> Wait_returned 0 \<and> pc \<noteq> Wait_unlock 0" if "ts t \<noteq> Wait_take" "\<And>r. ts t \<noteq> Wait_unlock r"
    using st that by (cases "ts t") (auto simp: bind_eq_Some_conv split: if_splits sem_choice.splits)
  consider "ts t = Wait_take" | r where "ts t = Wait_unlock r" | "ts t \<noteq> Wait_take" "\<And>r. ts t \<noteq> Wait_unlock r"
    by blast
  then show ?thesis
  proof cases
    case 1
    have "leaving ts = 0" by (rule other) (simp_all add: 1)
    moreover have "pc = Wait_unlock 0 \<and> l = Taken" using st by (auto simp: 1 bind_eq_Some_conv)
    ultimately show ?thesis unfolding leaving_update [OF i lock] by simp
  next
    case (2 r)
    have "leaving ts = (if r = 0 then 1 else 0)"
    proof (cases "r = 0")
      case True
      with own 2 show ?thesis by simp
    next
      case False
      have "leaving ts = 0" by (rule other) (simp_all add: 2 False)
      with False show ?thesis by simp
    qed
    moreover have "pc = Sem_idle \<and> l = Wait_returned r" using st by (simp add: 2)
    ultimately show ?thesis unfolding leaving_update [OF i lock] 2 by simp
  next
    case 3
    then show ?thesis using leaving_update [OF i lock] rest by simp
  qed
qed

lemma sem_called_inv:
  "sem_inv sem ts \<Longrightarrow> ts t = Sem_idle \<Longrightarrow> pc = Wait_lock tmo \<or> pc = Notify_lock \<Longrightarrow> sem_inv sem (ts(t := pc))"
  by (rule sem_inv_update) (auto dest: sem_inv_cond)

lemma sem_called_leaving:
  "ts t = Sem_idle \<Longrightarrow> pc = Wait_lock tmo \<or> pc = Notify_lock \<Longrightarrow> leaving (ts(t := pc)) = leaving ts"
proof -
  assume a: "ts t = Sem_idle" "pc = Wait_lock tmo \<or> pc = Notify_lock"
  have "(ts(t := pc)) u = Wait_unlock 0 \<longleftrightarrow> ts u = Wait_unlock 0" for u using a by (cases "u = t") auto
  then show ?thesis by (simp only: leaving_def)
qed

lemma sem_step_count_inv:
  assumes i: "sem_count_inv sem0 evs sem ts" and st: "sem_step sem ts ev sem' ts'"
  shows "sem_count_inv sem0 (evs @ [ev]) sem' ts'"
  using st
proof cases
  case (sys_sem_wait t tmo)
  then show ?thesis using i by (auto simp: sem_count_inv_def intro: sem_called_inv simp: sem_called_leaving simp del: fun_upd_apply)
next
  case (sys_sem_notify t)
  then show ?thesis using i by (auto simp: sem_count_inv_def intro: sem_called_inv simp: sem_called_leaving simp del: fun_upd_apply)
next
  case (sem_own_step ch now t pc l)
  from i have si: "sem_inv sem ts" by (simp add: sem_count_inv_def)
  show ?thesis
    using i sem_thread_step_inv [OF si sem_own_step(3)] sem_thread_step_count [OF sem_own_step(3)]
      sem_thread_step_leaving [OF si sem_own_step(3)]
    unfolding sem_count_inv_def sem_own_step(1,2) by (auto simp del: fun_upd_apply split: if_splits)
qed

definition sem_fresh :: "sys_sem \<Rightarrow> bool" where
  "sem_fresh sem \<longleftrightarrow> sem_cond sem = {} \<and> sem_locker sem = None"

lemma sem_run_count_inv: "sem_run sem0 evs sem ts \<Longrightarrow> sem_fresh sem0 \<Longrightarrow> sem_count_inv sem0 evs sem ts"
proof (induction rule: sem_run.induct)
  case sem_run_nil
  then show ?case by (simp add: sem_count_inv_def sem_inv_def leaving_def sem_fresh_def)
next
  case (sem_run_snoc evs sem ts ev sem' ts')
  then show ?case by (blast intro: sem_step_count_inv)
qed

lemma sys_sem_create_fresh: "sys_sem_create m c l n = Some sem \<Longrightarrow> sem_fresh sem \<and> sem_count sem = n"
  by (auto simp: sys_sem_create_def sem_fresh_def split: if_splits)

subsection \<open>No lost wake-up\<close>

text \<open>A thread that will take from the count, or a notifying thread that has still to signal.\<close>

fun served :: "sys_sem \<Rightarrow> nat \<Rightarrow> sem_pc \<Rightarrow> bool" where
  "served sem t (Wait_asleep _ _) \<longleftrightarrow> t \<notin> sem_cond sem"
| "served sem t (Wait_relock _ ret) \<longleftrightarrow> ret = 0"
| "served sem t (Wait_woken _ ret) \<longleftrightarrow> ret = 0"
| "served sem t Wait_take \<longleftrightarrow> True"
| "served sem t Notify_signal \<longleftrightarrow> True"
| "served sem t _ \<longleftrightarrow> False"

definition served_set :: "sys_sem \<Rightarrow> sem_threads \<Rightarrow> nat set" where
  "served_set sem ts = {t. served sem t (ts t)}"

lemma served_cong:
  "(t \<in> sem_cond sem' \<longleftrightarrow> t \<in> sem_cond sem) \<Longrightarrow> served sem' t pc = served sem t pc"
  by (cases pc) simp_all

lemma served_set_update:
  assumes "sem_cond sem' - {t} = sem_cond sem - {t}"
  shows "served_set sem' (ts(t := pc)) =
    (if served sem' t pc then insert t (served_set sem ts) else served_set sem ts - {t})"
proof -
  have "served sem' u (ts u) = served sem u (ts u)" if "u \<noteq> t" for u
    using assms that by (intro served_cong) auto
  then show ?thesis by (auto simp: served_set_def)
qed

lemma card_served_update:
  assumes "sem_cond sem' - {t} = sem_cond sem - {t}" "finite (served_set sem ts)"
  shows "int (card (served_set sem' (ts(t := pc)))) = int (card (served_set sem ts))
    + (if served sem' t pc then 1 else 0) - (if served sem t (ts t) then 1 else 0)"
proof -
  have m: "t \<in> served_set sem ts \<longleftrightarrow> served sem t (ts t)" by (simp add: served_set_def)
  have "card (served_set sem ts) > 0" if "t \<in> served_set sem ts"
    using that assms(2) by (auto simp: card_gt_0_iff)
  then show ?thesis unfolding served_set_update [OF assms(1)] using assms(2) m
    by (auto simp: card_insert_if card_Diff_singleton_if of_nat_diff)
qed

lemma sem_other_step_served:
  assumes "sem_thread_step ch now t sem pc = Some (pc', sem', l)" "pc \<noteq> Notify_signal"
  shows "sem_cond sem' - {t} = sem_cond sem - {t}"
    and "sem_cond sem' \<subseteq> sem_cond sem \<and> sem_count sem' - sem_count sem
        \<le> (if served sem' t pc' then 1 else 0) - (if served sem t pc then 1 else 0)
      \<or> sem_count sem' \<le> 0"
  using assms
  by (cases pc; force simp: pthread_mutex_lock_def ETIMEDOUT_def bind_eq_Some_conv split: if_splits sem_choice.splits)+

lemma sem_signal_step_served:
  assumes i: "sem_inv sem ts" and p: "ts t = Notify_signal"
    and st: "sem_thread_step ch now t sem (ts t) = Some (pc, sem', l)" and ne: "sem_cond sem' \<noteq> {}"
    and fin: "finite (served_set sem' (ts(t := pc)))"
  shows "card (served_set sem ts) \<le> card (served_set sem' (ts(t := pc)))"
proof -
  from st p obtain W where W: "sem' = sem\<lparr>sem_cond := sem_cond sem - W\<rparr>" "pc = Notify_unlock" "W \<subseteq> sem_cond sem"
    "sem_cond sem = {} \<or> W \<noteq> {}"
    by (auto simp: pthread_cond_signal_def bind_eq_Some_conv split: if_splits sem_choice.splits)
  from W ne obtain u where u: "u \<in> W" by auto
  with W(3) have "u \<in> sem_cond sem" by auto
  with sem_inv_cond [OF i this] obtain tmo dl where a: "ts u = Wait_asleep tmo dl" "u \<in> sem_cond sem" by auto
  then have ut: "u \<noteq> t" using p by auto
  have sub: "insert u (served_set sem ts - {t}) \<subseteq> served_set sem' (ts(t := pc))"
  proof -
    have "served sem' v (ts v)" if "served sem v (ts v)" for v using that by (cases "ts v") (auto simp: W)
    moreover have "served sem' u (ts u)" using a(1) u by (simp add: W)
    ultimately show ?thesis using ut by (auto simp: served_set_def)
  qed
  have u0: "u \<notin> served_set sem ts" using a by (simp add: served_set_def)
  have t0: "t \<in> served_set sem ts" using p by (simp add: served_set_def)
  have fin0: "finite (served_set sem ts)"
  proof (rule finite_subset)
    show "served_set sem ts \<subseteq> insert t (served_set sem' (ts(t := pc)))" using sub by auto
    show "finite (insert t (served_set sem' (ts(t := pc))))" using fin by simp
  qed
  have "card (served_set sem ts) = card (insert u (served_set sem ts - {t}))"
    using u0 fin0 card_Suc_Diff1 [OF fin0 t0] by simp
  also have "\<dots> \<le> card (served_set sem' (ts(t := pc)))" using sub fin by (rule card_mono [rotated])
  finally show ?thesis .
qed

text \<open>All threads but finitely many are idle.\<close>

lemma sem_run_finite: "sem_run sem0 evs sem ts \<Longrightarrow> finite {t. ts t \<noteq> Sem_idle}"
proof (induction rule: sem_run.induct)
  case (sem_run_snoc evs sem ts ev sem' ts')
  have "\<exists>t. {u. ts' u \<noteq> Sem_idle} \<subseteq> insert t {u. ts u \<noteq> Sem_idle}"
    using sem_run_snoc(2) by cases auto
  with sem_run_snoc(3) show ?case by (meson finite_insert finite_subset)
qed simp

lemma served_set_finite: "finite {t. ts t \<noteq> Sem_idle} \<Longrightarrow> finite (served_set sem ts)"
  by (rule finite_subset [rotated]) (auto simp: served_set_def)

text \<open>While somebody sleeps, the count is at most the number of threads that will take from it.\<close>

definition sem_awake :: "sys_sem \<Rightarrow> sem_threads \<Rightarrow> bool" where
  "sem_awake sem ts \<longleftrightarrow> (sem_cond sem \<noteq> {} \<longrightarrow> sem_count sem \<le> int (card (served_set sem ts)))"

lemma sem_own_step_awake:
  assumes i: "sem_inv sem ts" and w: "sem_awake sem ts"
    and st: "sem_thread_step ch now t sem (ts t) = Some (pc, sem', l)"
    and fin: "finite (served_set sem ts)" "finite (served_set sem' (ts(t := pc)))"
  shows "sem_awake sem' (ts(t := pc))"
proof (cases "ts t = Notify_signal")
  case True
  from st True have "sem_cond sem' \<subseteq> sem_cond sem" "sem_count sem' = sem_count sem"
    by (auto simp: pthread_cond_signal_def bind_eq_Some_conv split: if_splits sem_choice.splits)
  then show ?thesis using w sem_signal_step_served [OF i True st _ fin(2)] unfolding sem_awake_def
    by (metis of_nat_le_iff order_trans subset_empty)
next
  case False
  note served = sem_other_step_served [OF st False]
  note card = card_served_update [OF served(1) fin(1), of pc]
  from served(2) show ?thesis
  proof
    assume "sem_count sem' \<le> 0"
    then show ?thesis unfolding sem_awake_def by linarith
  next
    assume s: "sem_cond sem' \<subseteq> sem_cond sem \<and> sem_count sem' - sem_count sem
        \<le> (if served sem' t pc then 1 else 0) - (if served sem t (ts t) then 1 else 0)"
    have "sem_count sem \<le> int (card (served_set sem ts))" if "sem_cond sem' \<noteq> {}" using that s w unfolding sem_awake_def by auto
    with s show ?thesis unfolding sem_awake_def card by linarith
  qed
qed

lemma sem_called_awake:
  assumes "sem_inv sem ts" "sem_awake sem ts" "ts t = Sem_idle" "pc = Wait_lock tmo \<or> pc = Notify_lock"
  shows "sem_awake sem (ts(t := pc))"
proof -
  have "\<not> served sem t pc" "t \<notin> served_set sem ts" using assms(3,4) by (auto simp: served_set_def)
  then have "served_set sem (ts(t := pc)) = served_set sem ts" by (simp add: served_set_update)
  with assms(2) show ?thesis by (simp add: sem_awake_def)
qed

lemma sem_run_awake: "sem_run sem0 evs sem ts \<Longrightarrow> sem_fresh sem0 \<Longrightarrow> sem_awake sem ts"
proof (induction rule: sem_run.induct)
  case sem_run_nil
  then show ?case by (simp add: sem_awake_def sem_fresh_def)
next
  case (sem_run_snoc evs sem ts ev sem' ts')
  have i: "sem_inv sem ts" using sem_run_count_inv [OF sem_run_snoc(1,4)] by (simp add: sem_count_inv_def)
  have fin: "finite (served_set sem ts)" "finite (served_set sem' ts')"
    using served_set_finite sem_run_finite [OF sem_run_snoc(1)]
      sem_run_finite [OF sem_run.sem_run_snoc [OF sem_run_snoc(1,2)]] by blast+
  from sem_run_snoc(2) show ?case
  proof cases
    case (sem_own_step ch now t pc l)
    show ?thesis unfolding sem_own_step(2)
      by (rule sem_own_step_awake [OF i sem_run_snoc(3) [OF sem_run_snoc(4)] sem_own_step(3)])
        (use fin sem_own_step(2) in auto)
  qed (use i sem_run_snoc(3,4) sem_called_awake in \<open>auto simp del: fun_upd_apply\<close>)
qed

lemma served_none: "(\<And>t. ts t = Sem_idle \<or> t \<in> sem_cond sem) \<Longrightarrow> sem_inv sem ts \<Longrightarrow> served_set sem ts = {}"
proof -
  assume a: "\<And>t. ts t = Sem_idle \<or> t \<in> sem_cond sem" "sem_inv sem ts"
  have "\<not> served sem t (ts t)" for t using a(1) [of t] sem_inv_cond [OF a(2), of t] by auto
  then show ?thesis by (simp add: served_set_def)
qed

subsection \<open>One waiting thread\<close>

definition only_waiter :: "nat \<Rightarrow> (nat \<times> sem_label) list \<Rightarrow> bool" where
  "only_waiter w evs \<longleftrightarrow> (\<forall>(t, l) \<in> set evs. case l of Wait_called _ \<Rightarrow> t = w | Woken_for_nothing \<Rightarrow> False | _ \<Rightarrow> True)"

lemma only_waiter_snoc [simp]:
  "only_waiter w (evs @ [(t, l)]) \<longleftrightarrow>
    only_waiter w evs \<and> (case l of Wait_called _ \<Rightarrow> t = w | Woken_for_nothing \<Rightarrow> False | _ \<Rightarrow> True)"
  by (auto simp: only_waiter_def)

fun notifies :: "sem_pc \<Rightarrow> bool" where
  "notifies Sem_idle = True"
| "notifies Notify_lock = True"
| "notifies Notify_add = True"
| "notifies Notify_signal = True"
| "notifies Notify_unlock = True"
| "notifies _ = False"

fun ret_ok :: "sem_pc \<Rightarrow> bool" where
  "ret_ok (Wait_relock tmo_ms ret) \<longleftrightarrow> ret = 0 \<or> ret = ETIMEDOUT \<and> tmo_ms > 0"
| "ret_ok (Wait_woken tmo_ms ret) \<longleftrightarrow> ret = 0 \<or> ret = ETIMEDOUT \<and> tmo_ms > 0"
| "ret_ok _ \<longleftrightarrow> True"

definition sem_single :: "nat \<Rightarrow> sys_sem \<Rightarrow> sem_threads \<Rightarrow> bool" where
  "sem_single w sem ts \<longleftrightarrow> 0 \<le> sem_count sem \<and> (\<forall>t. served sem t (ts t) \<longrightarrow> 1 \<le> sem_count sem)
     \<and> (\<forall>t. t \<noteq> w \<longrightarrow> notifies (ts t)) \<and> (\<forall>t. ret_ok (ts t))"

lemma sem_step_notifies:
  "sem_thread_step ch now t sem pc = Some (pc', sem', l) \<Longrightarrow> notifies pc \<Longrightarrow> notifies pc' \<and> l \<noteq> Taken"
  by (cases pc) (auto simp: bind_eq_Some_conv split: sem_choice.splits)

lemma sem_step_ret_ok: "sem_thread_step ch now t sem pc = Some (pc', sem', l) \<Longrightarrow> ret_ok pc \<Longrightarrow> ret_ok pc'"
  by (cases pc) (auto simp: bind_eq_Some_conv split: if_splits sem_choice.splits)

lemma sem_step_served_enough:
  assumes "sem_thread_step ch now t sem pc = Some (pc', sem', l)" "pc \<noteq> Notify_signal" "l \<noteq> Woken_for_nothing"
    "0 \<le> sem_count sem" "ret_ok pc" "served sem' t pc'"
  shows "served sem t pc \<or> 1 \<le> sem_count sem'"
  using assms by (cases pc) (auto simp: pthread_mutex_lock_def ETIMEDOUT_def bind_eq_Some_conv split: if_splits sem_choice.splits)

lemma sem_taken_served: 
  assumes "sem_inv sem ts" "sem_thread_step ch now t sem (ts t) = Some (pc, sem', Taken)"
    "u \<noteq> t" "notifies (ts u)"
  shows "\<not> served sem' u (ts u)" and "ts t = Wait_take" and "\<not> served sem' t pc"
proof -
  show take: "ts t = Wait_take"
    using assms(2) by (cases "ts t") (auto simp: bind_eq_Some_conv split: if_splits sem_choice.splits)
  then show "\<not> served sem' t pc" using assms(2) by (auto simp: bind_eq_Some_conv)
  have "sem_locker sem = Some t" using sem_inv_locker [OF assms(1), of t] take by simp
  then have "\<not> holds_locker (ts u)" using sem_inv_locker [OF assms(1), of u] assms(3) by simp
  then show "\<not> served sem' u (ts u)" using assms(4) by (cases "ts u") auto
qed

lemma sem_own_step_single:
  assumes i: "sem_inv sem ts" and w: "sem_single w sem ts"
    and st: "sem_thread_step ch now t sem (ts t) = Some (pc, sem', l)" and l: "l \<noteq> Woken_for_nothing"
  shows "sem_single w sem' (ts(t := pc))"
proof -
  have notif: "notifies ((ts(t := pc)) u)" if "u \<noteq> w" for u
    using that w sem_step_notifies [OF st] by (auto simp: sem_single_def)
  have ret: "ret_ok ((ts(t := pc)) u)" for u
    using w sem_step_ret_ok [OF st] by (auto simp: sem_single_def)
  note count = sem_thread_step_count [OF st]
  have rt: "ret_ok (ts t)" using w by (simp add: sem_single_def)
  have w0: "0 \<le> sem_count sem" and ws: "\<And>u. served sem u (ts u) \<Longrightarrow> 1 \<le> sem_count sem"
    using w by (auto simp: sem_single_def)
  have "0 \<le> sem_count sem' \<and> (\<forall>u. served sem' u ((ts(t := pc)) u) \<longrightarrow> 1 \<le> sem_count sem')"
  proof (cases "l = Taken")
    case True
    then have tw: "t = w" using w sem_step_notifies [OF st] by (auto simp: sem_single_def)
    have st': "sem_thread_step ch now t sem (ts t) = Some (pc, sem', Taken)" using st True by simp
    have oth: "\<not> served sem' u (ts u)" "ts t = Wait_take" "\<not> served sem' t pc" if "u \<noteq> t" for u
      using sem_taken_served [OF i st' that] w that tw by (auto simp: sem_single_def)
    have "ts t = Wait_take" "\<not> served sem' t pc" using oth [of "Suc t"] by auto
    then show ?thesis using ws [of t] count True oth by auto
  next
    case False
    then have ge: "sem_count sem \<le> sem_count sem'" using count by simp
    have "1 \<le> sem_count sem'" if s: "served sem' u ((ts(t := pc)) u)" for u
    proof (cases "ts t = Notify_signal")
      case True
      then show ?thesis using ws [of t] ge by simp
    next
      case n: False
      show ?thesis
      proof (cases "u = t")
        case True
        then show ?thesis using sem_step_served_enough [OF st n l w0 rt] s ws [of t] ge by auto
      next
        case False
        have "u \<in> sem_cond sem' \<longleftrightarrow> u \<in> sem_cond sem" using sem_other_step_served(1) [OF st n] False by auto
        then show ?thesis using s False ws [of u] ge served_cong [of u sem' sem "ts u"] by simp
      qed
    qed
    with ge w0 show ?thesis by auto
  qed
  with notif ret show ?thesis by (simp add: sem_single_def)
qed

lemma sem_run_single:
  "sem_run sem0 evs sem ts \<Longrightarrow> sem_fresh sem0 \<Longrightarrow> 0 \<le> sem_count sem0 \<Longrightarrow> only_waiter w evs \<Longrightarrow> sem_single w sem ts"
proof (induction rule: sem_run.induct)
  case sem_run_nil
  then show ?case by (simp add: sem_single_def)
next
  case (sem_run_snoc evs sem ts ev sem' ts')
  have i: "sem_inv sem ts" using sem_run_count_inv [OF sem_run_snoc(1,4)] by (simp add: sem_count_inv_def)
  from sem_run_snoc(6) have o: "only_waiter w evs" by (cases ev) simp
  note single = sem_run_snoc(3) [OF sem_run_snoc(4,5) o]
  from sem_run_snoc(2) show ?case
  proof cases
    case (sys_sem_wait t tmo)
    with single sem_run_snoc(6) show ?thesis by (auto simp: sem_single_def)
  next
    case (sys_sem_notify t)
    with single show ?thesis by (auto simp: sem_single_def)
  next
    case (sem_own_step ch now t pc l)
    have "l \<noteq> Woken_for_nothing" using sem_run_snoc(6) sem_own_step(1) by auto
    then show ?thesis unfolding sem_own_step(2) by (rule sem_own_step_single [OF i single sem_own_step(3)])
  qed
qed

lemma leaving_nonneg: "0 \<le> leaving ts"
  by (simp add: leaving_def)

subsection \<open>Schedules\<close>

text \<open>Two threads that wait for one notification, and how they are scheduled.\<close>

definition overtaking :: "sem_move list" where
  "overtaking =
     [Do_wait 1 0, Do_own 1 0 Proceed, Do_own 1 0 Proceed,
      Do_notify 2, Do_own 2 0 Proceed, Do_own 2 0 Proceed, Do_own 2 0 (Signal {1}), Do_own 2 0 Proceed,
      Do_wait 3 0, Do_own 3 0 Proceed, Do_own 3 0 Proceed, Do_own 3 0 Proceed, Do_own 3 0 Proceed,
      Do_own 1 0 Proceed, Do_own 1 0 Proceed, Do_own 1 0 Proceed, Do_own 1 0 Proceed, Do_own 1 0 Proceed]"

definition empty_sem :: sys_sem where
  "empty_sem = \<lparr>sem_count = 0, sem_cond = {}, sem_locker = None\<rparr>"

lemma overtaking_exec:
  "\<exists>evs ts. sem_exec overtaking ([], empty_sem, \<lambda>_. Sem_idle) = Some (evs, empty_sem\<lparr>sem_count := - 1\<rparr>, ts)
    \<and> occurrences (Wait_returned 0) evs = 2 \<and> occurrences Added evs = 1 \<and> occurrences Woken_for_nothing evs = 0
    \<and> (\<forall>t. ts t = Sem_idle)"
  by (simp add: overtaking_def empty_sem_def pthread_mutex_lock_def pthread_cond_signal_def c_int_def occurrences_def)

lemma sem_run_start: "sem_exec ms ([], sem0, \<lambda>_. Sem_idle) = Some (evs, sem, ts) \<Longrightarrow> sem_run sem0 evs sem ts"
  by (rule sem_exec_run, assumption) (simp only: fst_conv snd_conv sem_run_nil)

lemma sys_sem_create_empty: "sys_sem_create True 0 0 0 = Some empty_sem"
  by (simp add: sys_sem_create_def empty_sem_def)

text \<open>Thread 1 asleep, and one notification for it with which it returns.\<close>

definition one_wait :: "sem_move list" where
  "one_wait = [Do_wait 1 0, Do_own 1 0 Proceed, Do_own 1 0 Proceed]"

definition one_grant :: "sem_move list" where
  "one_grant =
     [Do_notify 2, Do_own 2 0 Proceed, Do_own 2 0 Proceed, Do_own 2 0 (Signal {1}), Do_own 2 0 Proceed,
      Do_own 1 0 Proceed, Do_own 1 0 Proceed, Do_own 1 0 Proceed, Do_own 1 0 Proceed, Do_own 1 0 Proceed]"

definition one_wait_events :: "(nat \<times> sem_label) list" where
  "one_wait_events = [(1, Wait_called 0), (1, Sem_internal), (1, Sem_internal)]"

lemma one_wait_run:
  "sem_run empty_sem one_wait_events (empty_sem\<lparr>sem_cond := {1}\<rparr>) ((\<lambda>_. Sem_idle)(1 := Wait_asleep 0 (0, 0)))"
  by (rule sem_run_start [of one_wait])
    (simp add: one_wait_def one_wait_events_def empty_sem_def pthread_mutex_lock_def deadline_def)

lemma one_grant_exec:
  "\<exists>evs ts. sem_exec (one_wait @ one_grant) ([], empty_sem, \<lambda>_. Sem_idle) = Some (evs, empty_sem, ts)
    \<and> only_waiter 1 evs \<and> occurrences (Wait_returned 0) evs = 1 \<and> occurrences Added evs = 1"
  by (simp add: one_wait_def one_grant_def empty_sem_def pthread_mutex_lock_def pthread_cond_signal_def c_int_def
      occurrences_def only_waiter_def)

subsection \<open>Properties\<close>

text \<open>
  C34. The mutex of a semaphore is held exactly by the thread that is between locking and releasing it, the
count is the initial one plus the notifications minus what waits took, and a wait has returned 0 exactly
when it took one (but for a thread that is about to return). As long as only one thread waits and no
wake-up is spurious, the waits that returned 0 are never more than the initial count and the
notifications together, and the count is never negative.\<close>

theorem sem_counts_and_excludes:
  assumes "sys_sem_create m c l n = Some sem0" "0 \<le> n" "sem_run sem0 evs sem ts"
  shows "(\<forall>t. holds_locker (ts t) \<longleftrightarrow> sem_locker sem = Some t)
    \<and> sem_count sem = n + occurrences Added evs - occurrences Taken evs
    \<and> occurrences Taken evs = occurrences (Wait_returned 0) evs + leaving ts
    \<and> (\<forall>w. only_waiter w evs \<longrightarrow>
        0 \<le> sem_count sem \<and> occurrences (Wait_returned 0) evs \<le> n + occurrences Added evs)"
proof -
  note fresh = sys_sem_create_fresh [OF assms(1)]
  have inv: "sem_inv sem ts" "sem_count sem = n + occurrences Added evs - occurrences Taken evs"
    "occurrences Taken evs = occurrences (Wait_returned 0) evs + leaving ts"
    using sem_run_count_inv [OF assms(3)] fresh by (simp_all add: sem_count_inv_def)
  have "0 \<le> sem_count sem" if "only_waiter w evs" for w
    using sem_run_single [OF assms(3) _ _ that] fresh assms(2) by (simp add: sem_single_def)
  with inv leaving_nonneg [of ts] show ?thesis by (force simp: sem_inv_def)
qed

theorem sem_counts_and_excludes_witness:
  "\<exists>evs. occurrences (Wait_returned 0) evs = 1 \<and> occurrences (Wait_returned 0) evs \<le> 0 + occurrences Added evs"
proof -
  obtain evs ts where e: "sem_exec (one_wait @ one_grant) ([], empty_sem, \<lambda>_. Sem_idle) = Some (evs, empty_sem, ts)"
    "only_waiter 1 evs" "occurrences (Wait_returned 0) evs = 1"
    using one_grant_exec by blast
  show ?thesis
    using sem_counts_and_excludes [OF sys_sem_create_empty _ sem_run_start [OF e(1)]] e(2,3) by auto
qed

text \<open>
  C35. No wake-up is lost: when every thread is between calls or asleep in \<open>sys_sem_wait\<close>, and one is asleep,
then the count is not positive. However the threads are scheduled, by whatever spurious wake-ups,
time-outs and signals that wake several threads.\<close>

theorem sem_no_lost_wakeup:
  assumes "sys_sem_create m c l n = Some sem0" "sem_run sem0 evs sem ts"
    and "\<And>t. ts t = Sem_idle \<or> t \<in> sem_cond sem"
  shows "sem_cond sem = {} \<or> sem_count sem \<le> 0"
proof -
  note fresh = conjunct1 [OF sys_sem_create_fresh [OF assms(1)]]
  have "sem_inv sem ts" using sem_run_count_inv [OF assms(2) fresh] by (simp add: sem_count_inv_def)
  with assms(3) have "served_set sem ts = {}" by (rule served_none)
  with sem_run_awake [OF assms(2) fresh] show ?thesis by (auto simp: sem_awake_def)
qed

theorem sem_no_lost_wakeup_witness:
  "sem_cond (empty_sem\<lparr>sem_cond := {1}\<rparr>) = {} \<or> sem_count (empty_sem\<lparr>sem_cond := {1}\<rparr>) \<le> 0"
  by (rule sem_no_lost_wakeup [OF sys_sem_create_empty one_wait_run]) simp

text \<open>
  With two waiting threads one notification can let both waits succeed, without any spurious wake-up: a
thread that is woken up does not look at the count again, so a third thread that takes the mutex first
takes the unit that was meant for it. The count is -1 afterwards.\<close>

theorem sem_wait_overtaken:
  "\<exists>sem0 evs sem ts. sys_sem_create True 0 0 0 = Some sem0 \<and> sem_run sem0 evs sem ts \<and> (\<forall>t. ts t = Sem_idle)
    \<and> occurrences (Wait_returned 0) evs = 2 \<and> occurrences Added evs = 1 \<and> occurrences Woken_for_nothing evs = 0
    \<and> sem_count sem = - 1"
proof -
  obtain evs ts where e: "sem_exec overtaking ([], empty_sem, \<lambda>_. Sem_idle) = Some (evs, empty_sem\<lparr>sem_count := - 1\<rparr>, ts)"
    "occurrences (Wait_returned 0) evs = 2" "occurrences Added evs = 1" "occurrences Woken_for_nothing evs = 0"
    "\<forall>t. ts t = Sem_idle" using overtaking_exec by blast
  from e(2-5) sem_run_start [OF e(1)] sys_sem_create_empty show ?thesis by force
qed

text \<open>
  A timed wait may give up almost a second early, because its deadline counts from the last full second; it
  is never late, and the nanoseconds are in their range.
\<close>

lemma deadline_bounds:
  "snd (deadline now tmo) < 10 ^ 9 \<and> nanoseconds (deadline now tmo) \<le> now + unat tmo * 10 ^ 6
    \<and> now + unat tmo * 10 ^ 6 < nanoseconds (deadline now tmo) + 10 ^ 9"
proof -
  have p: "(10::nat) ^ 9 = 1000000000" "(10::nat) ^ 6 = 1000000" by simp_all
  have arith: "d * 1000000 < 1000000000 \<and> (a + c) * 1000000000 + d * 1000000 \<le> n + m * 1000000
      \<and> n + m * 1000000 < (a + c) * 1000000000 + d * 1000000 + 1000000000"
    if "n = 1000000000 * a + b" "b < 1000000000" "m = 1000 * c + d" "d < 1000" for a b c d n m :: nat
    using that by simp
  show ?thesis unfolding deadline_def nanoseconds_def Let_def fst_conv snd_conv p
    by (rule arith [where b = "now mod 1000000000"]) simp_all
qed

subsection \<open>The clock\<close>

text \<open>
  A time is its seconds and microseconds. \<open>sys_time_goes\<close> returns the milliseconds since the given time, which
  becomes the current one; the arithmetic is that of \<open>long\<close>, whose result is converted to \<open>int\<close>.
\<close>

type_synonym net_time = "int \<times> int"

definition microseconds :: "net_time \<Rightarrow> int" where
  "microseconds time = fst time * 10 ^ 6 + snd time"

text \<open>Division of \<open>long\<close> rounds towards 0.\<close>

definition c_div :: "int \<Rightarrow> int \<Rightarrow> int" where
  "c_div a b = (if (0 \<le> a) = (0 < b) then \<bar>a\<bar> div \<bar>b\<bar> else - (\<bar>a\<bar> div \<bar>b\<bar>))"

definition sys_time_goes :: "net_time \<Rightarrow> net_time \<Rightarrow> int \<times> net_time" where
  "sys_time_goes now pre =
     (let diff_ms = signed_take_bit 31 ((fst now - fst pre) * 1000 + c_div (snd now - snd pre) 1000)
      in (diff_ms, now))"

lemma c_div_close:
  assumes "0 < b"
  shows "\<bar>c_div a b * b - a\<bar> < b"
proof -
  have pos: "\<bar>x div b * b - x\<bar> < b" for x
    using assms pos_mod_bound [OF assms, of x] pos_mod_sign [OF assms, of x] by (simp add: minus_mod_eq_div_mult [symmetric])
  show ?thesis using pos [of a] pos [of "- a"] assms by (cases "0 \<le> a") (simp_all add: c_div_def)
qed

text \<open>Up to 24 days the result is right to a millisecond, in either direction.\<close>

lemma sys_time_goes_close:
  assumes "fst (sys_time_goes now pre) = d" "0 \<le> snd now" "snd now < 10 ^ 6" "0 \<le> snd pre" "snd pre < 10 ^ 6"
    "\<bar>fst now - fst pre\<bar> < 2147482"
  shows "\<bar>d * 1000 - (microseconds now - microseconds pre)\<bar> < 1000"
proof -
  define u where "u = snd now - snd pre"
  define q where "q = (fst now - fst pre) * 1000 + c_div u 1000"
  have c: "\<bar>c_div u 1000 * 1000 - u\<bar> < 1000" by (rule c_div_close) simp
  have "\<bar>u\<bar> < 1000000" using assms(2-5) by (simp add: u_def)
  then have "\<bar>c_div u 1000\<bar> \<le> 1000" using c by linarith
  then have "- (2 ^ 31) \<le> q" "q < 2 ^ 31" using assms(6) by (simp_all add: q_def)
  then have "signed_take_bit 31 q = q" by (intro signed_take_bit_int_eq_self) simp_all
  then have "d = q" using assms(1) by (simp add: sys_time_goes_def Let_def q_def u_def)
  then have "d * 1000 - (microseconds now - microseconds pre) = c_div u 1000 * 1000 - u"
    by (simp add: q_def u_def microseconds_def algebra_simps)
  with c show ?thesis by simp
qed

end
