(* ===== verification/SysPlat.thy ===== *)
theory SysPlat
  imports SysSem
begin

text \<open>
  The other functions of the platform layer (\<open>plat/sys_plat.cc\<close>): the variants for Windows and for x86-os, and
  the rest of the Linux part. The calls of the systems are arguments; a state \<open>'s\<close> of the system is passed through
  them. The program itself uses none of these functions.
\<close>

subsection \<open>Windows\<close>

definition INFINITE :: u32 where "INFINITE = 0xFFFFFFFF"
definition WAIT_OBJECT_0 :: u32 where "WAIT_OBJECT_0 = 0"
definition WAIT_TIMEOUT :: u32 where "WAIT_TIMEOUT = 258"

text \<open>The calls for objects; a wait that does not return is \<open>None\<close>.\<close>

record 's win_api =
  CreateSemaphore :: "int \<Rightarrow> int \<Rightarrow> 's \<Rightarrow> addr \<times> 's"
  ReleaseSemaphore :: "addr \<Rightarrow> int \<Rightarrow> 's \<Rightarrow> bool \<times> 's"
  CreateMutex :: "bool \<Rightarrow> 's \<Rightarrow> addr \<times> 's"
  ReleaseMutex :: "addr \<Rightarrow> 's \<Rightarrow> bool \<times> 's"
  WaitForSingleObject :: "addr \<Rightarrow> u32 \<Rightarrow> 's \<Rightarrow> (u32 \<times> 's) option"
  CloseHandle :: "addr \<Rightarrow> 's \<Rightarrow> bool \<times> 's"

text \<open>
  \<open>load_pcap_lib\<close> with its static flag. \<open>GetSystemDirectory\<close> returns the length and fills the buffer, or returns
  the length that it needs and leaves the buffer as it was, which is uninitialised here.
\<close>

definition load_pcap_lib_win :: "(nat \<Rightarrow> nat \<times> string option) \<Rightarrow> (string \<Rightarrow> bool) \<Rightarrow> bool \<Rightarrow> (int \<times> bool) option" where
  "load_pcap_lib_win get_system_directory set_dll_directory dll_loaded =
     (if dll_loaded then Some (0, dll_loaded)
      else case get_system_directory 480 of (sz, npcap_dir) \<Rightarrow>
        if sz = 0 then Some (-1, dll_loaded)
        else do {
          dir \<leftarrow> npcap_dir;
          check (length dir + 6 < 512);
          (if \<not> set_dll_directory (dir @ CHR 0x5C # ''Npcap'') then Some (-1, dll_loaded) else Some (0, True))
        })"

text \<open>The time that has gone by, and the new \<open>*pre\<close>; the ticks are milliseconds in 32 bits.\<close>

definition sys_time_goes_win :: "u32 \<Rightarrow> u32 \<Rightarrow> int \<times> u32" where
  "sys_time_goes_win tick_count pre = (let curr = tick_count; diff_ms = sint (curr - pre) in (diff_ms, curr))"

definition sys_sem_create_win :: "'s win_api \<Rightarrow> int \<Rightarrow> 's \<Rightarrow> addr \<times> 's" where
  "sys_sem_create_win w init_count s = CreateSemaphore w init_count 0xFFFF s"

definition sys_sem_free_win :: "'s win_api \<Rightarrow> addr \<Rightarrow> 's \<Rightarrow> 's" where
  "sys_sem_free_win w sem s = snd (CloseHandle w sem s)"

definition sys_sem_wait_win :: "'s win_api \<Rightarrow> addr \<Rightarrow> u32 \<Rightarrow> 's \<Rightarrow> (int \<times> 's) option" where
  "sys_sem_wait_win w sem tmo_ms s = do {
     let tmo = (if tmo_ms = 0 then INFINITE else tmo_ms);
     (err, s1) \<leftarrow> WaitForSingleObject w sem tmo s;
     Some (if err = WAIT_OBJECT_0 then (0, s1) else if err = WAIT_TIMEOUT then (-4, s1) else (-1, s1))
   }"

definition sys_sem_notify_win :: "'s win_api \<Rightarrow> addr \<Rightarrow> 's \<Rightarrow> 's" where
  "sys_sem_notify_win w sem s = snd (ReleaseSemaphore w sem 1 s)"

definition sys_mutex_create_win :: "'s win_api \<Rightarrow> 's \<Rightarrow> addr \<times> 's" where
  "sys_mutex_create_win w s =
     (case CreateMutex w False s of (mutex, s1) \<Rightarrow> if mutex = nullptr then (nullptr, s1) else (mutex, s1))"

definition sys_mutex_free_win :: "'s win_api \<Rightarrow> addr \<Rightarrow> 's \<Rightarrow> 's" where
  "sys_mutex_free_win w locker s = snd (ReleaseMutex w locker s)"

definition sys_mutex_lock_win :: "'s win_api \<Rightarrow> addr \<Rightarrow> 's \<Rightarrow> 's option" where
  "sys_mutex_lock_win w locker s = map_option snd (WaitForSingleObject w locker INFINITE s)"

definition sys_mutex_unlock_win :: "'s win_api \<Rightarrow> addr \<Rightarrow> 's \<Rightarrow> 's" where
  "sys_mutex_unlock_win w locker s = snd (ReleaseMutex w locker s)"

text \<open>The arguments that \<open>CreateThread\<close> is called with: stack size, entry, argument, flags.\<close>

definition sys_thread_create_win :: "(nat \<Rightarrow> addr \<Rightarrow> addr \<Rightarrow> nat \<Rightarrow> 's \<Rightarrow> addr \<times> 's) \<Rightarrow> addr \<Rightarrow> addr \<Rightarrow> 's \<Rightarrow> addr \<times> 's" where
  "sys_thread_create_win create_thread entry arg s = create_thread 0 entry arg 0 s"

text \<open>The new \<open>*time\<close>; the milliseconds that \<open>Sleep\<close> gets; the end of a thread.\<close>

definition sys_time_curr_win :: "u32 \<Rightarrow> u32" where
  "sys_time_curr_win tick_count = tick_count"

definition sys_sleep_win :: "int \<Rightarrow> u32" where
  "sys_sleep_win ms = of_int ms"

definition sys_thread_exit_win :: "(u32 \<Rightarrow> 's \<Rightarrow> 's) \<Rightarrow> int \<Rightarrow> 's \<Rightarrow> 's" where
  "sys_thread_exit_win exit_thread error s = exit_thread (of_int error) s"

subsection \<open>x86-os\<close>

definition NET_TASK_NR :: nat where "NET_TASK_NR = 3"
definition NET_SEM_NR :: nat where "NET_SEM_NR = 100"
definition NET_MUTEX_NR :: nat where "NET_MUTEX_NR = 100"

definition sys_time_goes_x86os :: "u32 \<Rightarrow> u32 \<Rightarrow> u32 \<Rightarrow> int \<times> u32" where
  "sys_time_goes_x86os os_tick_ms ticks pre = (let curr = ticks; diff_ms = sint ((curr - pre) * os_tick_ms) in (diff_ms, curr))"

text \<open>The calls of the kernel: pools of semaphores, mutexes and tasks, and the operations on their elements.\<close>

record 's x86os_api =
  mblock_alloc :: "addr \<Rightarrow> int \<Rightarrow> 's \<Rightarrow> addr \<times> 's"
  mblock_free :: "addr \<Rightarrow> addr \<Rightarrow> 's \<Rightarrow> 's"
  mblock_init :: "addr \<Rightarrow> addr \<Rightarrow> nat \<Rightarrow> nat \<Rightarrow> 's \<Rightarrow> 's"
  sem_init :: "addr \<Rightarrow> int \<Rightarrow> 's \<Rightarrow> 's"
  sem_wait_tmo :: "addr \<Rightarrow> u32 \<Rightarrow> 's \<Rightarrow> (int \<times> 's) option"
  sem_notify :: "addr \<Rightarrow> 's \<Rightarrow> 's"
  mutex_init :: "addr \<Rightarrow> 's \<Rightarrow> 's"
  mutex_lock_x86os :: "addr \<Rightarrow> 's \<Rightarrow> 's option"
  mutex_unlock_x86os :: "addr \<Rightarrow> 's \<Rightarrow> 's"
  task_init :: "addr \<Rightarrow> addr \<Rightarrow> nat \<Rightarrow> 's \<Rightarrow> int \<times> 's"
  task_start :: "addr \<Rightarrow> 's \<Rightarrow> 's"

text \<open>The static pools and the tables behind them.\<close>

record x86os_pools =
  task_mblock :: addr
  task_tbl :: addr
  sem_mblock :: addr
  sem_tbl :: addr
  mutex_mblock :: addr
  mutex_tbl :: addr

definition sys_sem_create_x86os :: "'s x86os_api \<Rightarrow> x86os_pools \<Rightarrow> int \<Rightarrow> 's \<Rightarrow> addr \<times> 's" where
  "sys_sem_create_x86os k pools init_count s =
     (case mblock_alloc k (sem_mblock pools) (-1) s of (sem, s1) \<Rightarrow>
        (sem, if sem \<noteq> nullptr then sem_init k sem init_count s1 else s1))"

definition sys_sem_free_x86os :: "'s x86os_api \<Rightarrow> x86os_pools \<Rightarrow> addr \<Rightarrow> 's \<Rightarrow> 's" where
  "sys_sem_free_x86os k pools sem s = mblock_free k (sem_mblock pools) sem s"

definition sys_sem_wait_x86os :: "'s x86os_api \<Rightarrow> addr \<Rightarrow> u32 \<Rightarrow> 's \<Rightarrow> (int \<times> 's) option" where
  "sys_sem_wait_x86os k sem ms s = sem_wait_tmo k sem ms s"

definition sys_sem_notify_x86os :: "'s x86os_api \<Rightarrow> addr \<Rightarrow> 's \<Rightarrow> 's" where
  "sys_sem_notify_x86os k sem s = sem_notify k sem s"

definition sys_mutex_create_x86os :: "'s x86os_api \<Rightarrow> x86os_pools \<Rightarrow> 's \<Rightarrow> addr \<times> 's" where
  "sys_mutex_create_x86os k pools s =
     (case mblock_alloc k (mutex_mblock pools) (-1) s of (m, s1) \<Rightarrow> (m, if m \<noteq> nullptr then mutex_init k m s1 else s1))"

definition sys_mutex_free_x86os :: "'s x86os_api \<Rightarrow> x86os_pools \<Rightarrow> addr \<Rightarrow> 's \<Rightarrow> 's" where
  "sys_mutex_free_x86os k pools mutex s = mblock_free k (mutex_mblock pools) mutex s"

definition sys_mutex_lock_x86os :: "'s x86os_api \<Rightarrow> addr \<Rightarrow> 's \<Rightarrow> 's option" where
  "sys_mutex_lock_x86os k mutex s = mutex_lock_x86os k mutex s"

definition sys_mutex_unlock_x86os :: "'s x86os_api \<Rightarrow> addr \<Rightarrow> 's \<Rightarrow> 's" where
  "sys_mutex_unlock_x86os k mutex s = mutex_unlock_x86os k mutex s"

text \<open>
  A task with its stack of 10 * 1024 words of four bytes, behind the kernel's part of \<open>task_size\<close> bytes. The initial
  stack pointer is \<open>task->stack + sizeof(task->stack)\<close>, which counts words. The pool's answer is used without a test.
\<close>

definition sizeof_stack :: nat where "sizeof_stack = 4 * (10 * 1024)"

definition sizeof_net_task :: "nat \<Rightarrow> nat" where
  "sizeof_net_task task_size = task_size + sizeof_stack"

definition stack_pointer :: "nat \<Rightarrow> addr \<Rightarrow> nat" where
  "stack_pointer task_size task = (let stack = task + task_size in stack + 4 * sizeof_stack)"

definition sys_thread_create_x86os :: "'s x86os_api \<Rightarrow> x86os_pools \<Rightarrow> nat \<Rightarrow> addr \<Rightarrow> 's \<Rightarrow> (addr \<times> 's) option" where
  "sys_thread_create_x86os k pools task_size entry s =
     (case mblock_alloc k (task_mblock pools) (-1) s of (task, s1) \<Rightarrow> do {
        check (task \<noteq> nullptr);
        (case task_init k task entry (stack_pointer task_size task) s1 of (err, s2) \<Rightarrow>
           if err < 0 then Some (nullptr, s2) else Some (task, task_start k task s2))
      })"

text \<open>The interrupt lock, with the state that it saves; leaving a thread is not implemented.\<close>

definition sys_intlocker_lock :: "('s \<Rightarrow> 'irq \<times> 's) \<Rightarrow> 's \<Rightarrow> 'irq \<times> 's" where
  "sys_intlocker_lock irq_enter_protection s = irq_enter_protection s"

definition sys_intlocker_unlock :: "('irq \<Rightarrow> 's \<Rightarrow> 's) \<Rightarrow> 'irq \<Rightarrow> 's \<Rightarrow> 's" where
  "sys_intlocker_unlock irq_leave_protection locker s = irq_leave_protection locker s"

definition sys_time_curr_x86os :: "u32 \<Rightarrow> u32" where
  "sys_time_curr_x86os ticks = ticks"

definition sys_thread_exit_x86os :: "int \<Rightarrow> 's \<Rightarrow> 's" where
  "sys_thread_exit_x86os error s = s"

definition sys_plat_init_x86os :: "'s x86os_api \<Rightarrow> x86os_pools \<Rightarrow> nat \<Rightarrow> nat \<Rightarrow> nat \<Rightarrow> 's \<Rightarrow> 's" where
  "sys_plat_init_x86os k pools task_size sizeof_sem sizeof_mutex s =
     (let s1 = mblock_init k (task_mblock pools) (task_tbl pools) (sizeof_net_task task_size) NET_TASK_NR s;
          s2 = mblock_init k (sem_mblock pools) (sem_tbl pools) sizeof_sem NET_SEM_NR s1
      in mblock_init k (mutex_mblock pools) (mutex_tbl pools) sizeof_mutex NET_MUTEX_NR s2)"

subsection \<open>Linux\<close>

text \<open>\<open>pthread_create\<close> returns an error number or 0 with the thread.\<close>

definition sys_thread_create :: "('e \<Rightarrow> 'a \<Rightarrow> int \<times> addr) \<Rightarrow> 'e \<Rightarrow> 'a \<Rightarrow> addr" where
  "sys_thread_create pthread_create entry arg = (case pthread_create entry arg of (err, pthread) \<Rightarrow> if err \<noteq> 0 then 0 else pthread)"

text \<open>
  The memory that \<open>malloc\<close> returns is used without a test, and an error of \<open>pthread_mutex_init\<close> would have to be
  negative to be seen.
\<close>

definition sys_mutex_create :: "addr \<Rightarrow> (addr \<Rightarrow> int) \<Rightarrow> addr option" where
  "sys_mutex_create mutex pthread_mutex_init = do {
     check (mutex \<noteq> nullptr);
     let err = pthread_mutex_init mutex;
     Some (if err < 0 then nullptr else mutex)
   }"

text \<open>The calls for mutexes; a lock that does not return is \<open>None\<close>.\<close>

record 's pthread_api =
  p_mutex_destroy :: "addr \<Rightarrow> 's \<Rightarrow> int \<times> 's"
  p_mutex_lock :: "addr \<Rightarrow> 's \<Rightarrow> (int \<times> 's) option"
  p_mutex_unlock :: "addr \<Rightarrow> 's \<Rightarrow> int \<times> 's"
  p_free :: "addr \<Rightarrow> 's \<Rightarrow> 's"

definition sys_mutex_free :: "'s pthread_api \<Rightarrow> addr \<Rightarrow> 's \<Rightarrow> 's" where
  "sys_mutex_free p locker s = (let s1 = snd (p_mutex_destroy p locker s) in p_free p locker s1)"

definition sys_mutex_lock :: "'s pthread_api \<Rightarrow> addr \<Rightarrow> 's \<Rightarrow> 's option" where
  "sys_mutex_lock p locker s = map_option snd (p_mutex_lock p locker s)"

definition sys_mutex_unlock :: "'s pthread_api \<Rightarrow> addr \<Rightarrow> 's \<Rightarrow> 's" where
  "sys_mutex_unlock p locker s = snd (p_mutex_unlock p locker s)"

text \<open>The argument of \<open>usleep\<close>, computed as an \<open>int\<close>.\<close>

definition sys_sleep :: "int \<Rightarrow> int option" where
  "sys_sleep ms = c_int (1000 * ms)"

definition sys_time_curr :: "net_time \<Rightarrow> net_time" where
  "sys_time_curr now = now"

definition sys_thread_exit :: "int \<Rightarrow> 's \<Rightarrow> 's" where
  "sys_thread_exit error s = s"

text \<open>A negative time is an endless sleep on Windows.\<close>

lemma sys_sleep_win_forever: "sys_sleep_win (-1) = INFINITE"
  by (simp add: sys_sleep_win_def INFINITE_def)

subsection \<open>The clocks\<close>

text \<open>
  The time between two calls is exact on Windows up to \<open>2 ^ 31\<close> milliseconds, also when the counter of the ticks wraps around
  in between, and on x86-os up to the same number of milliseconds.
\<close>

lemma sint_of_nat_small: "n < 2 ^ 31 \<Longrightarrow> sint (of_nat n :: u32) = int n"
  by (simp add: signed_of_nat signed_take_bit_int_eq_self)

lemma sys_time_goes_win_exact:
  assumes "elapsed < 2 ^ 31"
  shows "sys_time_goes_win (pre + of_nat elapsed) pre = (int elapsed, pre + of_nat elapsed)"
  using sint_of_nat_small [OF assms] by (simp add: sys_time_goes_win_def Let_def)

lemma sys_time_goes_x86os_exact:
  assumes "elapsed * unat os_tick_ms < 2 ^ 31"
  shows "sys_time_goes_x86os os_tick_ms (pre + of_nat elapsed) pre = (int (elapsed * unat os_tick_ms), pre + of_nat elapsed)"
proof -
  have "of_nat elapsed * os_tick_ms = of_nat (elapsed * unat os_tick_ms)" by simp
  then show ?thesis using sint_of_nat_small [OF assms] by (simp only: sys_time_goes_x86os_def Let_def add_diff_cancel_left')
qed

text \<open>So the differences that a sequence of calls returns add up to the time between the first and the last one.\<close>

fun times_go :: "u32 \<Rightarrow> nat list \<Rightarrow> int list \<times> u32" where
  "times_go pre [] = ([], pre)"
| "times_go pre (e # es) =
     (let (d, pre1) = sys_time_goes_win (pre + of_nat e) pre; (ds, pre2) = times_go pre1 es in (d # ds, pre2))"

lemma times_go_sum:
  "list_all (\<lambda>e. e < 2 ^ 31) es \<Longrightarrow> times_go pre es = (map int es, pre + of_nat (sum_list es))"
  by (induction es arbitrary: pre) (simp_all add: sys_time_goes_win_exact add.assoc)

subsection \<open>Loading npcap\<close>

text \<open>
  The search path is set at most once: the flag is set exactly by a call that returns 0. A system directory whose name
  fits is never cut off; one that does not fit leaves the buffer uninitialised, and the function goes on.
\<close>

lemma load_pcap_lib_win_once:
  assumes "load_pcap_lib_win sysdir setdir loaded = Some (rt, loaded')"
  shows "loaded' \<longleftrightarrow> rt = 0" "load_pcap_lib_win sysdir' setdir' True = Some (0, True)" "loaded \<Longrightarrow> loaded'"
  using assms by (auto simp: load_pcap_lib_win_def bind_eq_Some_conv split: if_splits prod.splits)

lemma load_pcap_lib_win_long_directory:
  "sysdir 480 = (n, None) \<Longrightarrow> n \<noteq> 0 \<Longrightarrow> load_pcap_lib_win sysdir setdir False = None"
  by (simp add: load_pcap_lib_win_def)

lemma load_pcap_lib_win_fits:
  "sysdir 480 = (length dir, Some dir) \<Longrightarrow> length dir < 480 \<Longrightarrow> load_pcap_lib_win sysdir setdir False
     = Some (if dir \<noteq> [] \<and> setdir (dir @ CHR 0x5C # ''Npcap'') then (0, True) else (-1, False))"
  by (simp add: load_pcap_lib_win_def)

subsection \<open>The semaphore on Windows\<close>

text \<open>
  What the documentation of Windows says of a semaphore that one thread uses: \<open>count\<close> is what the system keeps. Creation
  may fail; a release beyond the maximum fails and changes nothing.
\<close>

definition win_semaphores :: "'s win_api \<Rightarrow> ('s \<Rightarrow> addr \<Rightarrow> nat option) \<Rightarrow> bool" where
  "win_semaphores w count \<longleftrightarrow>
     (\<forall>s h n. count s h = Some n \<longrightarrow> (case ReleaseSemaphore w h 1 s of (ok, s1) \<Rightarrow>
        if n < 0xFFFF then ok \<and> count s1 = (count s)(h \<mapsto> n + 1) else \<not> ok \<and> count s1 = count s))
   \<and> (\<forall>s h n tmo. count s h = Some n \<longrightarrow> (case WaitForSingleObject w h tmo s of
        None \<Rightarrow> n = 0 \<and> tmo = INFINITE
      | Some (err, s1) \<Rightarrow> if 0 < n then err = WAIT_OBJECT_0 \<and> count s1 = (count s)(h \<mapsto> n - 1)
          else tmo \<noteq> INFINITE \<and> err = WAIT_TIMEOUT \<and> count s1 = count s))"

datatype sem_op = Op_notify | Op_wait u32

fun win_sem_run :: "'s win_api \<Rightarrow> addr \<Rightarrow> sem_op list \<Rightarrow> 's \<Rightarrow> (int list \<times> 's) option" where
  "win_sem_run w h [] s = Some ([], s)"
| "win_sem_run w h (Op_notify # ops) s = win_sem_run w h ops (sys_sem_notify_win w h s)"
| "win_sem_run w h (Op_wait tmo # ops) s = do {
     (rt, s1) \<leftarrow> sys_sem_wait_win w h tmo s;
     (rts, s2) \<leftarrow> win_sem_run w h ops s1;
     Some (rt # rts, s2)
   }"

text \<open>The counter that the operations show: units beyond 65535 are lost, and a wait with timeout 0 may never return.\<close>

fun counter_run :: "sem_op list \<Rightarrow> nat \<Rightarrow> (int list \<times> nat) option" where
  "counter_run [] n = Some ([], n)"
| "counter_run (Op_notify # ops) n = counter_run ops (min (n + 1) 0xFFFF)"
| "counter_run (Op_wait tmo # ops) n =
     (if 0 < n then map_option (\<lambda>(rts, k). (0 # rts, k)) (counter_run ops (n - 1))
      else if tmo = 0 \<or> tmo = INFINITE then None
      else map_option (\<lambda>(rts, k). (-4 # rts, k)) (counter_run ops n))"

lemma win_notify_run:
  assumes "win_semaphores w count" "count s h = Some n" "n \<le> 0xFFFF"
  shows "count (sys_sem_notify_win w h s) h = Some (min (n + 1) 0xFFFF)"
proof -
  obtain ok s1 where r: "ReleaseSemaphore w h 1 s = (ok, s1)" by (cases "ReleaseSemaphore w h 1 s")
  have "\<forall>s h n. count s h = Some n \<longrightarrow> (case ReleaseSemaphore w h 1 s of (ok, s1) \<Rightarrow>
        if n < 0xFFFF then ok \<and> count s1 = (count s)(h \<mapsto> n + 1) else \<not> ok \<and> count s1 = count s)"
    using assms(1) unfolding win_semaphores_def by (rule conjunct1)
  from this [rule_format, OF assms(2)] r
  have "if n < 0xFFFF then ok \<and> count s1 = (count s)(h \<mapsto> n + 1) else \<not> ok \<and> count s1 = count s" by simp
  then show ?thesis using assms(2,3) r by (cases "n < 0xFFFF") (simp_all add: sys_sem_notify_win_def)
qed

lemma win_wait_run:
  assumes "win_semaphores w count" "count s h = Some n"
  shows "0 < n \<Longrightarrow> \<exists>s1. sys_sem_wait_win w h tmo s = Some (0, s1) \<and> count s1 h = Some (n - 1)"
    "n = 0 \<Longrightarrow> tmo = 0 \<or> tmo = INFINITE \<Longrightarrow> sys_sem_wait_win w h tmo s = None"
    "n = 0 \<Longrightarrow> tmo \<noteq> 0 \<Longrightarrow> tmo \<noteq> INFINITE \<Longrightarrow> \<exists>s1. sys_sem_wait_win w h tmo s = Some (-4, s1) \<and> count s1 h = Some n"
proof -
  let ?tmo = "if tmo = 0 then INFINITE else tmo"
  have "\<forall>s h n tmo. count s h = Some n \<longrightarrow> (case WaitForSingleObject w h tmo s of
        None \<Rightarrow> n = 0 \<and> tmo = INFINITE
      | Some (err, s1) \<Rightarrow> if 0 < n then err = WAIT_OBJECT_0 \<and> count s1 = (count s)(h \<mapsto> n - 1)
          else tmo \<noteq> INFINITE \<and> err = WAIT_TIMEOUT \<and> count s1 = count s)"
    using assms(1) unfolding win_semaphores_def by (rule conjunct2)
  from this [rule_format, OF assms(2), of ?tmo] have r: "case WaitForSingleObject w h ?tmo s of
        None \<Rightarrow> n = 0 \<and> ?tmo = INFINITE
      | Some (err, s1) \<Rightarrow> if 0 < n then err = WAIT_OBJECT_0 \<and> count s1 = (count s)(h \<mapsto> n - 1)
          else ?tmo \<noteq> INFINITE \<and> err = WAIT_TIMEOUT \<and> count s1 = count s" .
  have codes: "WAIT_TIMEOUT \<noteq> WAIT_OBJECT_0" by (simp add: WAIT_TIMEOUT_def WAIT_OBJECT_0_def)
  show "0 < n \<Longrightarrow> \<exists>s1. sys_sem_wait_win w h tmo s = Some (0, s1) \<and> count s1 h = Some (n - 1)"
    "n = 0 \<Longrightarrow> tmo = 0 \<or> tmo = INFINITE \<Longrightarrow> sys_sem_wait_win w h tmo s = None"
    "n = 0 \<Longrightarrow> tmo \<noteq> 0 \<Longrightarrow> tmo \<noteq> INFINITE \<Longrightarrow> \<exists>s1. sys_sem_wait_win w h tmo s = Some (-4, s1) \<and> count s1 h = Some n"
    using r codes assms(2)
    by (auto simp: sys_sem_wait_win_def Let_def split: option.splits prod.splits if_splits)
qed

lemma win_sem_refines_counter:
  assumes "win_semaphores w count" "count s h = Some n" "n \<le> 0xFFFF"
  shows "case win_sem_run w h ops s of
      None \<Rightarrow> counter_run ops n = None
    | Some (rts, s') \<Rightarrow> \<exists>k. counter_run ops n = Some (rts, k) \<and> count s' h = Some k"
  using assms(2,3)
proof (induction ops arbitrary: s n)
  case (Cons op ops)
  show ?case
  proof (cases op)
    case Op_notify
    from Cons.IH [OF win_notify_run [OF assms(1) Cons.prems]] show ?thesis
      unfolding Op_notify win_sem_run.simps counter_run.simps by simp
  next
    case (Op_wait tmo)
    note w = win_wait_run [OF assms(1) Cons.prems(1), of tmo]
    show ?thesis
    proof (cases "0 < n")
      case True
      from w(1) [OF this] obtain s1 where s1: "sys_sem_wait_win w h tmo s = Some (0, s1)" "count s1 h = Some (n - 1)" by blast
      have "n - 1 \<le> 0xFFFF" using Cons.prems(2) by simp
      from Cons.IH [OF s1(2) this] show ?thesis using True s1(1) unfolding Op_wait by (cases "win_sem_run w h ops s1") auto
    next
      case False
      then have n: "n = 0" by simp
      show ?thesis
      proof (cases "tmo = 0 \<or> tmo = INFINITE")
        case True
        then show ?thesis using w(2) n by (simp add: Op_wait)
      next
        case F: False
        from w(3) n F obtain s1 where s1: "sys_sem_wait_win w h tmo s = Some (-4, s1)" "count s1 h = Some n" by blast
        from Cons.IH [OF s1(2) Cons.prems(2)] show ?thesis using F n s1(1) unfolding Op_wait
          by (cases "win_sem_run w h ops s1") auto
      qed
    qed
  qed
qed simp

text \<open>A system that keeps its semaphores in a map.\<close>

definition demo_win :: "(addr \<rightharpoonup> nat) win_api" where
  "demo_win = \<lparr>CreateSemaphore = (\<lambda>n limit s. (if s 8 = None then (8, s(8 \<mapsto> nat n)) else (nullptr, s))),
     ReleaseSemaphore = (\<lambda>h k s. case s h of Some n \<Rightarrow> if n < 0xFFFF then (True, s(h \<mapsto> n + 1)) else (False, s) | None \<Rightarrow> (False, s)),
     CreateMutex = (\<lambda>owned s. (nullptr, s)), ReleaseMutex = (\<lambda>h s. (False, s)),
     WaitForSingleObject = (\<lambda>h tmo s. case s h of
         Some n \<Rightarrow> if 0 < n then Some (WAIT_OBJECT_0, s(h \<mapsto> n - 1)) else if tmo = INFINITE then None else Some (WAIT_TIMEOUT, s)
       | None \<Rightarrow> Some (0xFFFFFFFF, s)),
     CloseHandle = (\<lambda>h s. (True, s(h := None)))\<rparr>"

lemma demo_win: "win_semaphores demo_win (\<lambda>s. s)"
  by (simp add: win_semaphores_def demo_win_def)

lemma demo_win_run:
  "\<exists>s. win_sem_run demo_win 8 [Op_notify, Op_wait 0, Op_wait 20] [8 \<mapsto> 0] = Some ([0, -4], s)"
  using win_sem_refines_counter [OF demo_win, of "[8 \<mapsto> 0]" 8 0 "[Op_notify, Op_wait 0, Op_wait 20]"]
  by (auto simp: INFINITE_def split: option.splits)

subsection \<open>The task on x86-os\<close>

text \<open>The initial stack pointer lies behind the task object by three times the size of the stack.\<close>

lemma stack_pointer_outside:
  "stack_pointer task_size task = task + sizeof_net_task task_size + 3 * sizeof_stack"
  by (simp add: stack_pointer_def sizeof_net_task_def Let_def)

text \<open>Freeing a mutex on Windows is nothing but unlocking it: the handle stays open.\<close>

lemma sys_mutex_free_win_unlocks: "sys_mutex_free_win w = sys_mutex_unlock_win w"
  by (simp add: sys_mutex_free_win_def sys_mutex_unlock_win_def fun_eq_iff)

text \<open>Errors of pthread are positive, so the test in \<open>sys_mutex_create\<close> sees none of them.\<close>

lemma sys_mutex_create_misses_errors:
  "mutex \<noteq> nullptr \<Longrightarrow> 0 \<le> init mutex \<Longrightarrow> sys_mutex_create mutex init = Some mutex"
  by (simp add: sys_mutex_create_def)

lemma sys_sleep_overflow: "sys_sleep ms \<noteq> None \<longleftrightarrow> \<bar>ms\<bar> \<le> 2147483"
  by (auto simp: sys_sleep_def c_int_def)

text \<open>When the three tasks are in use, creating another one dereferences a null pointer.\<close>

lemma sys_thread_create_x86os_exhausted:
  "mblock_alloc k (task_mblock pools) (-1) s = (nullptr, s1) \<Longrightarrow> sys_thread_create_x86os k pools task_size entry s = None"
  by (simp add: sys_thread_create_x86os_def)

end
