(* ===== verification/PcapDev.thy ===== *)
theory PcapDev
  imports LinkLayer
begin

text \<open>
  Opening a device with pcap (\<open>pcap_find_device\<close>, \<open>pcap_show_list\<close> and \<open>pcap_device_open\<close> of
  \<open>plat/sys_plat.cc\<close>). pcap and the address functions of the C library are a parameter, a record with what
  they answer; the calls on a handle are recorded. A read of memory that was never written gives an
  arbitrary value, which is a parameter too.
\<close>

record sockaddr =
  sa_family :: nat
  sin_addr :: u32

text \<open>An entry of \<open>addresses\<close> holds a pointer to an address, which may be null.\<close>

record pcap_if =
  if_name :: string
  if_description :: "string option"
  if_addresses :: "sockaddr option list"

datatype pcap_call =
    Pcap_set_snaplen nat
  | Pcap_set_promisc nat
  | Pcap_set_timeout nat
  | Pcap_set_immediate_mode nat
  | Pcap_activate
  | Pcap_setnonblock nat
  | Pcap_compile string nat u32
  | Pcap_setfilter

text \<open>
  The answers: \<open>inet_pton\<close> gives nothing for a text that is no address, \<open>pcap_findalldevs\<close> an error code and
  the list of devices, \<open>pcap_lookupnet\<close> an error code and the network, \<open>pcap_create\<close> whether the handle is
  not null, and a call on the handle an error code that may depend on the earlier calls.
\<close>

record pcap_lib =
  inet_pton :: "string \<Rightarrow> u32 option"
  inet_ntop :: "u32 \<Rightarrow> string"
  pcap_findalldevs :: "int \<times> pcap_if list"
  pcap_lookupnet :: "string \<Rightarrow> int \<times> u32"
  pcap_create :: "string \<Rightarrow> bool"
  pcap_answer :: "pcap_call list \<Rightarrow> pcap_call \<Rightarrow> int"

definition AF_INET :: nat where "AF_INET = 2"

subsection \<open>Looking for the device\<close>

fun addr_loop :: "u32 \<Rightarrow> sockaddr option list \<Rightarrow> bool option" where
  "addr_loop dest_ip [] = Some False"
| "addr_loop dest_ip (pcap_addr # rest) = do {
     sock_addr \<leftarrow> pcap_addr;
     if sa_family sock_addr \<noteq> AF_INET then addr_loop dest_ip rest
     else if sin_addr sock_addr = dest_ip then Some True
     else addr_loop dest_ip rest
   }"

text \<open>\<open>strcpy\<close> into a buffer of the given size.\<close>

definition strcpy :: "nat \<Rightarrow> string \<Rightarrow> string option" where
  "strcpy bufsize src = (if length src < bufsize then Some src else None)"

fun find_loop :: "nat \<Rightarrow> u32 \<Rightarrow> pcap_if list \<Rightarrow> (int \<times> string option) option" where
  "find_loop bufsize dest_ip [] = Some (- 1, None)"
| "find_loop bufsize dest_ip (item # rest) =
     (if if_addresses item = [] then find_loop bufsize dest_ip rest
      else do {
        found \<leftarrow> addr_loop dest_ip (if_addresses item);
        if found then do {
          name_buf \<leftarrow> strcpy bufsize (if_name item);
          Some (0, Some name_buf)
        }
        else find_loop bufsize dest_ip rest
      })"

text \<open>The result of \<open>inet_pton\<close> is not looked at; \<open>garbage\<close> is what \<open>dest_ip\<close> holds when it fails.\<close>

definition pcap_find_device :: "pcap_lib \<Rightarrow> u32 \<Rightarrow> nat \<Rightarrow> string \<Rightarrow> (int \<times> string option) option" where
  "pcap_find_device lib garbage bufsize ip =
     (let dest_ip = case inet_pton lib ip of Some a \<Rightarrow> a | None \<Rightarrow> garbage;
          (err, pcap_if_list) = pcap_findalldevs lib
      in if err < 0 then Some (- 1, None) else find_loop bufsize dest_ip pcap_if_list)"

subsection \<open>Listing the devices\<close>

text \<open>A printed line: the number, what stands behind \<open>IP:\<close>, what stands behind \<open>name:\<close>.\<close>

type_synonym list_line = "nat \<times> string \<times> string"

fun show_addr_loop :: "pcap_lib \<Rightarrow> nat \<Rightarrow> pcap_if \<Rightarrow> sockaddr option list \<Rightarrow> list_line list option" where
  "show_addr_loop lib count item [] = Some []"
| "show_addr_loop lib count item (pcap_addr # rest) = do {
     sockaddr \<leftarrow> pcap_addr;
     if sa_family sockaddr \<noteq> AF_INET then show_addr_loop lib count item rest
     else let name = (case if_description item of None \<Rightarrow> if_name item | Some d \<Rightarrow> d)
          in Some [(count, name, inet_ntop lib (sin_addr sockaddr))]
   }"

fun show_loop :: "pcap_lib \<Rightarrow> nat \<Rightarrow> pcap_if list \<Rightarrow> list_line list option" where
  "show_loop lib count [] = Some []"
| "show_loop lib count (item # rest) =
     (if if_addresses item = [] then show_loop lib count rest
      else do {
        line \<leftarrow> show_addr_loop lib count item (if_addresses item);
        lines \<leftarrow> show_loop lib (count + length line) rest;
        Some (line @ lines)
      })"

definition pcap_show_list :: "pcap_lib \<Rightarrow> (int \<times> list_line list) option" where
  "pcap_show_list lib =
     (let (err, pcapif_list) = pcap_findalldevs lib
      in if err < 0 then Some (- 1, [])
         else do {
           lines \<leftarrow> show_loop lib 0 pcapif_list;
           if pcapif_list = [] \<or> length lines = 0 then Some (- 1, lines) else Some (0, lines)
         })"

subsection \<open>Opening\<close>

fun mac_text :: "u8 list \<Rightarrow> string" where
  "mac_text [] = []"
| "mac_text [b] = hex2 b"
| "mac_text (b # c # bs) = hex2 b @ '':'' @ mac_text (c # bs)"

definition filter_exp :: "u8 list \<Rightarrow> string" where
  "filter_exp mac = ''(ether dst '' @ mac_text mac @ '' or ether broadcast) and (not ether src '' @ mac_text mac @ '')''"

text \<open>Making a call on the handle, and a list of calls that all have to answer 0.\<close>

definition pcap_call :: "pcap_lib \<Rightarrow> pcap_call list \<Rightarrow> pcap_call \<Rightarrow> int \<times> pcap_call list" where
  "pcap_call lib calls c = (pcap_answer lib calls c, calls @ [c])"

fun call_all :: "pcap_lib \<Rightarrow> pcap_call list \<Rightarrow> pcap_call list \<Rightarrow> bool \<times> pcap_call list" where
  "call_all lib calls [] = (True, calls)"
| "call_all lib calls (c # cs) =
     (case pcap_call lib calls c of (err, calls) \<Rightarrow> if err \<noteq> 0 then (False, calls) else call_all lib calls cs)"

definition setup_calls :: "pcap_call list" where
  "setup_calls =
     [Pcap_set_snaplen 65536, Pcap_set_promisc 1, Pcap_set_timeout 0, Pcap_set_immediate_mode 1,
      Pcap_activate, Pcap_setnonblock 0]"

text \<open>On Linux there is no library to load.\<close>

definition load_pcap_lib :: int where "load_pcap_lib = 0"

text \<open>The result: whether the returned pointer is not null, the device that was opened, the calls.\<close>

definition pcap_device_open :: "pcap_lib \<Rightarrow> u32 \<Rightarrow> string \<Rightarrow> u8 list \<Rightarrow> (bool \<times> string option \<times> pcap_call list) option" where
  "pcap_device_open lib garbage ip mac_addr = (if load_pcap_lib < 0 then Some (False, None, []) else do {
     (rc, name_buf) \<leftarrow> pcap_find_device lib garbage 256 ip;
     if rc < 0 then do {
       _ \<leftarrow> pcap_show_list lib;
       Some (False, None, [])
     }
     else do {
       name \<leftarrow> name_buf;
       let net = (case pcap_lookupnet lib name of (rc, net) \<Rightarrow> if rc = - 1 then 0 else net);
       if \<not> pcap_create lib name then do {
         _ \<leftarrow> pcap_show_list lib;
         Some (False, None, [])
       }
       else case call_all lib [] setup_calls of (ok, calls) \<Rightarrow>
         if \<not> ok then Some (False, Some name, calls)
         else do {
           mac \<leftarrow> bytes_get mac_addr 0 6;
           text \<leftarrow> strcpy 256 (filter_exp mac);
           case pcap_call lib calls (Pcap_compile text 0 net) of (rc, calls) \<Rightarrow>
             if rc = - 1 then Some (False, Some name, calls)
             else case pcap_call lib calls Pcap_setfilter of (rc, calls) \<Rightarrow>
               if rc = - 1 then Some (False, Some name, calls) else Some (True, Some name, calls)
         }
     }
   })"

subsection \<open>The device that is found\<close>

text \<open>No null addresses, and names that fit into the buffer.\<close>

definition devs_ok :: "pcap_if list \<Rightarrow> bool" where
  "devs_ok devs \<longleftrightarrow> (\<forall>d \<in> set devs. None \<notin> set (if_addresses d) \<and> length (if_name d) < 256)"

definition has_addr :: "u32 \<Rightarrow> pcap_if \<Rightarrow> bool" where
  "has_addr a d \<longleftrightarrow> Some \<lparr>sa_family = AF_INET, sin_addr = a\<rparr> \<in> set (if_addresses d)"

lemma addr_loop_ok: "None \<notin> set as \<Longrightarrow> addr_loop a as = Some (Some \<lparr>sa_family = AF_INET, sin_addr = a\<rparr> \<in> set as)"
proof (induction as)
  case (Cons p as)
  then obtain s where "p = Some s" by (cases p) auto
  with Cons show ?case by (cases s) auto
qed simp

lemma find_loop_ok:
  "devs_ok devs \<Longrightarrow> find_loop 256 a devs =
    Some (case find (has_addr a) devs of Some d \<Rightarrow> (0, Some (if_name d)) | None \<Rightarrow> (- 1, None))"
proof (induction devs)
  case (Cons d devs)
  then have IH: "find_loop 256 a devs =
      Some (case find (has_addr a) devs of Some d \<Rightarrow> (0, Some (if_name d)) | None \<Rightarrow> (- 1, None))"
    and ok: "None \<notin> set (if_addresses d)" "length (if_name d) < 256" by (simp_all add: devs_ok_def)
  show ?case
  proof (cases "if_addresses d = []")
    case True
    with IH show ?thesis by (simp add: has_addr_def [of a d])
  next
    case False
    with IH ok show ?thesis by (simp add: addr_loop_ok has_addr_def [of a d] strcpy_def)
  qed
qed simp

text \<open>The address that is looked for.\<close>

definition dest_addr :: "pcap_lib \<Rightarrow> u32 \<Rightarrow> string \<Rightarrow> u32" where
  "dest_addr lib garbage ip = (case inet_pton lib ip of Some a \<Rightarrow> a | None \<Rightarrow> garbage)"

definition found_device :: "pcap_lib \<Rightarrow> u32 \<Rightarrow> string \<Rightarrow> pcap_if option" where
  "found_device lib garbage ip =
     (if fst (pcap_findalldevs lib) < 0 then None
      else find (has_addr (dest_addr lib garbage ip)) (snd (pcap_findalldevs lib)))"

lemma pcap_find_device_run:
  "devs_ok (snd (pcap_findalldevs lib)) \<Longrightarrow> pcap_find_device lib garbage 256 ip =
    Some (case found_device lib garbage ip of Some d \<Rightarrow> (0, Some (if_name d)) | None \<Rightarrow> (- 1, None))"
  by (simp add: pcap_find_device_def found_device_def dest_addr_def find_loop_ok case_prod_beta)

text \<open>
  The list: one line for each device with an IPv4 address, numbered from 0. The name stands behind \<open>IP:\<close> and
  the address behind \<open>name:\<close>, since the arguments are in the wrong order.
\<close>

definition ipv4_addrs :: "pcap_if \<Rightarrow> u32 list" where
  "ipv4_addrs d = map (sin_addr \<circ> the) (filter (\<lambda>p. sa_family (the p) = AF_INET) (if_addresses d))"

definition shown_name :: "pcap_if \<Rightarrow> string" where
  "shown_name d = (case if_description d of None \<Rightarrow> if_name d | Some t \<Rightarrow> t)"

definition shown_devices :: "pcap_if list \<Rightarrow> pcap_if list" where
  "shown_devices devs = filter (\<lambda>d. ipv4_addrs d \<noteq> []) devs"

lemma show_addr_loop_ok:
  "None \<notin> set as \<Longrightarrow> show_addr_loop lib n d as =
    Some (case map (sin_addr \<circ> the) (filter (\<lambda>p. sa_family (the p) = AF_INET) as) of
      [] \<Rightarrow> [] | a # _ \<Rightarrow> [(n, shown_name d, inet_ntop lib a)])"
proof (induction as)
  case (Cons p as)
  then obtain s where "p = Some s" by (cases p) auto
  with Cons show ?case by (cases s) (auto simp: shown_name_def)
qed simp

lemma show_loop_ok:
  "devs_ok devs \<Longrightarrow> show_loop lib n devs =
    Some (map (\<lambda>(i, d). (i, shown_name d, inet_ntop lib (hd (ipv4_addrs d)))) (enumerate n (shown_devices devs)))"
proof (induction devs arbitrary: n)
  case (Cons d devs)
  then have IH: "show_loop lib m devs = Some (map (\<lambda>(i, d). (i, shown_name d, inet_ntop lib (hd (ipv4_addrs d))))
      (enumerate m (shown_devices devs)))" for m by (simp add: devs_ok_def)
  have line: "show_addr_loop lib n d (if_addresses d) =
      Some (case ipv4_addrs d of [] \<Rightarrow> [] | a # _ \<Rightarrow> [(n, shown_name d, inet_ntop lib a)])"
    using Cons.prems by (simp add: show_addr_loop_ok devs_ok_def ipv4_addrs_def)
  show ?case
  proof (cases "if_addresses d = []")
    case True
    then show ?thesis using IH by (simp add: shown_devices_def ipv4_addrs_def)
  next
    case False
    then show ?thesis using line IH by (cases "ipv4_addrs d") (simp_all add: shown_devices_def)
  qed
qed (simp add: shown_devices_def)

lemma enumerate_Nil [simp]: "enumerate n xs = [] \<longleftrightarrow> xs = []"
  by (cases xs) simp_all

lemma pcap_show_list_run:
  assumes "devs_ok (snd (pcap_findalldevs lib))"
  shows "\<exists>rc lines. pcap_show_list lib = Some (rc, lines)"
    and "0 \<le> fst (pcap_findalldevs lib) \<Longrightarrow> pcap_show_list lib =
      (let devs = shown_devices (snd (pcap_findalldevs lib))
       in Some (if devs = [] then - 1 else 0,
                map (\<lambda>(i, d). (i, shown_name d, inet_ntop lib (hd (ipv4_addrs d)))) (enumerate 0 devs)))"
  using show_loop_ok [OF assms] by (auto simp: pcap_show_list_def case_prod_beta shown_devices_def)

subsection \<open>The calls on the handle\<close>

lemma mac_text_length: "bs \<noteq> [] \<Longrightarrow> length (mac_text bs) = 3 * length bs - 1"
  by (induction bs rule: mac_text.induct) (auto simp: hex2_def)

lemma filter_exp_fits: "length mac = 6 \<Longrightarrow> strcpy 256 (filter_exp mac) = Some (filter_exp mac)"
proof -
  assume "length mac = 6"
  then have "length (mac_text mac) = 17" using mac_text_length [of mac] by (cases mac) auto
  then show ?thesis by (simp add: strcpy_def filter_exp_def)
qed

text \<open>All calls of a list answer 0 when they are made one after the other.\<close>

fun all_zero :: "pcap_lib \<Rightarrow> pcap_call list \<Rightarrow> pcap_call list \<Rightarrow> bool" where
  "all_zero lib calls [] \<longleftrightarrow> True"
| "all_zero lib calls (c # cs) \<longleftrightarrow> pcap_answer lib calls c = 0 \<and> all_zero lib (calls @ [c]) cs"

lemma call_all_ok: "all_zero lib calls cs \<Longrightarrow> call_all lib calls cs = (True, calls @ cs)"
  by (induction cs arbitrary: calls) (simp_all add: pcap_call_def)

lemma all_zero_nth: "all_zero lib calls cs \<longleftrightarrow> (\<forall>i < length cs. pcap_answer lib (calls @ take i cs) (cs ! i) = 0)"
proof (induction cs arbitrary: calls)
  case (Cons c cs)
  show ?case unfolding all_zero.simps Cons by (auto simp: less_Suc_eq_0_disj)
qed simp

text \<open>The first call that fails is the last one.\<close>

lemma call_all_fails:
  "\<not> all_zero lib calls cs \<Longrightarrow> \<exists>n < length cs. call_all lib calls cs = (False, calls @ take (Suc n) cs)
    \<and> pcap_answer lib (calls @ take n cs) (cs ! n) \<noteq> 0 \<and> (\<forall>i < n. pcap_answer lib (calls @ take i cs) (cs ! i) = 0)"
proof (induction cs arbitrary: calls)
  case (Cons c cs)
  show ?case
  proof (cases "pcap_answer lib calls c = 0")
    case True
    with Cons.prems have "\<not> all_zero lib (calls @ [c]) cs" by simp
    from Cons.IH [OF this] obtain n where "n < length cs"
      "call_all lib (calls @ [c]) cs = (False, (calls @ [c]) @ take (Suc n) cs)"
      "pcap_answer lib ((calls @ [c]) @ take n cs) (cs ! n) \<noteq> 0"
      "\<forall>i < n. pcap_answer lib ((calls @ [c]) @ take i cs) (cs ! i) = 0" by blast
    with True show ?thesis by (intro exI [of _ "Suc n"]) (auto simp: pcap_call_def less_Suc_eq_0_disj)
  next
    case False
    then show ?thesis by (intro exI [of _ 0]) (simp add: pcap_call_def)
  qed
qed simp

text \<open>A call of the sequence succeeds: the six set-up calls answer 0, the last two do not answer -1.\<close>

definition call_succeeds :: "pcap_lib \<Rightarrow> pcap_call list \<Rightarrow> nat \<Rightarrow> bool" where
  "call_succeeds lib calls i \<longleftrightarrow>
     (if i < 6 then pcap_answer lib (take i calls) (calls ! i) = 0 else pcap_answer lib (take i calls) (calls ! i) \<noteq> - 1)"

text \<open>The calls go on up to the first one that fails.\<close>

definition calls_made :: "pcap_lib \<Rightarrow> pcap_call list \<Rightarrow> nat \<Rightarrow> bool" where
  "calls_made lib calls n \<longleftrightarrow> 0 < n \<and> n \<le> length calls \<and> (\<forall>i. i + 1 < n \<longrightarrow> call_succeeds lib calls i)
     \<and> (n < length calls \<longrightarrow> \<not> call_succeeds lib calls (n - 1))"

lemma device_calls:
  assumes ok: "devs_ok (snd (pcap_findalldevs lib))" and mac: "length mac = 6"
    and found: "found_device lib garbage ip = Some d" and create: "pcap_create lib (if_name d)"
    and net: "net = (case pcap_lookupnet lib (if_name d) of (rc, net) \<Rightarrow> if rc = - 1 then 0 else net)"
    and calls: "calls = setup_calls @ [Pcap_compile (filter_exp mac) 0 net, Pcap_setfilter]"
  shows "\<exists>n. calls_made lib calls n
     \<and> pcap_device_open lib garbage ip mac = Some (n = 8 \<and> call_succeeds lib calls 7, Some (if_name d), take n calls)"
proof -
  have m: "bytes_get mac 0 6 = Some mac" using mac by (simp add: bytes_get_def)
  note run = pcap_device_open_def load_pcap_lib_def pcap_find_device_run [OF ok] found create m filter_exp_fits [OF mac]
    net [symmetric] pcap_call_def
  have len: "length setup_calls = 6" by (simp add: setup_calls_def)
  have nth: "calls ! i = setup_calls ! i" "take i calls = take i setup_calls" if "i < 6" for i
    using that len by (simp_all add: calls nth_append)
  have last: "calls ! 6 = Pcap_compile (filter_exp mac) 0 net" "calls ! 7 = Pcap_setfilter" "take 6 calls = setup_calls"
    "take 7 calls = setup_calls @ [Pcap_compile (filter_exp mac) 0 net]" "take 8 calls = calls" "length calls = 8"
    by (simp_all add: calls len nth_append)
  show ?thesis
  proof (cases "all_zero lib [] setup_calls")
    case True
    then have six: "call_succeeds lib calls i" if "i < 6" for i
      using that nth [OF that] all_zero_nth [of lib "[]" setup_calls] len by (simp add: call_succeeds_def)
    note r = run call_all_ok [OF True]
    show ?thesis
    proof (cases "call_succeeds lib calls 6")
      case False
      then have "calls_made lib calls 7" using six last(6) by (simp add: calls_made_def)
      then show ?thesis using False last by (intro exI [of _ 7]) (simp add: r call_succeeds_def split: prod.split)
    next
      case s6: True
      then have "call_succeeds lib calls i" if "i < 7" for i using that six [of i] by (cases "i = 6") auto
      then have "calls_made lib calls 8" using last(6) by (simp add: calls_made_def)
      then show ?thesis using s6 last by (intro exI [of _ 8]) (simp add: r call_succeeds_def calls split: prod.split)
    qed
  next
    case False
    from call_all_fails [OF this] obtain n where n: "n < 6" "call_all lib [] setup_calls = (False, take (Suc n) setup_calls)"
      "pcap_answer lib (take n setup_calls) (setup_calls ! n) \<noteq> 0"
      "\<forall>i < n. pcap_answer lib (take i setup_calls) (setup_calls ! i) = 0" by (auto simp: len)
    have "\<not> call_succeeds lib calls n" "\<forall>i < n. call_succeeds lib calls i" using n nth by (simp_all add: call_succeeds_def)
    then have "calls_made lib calls (Suc n)" using n(1) last(6) by (simp add: calls_made_def)
    moreover have "take (Suc n) calls = take (Suc n) setup_calls" using n(1) len by (simp add: calls)
    ultimately show ?thesis using n(1,2) by (intro exI [of _ "Suc n"]) (simp add: run split: prod.split)
  qed
qed

lemma device_not_opened:
  assumes ok: "devs_ok (snd (pcap_findalldevs lib))"
    and no: "found_device lib garbage ip = None \<or> (\<exists>d. found_device lib garbage ip = Some d \<and> \<not> pcap_create lib (if_name d))"
  shows "pcap_device_open lib garbage ip mac = Some (False, None, [])"
proof -
  obtain rc lines where "pcap_show_list lib = Some (rc, lines)" using pcap_show_list_run(1) [OF ok] by blast
  then show ?thesis using no
    by (auto simp: pcap_device_open_def load_pcap_lib_def pcap_find_device_run [OF ok])
qed

lemma unat_less_256: "unat (b :: u8) < 256"
  using unsigned_less [of b] by simp

lemma hex2_text: "hex2 b = [''0123456789abcdef'' ! (unat b div 16), ''0123456789abcdef'' ! (unat b mod 16)]"
proof -
  have digit: "hex_digit n = ''0123456789abcdef'' ! n" if "n < 16" for n
  proof -
    have "n \<in> set [0 ..< 16]" using that by simp
    then show ?thesis by (auto simp: upt_rec hex_digit_def char_of_def bit_0 simp del: set_upt)
  qed
  have "unat b div 16 < 16" using unat_less_256 [of b] by (simp add: div_less_iff_less_mult)
  then show ?thesis by (simp add: hex2_def digit)
qed

subsection \<open>Properties\<close>

text \<open>
  C36. pcap_find_device finds the same device as a search for the first one that has the wanted address among
its IPv4 addresses: it returns 0 with that device's name, or -1. The wanted address is arbitrary when the
text is no address, because the result of inet_pton is ignored.\<close>

theorem pcap_find_device_first:
  assumes "devs_ok (snd (pcap_findalldevs lib))"
  shows "pcap_find_device lib garbage 256 ip =
    Some (if fst (pcap_findalldevs lib) < 0 then (- 1, None)
      else case find (\<lambda>d. Some \<lparr>sa_family = AF_INET,
            sin_addr = case inet_pton lib ip of Some a \<Rightarrow> a | None \<Rightarrow> garbage\<rparr> \<in> set (if_addresses d))
          (snd (pcap_findalldevs lib)) of
        Some d \<Rightarrow> (0, Some (if_name d)) | None \<Rightarrow> (- 1, None))"
  using pcap_find_device_run [OF assms]
  by (simp add: found_device_def has_addr_def [abs_def] dest_addr_def)

text \<open>Two devices, and a library on which everything succeeds.\<close>

definition demo_devs :: "pcap_if list" where
  "demo_devs =
     [\<lparr>if_name = ''lo'', if_description = None, if_addresses = [Some \<lparr>sa_family = 2, sin_addr = 0x0100007F\<rparr>]\<rparr>,
      \<lparr>if_name = ''eth0'', if_description = Some ''card'',
       if_addresses = [Some \<lparr>sa_family = 17, sin_addr = 0\<rparr>, Some \<lparr>sa_family = 2, sin_addr = 0x0A01A8C0\<rparr>]\<rparr>]"

definition demo_pcap :: pcap_lib where
  "demo_pcap = \<lparr>inet_pton = (\<lambda>t. if t = ''192.168.1.10'' then Some 0x0A01A8C0 else None), inet_ntop = (\<lambda>_. ''a''),
     pcap_findalldevs = (0, demo_devs), pcap_lookupnet = (\<lambda>_. (0, 0x0001A8C0)), pcap_create = (\<lambda>_. True),
     pcap_answer = (\<lambda>_ _. 0)\<rparr>"

lemma demo_devs_ok: "devs_ok (snd (pcap_findalldevs demo_pcap))"
  by (simp add: devs_ok_def demo_pcap_def demo_devs_def)

theorem pcap_find_device_first_witness:
  "pcap_find_device demo_pcap 7 256 ''192.168.1.10'' = Some (0, Some ''eth0'')
    \<and> pcap_find_device demo_pcap 0x0100007F 256 ''no address'' = Some (0, Some ''lo'')"
  unfolding pcap_find_device_first [OF demo_devs_ok] by (simp add: demo_pcap_def demo_devs_def AF_INET_def)

text \<open>
  C37. \<open>pcap_device_open\<close> with a hardware address of six bytes gives no handle and calls nothing when no device has the IP
  address or \<open>pcap_create\<close> fails. Otherwise it makes these eight calls on the handle in this order, up to the first one
  that fails: snapshot length 65536, promiscuous mode, timeout 0, immediate mode, activate, \<open>pcap_setnonblock\<close>
  with 0, compile, set filter; the first six fail with any code but 0, the last two with -1. The handle is returned exactly
  if none fails. The filter fits its buffer; it lets frames to the hardware address, written with lower-case
  hexadecimal digits, and broadcasts pass that do not come from that address, on the network of the device, or 0 if
  that cannot be found.
\<close>

theorem pcap_device_open_outcome:
  assumes "devs_ok (snd (pcap_findalldevs lib))"
  shows "let hex = (\<lambda>b. [''0123456789abcdef'' ! (unat b div 16), ''0123456789abcdef'' ! (unat b mod 16)]);
      mac = hex b0 @ '':'' @ hex b1 @ '':'' @ hex b2 @ '':'' @ hex b3 @ '':'' @ hex b4 @ '':'' @ hex b5
    in case found_device lib garbage ip of
         None \<Rightarrow> pcap_device_open lib garbage ip [b0, b1, b2, b3, b4, b5] = Some (False, None, [])
       | Some d \<Rightarrow>
           if \<not> pcap_create lib (if_name d) then pcap_device_open lib garbage ip [b0, b1, b2, b3, b4, b5] = Some (False, None, [])
           else let calls = [Pcap_set_snaplen 65536, Pcap_set_promisc 1, Pcap_set_timeout 0, Pcap_set_immediate_mode 1,
                    Pcap_activate, Pcap_setnonblock 0,
                    Pcap_compile (''(ether dst '' @ mac @ '' or ether broadcast) and (not ether src '' @ mac @ '')'') 0
                      (case pcap_lookupnet lib (if_name d) of (rc, net) \<Rightarrow> if rc = - 1 then 0 else net),
                    Pcap_setfilter]
             in \<exists>n. calls_made lib calls n \<and> pcap_device_open lib garbage ip [b0, b1, b2, b3, b4, b5]
                  = Some (n = 8 \<and> call_succeeds lib calls 7, Some (if_name d), take n calls)"
proof (cases "\<exists>d. found_device lib garbage ip = Some d \<and> pcap_create lib (if_name d)")
  case True
  then obtain d where d: "found_device lib garbage ip = Some d" "pcap_create lib (if_name d)" by blast
  have "length [b0, b1, b2, b3, b4, b5] = 6" by simp
  from device_calls [OF assms this d refl refl] show ?thesis
    using d by (simp add: Let_def setup_calls_def filter_exp_def hex2_text)
next
  case False
  with device_not_opened [OF assms] show ?thesis by (auto simp: Let_def split: option.split)
qed

theorem pcap_device_open_outcome_witness:
  "pcap_device_open demo_pcap 7 ''192.168.1.10'' [0, 1, 2, 0xAB, 4, 0xFF] = Some (True, Some ''eth0'',
    [Pcap_set_snaplen 65536, Pcap_set_promisc 1, Pcap_set_timeout 0, Pcap_set_immediate_mode 1, Pcap_activate, Pcap_setnonblock 0,
     Pcap_compile ''(ether dst 00:01:02:ab:04:ff or ether broadcast) and (not ether src 00:01:02:ab:04:ff)'' 0 0x0001A8C0,
     Pcap_setfilter])"
proof -
  have f: "found_device demo_pcap 7 ''192.168.1.10'' = Some (demo_devs ! 1)"
    by (simp add: found_device_def dest_addr_def has_addr_def demo_pcap_def demo_devs_def AF_INET_def)
  have d: "pcap_create demo_pcap x" "pcap_lookupnet demo_pcap x = (0, 0x0001A8C0)" "pcap_answer demo_pcap cs c = 0" for x cs c
    by (simp_all add: demo_pcap_def)
  have s: "call_succeeds demo_pcap cs i" for cs i by (simp add: call_succeeds_def d)
  have n: "if_name (demo_devs ! Suc 0) = ''eth0''" by (simp add: demo_devs_def)
  have made: "calls_made demo_pcap cs n \<Longrightarrow> n = length cs" for cs n by (auto simp: calls_made_def s)
  show ?thesis
    using pcap_device_open_outcome [OF demo_devs_ok, where garbage = 7 and ip = "''192.168.1.10''"
        and ?b0.0 = 0 and ?b1.0 = 1 and ?b2.0 = 2 and ?b3.0 = "0xAB" and ?b4.0 = 4 and ?b5.0 = "0xFF"]
    by (auto simp: f d n s Let_def dest!: made)
qed

end
