(* ===== verification/PktPrint.thy ===== *)
theory PktPrint
  imports LinkLayer Endian PktBuf
begin

text \<open>
  The text forms for debugging: hexadecimal dumps (\<open>src/util.cc\<close>), the header and the data of an Ethernet
  frame (\<open>src/net/link_layer.cc\<close>), the sizes of the blocks of a packet (\<open>src/net/pktbuf.cc\<close>), stack traces and failed
  assertions (\<open>src/util.cc\<close>, \<open>src/macro.h\<close>); and the clock functions of \<open>src/util.cc\<close>.
\<close>

text \<open>A \<open>std::string\<close> of bytes, each printed with two digits and a blank.\<close>

definition string_to_hex :: "u8 list \<Rightarrow> string" where
  "string_to_hex str = concat (map (\<lambda>b. hex2 b @ '' '') str)"

text \<open>A pair prints its string as it is or in hexadecimal.\<close>

definition pair_to_string :: "u8 list \<times> bool \<Rightarrow> string" where
  "pair_to_string p = (if snd p then string_to_hex (fst p) else map (\<lambda>b. char_of (unat b)) (fst p))"

text \<open>Four digits, filled up with zeros.\<close>

definition hex4 :: "u16 \<Rightarrow> string" where
  "hex4 w = hex2 (of_nat (unat w div 256)) @ hex2 (of_nat (unat w mod 256))"

text \<open>A header in memory.\<close>

definition ether_hdr_to_string :: "byte_order \<Rightarrow> u8 list \<Rightarrow> string option" where
  "ether_hdr_to_string ord hdr = do {
     dest \<leftarrow> bytes_get hdr (off_dest ether_hdr) ETHER_HWA_SIZE;
     dest \<leftarrow> hwaddr_to_string dest;
     src \<leftarrow> bytes_get hdr (off_src ether_hdr) ETHER_HWA_SIZE;
     src \<leftarrow> hwaddr_to_string src;
     protocol \<leftarrow> bytes_get hdr (off_protocol ether_hdr) 2;
     Some (''dest='' @ dest @ ''; src='' @ src @ ''; protocol='' @ hex4 (net_to_host_16 ord (of_mem_bytes ord protocol)))
   }"

text \<open>The bytes behind the header; the caller's size may reach beyond the packet.\<close>

definition ether_pkt_data_to_string :: "u8 list \<Rightarrow> u32 \<Rightarrow> u8 list option" where
  "ether_pkt_data_to_string pkt sz = bytes_get pkt (sizeof_ether_hdr ether_hdr) (unat sz)"

definition debug_print_ether_pkt :: "byte_order \<Rightarrow> u8 list \<Rightarrow> u32 \<Rightarrow> string option" where
  "debug_print_ether_pkt ord pkt sz = do {
     hdr \<leftarrow> ether_hdr_to_string ord pkt;
     data \<leftarrow> ether_pkt_data_to_string pkt sz;
     Some (hdr @ [char_of (10::nat)] @ ''data='' @ pair_to_string (data, True) @ [char_of (10::nat)])
   }"

text \<open>Milliseconds and microseconds of a time in seconds and microseconds, in 64 bits.\<close>

definition get_current_ms :: "u64 \<times> u64 \<Rightarrow> u64" where
  "get_current_ms tv = fst tv * 1000 + snd tv div 1000"

definition get_current_us :: "u64 \<times> u64 \<Rightarrow> u64" where
  "get_current_us tv = fst tv * 1000 * 1000 + snd tv"

subsection \<open>Reading a dump\<close>

definition digit_val :: "char \<Rightarrow> nat" where
  "digit_val c = (let n = of_char c in if n < 58 then n - 48 else n - 87)"

fun hex_bytes :: "string \<Rightarrow> u8 list option" where
  "hex_bytes [] = Some []"
| "hex_bytes (a # b # c # rest) =
     (if c = CHR '' '' then map_option ((#) (of_nat (16 * digit_val a + digit_val b))) (hex_bytes rest) else None)"
| "hex_bytes _ = None"

lemma digit_val_hex: "n < 16 \<Longrightarrow> digit_val (hex_digit n) = n"
  by (auto simp: digit_val_def hex_digit_def Let_def of_char_of)

lemma unat_u8_less: "unat (b :: u8) < 256"
  using unsigned_less [of b] by simp

lemma hex_bytes_dump: "hex_bytes (string_to_hex bs) = Some bs"
proof (induction bs)
  case (Cons b bs)
  have "unat b div 16 < 16" "unat b mod 16 < 16" using unat_u8_less [of b] by simp_all
  then have "of_nat (16 * digit_val (hex_digit (unat b div 16)) + digit_val (hex_digit (unat b mod 16))) = b"
    by (simp only: digit_val_hex mult_div_mod_eq) simp
  then show ?case using Cons by (simp add: string_to_hex_def hex2_def)
qed (simp add: string_to_hex_def)

text \<open>The milliseconds are those of the microseconds, as long as these do not overflow.\<close>

lemma current_ms_of_us:
  assumes "unat s * 1000000 + unat us < 2 ^ 64"
  shows "unat (get_current_ms (s, us)) = unat (get_current_us (s, us)) div 1000"
proof -
  have a: "unat (s * 1000 * 1000) = unat s * 1000000" "unat (s * 1000) = unat s * 1000"
    using assms by (simp_all add: unat_word_ariths)
  have "unat (get_current_us (s, us)) = unat s * 1000000 + unat us"
    using assms a by (simp add: get_current_us_def unat_word_ariths)
  moreover have "unat (get_current_ms (s, us)) = unat s * 1000 + unat us div 1000"
    using assms a by (simp add: get_current_ms_def unat_word_ariths)
  ultimately show ?thesis by simp
qed

subsection \<open>The blocks of a packet\<close>

text \<open>
  \<open>PktBuffer::debug_print\<close>: the bytes before, of and behind the data of each block, and whether it reports that they do
  not add up to the capacity.
\<close>

fun debug_print_loop :: "u32 \<Rightarrow> (addr \<rightharpoonup> pkt_block) \<Rightarrow> addr list \<Rightarrow> u64 \<Rightarrow> ((u64 \<times> u64 \<times> u64) list \<times> u64) option" where
  "debug_print_loop cfg h [] total_size = Some ([], total_size)"
| "debug_print_loop cfg h (a # as) total_size = do {
     blk \<leftarrow> h a;
     let pre_size = of_nat (blk_data blk);
     let use_size = ucast (blk_size blk);
     let last_size = of_int (int (unat cfg) - (int (blk_data blk) + int (unat use_size)));
     (lines, total) \<leftarrow> debug_print_loop cfg h as (total_size + use_size);
     Some ((pre_size, use_size, last_size) # lines, total)
   }"

definition debug_print :: "addr \<Rightarrow> pkt_store \<Rightarrow> ((u64 \<times> u64 \<times> u64) list \<times> bool) option" where
  "debug_print p st = do {
     b \<leftarrow> buf_heap st p;
     (lines, total_size) \<leftarrow> debug_print_loop (cfg_blk_size st) (blk_heap st) (buf_blk_list b) 0;
     Some (lines, total_size \<noteq> ucast (buf_capacity b))
   }"

lemma unat_ucast_64: "unat (ucast w :: u64) = unat w" for w :: u32
  using unat_u32_less [of w] by (simp add: unsigned_ucast_eq take_bit_nat_eq_self)

lemma debug_print_loop_run:
  assumes "blks_ok cfg h as" "unat total_size + length (blks_bytes h as) < 2 ^ 64"
  shows "\<exists>lines total. debug_print_loop cfg h as total_size = Some (lines, total)
     \<and> unat total = unat total_size + length (blks_bytes h as)
     \<and> list_all (\<lambda>(pre, use, last). unat pre + unat use + unat last = unat cfg) lines"
  using assms
proof (induction as arbitrary: total_size)
  case (Cons a as)
  obtain blk where blk: "h a = Some blk" "blk_ok cfg blk" "blks_ok cfg h as" using Cons.prems(1) by (auto simp: blks_ok_def)
  let ?use = "ucast (blk_size blk) :: u64"
  let ?last = "of_int (int (unat cfg) - (int (blk_data blk) + int (unat ?use))) :: u64"
  have use: "unat ?use = unat (blk_size blk)" by (rule unat_ucast_64)
  have fits: "blk_data blk + unat (blk_size blk) \<le> unat cfg" "length (blk_bytes blk) = unat (blk_size blk)"
    using blk(2) by (auto simp: blk_ok_def blk_bytes_def)
  have small: "unat cfg < 2 ^ 32" by (rule unat_u32_less)
  have len: "length (blks_bytes h (a # as)) = unat (blk_size blk) + length (blks_bytes h as)"
    using blk(1) fits(2) by (simp add: blks_bytes_def)
  have tot: "unat (total_size + ?use) = unat total_size + unat (blk_size blk)"
    using Cons.prems(2) len use by (simp add: unat_word_ariths)
  from Cons.IH [OF blk(3), of "total_size + ?use"] obtain lines total where
    r: "debug_print_loop cfg h as (total_size + ?use) = Some (lines, total)"
      "unat total = unat (total_size + ?use) + length (blks_bytes h as)"
      "list_all (\<lambda>(pre, use, last). unat pre + unat use + unat last = unat cfg) lines"
    using Cons.prems(2) len tot by auto
  have "unat (of_nat (blk_data blk) :: u64) = blk_data blk" using fits small by (simp add: unat_of_nat take_bit_eq_mod)
  moreover have "?last = of_nat (unat cfg - (blk_data blk + unat (blk_size blk)))"
    using fits(1) by (simp add: use of_nat_diff)
  then have "unat ?last = unat cfg - (blk_data blk + unat (blk_size blk))"
    using small by (simp add: unat_of_nat take_bit_eq_mod)
  ultimately show ?case using r blk(1) use fits(1) tot len by (simp add: Let_def)
qed (simp add: blks_bytes_def)

text \<open>A packet in order prints no error, and each line adds up to the size of a block.\<close>

lemma debug_print_consistent:
  assumes "pkt_inv st p rest"
  shows "\<exists>lines. debug_print p st = Some (lines, False)
     \<and> list_all (\<lambda>(pre, use, last). unat pre + unat use + unat last = unat (cfg_blk_size st)) lines"
proof -
  obtain b where b: "buf_heap st p = Some b" "blks_ok (cfg_blk_size st) (blk_heap st) (buf_blk_list b)"
    "length (blks_bytes (blk_heap st) (buf_blk_list b)) = unat (buf_capacity b)" using assms by (auto simp: pkt_inv_def)
  have "unat (buf_capacity b) < 2 ^ 32" by (rule unat_u32_less)
  with debug_print_loop_run [OF b(2), of 0] b(3) obtain lines total where
    r: "debug_print_loop (cfg_blk_size st) (blk_heap st) (buf_blk_list b) 0 = Some (lines, total)"
      "unat total = unat (buf_capacity b)"
      "list_all (\<lambda>(pre, use, last). unat pre + unat use + unat last = unat (cfg_blk_size st)) lines" by auto
  have "total = ucast (buf_capacity b)" using r(2) by (simp add: word_unat_eq_iff unat_ucast_64)
  then show ?thesis using b(1) r by (simp add: debug_print_def)
qed

subsection \<open>Stack traces\<close>

text \<open>
  \<open>stack\<close> are the frames of the calling thread, \<open>symbols\<close> is \<open>backtrace_symbols\<close>, which may fail. The texts of the frames
  behind the first \<open>skip\<close> ones are added to \<open>bt\<close>.
\<close>

definition back_trace :: "'frame list \<Rightarrow> ('frame list \<Rightarrow> string list option) \<Rightarrow> string list \<Rightarrow> nat \<Rightarrow> nat \<Rightarrow> string list" where
  "back_trace stack symbols bt sz skip =
     (let array = take sz stack; s = length array
      in case symbols array of
           None \<Rightarrow> bt
         | Some strings \<Rightarrow> bt @ map (\<lambda>i. strings ! i) [skip ..< s])"

definition back_trace_to_string :: "'frame list \<Rightarrow> ('frame list \<Rightarrow> string list option) \<Rightarrow> nat \<Rightarrow> nat \<Rightarrow> string \<Rightarrow> string" where
  "back_trace_to_string stack symbols sz skip prefix =
     concat (map (\<lambda>line. prefix @ line @ [char_of (10::nat)]) (back_trace stack symbols [] sz skip))"

text \<open>The assertion macros: the text that is logged before the assertion ends the program, or nothing when it holds.\<close>

definition tinytcp_assert :: "bool \<Rightarrow> string \<Rightarrow> 'frame list \<Rightarrow> ('frame list \<Rightarrow> string list option) \<Rightarrow> string option" where
  "tinytcp_assert x expr stack symbols =
     (if \<not> x then Some (''ASSERTION: '' @ expr @ [char_of (10::nat)] @ ''backtrace:'' @ [char_of (10::nat)]
                      @ back_trace_to_string stack symbols 100 2 ''    '')
      else None)"

definition tinytcp_assert2 :: "bool \<Rightarrow> string \<Rightarrow> string \<Rightarrow> 'frame list \<Rightarrow> ('frame list \<Rightarrow> string list option) \<Rightarrow> string option" where
  "tinytcp_assert2 x expr w stack symbols =
     (if \<not> x then Some (''ASSERTION: '' @ expr @ [char_of (10::nat)] @ w @ [char_of (10::nat)] @ ''backtrace:'' @ [char_of (10::nat)]
                      @ back_trace_to_string stack symbols 100 2 ''    '')
      else None)"

text \<open>With a symbol for each frame, the trace is that of the callers behind the first \<open>skip\<close> frames, at most \<open>sz\<close> deep.\<close>

lemma back_trace_frames:
  assumes "\<And>frames. symbols frames = Some (map text frames)"
  shows "back_trace stack symbols bt sz skip = bt @ map text (drop skip (take sz stack))"
proof -
  have "map ((!) ys) [skip ..< length ys] = drop skip ys" for ys :: "string list"
    by (metis add_0 drop_map drop_upt map_nth)
  from this [of "map text (take sz stack)"] show ?thesis by (simp add: back_trace_def assms drop_map Let_def)
qed

end
