(* ===== verification/Locks.thy ===== *)
theory Locks
  imports Prelude
begin

text \<open>
  The locks of \<open>src/mutex.h\<close> and \<open>src/mutex.cc\<close> and the scoped locks that hold them. The pthread objects
  behave as POSIX documents them: \<open>None\<close> is a call that cannot return while the lock stays as it is, or has
  undefined behaviour (unlocking what the thread does not hold, destroying a lock that is in use). A call
  that locks comes with the code \<open>rc\<close> that the pthread function returns, 0 when the thread has got the lock. The
  program looks at none of these codes.
\<close>

definition EAGAIN :: int where "EAGAIN = 11"

definition EDEADLK :: int where "EDEADLK = 35"

subsection \<open>\<open>Mutex\<close> and \<open>SpinLock\<close>\<close>

text \<open>
  The thread that holds it. \<open>posix_lock\<close> are \<open>pthread_mutex_lock\<close> and \<open>pthread_spin_lock\<close>, which may report a deadlock when
  the caller holds the lock.
\<close>

type_synonym lock = "nat option"

definition posix_lock :: "int \<Rightarrow> nat \<Rightarrow> lock \<Rightarrow> lock option" where
  "posix_lock rc t m =
     (if rc = 0 then (if m = None then Some (Some t) else None)
      else if rc = EDEADLK \<and> m = Some t then Some m else None)"

definition mutex_new :: lock where "mutex_new = None"

definition mutex_del :: "lock \<Rightarrow> unit option" where
  "mutex_del m = check (m = None)"

definition mutex_lock :: "int \<Rightarrow> nat \<Rightarrow> lock \<Rightarrow> lock option" where
  "mutex_lock rc t m = posix_lock rc t m"

definition mutex_unlock :: "nat \<Rightarrow> lock \<Rightarrow> lock option" where
  "mutex_unlock t m = (if m = Some t then Some None else None)"

definition spin_new :: lock where "spin_new = None"

definition spin_del :: "lock \<Rightarrow> unit option" where
  "spin_del m = check (m = None)"

definition spin_lock :: "int \<Rightarrow> nat \<Rightarrow> lock \<Rightarrow> lock option" where
  "spin_lock rc t m = posix_lock rc t m"

definition spin_unlock :: "nat \<Rightarrow> lock \<Rightarrow> lock option" where
  "spin_unlock t m = (if m = Some t then Some None else None)"

definition lock_held :: "lock \<Rightarrow> nat \<Rightarrow> nat" where
  "lock_held m t = (if m = Some t then 1 else 0)"

subsection \<open>\<open>RWMutex\<close>\<close>

text \<open>The writer, and how often each thread holds it for reading.\<close>

record rwlock =
  rw_writer :: "nat option"
  rw_readers :: "nat list"

definition rw_new :: rwlock where
  "rw_new = \<lparr>rw_writer = None, rw_readers = []\<rparr>"

definition rw_del :: "rwlock \<Rightarrow> unit option" where
  "rw_del rw = check (rw_writer rw = None \<and> rw_readers rw = [])"

text \<open>
  \<open>pthread_rwlock_rdlock\<close> and \<open>pthread_rwlock_wrlock\<close>: they may report a deadlock when the caller holds the lock for writing, the second
  one also when it holds it for reading, and the first one may report that there are too many readers.
\<close>

definition posix_rdlock :: "int \<Rightarrow> nat \<Rightarrow> rwlock \<Rightarrow> rwlock option" where
  "posix_rdlock rc t rw =
     (if rc = 0 then (if rw_writer rw = None then Some (rw\<lparr>rw_readers := t # rw_readers rw\<rparr>) else None)
      else if rc = EDEADLK \<and> rw_writer rw = Some t \<or> rc = EAGAIN then Some rw else None)"

definition posix_wrlock :: "int \<Rightarrow> nat \<Rightarrow> rwlock \<Rightarrow> rwlock option" where
  "posix_wrlock rc t rw =
     (if rc = 0 then (if rw_writer rw = None \<and> rw_readers rw = [] then Some (rw\<lparr>rw_writer := Some t\<rparr>) else None)
      else if rc = EDEADLK \<and> (rw_writer rw = Some t \<or> t \<in> set (rw_readers rw)) then Some rw else None)"

definition rdlock :: "int \<Rightarrow> nat \<Rightarrow> rwlock \<Rightarrow> rwlock option" where
  "rdlock rc t rw = posix_rdlock rc t rw"

definition wrlock :: "int \<Rightarrow> nat \<Rightarrow> rwlock \<Rightarrow> rwlock option" where
  "wrlock rc t rw = posix_wrlock rc t rw"

lemmas lock_defs = mutex_lock_def spin_lock_def posix_lock_def rdlock_def wrlock_def posix_rdlock_def posix_wrlock_def EAGAIN_def EDEADLK_def

definition rw_unlock :: "nat \<Rightarrow> rwlock \<Rightarrow> rwlock option" where
  "rw_unlock t rw =
     (if rw_writer rw = Some t then Some (rw\<lparr>rw_writer := None\<rparr>)
      else if t \<in> set (rw_readers rw) then Some (rw\<lparr>rw_readers := remove1 t (rw_readers rw)\<rparr>)
      else None)"

definition rw_held :: "rwlock \<Rightarrow> nat \<Rightarrow> nat" where
  "rw_held rw t = (if rw_writer rw = Some t then 1 else 0) + count_list (rw_readers rw) t"

subsection \<open>Scoped locks\<close>

text \<open>
  The templates \<open>ScopedLockImpl\<close>, \<open>ReadScopedLockImpl\<close> and \<open>WriteScopedLockImpl\<close> differ in the function that
  locks. The state is \<open>m_locked\<close> and the lock it refers to.
\<close>

definition scoped_new :: "(int \<Rightarrow> nat \<Rightarrow> 'm \<Rightarrow> 'm option) \<Rightarrow> int \<Rightarrow> nat \<Rightarrow> 'm \<Rightarrow> (bool \<times> 'm) option" where
  "scoped_new acquire rc t m = do { m \<leftarrow> acquire rc t m; Some (True, m) }"

definition scoped_lock :: "(int \<Rightarrow> nat \<Rightarrow> 'm \<Rightarrow> 'm option) \<Rightarrow> int \<Rightarrow> nat \<Rightarrow> bool \<times> 'm \<Rightarrow> (bool \<times> 'm) option" where
  "scoped_lock acquire rc t g =
     (if \<not> fst g then do { m \<leftarrow> acquire rc t (snd g); Some (True, m) } else Some g)"

definition scoped_unlock :: "(nat \<Rightarrow> 'm \<Rightarrow> 'm option) \<Rightarrow> nat \<Rightarrow> bool \<times> 'm \<Rightarrow> (bool \<times> 'm) option" where
  "scoped_unlock release t g =
     (if fst g then do { m \<leftarrow> release t (snd g); Some (False, m) } else Some g)"

definition scoped_del :: "(nat \<Rightarrow> 'm \<Rightarrow> 'm option) \<Rightarrow> nat \<Rightarrow> bool \<times> 'm \<Rightarrow> 'm option" where
  "scoped_del release t g = do { (_, m) \<leftarrow> scoped_unlock release t g; Some m }"

definition read_scoped_new :: "int \<Rightarrow> nat \<Rightarrow> rwlock \<Rightarrow> (bool \<times> rwlock) option" where
  "read_scoped_new rc t m = do { m \<leftarrow> rdlock rc t m; Some (True, m) }"

definition read_scoped_lock :: "int \<Rightarrow> nat \<Rightarrow> bool \<times> rwlock \<Rightarrow> (bool \<times> rwlock) option" where
  "read_scoped_lock rc t g = (if \<not> fst g then do { m \<leftarrow> rdlock rc t (snd g); Some (True, m) } else Some g)"

definition read_scoped_unlock :: "nat \<Rightarrow> bool \<times> rwlock \<Rightarrow> (bool \<times> rwlock) option" where
  "read_scoped_unlock t g = (if fst g then do { m \<leftarrow> rw_unlock t (snd g); Some (False, m) } else Some g)"

definition write_scoped_new :: "int \<Rightarrow> nat \<Rightarrow> rwlock \<Rightarrow> (bool \<times> rwlock) option" where
  "write_scoped_new rc t m = do { m \<leftarrow> wrlock rc t m; Some (True, m) }"

definition write_scoped_lock :: "int \<Rightarrow> nat \<Rightarrow> bool \<times> rwlock \<Rightarrow> (bool \<times> rwlock) option" where
  "write_scoped_lock rc t g = (if \<not> fst g then do { m \<leftarrow> wrlock rc t (snd g); Some (True, m) } else Some g)"

definition write_scoped_unlock :: "nat \<Rightarrow> bool \<times> rwlock \<Rightarrow> (bool \<times> rwlock) option" where
  "write_scoped_unlock t g = (if fst g then do { m \<leftarrow> rw_unlock t (snd g); Some (False, m) } else Some g)"

lemma rw_scoped:
  "read_scoped_new = scoped_new rdlock" "read_scoped_lock = scoped_lock rdlock"
  "read_scoped_unlock = scoped_unlock rw_unlock" "write_scoped_new = scoped_new wrlock"
  "write_scoped_lock = scoped_lock wrlock" "write_scoped_unlock = scoped_unlock rw_unlock"
  by (simp_all add: fun_eq_iff read_scoped_new_def read_scoped_lock_def read_scoped_unlock_def write_scoped_new_def
      write_scoped_lock_def write_scoped_unlock_def scoped_new_def scoped_lock_def scoped_unlock_def)

text \<open>
  The life of a scoped lock of thread \<open>t\<close>: calls of \<open>lock\<close> and \<open>unlock\<close>, and between them other threads, which
  lock, in one of the given ways, and unlock as they can.
\<close>

datatype 'm scope_event = Scope_lock int | Scope_unlock | Other_acquire nat int nat | Other_release nat

fun scope_event_step :: "(int \<Rightarrow> nat \<Rightarrow> 'm \<Rightarrow> 'm option) \<Rightarrow> (int \<Rightarrow> nat \<Rightarrow> 'm \<Rightarrow> 'm option) list \<Rightarrow> (nat \<Rightarrow> 'm \<Rightarrow> 'm option)
    \<Rightarrow> nat \<Rightarrow> 'm scope_event \<Rightarrow> bool \<times> 'm \<Rightarrow> (bool \<times> 'm) option" where
  "scope_event_step acquire ways release t (Scope_lock rc) g = scoped_lock acquire rc t g"
| "scope_event_step acquire ways release t Scope_unlock g = scoped_unlock release t g"
| "scope_event_step acquire ways release t (Other_acquire i rc u) g =
     (if u = t then None else do { acq \<leftarrow> nth_opt ways i; m \<leftarrow> acq rc u (snd g); Some (fst g, m) })"
| "scope_event_step acquire ways release t (Other_release u) g =
     (if u = t then None else do { m \<leftarrow> release u (snd g); Some (fst g, m) })"

fun scope_run :: "(int \<Rightarrow> nat \<Rightarrow> 'm \<Rightarrow> 'm option) \<Rightarrow> (int \<Rightarrow> nat \<Rightarrow> 'm \<Rightarrow> 'm option) list \<Rightarrow> (nat \<Rightarrow> 'm \<Rightarrow> 'm option)
    \<Rightarrow> nat \<Rightarrow> 'm scope_event list \<Rightarrow> bool \<times> 'm \<Rightarrow> (bool \<times> 'm) option" where
  "scope_run acquire ways release t [] g = Some g"
| "scope_run acquire ways release t (ev # evs) g = do {
     g \<leftarrow> scope_event_step acquire ways release t ev g;
     scope_run acquire ways release t evs g
   }"

text \<open>
  The codes of its own locking: they report no error, or the thread held the lock \<open>base = 0\<close> times before the
  construction, which rules out the deadlock, and there are not too many readers.
\<close>

definition own_codes :: "'m scope_event list \<Rightarrow> int list" where
  "own_codes evs = concat (map (\<lambda>ev. case ev of Scope_lock rc \<Rightarrow> [rc] | _ \<Rightarrow> []) evs)"

definition code_ok :: "nat \<Rightarrow> int \<Rightarrow> bool" where
  "code_ok base rc \<longleftrightarrow> rc = 0 \<or> base = 0 \<and> rc \<noteq> EAGAIN"

definition codes_ok :: "nat \<Rightarrow> int \<Rightarrow> 'm scope_event list \<Rightarrow> bool" where
  "codes_ok base rc evs \<longleftrightarrow> list_all (code_ok base) (rc # own_codes evs)"

text \<open>
  What a scoped lock relies on: how often each thread holds the lock; locking with code 0 adds one hold of the
  thread and with an error changes nothing; unlocking is possible exactly for a holder and takes one hold away.
\<close>

locale lockable =
  fixes acquire :: "int \<Rightarrow> nat \<Rightarrow> 'm \<Rightarrow> 'm option" and ways :: "(int \<Rightarrow> nat \<Rightarrow> 'm \<Rightarrow> 'm option) list"
    and release :: "nat \<Rightarrow> 'm \<Rightarrow> 'm option" and held :: "'m \<Rightarrow> nat \<Rightarrow> nat"
  assumes acquire_way: "acquire \<in> set ways"
    and way_held: "acq \<in> set ways \<Longrightarrow> acq 0 t m = Some m' \<Longrightarrow> held m' = (held m)(t := held m t + 1)"
    and way_error: "acq \<in> set ways \<Longrightarrow> rc \<noteq> 0 \<Longrightarrow> acq rc t m = Some m' \<Longrightarrow> m' = m \<and> (rc = EAGAIN \<or> 0 < held m t)"
    and release_held: "0 < held m t \<Longrightarrow> \<exists>m'. release t m = Some m' \<and> held m' = (held m)(t := held m t - 1)"
    and release_holder: "release t m = Some m' \<Longrightarrow> 0 < held m t"
begin

text \<open>Locking in any way leaves the holds of the other threads alone.\<close>

lemma way_others:
  assumes "acq \<in> set ways" "acq rc u m = Some m'" "u \<noteq> t" shows "held m' t = held m t"
proof (cases "rc = 0")
  case True
  then show ?thesis using way_held [OF assms(1)] assms(2,3) by simp
next
  case False
  then show ?thesis using way_error [OF assms(1) False assms(2)] by simp
qed

lemma acquire_held:
  assumes "acquire rc t m = Some m'" "code_ok (held m t) rc" shows "held m' t = held m t + 1"
proof (cases "rc = 0")
  case True
  then show ?thesis using way_held [OF acquire_way] assms(1) by simp
next
  case False
  then show ?thesis using way_error [OF acquire_way False assms(1)] assms(2) by (auto simp: code_ok_def)
qed

definition scope_ok :: "nat \<Rightarrow> nat \<Rightarrow> bool \<times> 'm \<Rightarrow> bool" where
  "scope_ok t base g \<longleftrightarrow> held (snd g) t = base + (if fst g then 1 else 0)"

lemma scoped_new_ok: "scoped_new acquire rc t m = Some g \<Longrightarrow> code_ok (held m t) rc \<Longrightarrow> scope_ok t (held m t) g"
  by (auto simp: scoped_new_def scope_ok_def bind_eq_Some_conv dest: acquire_held)

lemma scoped_unlock_total:
  assumes "scope_ok t base g"
  shows "\<exists>m. scoped_unlock release t g = Some (False, m) \<and> held m t = base"
proof (cases "fst g")
  case True
  with assms have "0 < held (snd g) t" "held (snd g) t = base + 1" by (simp_all add: scope_ok_def)
  with release_held [OF this(1)] True show ?thesis by (auto simp: scoped_unlock_def)
next
  case False
  with assms show ?thesis by (cases g) (simp add: scoped_unlock_def scope_ok_def)
qed

lemma scope_event_step_ok:
  assumes ok: "scope_ok t base g" and st: "scope_event_step acquire ways release t ev g = Some g'"
    and code: "list_all (code_ok base) (own_codes [ev])"
  shows "scope_ok t base g'"
proof (cases ev)
  case (Scope_lock rc)
  show ?thesis
  proof (cases "fst g")
    case False
    then obtain m where m: "acquire rc t (snd g) = Some m" "g' = (True, m)" and h: "held (snd g) t = base"
      using st ok Scope_lock by (auto simp: scoped_lock_def bind_eq_Some_conv scope_ok_def)
    have "code_ok (held (snd g) t) rc" using code h by (simp add: Scope_lock own_codes_def)
    from acquire_held [OF m(1) this] h m(2) show ?thesis by (simp add: scope_ok_def)
  qed (use st ok Scope_lock in \<open>simp add: scoped_lock_def\<close>)
next
  case Scope_unlock
  with scoped_unlock_total [OF ok] st show ?thesis by (auto simp: scope_ok_def)
next
  case (Other_acquire i rc u)
  with st obtain m where m: "u \<noteq> t" "i < length ways" "(ways ! i) rc u (snd g) = Some m" "g' = (fst g, m)"
    by (auto simp: bind_eq_Some_conv split: if_splits)
  with ok way_others [OF nth_mem [OF m(2)] m(3,1)] show ?thesis by (simp add: scope_ok_def)
next
  case (Other_release u)
  with st obtain m where m: "u \<noteq> t" "release u (snd g) = Some m" "g' = (fst g, m)"
    by (auto simp: bind_eq_Some_conv split: if_splits)
  from release_held [OF release_holder [OF m(2)]] m(2) have "held m = (held (snd g))(u := held (snd g) u - 1)" by simp
  with ok m(1,3) show ?thesis by (simp add: scope_ok_def)
qed

lemma own_codes_Cons: "own_codes (ev # evs) = own_codes [ev] @ own_codes evs"
  by (simp add: own_codes_def)

lemma scope_run_ok:
  "scope_run acquire ways release t evs g = Some g' \<Longrightarrow> scope_ok t base g \<Longrightarrow> list_all (code_ok base) (own_codes evs) \<Longrightarrow> scope_ok t base g'"
proof (induction evs arbitrary: g)
  case (Cons ev evs)
  then have "list_all (code_ok base) (own_codes [ev])" "list_all (code_ok base) (own_codes evs)"
    by (simp_all add: own_codes_Cons [of ev evs])
  with Cons show ?case by (auto simp: bind_eq_Some_conv dest: scope_event_step_ok)
qed simp

lemma scope_balanced:
  assumes "scoped_new acquire rc t m = Some g" "scope_run acquire ways release t evs g = Some g'" "codes_ok (held m t) rc evs"
  shows "held (snd g') t = held m t + (if fst g' then 1 else 0)"
    and "\<exists>m'. scoped_del release t g' = Some m' \<and> held m' t = held m t"
proof -
  have c: "code_ok (held m t) rc" "list_all (code_ok (held m t)) (own_codes evs)" using assms(3) by (simp_all add: codes_ok_def)
  have ok: "scope_ok t (held m t) g'" using scope_run_ok [OF assms(2) scoped_new_ok [OF assms(1) c(1)] c(2)] .
  then show "held (snd g') t = held m t + (if fst g' then 1 else 0)" by (simp add: scope_ok_def)
  from scoped_unlock_total [OF ok] show "\<exists>m'. scoped_del release t g' = Some m' \<and> held m' t = held m t"
    by (auto simp: scoped_del_def)
qed

text \<open>An error is not seen: the destructor unlocks all the same, and takes away a hold that is not its own.\<close>

lemma scope_after_error:
  assumes "scoped_new acquire rc t m = Some g" "rc \<noteq> 0"
  shows "g = (True, m) \<and> (case scoped_del release t g of None \<Rightarrow> held m t = 0 | Some m' \<Rightarrow> held m' t + 1 = held m t)"
proof -
  obtain m1 where "acquire rc t m = Some m1" "g = (True, m1)" using assms(1) by (auto simp: scoped_new_def bind_eq_Some_conv)
  with way_error [OF acquire_way assms(2)] have g: "g = (True, m)" by simp
  have del: "scoped_del release t g = release t m"
    by (cases "release t m") (simp_all add: g scoped_del_def scoped_unlock_def)
  have "case release t m of None \<Rightarrow> held m t = 0 | Some m' \<Rightarrow> held m' t + 1 = held m t"
    using release_held [of m t] release_holder [of t m] by (cases "release t m") auto
  with g del show ?thesis by simp
qed

end

interpretation mutex: lockable mutex_lock "[mutex_lock]" mutex_unlock lock_held
  by unfold_locales (auto simp: lock_defs mutex_unlock_def lock_held_def fun_eq_iff split: if_splits)

interpretation spin: lockable spin_lock "[spin_lock]" spin_unlock lock_held
  by unfold_locales (auto simp: lock_defs spin_unlock_def lock_held_def fun_eq_iff split: if_splits)

lemma count_list_remove1: "count_list (remove1 x xs) y = count_list xs y - (if x = y then 1 else 0)"
  by (induction xs) (auto simp: count_list_0_iff)

lemma rw_ways_held:
  assumes "acq \<in> set [rdlock, wrlock]" "acq 0 t rw = Some rw'"
  shows "rw_held rw' = (rw_held rw)(t := rw_held rw t + 1)"
proof -
  from assms have "rdlock 0 t rw = Some rw' \<or> wrlock 0 t rw = Some rw'" by auto
  then show ?thesis by (auto simp: lock_defs rw_held_def fun_eq_iff split: if_splits)
qed

lemma rw_ways_error:
  assumes "acq \<in> set [rdlock, wrlock]" "rc \<noteq> 0" "acq rc t rw = Some rw'"
  shows "rw' = rw \<and> (rc = EAGAIN \<or> 0 < rw_held rw t)"
proof -
  from assms have "rdlock rc t rw = Some rw' \<or> wrlock rc t rw = Some rw'" by auto
  then show ?thesis using assms(2)
    by (auto simp: lock_defs rw_held_def count_list_0_iff split: if_splits intro: gr0I)
qed

lemma rw_unlock_held:
  assumes "0 < rw_held rw t"
  shows "\<exists>rw'. rw_unlock t rw = Some rw' \<and> rw_held rw' = (rw_held rw)(t := rw_held rw t - 1)"
proof (cases "rw_writer rw = Some t")
  case True
  then show ?thesis by (auto simp: rw_unlock_def rw_held_def fun_eq_iff)
next
  case False
  with assms have "t \<in> set (rw_readers rw)" by (metis add.left_neutral count_list_0_iff less_irrefl rw_held_def)
  with False show ?thesis by (auto simp: rw_unlock_def rw_held_def fun_eq_iff count_list_remove1)
qed

lemma rw_unlock_holder: "rw_unlock t rw = Some rw' \<Longrightarrow> 0 < rw_held rw t"
  by (auto simp: rw_unlock_def rw_held_def count_list_0_iff split: if_splits intro: gr0I)

interpretation reading: lockable rdlock "[rdlock, wrlock]" rw_unlock rw_held
  by unfold_locales (simp, erule (1) rw_ways_held, erule (2) rw_ways_error, erule rw_unlock_held, erule rw_unlock_holder)

interpretation writing: lockable wrlock "[rdlock, wrlock]" rw_unlock rw_held
  by unfold_locales (simp, erule (1) rw_ways_held, erule (2) rw_ways_error, erule rw_unlock_held, erule rw_unlock_holder)

text \<open>While somebody writes, nobody else holds the lock.\<close>

definition rw_inv :: "rwlock \<Rightarrow> bool" where
  "rw_inv rw \<longleftrightarrow> rw_writer rw = None \<or> rw_readers rw = []"

lemma rw_inv_steps:
  assumes "rw_inv rw"
  shows "rdlock rc t rw = Some rw' \<Longrightarrow> rw_inv rw'" "wrlock rc t rw = Some rw' \<Longrightarrow> rw_inv rw'" "rw_unlock t rw = Some rw' \<Longrightarrow> rw_inv rw'"
  using assms by (auto simp: rw_inv_def lock_defs rw_unlock_def split: if_splits)

subsection \<open>Property\<close>

text \<open>
  C38. A scoped lock of a mutex or of either mode of a read-write lock is balanced as long as the pthread functions report
  no error to it: after any calls of its \<open>lock\<close> and \<open>unlock\<close> that return, with any locking and unlocking by other
  threads in between, its thread holds the lock once more than before its construction if \<open>m_locked\<close> is true
  and as often otherwise, and the destructor always returns and leaves the thread as many holds as before.
  When the thread did not hold the lock before, no error but \<open>EAGAIN\<close> has to be excluded. An error in
  the constructor of a scoped lock for reading or writing, which the program discards, breaks the balance: \<open>m_locked\<close> is true
  without a hold, and the destructor either takes away a hold that an outer scope of the same thread
  has, or unlocks what the thread does not hold, which is undefined.
\<close>

theorem scoped_locks_balanced:
  assumes "scoped_new mutex_lock rc1 t m = Some g" "scope_run mutex_lock [mutex_lock] mutex_unlock t evs g = Some g'"
    and "codes_ok (lock_held m t) rc1 evs"
    and "read_scoped_new rc2 t r = Some h" "scope_run rdlock [rdlock, wrlock] rw_unlock t evs' h = Some h'"
    and "codes_ok (rw_held r t) rc2 evs'"
    and "write_scoped_new rc3 t w = Some k" "scope_run wrlock [rdlock, wrlock] rw_unlock t evs'' k = Some k'"
    and "codes_ok (rw_held w t) rc3 evs''"
  shows "lock_held (snd g') t = lock_held m t + (if fst g' then 1 else 0)
    \<and> (\<exists>m'. scoped_del mutex_unlock t g' = Some m' \<and> lock_held m' t = lock_held m t)
    \<and> rw_held (snd h') t = rw_held r t + (if fst h' then 1 else 0)
    \<and> (\<exists>r'. scoped_del rw_unlock t h' = Some r' \<and> rw_held r' t = rw_held r t)
    \<and> rw_held (snd k') t = rw_held w t + (if fst k' then 1 else 0)
    \<and> (\<exists>w'. scoped_del rw_unlock t k' = Some w' \<and> rw_held w' t = rw_held w t)
    \<and> (\<forall>rc b e. rc \<noteq> 0 \<and> (read_scoped_new rc t b = Some e \<or> write_scoped_new rc t b = Some e) \<longrightarrow> e = (True, b)
          \<and> (case scoped_del rw_unlock t e of None \<Rightarrow> rw_held b t = 0 | Some b' \<Rightarrow> rw_held b' t + 1 = rw_held b t))"
proof -
  have "e = (True, b) \<and> (case scoped_del rw_unlock t e of None \<Rightarrow> rw_held b t = 0 | Some b' \<Rightarrow> rw_held b' t + 1 = rw_held b t)"
    if "rc \<noteq> 0" "read_scoped_new rc t b = Some e \<or> write_scoped_new rc t b = Some e" for rc b e
    using that(2)
  proof
    assume "read_scoped_new rc t b = Some e"
    then show ?thesis unfolding rw_scoped by (rule reading.scope_after_error [OF _ that(1)])
  next
    assume "write_scoped_new rc t b = Some e"
    then show ?thesis unfolding rw_scoped by (rule writing.scope_after_error [OF _ that(1)])
  qed
  then show ?thesis
    using mutex.scope_balanced [OF assms(1-3)] reading.scope_balanced [OF assms(4)[unfolded rw_scoped] assms(5,6)]
      writing.scope_balanced [OF assms(7)[unfolded rw_scoped] assms(8,9)]
    by blast
qed

text \<open>The error: while it holds the lock for writing, thread 1 locks for reading.\<close>

theorem scoped_locks_balanced_witness:
  "(\<exists>m'. scoped_del mutex_unlock 1 (True, Some 1) = Some m' \<and> lock_held m' 1 = lock_held mutex_new 1)
    \<and> (\<exists>r'. scoped_del rw_unlock 1 (True, \<lparr>rw_writer = None, rw_readers = [1, 2]\<rparr>) = Some r' \<and> rw_held r' 1 = rw_held rw_new 1)
    \<and> (\<exists>w'. scoped_del rw_unlock 1 (False, rw_new) = Some w' \<and> rw_held w' 1 = rw_held rw_new 1)
    \<and> (case scoped_del rw_unlock 1 (True, \<lparr>rw_writer = Some 1, rw_readers = []\<rparr>) of None \<Rightarrow> False | Some b' \<Rightarrow> rw_held b' 1 = 0)"
proof -
  let ?evs = "[Scope_lock EDEADLK, Scope_unlock, Other_acquire 0 0 2, Other_release 2, Scope_lock 0] :: lock scope_event list"
  let ?revs = "[Other_acquire 0 0 2, Other_acquire 0 EAGAIN 3, Scope_unlock, Scope_lock 0] :: rwlock scope_event list"
  let ?w = "\<lparr>rw_writer = Some 1, rw_readers = []\<rparr>"
  note defs = scoped_new_def scoped_lock_def scoped_unlock_def lock_defs mutex_unlock_def mutex_new_def
    read_scoped_new_def write_scoped_new_def rw_unlock_def rw_new_def nth_opt_def codes_ok_def code_ok_def own_codes_def
    lock_held_def rw_held_def
  have m: "scoped_new mutex_lock 0 1 mutex_new = Some (True, Some 1)" "codes_ok (lock_held mutex_new 1) 0 ?evs"
    "scope_run mutex_lock [mutex_lock] mutex_unlock 1 ?evs (True, Some 1) = Some (True, Some 1)" by (simp_all add: defs)
  have r: "read_scoped_new 0 1 rw_new = Some (True, \<lparr>rw_writer = None, rw_readers = [1]\<rparr>)" "codes_ok (rw_held rw_new 1) 0 ?revs"
    "scope_run rdlock [rdlock, wrlock] rw_unlock 1 ?revs (True, \<lparr>rw_writer = None, rw_readers = [1]\<rparr>)
       = Some (True, \<lparr>rw_writer = None, rw_readers = [1, 2]\<rparr>)" by (simp_all add: defs)
  have w: "write_scoped_new 0 1 rw_new = Some (True, ?w)" "codes_ok (rw_held rw_new 1) 0 [Scope_unlock]"
    "scope_run wrlock [rdlock, wrlock] rw_unlock 1 [Scope_unlock] (True, ?w) = Some (False, rw_new)" by (simp_all add: defs)
  have e: "read_scoped_new EDEADLK 1 ?w = Some (True, ?w)" "EDEADLK \<noteq> 0" "rw_held ?w 1 = 1" by (simp_all add: defs)
  note run = scoped_locks_balanced [OF m(1,3,2) r(1,3,2) w(1,3,2)]
  from run e(1,2) have "case scoped_del rw_unlock 1 (True, ?w) of None \<Rightarrow> rw_held ?w 1 = 0 | Some b' \<Rightarrow> rw_held b' 1 + 1 = rw_held ?w 1"
    by blast
  then have "case scoped_del rw_unlock 1 (True, ?w) of None \<Rightarrow> False | Some b' \<Rightarrow> rw_held b' 1 = 0"
    unfolding e(3) by (simp split: option.splits)
  with run show ?thesis by blast
qed

end
