(* ===== verification/Threads.thy ===== *)
theory Threads
  imports Locks
begin

text \<open>
  The class \<open>Thread\<close> (\<open>src/thread.h\<close>, \<open>src/thread.cc\<close>) and \<open>Semaphore\<close> (\<open>src/mutex.h\<close>, \<open>src/mutex.cc\<close>): the
  constructor starts a thread and waits until the new thread has taken what it needs out of the object.
  The constructor and the new thread are interleaved; \<open>'f\<close> is the type of the callables.
\<close>

subsection \<open>\<open>Semaphore\<close>\<close>

text \<open>The counter of a POSIX semaphore; a failing call makes the wrapper throw.\<close>

datatype sem_result = Sem_blocked | Sem_threw | Sem_ok nat

definition semaphore_new :: "bool \<Rightarrow> nat \<Rightarrow> sem_result" where
  "semaphore_new sem_init_fails count = (if sem_init_fails then Sem_threw else Sem_ok count)"

text \<open>\<open>sem_wait\<close> fails when a signal handler interrupts it.\<close>

definition semaphore_wait :: "bool \<Rightarrow> nat \<Rightarrow> sem_result" where
  "semaphore_wait interrupted count =
     (if interrupted then Sem_threw else if count = 0 then Sem_blocked else Sem_ok (count - 1))"

text \<open>\<open>sem_post\<close> fails at the greatest value.\<close>

definition semaphore_notify :: "nat \<Rightarrow> sem_result" where
  "semaphore_notify count = (if count = 2 ^ 31 - 1 then Sem_threw else Sem_ok (count + 1))"

subsection \<open>\<open>Thread\<close>\<close>

text \<open>The members; \<open>m_cb\<close> is \<open>None\<close> when it is empty.\<close>

record 'f thread_obj =
  th_pid :: int
  th_thread :: nat
  th_cb :: "'f option"
  th_name :: string
  th_semaphore :: nat

text \<open>The thread-local variables: whether \<open>t_thread\<close> points to the object, and \<open>t_thread_name\<close>.\<close>

record thread_locals =
  tl_thread :: bool
  tl_name :: string

definition locals_new :: thread_locals where
  "locals_new = \<lparr>tl_thread = False, tl_name = ''UNKNOW''\<rparr>"

text \<open>The members before the constructor's call of \<open>pthread_create\<close>.\<close>

definition thread_obj_new :: "'f option \<Rightarrow> string \<Rightarrow> 'f thread_obj" where
  "thread_obj_new cb name =
     \<lparr>th_pid = - 1, th_thread = 0, th_cb = cb, th_name = (if name = [] then ''UNKNOW'' else name), th_semaphore = 0\<rparr>"

datatype ctor_pc = Ctor_create | Ctor_wait | Ctor_returned | Ctor_threw

datatype 'f run_pc =
    Run_not_started
  | Run_locals
  | Run_pid
  | Run_setname
  | Run_swap
  | Run_notify "'f option"
  | Run_call "'f option"
  | Run_returned
  | Run_terminated

text \<open>The state: the object, both program counters, the new thread's variables, its name in the kernel, its calls.\<close>

record 'f thread_state =
  ts_obj :: "'f thread_obj"
  ts_ctor :: ctor_pc
  ts_run :: "'f run_pc"
  ts_locals :: thread_locals
  ts_kernel_name :: string
  ts_calls :: "'f list"

definition thread_new :: "'f option \<Rightarrow> string \<Rightarrow> 'f thread_state" where
  "thread_new cb name =
     \<lparr>ts_obj = thread_obj_new cb name, ts_ctor = Ctor_create, ts_run = Run_not_started, ts_locals = locals_new,
      ts_kernel_name = [], ts_calls = []\<rparr>"

text \<open>A step of the constructor: the result and the identifier of \<open>pthread_create\<close>, and whether \<open>sem_wait\<close> is interrupted.\<close>

definition ctor_step :: "int \<Rightarrow> nat \<Rightarrow> bool \<Rightarrow> 'f thread_state \<Rightarrow> 'f thread_state option" where
  "ctor_step rt thread interrupted s =
     (case ts_ctor s of
        Ctor_create \<Rightarrow>
          if rt \<noteq> 0 then Some (s\<lparr>ts_ctor := Ctor_threw\<rparr>)
          else Some (s\<lparr>ts_obj := (ts_obj s)\<lparr>th_thread := thread\<rparr>, ts_ctor := Ctor_wait, ts_run := Run_locals\<rparr>)
      | Ctor_wait \<Rightarrow>
          (case semaphore_wait interrupted (th_semaphore (ts_obj s)) of
             Sem_blocked \<Rightarrow> None
           | Sem_threw \<Rightarrow> Some (s\<lparr>ts_ctor := Ctor_threw\<rparr>)
           | Sem_ok n \<Rightarrow> Some (s\<lparr>ts_obj := (ts_obj s)\<lparr>th_semaphore := n\<rparr>, ts_ctor := Ctor_returned\<rparr>))
      | _ \<Rightarrow> None)"

text \<open>
  A step of \<open>Thread::run\<close> in the new thread, whose kernel identifier is \<open>tid\<close>. An exception ends the program,
  and so does the call of an empty function.
\<close>

definition run_step :: "int \<Rightarrow> 'f thread_state \<Rightarrow> 'f thread_state option" where
  "run_step tid s =
     (case ts_run s of
        Run_not_started \<Rightarrow> None
      | Run_locals \<Rightarrow> Some (s\<lparr>ts_locals := \<lparr>tl_thread = True, tl_name = th_name (ts_obj s)\<rparr>, ts_run := Run_pid\<rparr>)
      | Run_pid \<Rightarrow> Some (s\<lparr>ts_obj := (ts_obj s)\<lparr>th_pid := tid\<rparr>, ts_run := Run_setname\<rparr>)
      | Run_setname \<Rightarrow> Some (s\<lparr>ts_kernel_name := take 15 (th_name (ts_obj s)), ts_run := Run_swap\<rparr>)
      | Run_swap \<Rightarrow> Some (s\<lparr>ts_obj := (ts_obj s)\<lparr>th_cb := None\<rparr>, ts_run := Run_notify (th_cb (ts_obj s))\<rparr>)
      | Run_notify cb \<Rightarrow>
          (case semaphore_notify (th_semaphore (ts_obj s)) of
             Sem_ok n \<Rightarrow> Some (s\<lparr>ts_obj := (ts_obj s)\<lparr>th_semaphore := n\<rparr>, ts_run := Run_call cb\<rparr>)
           | _ \<Rightarrow> Some (s\<lparr>ts_run := Run_terminated\<rparr>))
      | Run_call cb \<Rightarrow>
          (case cb of
             None \<Rightarrow> Some (s\<lparr>ts_run := Run_terminated\<rparr>)
           | Some f \<Rightarrow> Some (s\<lparr>ts_calls := ts_calls s @ [f], ts_run := Run_returned\<rparr>))
      | Run_returned \<Rightarrow> None
      | Run_terminated \<Rightarrow> None)"

text \<open>The steps of \<open>run\<close> that read or write members of the object.\<close>

fun touches_object :: "'f run_pc \<Rightarrow> bool" where
  "touches_object (Run_call _) = False"
| "touches_object Run_returned = False"
| "touches_object Run_terminated = False"
| "touches_object Run_not_started = False"
| "touches_object _ = True"

subsection \<open>Other members\<close>

text \<open>\<open>pthread_join\<close> returns some code, which is only logged.\<close>

definition thread_join :: "'f thread_obj \<Rightarrow> 'f thread_obj" where
  "thread_join obj = (if th_thread obj \<noteq> 0 then obj\<lparr>th_thread := 0\<rparr> else obj)"

text \<open>Whether the destructor detaches the thread.\<close>

definition thread_del :: "'f thread_obj \<Rightarrow> bool" where
  "thread_del obj = (th_thread obj \<noteq> 0)"

text \<open>\<open>set_name\<close> of the calling thread, and \<open>get_this\<close>, \<open>get_name\<close>.\<close>

definition set_name :: "string \<Rightarrow> thread_locals \<Rightarrow> 'f thread_obj \<Rightarrow> thread_locals \<times> 'f thread_obj" where
  "set_name name locals obj = (locals\<lparr>tl_name := name\<rparr>, if tl_thread locals then obj\<lparr>th_name := name\<rparr> else obj)"

subsection \<open>Runs\<close>

text \<open>A run; the flag tells whether \<open>sem_wait\<close> was ever interrupted.\<close>

inductive thread_run :: "'f option \<Rightarrow> string \<Rightarrow> int \<Rightarrow> 'f thread_state \<Rightarrow> bool \<Rightarrow> bool" for cb name tid where
  thread_start: "thread_run cb name tid (thread_new cb name) False"
| thread_ctor: "thread_run cb name tid s i \<Longrightarrow> ctor_step rt thread intr s = Some s' \<Longrightarrow> thread_run cb name tid s' (i \<or> intr)"
| thread_child: "thread_run cb name tid s i \<Longrightarrow> run_step tid s = Some s' \<Longrightarrow> thread_run cb name tid s' i"

fun child_progress :: "'f run_pc \<Rightarrow> nat" where
  "child_progress Run_not_started = 0"
| "child_progress Run_locals = 1"
| "child_progress Run_pid = 2"
| "child_progress Run_setname = 3"
| "child_progress Run_swap = 4"
| "child_progress (Run_notify _) = 5"
| "child_progress (Run_call _) = 6"
| "child_progress Run_returned = 7"
| "child_progress Run_terminated = 7"

definition given_name :: "string \<Rightarrow> string" where
  "given_name name = (if name = [] then ''UNKNOW'' else name)"

text \<open>How far the constructor and the new thread are, and what the new thread has done.\<close>

definition thread_sync :: "'f thread_state \<Rightarrow> bool \<Rightarrow> bool" where
  "thread_sync s i \<longleftrightarrow>
     (ts_ctor s = Ctor_create \<longrightarrow> ts_run s = Run_not_started)
     \<and> (ts_run s = Run_not_started \<longrightarrow> ts_ctor s = Ctor_create \<or> ts_ctor s = Ctor_threw)
     \<and> (ts_ctor s = Ctor_returned \<longrightarrow> 6 \<le> child_progress (ts_run s))
     \<and> th_semaphore (ts_obj s) = (if 6 \<le> child_progress (ts_run s) \<and> ts_ctor s \<noteq> Ctor_returned then 1 else 0)
     \<and> (ts_ctor s = Ctor_threw \<longrightarrow> i \<or> ts_run s = Run_not_started)"

definition thread_data :: "'f option \<Rightarrow> string \<Rightarrow> int \<Rightarrow> 'f thread_state \<Rightarrow> bool" where
  "thread_data cb name tid s \<longleftrightarrow>
     th_name (ts_obj s) = given_name name
     \<and> (2 \<le> child_progress (ts_run s) \<longrightarrow> ts_locals s = \<lparr>tl_thread = True, tl_name = given_name name\<rparr>)
     \<and> (3 \<le> child_progress (ts_run s) \<longrightarrow> th_pid (ts_obj s) = tid)
     \<and> (4 \<le> child_progress (ts_run s) \<longrightarrow> ts_kernel_name s = take 15 (given_name name))
     \<and> th_cb (ts_obj s) = (if 5 \<le> child_progress (ts_run s) then None else cb)"

definition thread_calls :: "'f option \<Rightarrow> 'f thread_state \<Rightarrow> bool" where
  "thread_calls cb s \<longleftrightarrow>
     (\<forall>c. ts_run s = Run_notify c \<or> ts_run s = Run_call c \<longrightarrow> c = cb)
     \<and> (ts_run s = Run_terminated \<longrightarrow> cb = None) \<and> (ts_run s = Run_returned \<longrightarrow> cb \<noteq> None)
     \<and> ts_calls s = (if ts_run s = Run_returned then [the cb] else [])"

lemma ctor_step_inv:
  assumes "ctor_step rt thread intr s = Some s'"
  shows "thread_sync s i \<Longrightarrow> thread_sync s' (i \<or> intr)"
    and "thread_sync s i \<Longrightarrow> thread_data cb name tid s \<Longrightarrow> thread_data cb name tid s'"
    and "thread_sync s i \<Longrightarrow> thread_calls cb s \<Longrightarrow> thread_calls cb s'"
  using assms
  by (cases "ts_ctor s"; auto simp: thread_sync_def thread_data_def thread_calls_def ctor_step_def semaphore_wait_def split: if_splits)+

lemma run_step_sync:
  assumes "run_step tid s = Some s'" "thread_sync s i"
  shows "thread_sync s' i"
  using assms
  by (cases "ts_run s"; auto simp: thread_sync_def run_step_def semaphore_notify_def split: option.splits)

lemma run_step_data:
  assumes "run_step tid s = Some s'" "thread_sync s i" "thread_data cb name tid s"
  shows "thread_data cb name tid s'"
  using assms
  by (cases "ts_run s") (auto simp: thread_sync_def thread_data_def run_step_def semaphore_notify_def split: option.splits)

lemma run_step_calls:
  assumes "run_step tid s = Some s'" "thread_sync s i" "thread_data cb name tid s" "thread_calls cb s"
  shows "thread_calls cb s'"
  using assms
  by (cases "ts_run s") (auto simp: thread_sync_def thread_data_def thread_calls_def run_step_def semaphore_notify_def split: option.splits)

lemma thread_run_inv: "thread_run cb name tid s i \<Longrightarrow> thread_sync s i \<and> thread_data cb name tid s \<and> thread_calls cb s"
proof (induction rule: thread_run.induct)
  case thread_start
  show ?case by (auto simp: thread_sync_def thread_data_def thread_calls_def thread_new_def thread_obj_new_def given_name_def)
qed (blast intro: ctor_step_inv run_step_sync run_step_data run_step_calls)+

text \<open>
  An interrupted wait makes the constructor throw while the new thread still uses the object, which the
  exception has destroyed.
\<close>

lemma thread_wait_interrupted:
  "\<exists>s. thread_run cb name tid s True \<and> ts_ctor s = Ctor_threw \<and> touches_object (ts_run s)"
proof -
  let ?s0 = "thread_new cb name"
  let ?s1 = "?s0\<lparr>ts_obj := (ts_obj ?s0)\<lparr>th_thread := 1\<rparr>, ts_ctor := Ctor_wait, ts_run := Run_locals\<rparr>"
  have "ctor_step 0 1 False ?s0 = Some ?s1" by (simp add: ctor_step_def thread_new_def)
  from thread_ctor [OF thread_start this] have 1: "thread_run cb name tid ?s1 False" by simp
  have "ctor_step 0 1 True ?s1 = Some (?s1\<lparr>ts_ctor := Ctor_threw\<rparr>)" by (simp add: ctor_step_def semaphore_wait_def)
  from thread_ctor [OF 1 this] show ?thesis by (intro exI [of _ "?s1\<lparr>ts_ctor := Ctor_threw\<rparr>"]) simp
qed

text \<open>
  C39. When the constructor of a thread has returned, the new thread has entered its identifier and its name,
has taken the callable out of the object, and never touches the object again; it calls the callable once.
While the constructor waits, the new thread or, once it has notified, the constructor can move, so an
uninterrupted wait cannot hang; and without an interrupted wait the constructor throws only when no
thread was started.\<close>

theorem thread_constructor_handshake:
  assumes "thread_run cb name tid s i"
  shows "case ts_ctor s of
      Ctor_returned \<Rightarrow> \<not> touches_object (ts_run s) \<and> th_pid (ts_obj s) = tid \<and> th_cb (ts_obj s) = None
        \<and> th_name (ts_obj s) = (if name = [] then ''UNKNOW'' else name)
        \<and> ts_locals s = \<lparr>tl_thread = True, tl_name = th_name (ts_obj s)\<rparr> \<and> ts_kernel_name s = take 15 (th_name (ts_obj s))
        \<and> ts_calls s = (if ts_run s = Run_returned then [the cb] else [])
    | Ctor_wait \<Rightarrow> run_step tid s \<noteq> None \<or> ctor_step 0 0 False s \<noteq> None
    | Ctor_create \<Rightarrow> ts_run s = Run_not_started
    | Ctor_threw \<Rightarrow> i \<or> ts_run s = Run_not_started"
proof (cases "ts_ctor s")
  case Ctor_returned
  have inv: "thread_sync s i" "thread_data cb name tid s" "thread_calls cb s" using thread_run_inv [OF assms] by auto
  from inv(1) Ctor_returned have p: "6 \<le> child_progress (ts_run s)" by (simp add: thread_sync_def)
  then have "\<not> touches_object (ts_run s)" by (cases "ts_run s") auto
  with inv p Ctor_returned show ?thesis by (simp add: thread_data_def thread_calls_def given_name_def)
next
  case Ctor_wait
  with thread_run_inv [OF assms] show ?thesis
    by (cases "ts_run s") (auto simp: thread_sync_def run_step_def ctor_step_def semaphore_notify_def semaphore_wait_def split: option.splits)
qed (use thread_run_inv [OF assms] in \<open>auto simp: thread_sync_def\<close>)

text \<open>A constructor that has returned, by the time the callable runs.\<close>

fun run_steps :: "nat \<Rightarrow> int \<Rightarrow> 'f thread_state \<Rightarrow> 'f thread_state option" where
  "run_steps 0 tid s = Some s"
| "run_steps (Suc k) tid s = do { s \<leftarrow> run_step tid s; run_steps k tid s }"

lemma run_steps_run: "thread_run cb name tid s i \<Longrightarrow> run_steps k tid s = Some s' \<Longrightarrow> thread_run cb name tid s' i"
  by (induction k arbitrary: s) (auto simp: bind_eq_Some_conv intro: thread_child)

definition demo_thread :: "nat thread_state" where
  "demo_thread = \<lparr>ts_obj = \<lparr>th_pid = 99, th_thread = 5, th_cb = None, th_name = ''recv'', th_semaphore = 0\<rparr>,
     ts_ctor = Ctor_returned, ts_run = Run_returned, ts_locals = \<lparr>tl_thread = True, tl_name = ''recv''\<rparr>,
     ts_kernel_name = ''recv'', ts_calls = [3]\<rparr>"

lemma demo_thread_run: "thread_run (Some 3) ''recv'' 99 demo_thread False"
proof -
  have "\<exists>s1 s2 s3. ctor_step 0 5 False (thread_new (Some 3) ''recv'') = Some s1 \<and> run_steps (Suc (Suc (Suc (Suc (Suc 0))))) 99 s1 = Some s2
      \<and> ctor_step 0 0 False s2 = Some s3 \<and> run_steps (Suc 0) 99 s3 = Some demo_thread"
    by (simp add: ctor_step_def run_step_def thread_new_def thread_obj_new_def semaphore_notify_def semaphore_wait_def
        demo_thread_def locals_new_def)
  then obtain s1 s2 s3 where s: "ctor_step 0 5 False (thread_new (Some 3) ''recv'') = Some s1" "run_steps (Suc (Suc (Suc (Suc (Suc 0))))) 99 s1 = Some s2"
    "ctor_step 0 0 False s2 = Some s3" "run_steps (Suc 0) 99 s3 = Some demo_thread" by blast
  have "thread_run (Some 3) ''recv'' 99 s1 False" using thread_ctor [OF thread_start s(1)] by simp
  from thread_ctor [OF run_steps_run [OF this s(2)] s(3)] have "thread_run (Some 3) ''recv'' 99 s3 False" by simp
  from run_steps_run [OF this s(4)] show ?thesis .
qed

theorem thread_constructor_handshake_witness:
  "\<not> touches_object (ts_run demo_thread) \<and> th_pid (ts_obj demo_thread) = 99 \<and> ts_calls demo_thread = [3]"
  using thread_constructor_handshake [OF demo_thread_run] by (simp add: demo_thread_def)

end
