(* ===== verification/Spec2Isabelle.thy ===== *)
theory Spec2Isabelle
  imports TimerPost TimerThread Boot RingQueueWeak PoolConc ConfigVars LogYaml SysPlat PcapDev PktPrint Threads
begin

text \<open>
  A verification development of \<open>tinytcp\<close>, a small user-level TCP/IP stack in C++.

  \<^bold>\<open>The program.\<close> A network interface (\<open>src/net/netif.cc\<close>) keeps a queue of received and a queue of outgoing
  packets. For an Ethernet interface two threads (\<open>src/net/network.cc\<close>) move frames between the device, which
  pcap opens, and these queues; the loopback interface moves its output to its own input. A queued packet
  posts a message to the protocol stack (\<open>src/net/net.cc\<close>), whose working thread takes the packets out of the
  interface and passes them to the link layer, and whose timer thread posts the callbacks of expired timers
  (\<open>src/timer.cc\<close>). Packets (\<open>src/net/pktbuf.cc\<close>) are lists of blocks from a pool; pools (\<open>src/net/memblock.cc\<close>)
  and queues are lock-free ring buffers (\<open>src/lock_free_ring_queue.h\<close>). Logging (\<open>src/log.cc\<close>) and
  configuration (\<open>src/config.cc\<close>) are used by all parts; the configuration of the loggers is a configuration
  variable with a listener.

  \<^bold>\<open>How code becomes a model.\<close> Objects live on explicit heaps, maps from addresses to records with the
  members of the class; the null pointer is address 0. Machine integers are words of their width. A function
  that changes state takes and returns it. \<open>None\<close> is an execution that has undefined behaviour, fails an
  assertion, throws where nobody catches, or never returns; error codes and null pointers that the code
  returns are values. Loops that may not end are \<^theory_text>\<open>partial_function\<close>s, so that a theorem with \<open>Some\<close> also says that
  the loop ends; there is no fuel anywhere in the models (the one in theory Yaml belongs to an example
  instance of a library). The standard containers are lists in iteration order with the operations the
  sources use. Locks make a call atomic; where the order of single accesses matters the model has the
  steps of the threads (RingQueueConc, RingQueueWeak, TimerThread, SysSem, Threads).

  \<^bold>\<open>The theories.\<close>
  \<^item> Prelude: types, checked access to arrays, words as naturals. StdSet: \<open>std::set\<close> with a comparator and
    \<open>std::map\<close>, with the contract \<open>keyed_order\<close>.
  \<^item> RingQueue (\<open>LockFreeRingQueue\<close>, one call at a time): push and pop refine a bounded FIFO list for any number of
    operations, across the wrap-around of the 32-bit indices; the constructor's rounding. The contract
    \<open>bounded_fifo\<close> carries these facts to all users of the queue. RingQueueConc: the same two
    operations as sequences of atomic accesses of any number of threads, with spurious failures of the weak
    exchange; correct for one producer and one consumer, not for two producers. Memory is sequentially
    consistent there. WeakMemory and RingQueueWeak: the same steps over the memory of C++ with its orders, where a load
    may return an old value and unordered accesses to a slot are a data race. With the relaxed loads of the source every
    pop of what another thread has pushed races; where all loads acquire, as on x86, the queue is correct for one
    producer and one consumer. Every
    step of RingQueueConc is one of RingQueueWeak (\<open>interleaved_step_is_weak\<close>).
  \<^item> MemPool (\<open>MemBlock\<close>), another \<open>bounded_fifo\<close>; PoolConc (the pool between threads: safe with one allocating and
    one freeing thread, but any two freeing threads can make any pool of at least three blocks hand a block out twice); NetErr (\<open>net_err_t\<close>).
  \<^item> PktStore (\<open>PktBlock\<close>, \<open>PktBuffer\<close>, \<open>PktManager\<close>: data, pools, construction), PktBuf (the functions that change the
    shape of a packet) and PktAccess (those that move, read and write). A packet is abstracted to its bytes
    \<open>pkt_bytes\<close>; \<open>pkt_inv\<close> ties its block list to the pools, so that no block is ever shared or lost; each function is
    described by what it does to the bytes, to the free blocks and to every other packet.
  \<^item> Endian, IpAddr, LinkLayer: byte order, addresses, headers of Ethernet and ARP.
  \<^item> ProtoStack (messages and their pool), NetIf (interfaces, Ethernet and ARP), NetFrames (the bytes of the
    frames), Loopback, PacketLists (lists of packets with one store), Network (the registry of interfaces
    and rounds of the device threads), NetCore and NetDrain (the protocol stack, and the loops that empty
    a queue, proved once in the locale \<open>drain_loop\<close> for both directions), Wire (received and sent frames), Reception
    (the receive thread and the working thread together: every accepted frame costs a packet for good),
    Transmission (requests and the send thread together: what a packet and the pool hold between them never
    changes, so sending can go on for ever), NetLife
    (the default interface over all sequences of operations), Boot (the constructors with the default sizes
    end in a state from which the theorems of Transmission and Reception start, so they hold of the program as it
    comes up). PktPrint: the text forms for debugging, stack traces, assertion texts.
  \<^item> PcapDev: how the device of an interface is found and set up with pcap (\<open>plat/sys_plat.cc\<close>). SysSem: the semaphore
    of the platform layer, as interleaved steps of any number of threads (exclusion, no lost wake-up, and the
    wait that succeeds without a unit), and its clock. SysPlat: the variants for Windows and x86-os and the rest
    of the layer.
  \<^item> Locks (\<open>src/mutex.h\<close>): the locks and the scoped locks, whose balance is proved once in the locale \<open>lockable\<close> and
    holds for all of them as long as pthread reports no error; an error, which the code discards, breaks it. Threads (\<open>src/thread.h\<close>): what has happened when the constructor of a thread returns.
  \<^item> Timer, TimerRuns (the timer manager over runs of operations), TimerPost (from the expiry of a timer to its
    callback on the working thread), TimerThread (the timer thread with its wait, interleaved with the threads that
    use the timers: the source waits on the wrong descriptor, so no wait ever lasts, the thread spins, and for this reason no
    due timer waits for longer than a round).
  \<^item> LogFormat (levels, events, the pattern parser, which inverts the rendering of patterns), Logger (appenders,
    loggers, the manager; what any log call writes, and when an event without a logger is undefined behaviour), Yaml (yaml-cpp as a parameter), Casts (\<open>LexicalCast\<close> for
    containers), ConfigVars (variables, listeners, the registry, loading), LogConfig (the definitions of
    loggers and the listener that applies them), LogYaml (the loggers as text, which reads as the definitions that
    describe them).

  \<^bold>\<open>Parameters.\<close> The byte order of the machine, the base addresses of arrays, what uninitialised memory holds,
  the time, callbacks, what pcap answers and delivers, the calls of
  Windows and x86-os, the frames of the stack, whether a file can be opened,
  \<open>strftime\<close>, yaml-cpp and the casts of element types (\<open>boost::lexical_cast\<close>), the iteration order of the unordered
  containers, the codes that pthread functions return, the listeners of configuration variables (which may return, throw or
  not come back). Expectations on them are hypotheses of the theorems (\<open>yaml_ok\<close>, \<open>elem_ok\<close>, \<open>tree_depth\<close>) and
  hold for the instances in the witnesses.

  \<^bold>\<open>Not modelled.\<close> \<open>src/magic_enum.h\<close> is a vendored library. The tests and \<open>app\<close> only call the program. pcap itself
  is I/O: the models have the rounds of the device threads and the bytes that pass. Diagnostics (log messages
  inside the other parts, messages to the console) do not influence the state they report on. Of
  \<open>plat/sys_plat.cc\<close>, \<open>sys_thread_self\<close> and \<open>sys_thread_del_self\<close> are left out, which only pass one call on.
  Singletons and the tag classes have no behaviour of their own. The packet functions run one call at a time: of the
  program's data only the queue, the pools, the timers and the locks are modelled under interleaving.
\<close>

end
